(* ===== verification/Prelude.thy ===== *)
theory Prelude
  imports Main "HOL-Library.Word" "HOL-Library.Monad_Syntax"
begin

text \<open>
  Shared vocabulary of the development: the Rust machine integers as machine words with
  the checked operations of the standard library, the result monad, and the generic facts
  on words, options and lists that the component theories build on.
\<close>

section \<open>Collections of facts\<close>

named_theorems checked_unat \<open>checked operations read on natural numbers\<close>
named_theorems result_simps \<open>inversion rules of the result monad\<close>

section \<open>Machine integers\<close>

type_synonym u8 = "8 word"
type_synonym u16 = "16 word"
type_synonym u32 = "32 word"
type_synonym u64 = "64 word"
type_synonym u128 = "128 word"
type_synonym i128 = "128 word"
type_synonym usize = "64 word"

text \<open>
  The checked operations of the Rust integers (and of the fixed-width integers built by
  \<open>construct_uint!\<close>): \<^const>\<open>None\<close> when the exact result does not fit the width.
\<close>

definition checked_add :: "'a::len word \<Rightarrow> 'a word \<Rightarrow> 'a word option" where
  "checked_add a b = (if unat a + unat b < 2 ^ LENGTH('a) then Some (a + b) else None)"

definition checked_sub :: "'a::len word \<Rightarrow> 'a word \<Rightarrow> 'a word option" where
  "checked_sub a b = (if b \<le> a then Some (a - b) else None)"

definition checked_mul :: "'a::len word \<Rightarrow> 'a word \<Rightarrow> 'a word option" where
  "checked_mul a b = (if unat a * unat b < 2 ^ LENGTH('a) then Some (a * b) else None)"

definition checked_div :: "'a::len word \<Rightarrow> 'a word \<Rightarrow> 'a word option" where
  "checked_div a b = (if b = 0 then None else Some (a div b))"

definition checked_rem :: "'a::len word \<Rightarrow> 'a word \<Rightarrow> 'a word option" where
  "checked_rem a b = (if b = 0 then None else Some (a mod b))"

definition checked_pow :: "'a::len word \<Rightarrow> nat \<Rightarrow> 'a word option" where
  "checked_pow a n = (if unat a ^ n < 2 ^ LENGTH('a) then Some (a ^ n) else None)"

definition saturating_sub :: "'a::len word \<Rightarrow> 'a word \<Rightarrow> 'a word" where
  "saturating_sub a b = (if b \<le> a then a - b else 0)"

definition saturating_add :: "'a::len word \<Rightarrow> 'a word \<Rightarrow> 'a word" where
  "saturating_add a b = (if unat a + unat b < 2 ^ LENGTH('a) then a + b else - 1)"

definition overflowing_add :: "'a::len word \<Rightarrow> 'a word \<Rightarrow> 'a word \<times> bool" where
  "overflowing_add a b = (a + b, 2 ^ LENGTH('a) \<le> unat a + unat b)"

lemma unat_lt_2p: "unat (a :: 'a::len word) < 2 ^ LENGTH('a)"
  by (rule unsigned_less)

lemma unat_eqD: "unat a = unat b \<Longrightarrow> a = b"
  by (simp add: word_unat_eq_iff)

lemma unat_eqI_of_nat: "unat (c :: 'a::len word) = n \<Longrightarrow> c = of_nat n"
  by auto

lemma unat_of_nat_lt: "n < 2 ^ LENGTH('a) \<Longrightarrow> unat (of_nat n :: 'a::len word) = n"
  by (simp add: unat_of_nat)

lemma unat_ucast_up:
  assumes "LENGTH('a) \<le> LENGTH('b)"
  shows "unat (ucast (x :: 'a::len word) :: 'b::len word) = unat x"
proof -
  have "unat x < 2 ^ LENGTH('b)"
    by (rule less_le_trans [OF unat_lt_2p power_increasing [OF assms]]) simp
  then show ?thesis
    by (simp add: unsigned_ucast_eq take_bit_nat_eq_self)
qed

text \<open>Two's complement: the signed reading of a word in terms of the unsigned one.\<close>

lemma sint_unat:
  "sint (w :: 'a::len word) =
     (if unat w < 2 ^ (LENGTH('a) - 1) then int (unat w) else int (unat w) - 2 ^ LENGTH('a))"
proof -
  define h :: int where "h = 2 ^ (LENGTH('a) - 1)"
  define u where "u = int (unat w)"
  have h2: "2 ^ LENGTH('a) = 2 * h" by (cases "LENGTH('a)") (simp_all add: h_def)
  have s: "sint w = (u + h) mod (2 * h) - h"
    unfolding h2 [symmetric]
    by (simp add: u_def h_def sint_uint signed_take_bit_eq_take_bit_shift take_bit_eq_mod)
  have "int (unat w) < int (2 ^ LENGTH('a))" using unat_lt_2p [of w] by (simp only: of_nat_less_iff)
  then have b: "0 \<le> u" "u < 2 * h" using h2 by (simp_all add: u_def)
  have i: "unat w < 2 ^ (LENGTH('a) - 1) \<longleftrightarrow> u < h"
    unfolding u_def h_def by (metis of_nat_less_iff of_nat_numeral of_nat_power)
  have "u < h \<Longrightarrow> (u + h) mod (2 * h) = u + h"
    using b by (intro mod_pos_pos_trivial) auto
  moreover have "(u + h) mod (2 * h) = u - h" if "\<not> u < h"
  proof -
    have "(u + h) mod (2 * h) = (u - h + 2 * h) mod (2 * h)" by (simp add: algebra_simps)
    also have "\<dots> = (u - h) mod (2 * h)" by (rule mod_add_self2)
    also have "\<dots> = u - h" using that b by (intro mod_pos_pos_trivial) auto
    finally show ?thesis .
  qed
  ultimately have "sint w = (if unat w < 2 ^ (LENGTH('a) - 1) then u else u - 2 * h)"
    unfolding s i by auto
  then show ?thesis unfolding h2 u_def .
qed

lemma unat_neg: "w \<noteq> 0 \<Longrightarrow> unat (- w) = 2 ^ LENGTH('a) - unat (w :: 'a::len word)"
proof -
  assume "w \<noteq> 0"
  then have pos: "0 < unat w" by (simp add: unat_gt_0)
  have "w + of_nat (2 ^ LENGTH('a) - unat w) = of_nat (unat w + (2 ^ LENGTH('a) - unat w))"
    by simp
  also have "unat w + (2 ^ LENGTH('a) - unat w) = 2 ^ LENGTH('a)"
    by (metis le_add_diff_inverse less_imp_le unat_lt_2p)
  finally have "- w = of_nat (2 ^ LENGTH('a) - unat w)"
    by (simp add: neg_eq_iff_add_eq_0)
  then show ?thesis
    using unat_of_nat_lt [of "2 ^ LENGTH('a) - unat w", where 'a = 'a] pos by simp
qed

lemma checked_add_Some_iff [checked_unat]:
  "checked_add a b = Some c \<longleftrightarrow> unat c = unat a + unat b"
proof
  assume "checked_add a b = Some c"
  then show "unat c = unat a + unat b"
    by (auto simp: checked_add_def unat_word_ariths split: if_splits)
next
  assume c: "unat c = unat a + unat b"
  then have "unat a + unat b < 2 ^ LENGTH('a)"
    by (metis unat_lt_2p)
  moreover from c have "c = a + b"
    by (auto dest: unat_eqI_of_nat)
  ultimately show "checked_add a b = Some c"
    by (simp add: checked_add_def)
qed

lemma checked_add_None_iff [checked_unat]:
  "checked_add (a :: 'a::len word) b = None \<longleftrightarrow> 2 ^ LENGTH('a) \<le> unat a + unat b"
  by (auto simp: checked_add_def)

lemma checked_sub_Some_iff [checked_unat]:
  "checked_sub a b = Some c \<longleftrightarrow> unat a = unat b + unat c"
proof
  assume "checked_sub a b = Some c"
  then show "unat a = unat b + unat c"
    by (auto simp: checked_sub_def unat_sub word_le_nat_alt split: if_splits)
next
  assume a: "unat a = unat b + unat c"
  then have "b \<le> a" and "unat (a - b) = unat c"
    by (auto simp: word_le_nat_alt unat_sub)
  then show "checked_sub a b = Some c"
    by (auto simp: checked_sub_def dest: unat_eqD)
qed

lemma checked_sub_None_iff [checked_unat]:
  "checked_sub a b = None \<longleftrightarrow> unat a < unat b"
  by (auto simp: checked_sub_def word_le_nat_alt)

lemma checked_mul_Some_iff [checked_unat]:
  "checked_mul a b = Some c \<longleftrightarrow> unat c = unat a * unat b"
proof
  assume "checked_mul a b = Some c"
  then show "unat c = unat a * unat b"
    by (auto simp: checked_mul_def unat_word_ariths split: if_splits)
next
  assume c: "unat c = unat a * unat b"
  then have "unat a * unat b < 2 ^ LENGTH('a)"
    by (metis unat_lt_2p)
  moreover from c have "c = a * b"
    by (auto dest: unat_eqI_of_nat)
  ultimately show "checked_mul a b = Some c"
    by (simp add: checked_mul_def)
qed

lemma checked_mul_None_iff [checked_unat]:
  "checked_mul (a :: 'a::len word) b = None \<longleftrightarrow> 2 ^ LENGTH('a) \<le> unat a * unat b"
  by (auto simp: checked_mul_def)

lemma checked_div_Some_iff [checked_unat]:
  "checked_div a b = Some c \<longleftrightarrow> unat b \<noteq> 0 \<and> unat c = unat a div unat b"
  by (auto simp: checked_div_def unat_div unat_eq_0 intro!: unat_eqD)

lemma checked_rem_Some_iff [checked_unat]:
  "checked_rem a b = Some c \<longleftrightarrow> unat b \<noteq> 0 \<and> unat c = unat a mod unat b"
  by (auto simp: checked_rem_def unat_mod unat_eq_0 intro!: unat_eqD)

lemma unat_power_small:
  assumes "unat a ^ n < 2 ^ LENGTH('a)"
  shows "unat ((a :: 'a::len word) ^ n) = unat a ^ n"
  using unat_of_nat_lt [OF assms] by simp

lemma checked_pow_Some_iff [checked_unat]:
  "checked_pow a n = Some c \<longleftrightarrow> unat c = unat a ^ n"
proof
  assume "checked_pow a n = Some c"
  then show "unat c = unat a ^ n"
    by (auto simp: checked_pow_def unat_power_small split: if_splits)
next
  assume c: "unat c = unat a ^ n"
  then have "unat a ^ n < 2 ^ LENGTH('a)"
    by (metis unat_lt_2p)
  moreover from c have "c = a ^ n"
    by (auto dest: unat_eqI_of_nat)
  ultimately show "checked_pow a n = Some c"
    by (simp add: checked_pow_def)
qed

text \<open>The checked operations as equations, for use on the operands' natural numbers.\<close>

lemma checked_add_of_nat:
  "checked_add a b = (if unat a + unat b < 2 ^ LENGTH('a) then Some (of_nat (unat a + unat b)) else None)"
  for a :: "'a::len word"
  by (simp add: checked_add_def)

lemma checked_sub_of_nat:
  "checked_sub a b = (if unat b \<le> unat a then Some (of_nat (unat a - unat b)) else None)"
  for a :: "'a::len word"
  by (simp add: checked_sub_def word_le_nat_alt of_nat_diff)

lemma checked_mul_of_nat:
  "checked_mul a b = (if unat a * unat b < 2 ^ LENGTH('a) then Some (of_nat (unat a * unat b)) else None)"
  for a :: "'a::len word"
  by (simp add: checked_mul_def)

lemma checked_div_of_nat:
  "checked_div a b = (if unat b = 0 then None else Some (of_nat (unat a div unat b)))"
  for a :: "'a::len word"
  by (simp add: checked_div_def unat_eq_0 flip: unat_div)

lemma checked_rem_of_nat:
  "checked_rem a b = (if unat b = 0 then None else Some (of_nat (unat a mod unat b)))"
  for a :: "'a::len word"
  by (simp add: checked_rem_def unat_eq_0 flip: unat_mod)

lemma unat_saturating_sub [simp]: "unat (saturating_sub a b) = unat a - unat b"
  by (auto simp: saturating_sub_def unat_sub word_le_nat_alt)

section \<open>Results\<close>

text \<open>
  A fallible Rust function returns \<open>Result<T, E>\<close>; the model returns \<open>'e + 'a\<close> with
  \<^const>\<open>Inl\<close> for the error. The operator \<open>?\<close> is \<open>rbind\<close>, \<open>Option::ok_or\<close> is
  \<open>ok_or\<close>.
\<close>

definition rbind :: "'e + 'a \<Rightarrow> ('a \<Rightarrow> 'e + 'b) \<Rightarrow> 'e + 'b" where
  "rbind m f = (case m of Inl e \<Rightarrow> Inl e | Inr a \<Rightarrow> f a)"

definition ok_or :: "'a option \<Rightarrow> 'e \<Rightarrow> 'e + 'a" where
  "ok_or m e = (case m of None \<Rightarrow> Inl e | Some a \<Rightarrow> Inr a)"

definition result_ok :: "'e + 'a \<Rightarrow> 'a option" where
  "result_ok m = (case m of Inl _ \<Rightarrow> None | Inr a \<Rightarrow> Some a)"

lemma rbind_simps [simp]:
  "rbind (Inl e) f = Inl e" "rbind (Inr a) f = f a"
  by (simp_all add: rbind_def)

lemma ok_or_simps [simp]:
  "ok_or None e = Inl e" "ok_or (Some a) e = Inr a"
  by (simp_all add: ok_or_def)

lemma result_ok_simps [simp]:
  "result_ok (Inl e) = None" "result_ok (Inr a) = Some a"
  by (simp_all add: result_ok_def)

lemma rbind_Inr_iff [result_simps]:
  "rbind m f = Inr b \<longleftrightarrow> (\<exists>a. m = Inr a \<and> f a = Inr b)"
  by (cases m) auto

lemma rbind_Inl_iff [result_simps]:
  "rbind m f = Inl e \<longleftrightarrow> m = Inl e \<or> (\<exists>a. m = Inr a \<and> f a = Inl e)"
  by (cases m) auto

lemma ok_or_Inr_iff [result_simps]: "ok_or m e = Inr a \<longleftrightarrow> m = Some a"
  by (cases m) auto

lemma ok_or_Inl_iff [result_simps]: "ok_or m e = Inl e' \<longleftrightarrow> m = None \<and> e' = e"
  by (cases m) auto

lemma rbind_assoc: "rbind (rbind m f) g = rbind m (\<lambda>a. rbind (f a) g)"
  by (cases m) auto

lemma rbind_cong [fundef_cong]:
  "m = m' \<Longrightarrow> (\<And>a. m' = Inr a \<Longrightarrow> f a = f' a) \<Longrightarrow> rbind m f = rbind m' f'"
  by (cases m') auto

text \<open>The outcome of a method that updates its receiver and returns \<open>Result<(), E>\<close>, followed by \<open>?\<close>.\<close>

definition state_result :: "('e + unit) \<times> 's \<Rightarrow> 'e + 's" where
  "state_result p = (case fst p of Inl e \<Rightarrow> Inl e | Inr _ \<Rightarrow> Inr (snd p))"

lemma state_result_Inr_iff [result_simps]: "state_result p = Inr s \<longleftrightarrow> fst p = Inr () \<and> s = snd p"
  by (auto simp: state_result_def split: sum.split)

text \<open>A fallible loop over a list: \<open>for x in xs \<lbrace> acc = f(acc, x)?; \<rbrace>\<close>.\<close>

fun rfold :: "('s \<Rightarrow> 'a \<Rightarrow> 'e + 's) \<Rightarrow> 's \<Rightarrow> 'a list \<Rightarrow> 'e + 's" where
  "rfold f s [] = Inr s"
| "rfold f s (x # xs) = rbind (f s x) (\<lambda>s'. rfold f s' xs)"

lemma rfold_cong [fundef_cong]:
  "xs = ys \<Longrightarrow> s = t \<Longrightarrow> (\<And>a x. x \<in> set ys \<Longrightarrow> f a x = g a x) \<Longrightarrow> rfold f s xs = rfold g t ys"
proof (induction ys arbitrary: xs s t)
  case (Cons y ys)
  have "f t y = g t y" using Cons.prems(3) by simp
  moreover have "rfold f u ys = rfold g u ys" for u using Cons.IH [of ys u u] Cons.prems(3) by simp
  ultimately show ?case using Cons.prems(1,2) by (simp add: rbind_def split: sum.split)
qed simp

lemma rfold_append: "rfold f s (xs @ ys) = rbind (rfold f s xs) (\<lambda>s'. rfold f s' ys)"
  by (induction xs arbitrary: s) (simp_all add: rbind_assoc)

lemma rfold_invariant:
  assumes "rfold f s xs = Inr s'" and "I s"
    and "\<And>s x s'. x \<in> set xs \<Longrightarrow> I s \<Longrightarrow> f s x = Inr s' \<Longrightarrow> I s'"
  shows "I s'"
  using assms
proof (induction xs arbitrary: s)
  case Nil
  then show ?case by simp
next
  case (Cons x xs)
  from Cons.prems(1) obtain t where t: "f s x = Inr t" "rfold f t xs = Inr s'"
    by (auto simp: result_simps)
  have "I t"
    using Cons.prems(2) t(1) by (rule Cons.prems(3) [of x, rotated]) simp
  then show ?case
    using Cons.prems(3) by (intro Cons.IH [OF t(2)]) auto
qed

end
