(* ===== verification/StateResult.thy ===== *)
theory StateResult
  imports Prelude
begin

text \<open>
  Functions that mutate storage and may fail: \<open>fn(&mut S) -> Result<T, E>\<close> is a function from the
  state to a result and the state it leaves. A failed call keeps the writes made before the
  failure, as the source does: \<open>?\<close> returns early without undoing anything.
\<close>

type_synonym ('s, 'e, 'a) sresult = "'s \<Rightarrow> ('e + 'a) \<times> 's"

definition ret :: "'a \<Rightarrow> ('s, 'e, 'a) sresult" where
  "ret a s = (Inr a, s)"

definition throw :: "'e \<Rightarrow> ('s, 'e, 'a) sresult" where
  "throw e s = (Inl e, s)"

definition lift_result :: "'e + 'a \<Rightarrow> ('s, 'e, 'a) sresult" where
  "lift_result r s = (r, s)"

definition reads :: "('s \<Rightarrow> 'e + 'a) \<Rightarrow> ('s, 'e, 'a) sresult" where
  "reads f s = (f s, s)"

definition modifies :: "('s \<Rightarrow> 's) \<Rightarrow> ('s, 'e, unit) sresult" where
  "modifies f s = (Inr (), f s)"

definition sbind :: "('s, 'e, 'a) sresult \<Rightarrow> ('a \<Rightarrow> ('s, 'e, 'b) sresult) \<Rightarrow> ('s, 'e, 'b) sresult" where
  "sbind m f s = (case m s of (Inl e, s') \<Rightarrow> (Inl e, s') | (Inr a, s') \<Rightarrow> f a s')"

definition sthen :: "('s, 'e, unit) sresult \<Rightarrow> ('s, 'e, 'b) sresult \<Rightarrow> ('s, 'e, 'b) sresult" where
  "sthen m f = sbind m (\<lambda>_. f)"

text \<open>A loop over a list whose body may fail, and the state of a result read off it.\<close>

fun sfold :: "('x \<Rightarrow> ('s, 'e, unit) sresult) \<Rightarrow> 'x list \<Rightarrow> ('s, 'e, unit) sresult" where
  "sfold f [] = ret ()"
| "sfold f (x # xs) = sthen (f x) (sfold f xs)"

lemma sresult_simps [simp]:
  "ret a s = (Inr a, s)" "throw e s = (Inl e, s)" "lift_result r s = (r, s)" "reads f s = (f s, s)"
  "modifies g s = (Inr (), g s)"
  by (simp_all add: ret_def throw_def lift_result_def reads_def modifies_def)

lemma sbind_ret [simp]: "m s = (Inr a, s') \<Longrightarrow> sbind m f s = f a s'"
  by (simp add: sbind_def)

lemma sbind_throw [simp]: "m s = (Inl e, s') \<Longrightarrow> sbind m f s = (Inl e, s')"
  by (simp add: sbind_def)

lemma sbind_lift_result: "sbind (lift_result r) f s = (case r of Inl e \<Rightarrow> (Inl e, s) | Inr a \<Rightarrow> f a s)"
  by (simp add: sbind_def split: sum.split)

lemma sbind_Inr_iff [result_simps]:
  "sbind m f s = (Inr b, s'') \<longleftrightarrow> (\<exists>a s'. m s = (Inr a, s') \<and> f a s' = (Inr b, s''))"
  by (auto simp: sbind_def split: prod.split sum.split)

lemma sbind_Inl_iff [result_simps]:
  "sbind m f s = (Inl e, s'') \<longleftrightarrow> m s = (Inl e, s'') \<or> (\<exists>a s'. m s = (Inr a, s') \<and> f a s' = (Inl e, s''))"
  by (auto simp: sbind_def split: prod.split sum.split)

lemma sthen_ret [simp]: "m s = (Inr u, s') \<Longrightarrow> sthen m f s = f s'"
  by (simp add: sthen_def)

lemma sthen_throw [simp]: "m s = (Inl e, s') \<Longrightarrow> sthen m f s = (Inl e, s')"
  by (simp add: sthen_def)

lemma sthen_Inr_iff [result_simps]:
  "sthen m f s = (Inr b, s'') \<longleftrightarrow> (\<exists>s'. m s = (Inr (), s') \<and> f s' = (Inr b, s''))"
  by (simp add: sthen_def sbind_Inr_iff)

text \<open>A property of the state that each step keeps, whether it fails or not.\<close>

definition keeps :: "('s \<Rightarrow> bool) \<Rightarrow> ('s, 'e, 'a) sresult \<Rightarrow> bool" where
  "keeps I m \<longleftrightarrow> (\<forall>s. I s \<longrightarrow> I (snd (m s)))"

lemma keepsD: "keeps I m \<Longrightarrow> I s \<Longrightarrow> m s = (r, s') \<Longrightarrow> I s'"
  by (metis keeps_def snd_conv)

lemma keeps_ret [intro]: "keeps I (ret a)" "keeps I (throw e)" "keeps I (lift_result r)" "keeps I (reads f)"
  by (simp_all add: keeps_def)

lemma keeps_sbind [intro]: "keeps I m \<Longrightarrow> (\<And>a. keeps I (f a)) \<Longrightarrow> keeps I (sbind m f)"
  by (auto simp: keeps_def sbind_def split: prod.split sum.split)

lemma keeps_sthen [intro]: "keeps I m \<Longrightarrow> keeps I f \<Longrightarrow> keeps I (sthen m f)"
  by (simp add: sthen_def keeps_sbind)

lemma keeps_sfold [intro]: "(\<And>x. x \<in> set xs \<Longrightarrow> keeps I (f x)) \<Longrightarrow> keeps I (sfold f xs)"
  by (induction xs) auto

lemma sfold_Inr_invariant:
  assumes "sfold f xs s = (Inr (), s')" and "I s"
    and "\<And>s x s'. x \<in> set xs \<Longrightarrow> I s \<Longrightarrow> f x s = (Inr (), s') \<Longrightarrow> I s'"
  shows "I s'"
  using assms
proof (induction xs arbitrary: s)
  case (Cons x xs)
  from Cons.prems(1) obtain t where t: "f x s = (Inr (), t)" "sfold f xs t = (Inr (), s')"
    by (auto simp: result_simps)
  have "I t" using Cons.prems(2) t(1) by (rule Cons.prems(3) [of x, rotated]) simp
  then show ?case using Cons.prems(3) by (intro Cons.IH [OF t(2)]) auto
qed simp

end
