(* ===== verification/Limbs.thy ===== *)
theory Limbs
  imports Prelude
begin

text \<open>
  Little-endian limb arrays \<open>[u64; n]\<close> (the representation of \<^typ>\<open>256 word\<close> integers and
  of the 512-bit products in \<open>core/src/uint.rs\<close>) and the number they denote. The second
  part states the primitives of the fixed-width integer type that \<open>uint.rs\<close> builds with
  \<open>construct_uint!\<close> and uses on limbs: their result is the exact integer operation, cut
  to the limbs available.
\<close>

section \<open>The value of a limb array\<close>

type_synonym Uint = "256 word"
type_synonym limbs = "u64 list"

definition B64 :: nat where
  "B64 = 2 ^ 64"

lemma B64_gt [simp]: "0 < B64" "1 < B64" "Suc 0 < B64" "Suc 0 \<le> B64" "B64 \<noteq> 0"
  by (simp_all add: B64_def)

fun limbs_val :: "limbs \<Rightarrow> nat" where
  "limbs_val [] = 0"
| "limbs_val (x # xs) = unat x + B64 * limbs_val xs"

fun to_limbs :: "nat \<Rightarrow> nat \<Rightarrow> limbs" where
  "to_limbs 0 n = []"
| "to_limbs (Suc k) n = of_nat (n mod B64) # to_limbs k (n div B64)"

lemma unat_u64_lt: "unat (x :: u64) < B64"
  using unat_lt_2p [of x] by (simp add: B64_def)

lemma unat_of_nat_u64: "n < B64 \<Longrightarrow> unat (of_nat n :: u64) = n"
  by (simp add: B64_def unat_of_nat_lt)

lemma length_to_limbs [simp]: "length (to_limbs k n) = k"
  by (induction k arbitrary: n) auto

lemma limbs_val_append: "limbs_val (xs @ ys) = limbs_val xs + B64 ^ length xs * limbs_val ys"
  by (induction xs) (auto simp: algebra_simps)

lemma limbs_val_lt: "limbs_val xs < B64 ^ length xs"
proof (induction xs)
  case (Cons x xs)
  have "unat x + B64 * limbs_val xs < B64 + B64 * limbs_val xs"
    using unat_u64_lt [of x] by simp
  also have "\<dots> = B64 * Suc (limbs_val xs)" by simp
  also have "\<dots> \<le> B64 * B64 ^ length xs"
    using Cons.IH by (intro mult_le_mono) auto
  finally show ?case by simp
qed simp

lemma limbs_val_to_limbs: "limbs_val (to_limbs k n) = n mod B64 ^ k"
proof (induction k arbitrary: n)
  case (Suc k)
  have "unat (of_nat (n mod B64) :: u64) = n mod B64"
    by (rule unat_of_nat_u64) simp
  then show ?case
    using Suc.IH [of "n div B64"] by (simp add: mod_mult2_eq)
qed simp

declare to_limbs.simps [simp del]

lemma limbs_val_to_limbs_id: "n < B64 ^ k \<Longrightarrow> limbs_val (to_limbs k n) = n"
  by (simp add: limbs_val_to_limbs)

lemma limbs_val_inject: "length xs = length ys \<Longrightarrow> limbs_val xs = limbs_val ys \<Longrightarrow> xs = ys"
proof (induction xs ys rule: list_induct2)
  case (Cons x xs y ys)
  have m: "(unat z + B64 * k) mod B64 = unat z" "(unat z + B64 * k) div B64 = k" for z :: u64 and k
    using unat_u64_lt [of z] by auto
  have "limbs_val (x # xs) mod B64 = limbs_val (y # ys) mod B64"
    and "limbs_val (x # xs) div B64 = limbs_val (y # ys) div B64"
    using Cons.prems by simp_all
  then have "unat x = unat y" "limbs_val xs = limbs_val ys"
    by (simp_all only: limbs_val.simps m)
  then show ?case using Cons.IH by (auto dest: unat_eqD)
qed simp

lemma limbs_val_take_drop:
  "k \<le> length xs \<Longrightarrow> limbs_val xs = limbs_val (take k xs) + B64 ^ k * limbs_val (drop k xs)"
  using limbs_val_append [of "take k xs" "drop k xs"] by (simp add: min_absorb2)

lemma limbs_val_drop: "limbs_val (drop k xs) = limbs_val xs div B64 ^ k"
proof (cases "k \<le> length xs")
  case True
  have "limbs_val (take k xs) < B64 ^ k"
    using limbs_val_lt [of "take k xs"] True by (simp add: min_absorb2)
  then show ?thesis
    by (simp add: limbs_val_take_drop [OF True])
next
  case False
  then have "B64 ^ length xs \<le> B64 ^ k"
    by (intro power_increasing) auto
  then have "limbs_val xs < B64 ^ k"
    using limbs_val_lt [of xs] by linarith
  then show ?thesis using False by simp
qed

lemma limbs_val_take: "limbs_val (take k xs) = limbs_val xs mod B64 ^ k"
proof (cases "k \<le> length xs")
  case True
  have "limbs_val (take k xs) < B64 ^ k"
    using limbs_val_lt [of "take k xs"] True by (simp add: min_absorb2)
  then show ?thesis
    by (simp add: limbs_val_take_drop [OF True])
next
  case False
  then have "B64 ^ length xs \<le> B64 ^ k"
    by (intro power_increasing) auto
  then have "limbs_val xs < B64 ^ k"
    using limbs_val_lt [of xs] by linarith
  then show ?thesis using False by simp
qed

lemma limbs_nth: "k < length xs \<Longrightarrow> unat (xs ! k) = limbs_val xs div B64 ^ k mod B64"
proof -
  assume k: "k < length xs"
  have "limbs_val (drop k xs) = unat (xs ! k) + B64 * limbs_val (drop (Suc k) xs)"
    using k by (simp flip: Cons_nth_drop_Suc)
  then have "limbs_val (drop k xs) mod B64 = unat (xs ! k)"
    using unat_u64_lt [of "xs ! k"] by simp
  then show ?thesis by (simp add: limbs_val_drop)
qed

lemma limbs_val_update:
  "k < length xs \<Longrightarrow> xs ! k = 0 \<Longrightarrow> limbs_val (xs[k := d]) = limbs_val xs + B64 ^ k * unat d"
proof (induction xs arbitrary: k)
  case (Cons x xs)
  then show ?case by (cases k) (auto simp: algebra_simps)
qed simp

lemma limbs_val_replicate_0 [simp]: "limbs_val (replicate k 0) = 0"
  by (induction k) auto

lemma limbs_val_eq_0_iff: "limbs_val xs = 0 \<longleftrightarrow> (\<forall>x \<in> set xs. x = 0)"
  by (induction xs) (auto simp: unat_eq_0)

section \<open>Limbs of a 256-bit integer and the primitives on limbs\<close>

definition uint_limbs :: "Uint \<Rightarrow> limbs" where
  "uint_limbs x = to_limbs 4 (unat x)"

definition uint_of_limbs :: "limbs \<Rightarrow> Uint" where
  "uint_of_limbs ls = of_nat (limbs_val ls)"

lemma length_uint_limbs [simp]: "length (uint_limbs x) = 4"
  by (simp add: uint_limbs_def)

lemma limbs_val_uint_limbs [simp]: "limbs_val (uint_limbs x) = unat x"
  using unat_lt_2p [of x] by (simp add: uint_limbs_def limbs_val_to_limbs_id B64_def)

lemma unat_uint_of_limbs: "length ls = 4 \<Longrightarrow> unat (uint_of_limbs ls) = limbs_val ls"
  using limbs_val_lt [of ls] by (simp add: uint_of_limbs_def unat_of_nat_lt B64_def)

text \<open>\<open>div_mod_word\<close>: the two-limb number \<open>hi * 2^64 + lo\<close> divided by a limb.\<close>

definition div_mod_word :: "u64 \<Rightarrow> u64 \<Rightarrow> u64 \<Rightarrow> u64 \<times> u64" where
  "div_mod_word hi lo y =
     (let x = unat hi * B64 + unat lo in (of_nat (x div unat y), of_nat (x mod unat y)))"

definition split_u128 :: "u128 \<Rightarrow> u64 \<times> u64" where
  "split_u128 a = (ucast (drop_bit 64 a), ucast a)"

definition full_mul_u64 :: "limbs \<Rightarrow> u64 \<Rightarrow> limbs" where
  "full_mul_u64 v q = to_limbs (length v + 1) (limbs_val v * unat q)"

definition full_mul :: "Uint \<Rightarrow> Uint \<Rightarrow> limbs" where
  "full_mul a b = to_limbs 8 (unat a * unat b)"

text \<open>
  \<open>add_slice(a, b)\<close> and \<open>sub_slice(a, b)\<close> work on the first \<open>length b\<close> limbs of \<open>a\<close>
  and return the carry or borrow out of them.
\<close>

definition add_slice :: "limbs \<Rightarrow> limbs \<Rightarrow> limbs \<times> bool" where
  "add_slice a b =
     (let k = length b; s = limbs_val (take k a) + limbs_val b
      in (to_limbs k s @ drop k a, B64 ^ k \<le> s))"

definition sub_slice :: "limbs \<Rightarrow> limbs \<Rightarrow> limbs \<times> bool" where
  "sub_slice a b =
     (let k = length b; x = limbs_val (take k a); y = limbs_val b
      in (to_limbs k (x + B64 ^ k - y) @ drop k a, x < y))"

text \<open>The number of bits of a number, from which \<open>leading_zeros\<close> and \<open>bits\<close> follow.\<close>

fun bitlen :: "nat \<Rightarrow> nat" where
  "bitlen n = (if n = 0 then 0 else Suc (bitlen (n div 2)))"

declare bitlen.simps [simp del]

definition leading_zeros :: "u64 \<Rightarrow> nat" where
  "leading_zeros x = 64 - bitlen (unat x)"

definition uint_bits :: "Uint \<Rightarrow> nat" where
  "uint_bits x = bitlen (unat x)"

definition words_of_bits :: "nat \<Rightarrow> nat" where
  "words_of_bits bits = 1 + (bits - 1) div 64"

lemma bitlen_le_iff: "bitlen n \<le> k \<longleftrightarrow> n < 2 ^ k"
proof (induction n arbitrary: k rule: bitlen.induct)
  case (1 n)
  show ?case
  proof (cases "n = 0")
    case True
    then show ?thesis by (simp add: bitlen.simps)
  next
    case False
    show ?thesis
    proof (cases k)
      case 0
      with False show ?thesis by (simp add: bitlen.simps [of n])
    next
      case (Suc j)
      have "bitlen n \<le> k \<longleftrightarrow> n div 2 < 2 ^ j"
        using False Suc "1.IH" [OF False, of j] by (simp add: bitlen.simps [of n])
      also have "\<dots> \<longleftrightarrow> n < 2 ^ k"
        using Suc by auto
      finally show ?thesis .
    qed
  qed
qed

lemma bitlen_0 [simp]: "bitlen 0 = 0"
  by (simp add: bitlen.simps)

lemma bitlen_eq_0_iff [simp]: "bitlen n = 0 \<longleftrightarrow> n = 0"
  using bitlen_le_iff [of n 0] by simp

lemma bitlen_pos_iff [simp]: "0 < bitlen n \<longleftrightarrow> 0 < n"
  using bitlen_eq_0_iff [of n] by linarith

lemma less_bitlen_iff: "k < bitlen n \<longleftrightarrow> 2 ^ k \<le> n"
  using bitlen_le_iff [of n k] by linarith

lemma bitlen_bounds: "0 < n \<Longrightarrow> 2 ^ (bitlen n - 1) \<le> n \<and> n < 2 ^ bitlen n"
  using less_bitlen_iff [of "bitlen n - 1" n] bitlen_le_iff [of n "bitlen n"] bitlen_pos_iff [of n]
  by (simp del: bitlen_pos_iff)

lemma bitlen_u64: "bitlen (unat (x :: u64)) \<le> 64"
  using unat_u64_lt [of x] by (simp add: bitlen_le_iff B64_def)

text \<open>A normalised limb: shifted by its leading zeros, its top bit is set.\<close>

lemma leading_zeros_normalise:
  assumes "x \<noteq> 0"
  shows "leading_zeros x < 64"
    and "B64 \<le> 2 * (unat x * 2 ^ leading_zeros x)"
    and "(unat x + 1) * 2 ^ leading_zeros x \<le> B64"
proof -
  let ?l = "bitlen (unat x)"
  have pos: "0 < unat x" using assms by (simp add: unat_gt_0)
  then have l: "0 < ?l" "?l \<le> 64"
    using bitlen_u64 [of x] by auto
  then show "leading_zeros x < 64" by (simp add: leading_zeros_def)
  have e: "B64 = 2 ^ ?l * 2 ^ (64 - ?l)"
    using l by (simp add: B64_def flip: power_add)
  have h: "2 ^ ?l \<le> 2 * unat x" "unat x < 2 ^ ?l"
    using bitlen_bounds [OF pos] l power_Suc [of "2 :: nat" "?l - 1"] by auto
  have "2 ^ ?l * 2 ^ (64 - ?l) \<le> 2 * unat x * 2 ^ (64 - ?l)"
    using h(1) by (rule mult_right_mono) simp
  then show "B64 \<le> 2 * (unat x * 2 ^ leading_zeros x)"
    unfolding leading_zeros_def e by (simp add: mult.assoc)
  have "(unat x + 1) * 2 ^ (64 - ?l) \<le> 2 ^ ?l * 2 ^ (64 - ?l)"
    using h(2) by (intro mult_right_mono) auto
  then show "(unat x + 1) * 2 ^ leading_zeros x \<le> B64"
    unfolding leading_zeros_def e .
qed

end
