(* ===== verification/Uint512.thy ===== *)
theory Uint512
  imports Limbs
begin

text \<open>
  The 512-by-256-bit division of \<open>core/src/uint.rs\<close>: \<open>bits_512\<close>, the shifts on limb
  arrays, the short division, Knuth's Algorithm D and \<open>checked_mul_div\<close>, which
  multiplies two 256-bit integers exactly and divides the 512-bit product. The main
  result is that \<open>div_mod_512\<close> returns the quotient and the remainder of the integers
  that its limb arrays denote.
\<close>

section \<open>Operations\<close>

fun bits_512_from :: "limbs \<Rightarrow> nat \<Rightarrow> nat" where
  "bits_512_from arr 0 = 64 - leading_zeros (arr ! 0)"
| "bits_512_from arr (Suc k) =
     (if 0 < arr ! Suc k then 64 * (Suc k + 1) - leading_zeros (arr ! Suc k)
      else bits_512_from arr k)"

definition bits_512 :: "limbs \<Rightarrow> nat" where
  "bits_512 arr = bits_512_from arr (length arr - 1)"

text \<open>The limbs are visited from the most significant one down, with the remainder so far.\<close>

fun div_mod_small_rev :: "limbs \<Rightarrow> u64 \<Rightarrow> u64 \<Rightarrow> limbs \<times> u64" where
  "div_mod_small_rev [] other rem = ([], rem)"
| "div_mod_small_rev (d # ds) other rem =
     (let (q, r) = div_mod_word rem d other; (qs, r') = div_mod_small_rev ds other r
      in (q # qs, r'))"

definition div_mod_small_512 :: "limbs \<Rightarrow> u64 \<Rightarrow> limbs \<times> Uint" where
  "div_mod_small_512 slf other =
     (let (q, rem) = div_mod_small_rev (rev slf) other 0 in (rev q, ucast rem))"

definition shr_512 :: "limbs \<Rightarrow> nat \<Rightarrow> limbs" where
  "shr_512 original shift =
     (let word_shift = shift div 64; bit_shift = shift mod 64; len = length original
      in map (\<lambda>k. (if k + word_shift < len
                   then drop_bit bit_shift (original ! (k + word_shift)) else 0)
               + (if 0 < bit_shift \<and> k + word_shift + 1 < len
                  then push_bit (64 - bit_shift) (original ! (k + word_shift + 1)) else 0))
             [0..<len])"

definition full_shl_512 :: "limbs \<Rightarrow> nat \<Rightarrow> limbs" where
  "full_shl_512 slf shift = push_bit shift (slf ! 0) # shr_512 slf (64 - shift)"

definition full_shr_512 :: "limbs \<Rightarrow> nat \<Rightarrow> limbs" where
  "full_shr_512 u shift =
     map (\<lambda>i. or (drop_bit shift (u ! i))
                (if 0 < shift then push_bit (64 - shift) (u ! (i + 1)) else 0)) [0..<8]"

definition lex_le :: "u64 \<times> u64 \<Rightarrow> u64 \<times> u64 \<Rightarrow> bool" where
  "lex_le x y \<longleftrightarrow> fst x < fst y \<or> fst x = fst y \<and> snd x \<le> snd y"

text \<open>The inner loop of step D3 that corrects the guess of the quotient digit.\<close>

function q_hat_loop :: "u64 \<Rightarrow> u64 \<Rightarrow> u64 \<Rightarrow> u64 \<Rightarrow> u64 \<Rightarrow> u64" where
  "q_hat_loop v_n_1 v_n_2 u_2 q_hat r_hat =
     (if lex_le (split_u128 (ucast q_hat * ucast v_n_2)) (r_hat, u_2) then q_hat
      else let q_hat' = q_hat - 1; (r_hat', overflow) = overflowing_add r_hat v_n_1
        in if overflow then q_hat' else q_hat_loop v_n_1 v_n_2 u_2 q_hat' r_hat')"
  by pat_completeness auto
termination
proof (relation "measure (\<lambda>(v1, v2, u2, q, r). unat q)", goal_cases)
  case (2 v1 v2 u2 q r q' p r' ov)
  have "q \<noteq> 0"
  proof
    assume "q = 0"
    then have "split_u128 (ucast q * ucast v2) = (0, 0)"
      by (simp add: split_u128_def)
    with 2(1) show False
      by (auto simp: lex_le_def word_neq_0_conv)
  qed
  with 2(2) show ?case
    by (simp add: unat_minus_one unat_gt_0)
qed simp

declare q_hat_loop.simps [simp del]

definition q_hat_guess :: "limbs \<Rightarrow> nat \<Rightarrow> u64 \<Rightarrow> u64 \<Rightarrow> nat \<Rightarrow> u64" where
  "q_hat_guess u n v_n_1 v_n_2 j =
     (let u_jn = u ! (j + n)
      in if u_jn < v_n_1 then
           let (q_hat, r_hat) = div_mod_word u_jn (u ! (j + n - 1)) v_n_1
           in q_hat_loop v_n_1 v_n_2 (u ! (j + n - 2)) q_hat r_hat
         else - 1)"

text \<open>One round of the loop over \<open>j\<close>: steps D3 to D6, on the pair \<open>(u, q)\<close>.\<close>

definition knuth_step :: "limbs \<Rightarrow> nat \<Rightarrow> nat \<Rightarrow> limbs \<times> limbs \<Rightarrow> limbs \<times> limbs" where
  "knuth_step v n j uq =
     (let (u, q) = uq;
          q_hat = q_hat_guess u n (v ! (n - 1)) (v ! (n - 2)) j;
          q_hat_v = full_mul_u64 v q_hat;
          (us, c) = sub_slice (drop j u) (take (n + 1) q_hat_v);
          u1 = take j u @ us
      in if c then
           let (us2, c2) = add_slice (drop j u1) (take n v);
               u2 = take j u1 @ us2;
               u3 = u2[j + n := u2 ! (j + n) + (if c2 then 1 else 0)]
           in (u3, q[j := q_hat - 1])
         else (u1, q[j := q_hat]))"

fun knuth_loop :: "limbs \<Rightarrow> nat \<Rightarrow> nat \<Rightarrow> limbs \<times> limbs \<Rightarrow> limbs \<times> limbs" where
  "knuth_loop v n 0 uq = knuth_step v n 0 uq"
| "knuth_loop v n (Suc j) uq = knuth_loop v n j (knuth_step v n (Suc j) uq)"

definition div_mod_knuth_512 :: "limbs \<Rightarrow> Uint \<Rightarrow> nat \<Rightarrow> nat \<Rightarrow> limbs \<times> Uint" where
  "div_mod_knuth_512 slf v0 n m =
     (let shift = leading_zeros (uint_limbs v0 ! (n - 1));
          v = uint_limbs (push_bit shift v0);
          u = full_shl_512 slf shift;
          (u', q) = knuth_loop v n m (u, replicate 8 0);
          remainder = full_shr_512 u' shift
      in (q, uint_of_limbs (take 4 remainder)))"

text \<open>
  \<open>div_mod_512\<close> asserts a non-zero divisor: the outer \<^const>\<open>None\<close> is that panic, the
  inner one the \<open>?\<close> on \<open>checked_sub\<close>.
\<close>

definition div_mod_512 :: "limbs \<Rightarrow> Uint \<Rightarrow> (limbs \<times> Uint) option option" where
  "div_mod_512 slf other =
     (let my_bits = bits_512 slf; your_bits = uint_bits other
      in if your_bits = 0 then None
         else Some
           (if my_bits < your_bits then Some (replicate 8 0, uint_of_limbs (take 4 slf))
            else if your_bits \<le> 64 then Some (div_mod_small_512 slf (ucast other))
            else let my_words = words_of_bits my_bits; your_words = words_of_bits your_bits
              in if my_words < your_words then None
                 else Some (div_mod_knuth_512 slf other your_words (my_words - your_words))))"

definition checked_mul_div :: "Uint \<Rightarrow> Uint \<Rightarrow> Uint \<Rightarrow> (Uint \<times> Uint) option" where
  "checked_mul_div slf num denom =
     (if denom = 0 then None
      else case div_mod_512 (full_mul slf num) denom of
        None \<Rightarrow> None
      | Some None \<Rightarrow> None
      | Some (Some (quot, remainder)) \<Rightarrow>
          if \<exists>d \<in> set (drop 4 quot). d \<noteq> 0 then None
          else Some (uint_of_limbs (take 4 quot), remainder))"

section \<open>Bits and short division\<close>

lemma bitlen_high_limb:
  assumes "a < B64" "0 < c"
  shows "bitlen (a + B64 * c) = 64 + bitlen c"
proof (rule antisym)
  have "c < 2 ^ bitlen c" using bitlen_bounds [OF assms(2)] by simp
  then have "B64 * Suc c \<le> B64 * 2 ^ bitlen c" by (intro mult_le_mono) auto
  with assms(1) have "a + B64 * c < 2 ^ (64 + bitlen c)"
    by (simp add: power_add B64_def)
  then show "bitlen (a + B64 * c) \<le> 64 + bitlen c" by (simp only: bitlen_le_iff)
next
  have "B64 * 2 ^ (bitlen c - 1) \<le> B64 * c"
    using bitlen_bounds [OF assms(2)] by (intro mult_le_mono) auto
  then have "2 ^ (64 + (bitlen c - 1)) \<le> a + B64 * c"
    by (simp add: power_add B64_def)
  then have "64 + (bitlen c - 1) < bitlen (a + B64 * c)"
    by (simp only: less_bitlen_iff)
  then show "64 + bitlen c \<le> bitlen (a + B64 * c)" by linarith
qed

lemma bitlen_take_Suc:
  assumes "k < length arr"
  shows "bitlen (limbs_val (take (Suc k) arr)) =
    (if 0 < arr ! k then 64 * k + bitlen (unat (arr ! k)) else bitlen (limbs_val (take k arr)))"
  using assms
proof (induction arr arbitrary: k)
  case (Cons x xs)
  show ?case
  proof (cases k)
    case 0
    then show ?thesis by (simp add: word_neq_0_conv unat_eq_0 flip: word_neq_0_conv)
  next
    case (Suc j)
    with Cons.prems have j: "j < length xs" by simp
    have IH: "bitlen (limbs_val (take (Suc j) xs)) =
        (if 0 < xs ! j then 64 * j + bitlen (unat (xs ! j)) else bitlen (limbs_val (take j xs)))"
      using Cons.IH [OF j] .
    have snoc: "take (Suc j) xs = take j xs @ [xs ! j]"
      using j by (simp add: take_Suc_conv_app_nth)
    show ?thesis
    proof (cases "0 < xs ! j")
      case True
      then have "0 < limbs_val (take (Suc j) xs)"
        by (simp add: snoc limbs_val_append unat_gt_0 word_neq_0_conv)
      then show ?thesis
        using Suc True IH bitlen_high_limb [OF unat_u64_lt [of x]] by simp
    next
      case False
      then have "xs ! j = 0" by (metis word_neq_0_conv)
      then show ?thesis
        using Suc False by (simp add: snoc limbs_val_append)
    qed
  qed
qed simp

lemma bits_512_from_bitlen:
  "k < length arr \<Longrightarrow> bits_512_from arr k = bitlen (limbs_val (take (Suc k) arr))"
proof (induction k)
  case 0
  then show ?case
    using bitlen_u64 [of "arr ! 0"] by (cases arr) (auto simp: leading_zeros_def)
next
  case (Suc k)
  then show ?case
    using bitlen_take_Suc [of "Suc k" arr] bitlen_u64 [of "arr ! Suc k"]
    by (auto simp: leading_zeros_def)
qed

lemma bits_512_bitlen: "arr \<noteq> [] \<Longrightarrow> bits_512 arr = bitlen (limbs_val arr)"
  by (simp add: bits_512_def bits_512_from_bitlen)

lemma div_mod_word_unat:
  assumes "unat hi < unat y"
  shows "unat (fst (div_mod_word hi lo y)) = (unat hi * B64 + unat lo) div unat y"
    and "unat (snd (div_mod_word hi lo y)) = (unat hi * B64 + unat lo) mod unat y"
proof -
  let ?x = "unat hi * B64 + unat lo"
  have "?x < Suc (unat hi) * B64" using unat_u64_lt [of lo] by simp
  also have "\<dots> \<le> unat y * B64" using assms by (intro mult_le_mono) auto
  finally have "?x div unat y < B64"
    using assms by (simp add: less_mult_imp_div_less mult.commute)
  moreover have "?x mod unat y < B64"
    using assms unat_u64_lt [of y] by (metis mod_less_divisor order.strict_trans gr_zeroI not_less_zero)
  ultimately show "unat (fst (div_mod_word hi lo y)) = ?x div unat y"
    and "unat (snd (div_mod_word hi lo y)) = ?x mod unat y"
    by (simp_all add: div_mod_word_def Let_def unat_of_nat_u64)
qed

lemma div_mod_small_rev_correct:
  assumes "unat rem < unat other" and "div_mod_small_rev ds other rem = (qs, r)"
  shows "length qs = length ds \<and> unat r < unat other \<and>
    unat rem * B64 ^ length ds + limbs_val (rev ds) = limbs_val (rev qs) * unat other + unat r"
  using assms
proof (induction ds arbitrary: rem qs r)
  case (Cons d ds)
  obtain q r1 where d: "div_mod_word rem d other = (q, r1)" by force
  obtain qs' r' where ds: "div_mod_small_rev ds other r1 = (qs', r')" by force
  note w = div_mod_word_unat [OF Cons.prems(1), of d, unfolded d fst_conv snd_conv]
  have r1: "unat r1 < unat other" using w(2) Cons.prems(1) by simp
  have eq: "unat rem * B64 + unat d = unat q * unat other + unat r1"
    unfolding w by simp
  note IH = Cons.IH [OF r1 ds]
  let ?L = "B64 ^ length ds"
  have res: "qs = q # qs'" "r = r'" using Cons.prems(2) d ds by auto
  have "unat rem * B64 ^ length (d # ds) + limbs_val (rev (d # ds)) =
        (unat rem * B64 + unat d) * ?L + limbs_val (rev ds)"
    by (simp add: limbs_val_append algebra_simps)
  also have "\<dots> = unat q * unat other * ?L + (unat r1 * ?L + limbs_val (rev ds))"
    unfolding eq by (simp add: algebra_simps)
  also have "\<dots> = unat q * unat other * ?L + (limbs_val (rev qs') * unat other + unat r')"
    using IH by simp
  also have "\<dots> = limbs_val (rev qs) * unat other + unat r"
    using IH by (simp add: res limbs_val_append algebra_simps)
  finally show ?case using IH res by simp
qed simp

lemma div_mod_small_512_correct:
  assumes "other \<noteq> 0" and "div_mod_small_512 slf other = (q, r)"
  shows "length q = length slf \<and> limbs_val q = limbs_val slf div unat other \<and>
    unat r = limbs_val slf mod unat other"
proof -
  obtain q' r' where d: "div_mod_small_rev (rev slf) other 0 = (q', r')" by force
  have pos: "unat (0 :: u64) < unat other" using assms(1) by (simp add: unat_gt_0)
  note c = div_mod_small_rev_correct [OF pos d]
  have "q = rev q'" "unat r = unat r'"
    using assms(2) d by (auto simp: div_mod_small_512_def unat_ucast_up)
  with c show ?thesis by (auto simp: div_mult_self3 mod_mult_self3)
qed

section \<open>Shifts of limb arrays\<close>

lemma eq_to_limbsI:
  assumes "length xs = k" and "\<And>i. i < k \<Longrightarrow> unat (xs ! i) = n div B64 ^ i mod B64"
  shows "xs = to_limbs k n"
proof (rule nth_equalityI)
  fix i assume "i < length xs"
  with assms(1) have i: "i < k" by simp
  have "unat (to_limbs k n ! i) = n mod B64 ^ k div B64 ^ i mod B64"
    using i by (simp only: limbs_nth length_to_limbs limbs_val_to_limbs)
  also have "\<dots> = n div B64 ^ i mod B64"
  proof -
    have "B64 ^ k = B64 ^ i * B64 ^ (k - i)"
      using i by (simp flip: power_add)
    then have "n mod B64 ^ k div B64 ^ i = n div B64 ^ i mod B64 ^ (k - i)"
      by (simp add: mod_mult2_eq)
    moreover have "B64 dvd B64 ^ (k - i)"
      using i by (intro dvd_power) auto
    ultimately show ?thesis by (simp add: mod_mod_cancel)
  qed
  finally show "xs ! i = to_limbs k n ! i"
    using assms(2) [OF i] by (auto intro: unat_eqD)
qed (simp add: assms(1))

lemma limb_pair_shift:
  fixes d0 d1 s rest :: nat
  assumes "0 < s" "s < 64" "d0 < B64"
  shows "(d0 + B64 * (d1 + B64 * rest)) div 2 ^ s mod B64 = d0 div 2 ^ s + (d1 * 2 ^ (64 - s)) mod B64"
proof -
  let ?a = "2 ^ (64 - s) :: nat"
  have e: "B64 = 2 ^ s * ?a" using assms by (simp add: B64_def flip: power_add)
  have "(d0 + B64 * (d1 + B64 * rest)) div 2 ^ s = d0 div 2 ^ s + ?a * (d1 + B64 * rest)"
    unfolding e by (simp add: mult.assoc div_mult_self2)
  moreover have "(d0 div 2 ^ s + ?a * (d1 + B64 * rest)) mod B64 = (d0 div 2 ^ s + ?a * (d1 mod 2 ^ s)) mod B64"
  proof -
    have d1: "d1 = d1 mod 2 ^ s + 2 ^ s * (d1 div 2 ^ s)" by simp
    have "?a * (d1 + B64 * rest) = ?a * (d1 mod 2 ^ s) + B64 * (d1 div 2 ^ s + ?a * rest)"
      by (subst d1) (simp only: e distrib_left mult.assoc mult.left_commute mult.commute add.assoc)
    then show ?thesis by (simp only: add.assoc [symmetric] mod_mult_self2)
  qed
  moreover have "d0 div 2 ^ s + ?a * (d1 mod 2 ^ s) < B64"
  proof -
    have "d0 div 2 ^ s < ?a" using assms(3) unfolding e by (simp add: less_mult_imp_div_less mult.commute)
    moreover have "?a * Suc (d1 mod 2 ^ s) \<le> ?a * 2 ^ s" by (intro mult_le_mono) (auto simp: Suc_le_eq)
    ultimately show ?thesis unfolding e by (simp add: mult.commute)
  qed
  moreover have "(d1 * ?a) mod B64 = ?a * (d1 mod 2 ^ s)"
    unfolding e by (simp add: mult.commute mult_mod_right)
  ultimately show ?thesis by simp
qed

lemma unat_push_bit_u64: "unat (push_bit k (x :: u64)) = (unat x * 2 ^ k) mod B64"
  by (simp only: unsigned_push_bit_eq) (simp add: push_bit_eq_mult take_bit_eq_mod B64_def)

lemma unat_drop_bit_u64: "unat (drop_bit k (x :: u64)) = unat x div 2 ^ k"
  by (simp only: unat_drop_bit_eq) (simp add: drop_bit_eq_div)

lemma unat_shift_pair:
  fixes x y :: u64
  assumes "0 < s" "s < 64"
  shows "unat (drop_bit s x + push_bit (64 - s) y) = unat x div 2 ^ s + (unat y * 2 ^ (64 - s)) mod B64"
    and "or (drop_bit s x) (push_bit (64 - s) y) = drop_bit s x + push_bit (64 - s) y"
proof -
  have "unat x div 2 ^ s + (unat y * 2 ^ (64 - s)) mod B64 < B64"
    using limb_pair_shift [OF assms unat_u64_lt, of x "unat y" 0]
    by (metis mod_less_divisor B64_gt(1))
  then show "unat (drop_bit s x + push_bit (64 - s) y) = unat x div 2 ^ s + (unat y * 2 ^ (64 - s)) mod B64"
    by (simp add: unat_word_ariths unat_push_bit_u64 unat_drop_bit_u64 B64_def)
  show "or (drop_bit s x) (push_bit (64 - s) y) = drop_bit s x + push_bit (64 - s) y"
  proof (rule disjunctive_add_eq_or [symmetric], rule bit_eqI)
    fix n
    show "bit (and (drop_bit s x) (push_bit (64 - s) y)) n = bit (0 :: u64) n"
      using assms by (auto simp: bit_and_iff bit_drop_bit_eq bit_push_bit_iff dest: bit_imp_le_length)
  qed
qed

lemma limbs_val_digits:
  assumes "i < length xs"
  shows "limbs_val xs div B64 ^ i =
    unat (xs ! i) + B64 * (if i + 1 < length xs
      then unat (xs ! (i + 1)) + B64 * limbs_val (drop (i + 2) xs) else 0)"
proof -
  have "drop i xs = xs ! i # drop (Suc i) xs"
    using assms by (simp add: Cons_nth_drop_Suc)
  moreover have "drop (Suc i) xs =
      (if i + 1 < length xs then xs ! (i + 1) # drop (i + 2) xs else [])"
    by (simp add: Cons_nth_drop_Suc)
  ultimately show ?thesis
    by (simp flip: limbs_val_drop)
qed

lemma shift_digit:
  assumes s: "0 < s" "s < 64" and i: "i < length xs"
  shows "limbs_val xs div B64 ^ i div 2 ^ s mod B64 =
    unat (drop_bit s (xs ! i) + (if i + 1 < length xs then push_bit (64 - s) (xs ! (i + 1)) else 0))"
proof (cases "i + 1 < length xs")
  case True
  then show ?thesis
    using limb_pair_shift [OF s unat_u64_lt] unat_shift_pair(1) [OF s]
    by (simp only: limbs_val_digits [OF i] if_True)
next
  case False
  have "unat (xs ! i) div 2 ^ s \<le> unat (xs ! i)" by (rule div_le_dividend)
  then have "unat (xs ! i) div 2 ^ s < B64" using unat_u64_lt [of "xs ! i"] by linarith
  then show ?thesis
    using False by (simp add: limbs_val_digits [OF i] unat_drop_bit_u64)
qed

lemma shr_512_to_limbs: "shr_512 xs shift = to_limbs (length xs) (limbs_val xs div 2 ^ shift)"
proof (rule eq_to_limbsI)
  fix k assume k: "k < length xs"
  let ?w = "shift div 64" and ?b = "shift mod 64"
  have "(2 :: nat) ^ shift = B64 ^ ?w * 2 ^ ?b"
    by (simp only: B64_def flip: power_mult power_add) simp
  then have e: "limbs_val xs div 2 ^ shift div B64 ^ k = limbs_val xs div B64 ^ (k + ?w) div 2 ^ ?b"
    by (simp add: power_add mult_ac flip: div_mult2_eq)
  have nth: "shr_512 xs shift ! k =
      (if k + ?w < length xs then drop_bit ?b (xs ! (k + ?w)) else 0)
        + (if 0 < ?b \<and> k + ?w + 1 < length xs then push_bit (64 - ?b) (xs ! (k + ?w + 1)) else 0)"
    using k by (simp add: shr_512_def Let_def)
  show "unat (shr_512 xs shift ! k) = limbs_val xs div 2 ^ shift div B64 ^ k mod B64"
  proof (cases "k + ?w < length xs")
    case True
    show ?thesis
    proof (cases "0 < ?b")
      case b: True
      then show ?thesis
        unfolding e nth using shift_digit [OF b _ True] True by simp
    next
      case False
      then show ?thesis
        unfolding e nth using True limbs_nth [OF True] by simp
    qed
  next
    case False
    then have "limbs_val xs div B64 ^ (k + ?w) = 0"
      by (simp flip: limbs_val_drop)
    then show ?thesis unfolding e nth using False by simp
  qed
qed (simp add: shr_512_def Let_def)

lemma full_shl_512_val:
  assumes "length slf = 8" "shift < 64"
  shows "length (full_shl_512 slf shift) = 9" "limbs_val (full_shl_512 slf shift) = limbs_val slf * 2 ^ shift"
proof -
  show "length (full_shl_512 slf shift) = 9"
    using assms by (simp add: full_shl_512_def shr_512_to_limbs)
  let ?N = "limbs_val slf"
  have N: "?N < B64 ^ 8" using limbs_val_lt [of slf] assms by simp
  have d: "unat (slf ! 0) = ?N mod B64"
    using limbs_nth [of 0 slf] assms by simp
  have "?N div 2 ^ (64 - shift) < B64 ^ 8"
    using N by (meson div_le_dividend le_less_trans)
  then have "limbs_val (full_shl_512 slf shift) =
      (?N mod B64 * 2 ^ shift) mod B64 + B64 * (?N div 2 ^ (64 - shift))"
    using assms
    by (simp only: full_shl_512_def shr_512_to_limbs limbs_val.simps unat_push_bit_u64 d
        limbs_val_to_limbs_id)
  also have "(?N mod B64 * 2 ^ shift) mod B64 = (?N * 2 ^ shift) mod B64"
    by (simp only: mod_mult_left_eq)
  also have "?N div 2 ^ (64 - shift) = ?N * 2 ^ shift div B64"
  proof -
    have b: "B64 = 2 ^ (64 - shift) * 2 ^ shift" using assms by (simp add: B64_def flip: power_add)
    show ?thesis unfolding b by simp
  qed
  finally show "limbs_val (full_shl_512 slf shift) = ?N * 2 ^ shift"
    by (simp only: mod_mult_div_eq)
qed

lemma full_shr_512_to_limbs:
  assumes "length u = 9" "shift < 64"
  shows "full_shr_512 u shift = to_limbs 8 (limbs_val u div 2 ^ shift)"
proof (rule eq_to_limbsI)
  fix i :: nat assume i: "i < 8"
  then have i9: "i < length u" "i + 1 < length u" using assms by auto
  have c: "limbs_val u div 2 ^ shift div B64 ^ i = limbs_val u div B64 ^ i div 2 ^ shift"
    by (simp only: mult.commute flip: div_mult2_eq)
  have nth: "full_shr_512 u shift ! i = or (drop_bit shift (u ! i))
      (if 0 < shift then push_bit (64 - shift) (u ! (i + 1)) else 0)"
    using i by (simp add: full_shr_512_def)
  show "unat (full_shr_512 u shift ! i) = limbs_val u div 2 ^ shift div B64 ^ i mod B64"
  proof (cases "0 < shift")
    case True
    then show ?thesis
      unfolding c nth using shift_digit [OF True assms(2) i9(1)] i9 unat_shift_pair(2) [OF True assms(2)]
      by simp
  next
    case False
    then show ?thesis
      unfolding c nth using limbs_nth [OF i9(1)] by simp
  qed
qed (simp add: full_shr_512_def)

section \<open>The quotient digit of Algorithm D\<close>

text \<open>
  Throughout, \<open>V\<close> is the normalised divisor with leading digits \<open>v1\<close>, \<open>v2\<close> and \<open>W\<close>
  the current partial remainder with leading digits \<open>u0\<close>, \<open>u1\<close>, \<open>u2\<close>; both are cut
  below at \<open>K\<close>.
\<close>

lemma guess_bounds:
  fixes b K V W U3 V2 Vr Wr :: nat
  assumes V: "V = V2 * K + Vr" "Vr < K" and W: "W = U3 * K + Wr" "Wr < K"
    and norm: "b \<le> V2" and V2: "0 < V2" and g: "U3 div V2 < b"
  shows "W div V \<le> U3 div V2" "U3 div V2 \<le> W div V + 1"
proof -
  let ?g = "U3 div V2"
  have K: "0 < K" using V(2) by simp
  have Vpos: "0 < V" using V V2 K by simp
  have "U3 < Suc ?g * V2"
    using V2 by (metis dividend_less_div_times mult.commute mult_Suc add.commute)
  then have "Suc U3 * K \<le> Suc ?g * V2 * K" by (intro mult_le_mono) auto
  then have "W < Suc ?g * V2 * K" using W by simp
  also have "\<dots> \<le> Suc ?g * V" unfolding V by (simp add: algebra_simps)
  finally show "W div V \<le> ?g"
    using Vpos by (simp add: div_less_iff_less_mult less_Suc_eq_le [symmetric])
  have "?g * V = ?g * V2 * K + ?g * Vr" unfolding V by (simp add: algebra_simps)
  also have "\<dots> \<le> U3 * K + ?g * Vr" by (intro add_mono mult_le_mono) auto
  also have "\<dots> \<le> W + b * K"
    using W V(2) g by (intro add_mono) (auto intro: mult_le_mono)
  also have "\<dots> \<le> W + V" unfolding V using norm by (simp add: trans_le_add1)
  finally have "?g * V \<le> W + V" .
  then have "?g \<le> (W + V) div V" using Vpos by (simp add: less_eq_div_iff_mult_less_eq)
  then show "?g \<le> W div V + 1" using Vpos by (simp add: div_add_self2)
qed

lemma guess_max_bounds:
  fixes b K V W v1 v2 u1 u2 Vr Wr :: nat
  assumes V: "V = (v1 * b + v2) * K + Vr" "Vr < K" and W: "W = ((v1 * b + u1) * b + u2) * K + Wr"
    and v2: "v2 < b" and norm: "b \<le> 2 * v1" and b: "1 < b" and lt: "W < V * b"
  shows "W div V \<le> b - 1" "b - 1 \<le> W div V + 1"
proof -
  have "V < Suc (v1 * b + v2) * K" using V by simp
  also have "\<dots> \<le> (v1 + 1) * b * K" using v2 by (intro mult_le_mono) auto
  finally have V1: "V < (v1 + 1) * (b * K)" by (simp add: algebra_simps)
  have Vpos: "0 < V" using lt by (cases V) auto
  show "W div V \<le> b - 1"
    using lt b Vpos by (metis Suc_pred' less_Suc_eq_le less_mult_imp_div_less mult.commute
        less_trans zero_less_one)
  have "(b - 2) * V \<le> (b - 2) * ((v1 + 1) * (b * K))" using V1 by (intro mult_le_mono) auto
  also have "\<dots> = ((b - 2) * (v1 + 1)) * (b * K)" by (simp only: mult.assoc)
  also have "\<dots> \<le> (v1 * b) * (b * K)"
  proof (rule mult_le_mono1)
    have "(b - 2) * (v1 + 1) = b * v1 + b - 2 * v1 - 2"
      using b by (simp add: algebra_simps diff_mult_distrib)
    then show "(b - 2) * (v1 + 1) \<le> v1 * b" using norm by (simp add: mult.commute)
  qed
  also have "\<dots> \<le> W" unfolding W by (simp add: algebra_simps)
  finally have "b - 2 \<le> W div V" using Vpos by (simp add: less_eq_div_iff_mult_less_eq)
  then show "b - 1 \<le> W div V + 1" by linarith
qed

lemma lex_le_unat:
  "lex_le (split_u128 (ucast (q :: u64) * ucast (v :: u64))) (r, u) \<longleftrightarrow>
   unat q * unat v \<le> unat r * B64 + unat u"
proof -
  let ?p = "ucast q * ucast v :: u128"
  have "unat q * unat v < B64 * B64"
    using unat_u64_lt [of q] unat_u64_lt [of v] by (intro mult_strict_mono) auto
  then have "unat q * unat v < 2 ^ 128" by (simp add: B64_def)
  then have p: "unat ?p = unat q * unat v"
    by (simp add: unat_word_ariths unat_ucast_up)
  have hi: "unat (ucast (drop_bit 64 ?p) :: u64) = unat ?p div B64"
  proof -
    have "unat ?p div B64 < B64"
      using unat_lt_2p [of ?p] by (simp add: less_mult_imp_div_less B64_def)
    then show ?thesis
      by (simp only: unsigned_ucast_eq unat_drop_bit_eq) (simp add: drop_bit_eq_div take_bit_eq_mod B64_def)
  qed
  have lo: "unat (ucast ?p :: u64) = unat ?p mod B64"
    by (simp only: unsigned_ucast_eq) (simp add: take_bit_eq_mod B64_def)
  let ?m = "unat ?p"
  have "?m = ?m div B64 * B64 + ?m mod B64" by simp
  moreover have "?m mod B64 < B64" by simp
  moreover have "a * B64 + x \<le> c * B64 + y \<longleftrightarrow> a < c \<or> a = c \<and> x \<le> y" if "x < B64" "y < B64" for a c x y
  proof (cases a c rule: linorder_cases)
    case less
    then have "Suc a * B64 \<le> c * B64" by (intro mult_le_mono) auto
    with that less show ?thesis by simp
  next
    case greater
    then have "Suc c * B64 \<le> a * B64" by (intro mult_le_mono) auto
    with that greater show ?thesis by simp
  qed simp
  ultimately have "?m \<le> unat r * B64 + unat u \<longleftrightarrow>
      ?m div B64 < unat r \<or> ?m div B64 = unat r \<and> ?m mod B64 \<le> unat u"
    using unat_u64_lt [of u] by metis
  then show ?thesis
    using p hi lo
    by (auto simp: lex_le_def split_u128_def word_less_nat_alt word_le_nat_alt word_unat_eq_iff)
qed

lemma q_hat_loop_correct:
  assumes "0 < unat v1"
    and "unat q * unat v1 + unat r = H"
    and "(H * B64 + unat u2) div (unat v1 * B64 + unat v2) \<le> unat q"
  shows "unat (q_hat_loop v1 v2 u2 q r) = (H * B64 + unat u2) div (unat v1 * B64 + unat v2)"
  using assms
proof (induction v1 v2 u2 q r rule: q_hat_loop.induct)
  case (1 v1 v2 u2 q r)
  let ?U = "H * B64 + unat u2" and ?D = "unat v1 * B64 + unat v2"
  let ?ok = "lex_le (split_u128 (ucast q * ucast v2)) (r, u2)"
  have D: "0 < ?D" using "1.prems"(1) by simp
  have split: "unat q * ?D \<le> ?U \<longleftrightarrow> ?ok"
  proof -
    have "unat q * ?D = unat q * unat v1 * B64 + unat q * unat v2" by (simp add: algebra_simps)
    moreover have "?U = unat q * unat v1 * B64 + (unat r * B64 + unat u2)"
      unfolding "1.prems"(2) [symmetric] by (simp add: algebra_simps)
    ultimately show ?thesis unfolding lex_le_unat by simp
  qed
  show ?case
  proof (cases ?ok)
    case True
    with split have "unat q \<le> ?U div ?D" using D by (simp add: less_eq_div_iff_mult_less_eq)
    then show ?thesis using True "1.prems"(3) by (simp add: q_hat_loop.simps [of v1 v2 u2 q r])
  next
    case False
    with split have "?U div ?D < unat q" using D by (simp add: div_less_iff_less_mult not_le)
    then have q: "?U div ?D \<le> unat q - 1" "0 < unat q" by linarith+
    then have q1: "unat (q - 1) = unat q - 1" by (intro unat_minus_one) auto
    have H: "H = (unat q - 1) * unat v1 + (unat r + unat v1)"
      unfolding "1.prems"(2) [symmetric] using q(2) by (cases "unat q") auto
    show ?thesis
    proof (cases "B64 \<le> unat r + unat v1")
      case ov: True
      have "(unat q - 1) * unat v2 \<le> B64 * B64"
        using unat_u64_lt [of q] unat_u64_lt [of v2] by (intro mult_le_mono) auto
      also have "\<dots> \<le> (unat r + unat v1) * B64" using ov by (intro mult_le_mono) auto
      finally have "(unat q - 1) * ?D \<le> ?U" unfolding H by (simp add: algebra_simps)
      then have "unat q - 1 \<le> ?U div ?D" using D by (simp add: less_eq_div_iff_mult_less_eq)
      then show ?thesis
        using False ov q q1 by (simp add: q_hat_loop.simps [of v1 v2 u2 q r] overflowing_add_def B64_def)
    next
      case no: False
      then have r: "unat (r + v1) = unat r + unat v1"
        by (simp add: unat_add_lem [symmetric] B64_def)
      have "unat (q_hat_loop v1 v2 u2 (q - 1) (r + v1)) = ?U div ?D"
        by (rule "1.IH" [OF False refl _ refl])
          (use no H q q1 r "1.prems"(1) in \<open>auto simp: overflowing_add_def B64_def\<close>)
      then show ?thesis
        using False no by (simp add: q_hat_loop.simps [of v1 v2 u2 q r] overflowing_add_def B64_def)
    qed
  qed
qed

text \<open>
  The situation in which a round of the loop runs: a normalised divisor \<open>v\<close> of \<open>n\<close>
  limbs, and a partial remainder \<open>u\<close> below \<open>v * 2^(64 * (j + 1))\<close>.
\<close>

definition knuth_pre :: "limbs \<Rightarrow> nat \<Rightarrow> nat \<Rightarrow> limbs \<Rightarrow> bool" where
  "knuth_pre v n j u \<longleftrightarrow>
     length v = 4 \<and> 2 \<le> n \<and> n \<le> 4 \<and> limbs_val v < B64 ^ n \<and> B64 \<le> 2 * unat (v ! (n - 1)) \<and>
     length u = 9 \<and> j + n \<le> 8 \<and> limbs_val u < limbs_val v * B64 ^ (j + 1)"

lemma div_power_step: "(X :: nat) div b ^ m = X div b ^ Suc m * b + X div b ^ m mod b"
  by (simp add: power_Suc2 div_mult2_eq del: power_Suc)

lemma knuth_pre_W:
  assumes "knuth_pre v n j u"
  defines "W \<equiv> limbs_val (drop j u)"
  shows "W < limbs_val v * B64" "W < B64 ^ (n + 1)" "0 < limbs_val v"
proof -
  have "limbs_val u < limbs_val v * B64 * B64 ^ j"
    using assms(1) by (simp add: knuth_pre_def mult.assoc)
  then show W: "W < limbs_val v * B64"
    unfolding W_def limbs_val_drop by (simp add: less_mult_imp_div_less)
  also have "\<dots> < B64 ^ n * B64"
    using assms(1) by (intro mult_strict_right_mono) (auto simp: knuth_pre_def)
  finally show "W < B64 ^ (n + 1)" by (simp add: mult.commute)
  show "0 < limbs_val v" using W by (cases "limbs_val v") auto
qed

lemma knuth_digits:
  assumes pre: "knuth_pre v n j u"
  defines "W \<equiv> limbs_val (drop j u)" and "V \<equiv> limbs_val v" and "K \<equiv> B64 ^ (n - 2)"
    and "H \<equiv> unat (u ! (j + n)) * B64 + unat (u ! (j + n - 1))"
    and "D \<equiv> unat (v ! (n - 1)) * B64 + unat (v ! (n - 2))"
  shows "V = D * K + V mod K" "V mod K < K"
    and "W = (H * B64 + unat (u ! (j + n - 2))) * K + W mod K" "W mod K < K"
    and "unat (u ! (j + n)) \<le> unat (v ! (n - 1))"
proof -
  have n: "2 \<le> n" "n \<le> 4" "length v = 4" "length u = 9" "j + n \<le> 8"
    using pre by (auto simp: knuth_pre_def)
  have n2: "Suc (n - 2) = n - 1" "Suc (n - 1) = n" using n by auto
  note W = knuth_pre_W [OF pre, folded W_def V_def]
  have u: "unat (u ! (j + i)) = W div B64 ^ i mod B64" if "i \<le> n" for i
    using limbs_nth [of i "drop j u"] that n by (simp add: W_def)
  have "W div B64 ^ n < B64" using W(2) by (simp add: less_mult_imp_div_less mult.commute)
  then have u0: "unat (u ! (j + n)) = W div B64 ^ n" using u [of n] by simp
  have u12: "unat (u ! (j + n - 1)) = W div B64 ^ (n - 1) mod B64"
      "unat (u ! (j + n - 2)) = W div K mod B64"
    using u [of "n - 1"] u [of "n - 2"] n by (simp_all add: K_def)
  have H: "H = W div B64 ^ (n - 1)"
    unfolding H_def u0 u12 using div_power_step [of W B64 "n - 1"] by (simp only: n2)
  have "W div K = H * B64 + unat (u ! (j + n - 2))"
    unfolding H u12 K_def using div_power_step [of W B64 "n - 2"] by (simp only: n2)
  then show "W = (H * B64 + unat (u ! (j + n - 2))) * K + W mod K"
    by (metis div_mult_mod_eq)
  have Bn: "B64 ^ n = B64 * B64 ^ (n - 1)" using n2 by (metis power_Suc)
  then have "V div B64 ^ (n - 1) < B64"
    using pre by (simp add: V_def knuth_pre_def less_mult_imp_div_less)
  then have v1: "unat (v ! (n - 1)) = V div B64 ^ (n - 1)"
    using limbs_nth [of "n - 1" v] n by (simp add: V_def)
  have v2: "unat (v ! (n - 2)) = V div K mod B64"
    using limbs_nth [of "n - 2" v] n by (simp add: V_def K_def)
  have "V div K = D"
    unfolding D_def v1 v2 K_def using div_power_step [of V B64 "n - 2"] by (simp only: n2)
  then show "V = D * K + V mod K" by (metis div_mult_mod_eq)
  show "V mod K < K" "W mod K < K" by (simp_all add: K_def)
  have "W div B64 ^ n \<le> V * B64 div (B64 * B64 ^ (n - 1))"
    unfolding Bn using W(1) by (intro div_le_mono) simp
  then show "unat (u ! (j + n)) \<le> unat (v ! (n - 1))"
    unfolding u0 v1 by (simp add: mult.commute [of V])
qed

lemma q_hat_guess_correct:
  assumes pre: "knuth_pre v n j u"
  defines "W \<equiv> limbs_val (drop j u)" and "qh \<equiv> q_hat_guess u n (v ! (n - 1)) (v ! (n - 2)) j"
  shows "W div limbs_val v \<le> unat qh \<and> unat qh \<le> W div limbs_val v + 1"
proof -
  let ?u0 = "u ! (j + n)" and ?u1 = "u ! (j + n - 1)" and ?u2 = "u ! (j + n - 2)"
  let ?v1 = "unat (v ! (n - 1))" and ?v2 = "unat (v ! (n - 2))"
  let ?D = "?v1 * B64 + ?v2" and ?H = "unat ?u0 * B64 + unat ?u1"
  note d = knuth_digits [OF pre, folded W_def]
  have norm: "B64 \<le> 2 * ?v1" using pre by (simp add: knuth_pre_def)
  then have v1: "0 < ?v1" using B64_gt(1) by linarith
  then have ge: "B64 \<le> ?D" by (metis mult_le_mono1 Suc_leI mult_1 One_nat_def trans_le_add1)
  show ?thesis
  proof (cases "?u0 < v ! (n - 1)")
    case True
    then have lt: "unat ?u0 < ?v1" by (simp add: word_less_nat_alt)
    obtain q r where dm: "div_mod_word ?u0 ?u1 (v ! (n - 1)) = (q, r)" by force
    note w = div_mod_word_unat [OF lt, of ?u1, unfolded dm fst_conv snd_conv]
    have "?H < Suc (unat q) * ?v1"
      unfolding w using v1 by (metis dividend_less_div_times mult.commute mult_Suc add.commute)
    then have "Suc ?H * B64 \<le> Suc (unat q) * ?v1 * B64" by (intro mult_le_mono1) simp
    also have "\<dots> \<le> Suc (unat q) * ?D" by (simp add: algebra_simps)
    finally have "?H * B64 + unat ?u2 < Suc (unat q) * ?D" using unat_u64_lt [of ?u2] by simp
    then have qge: "(?H * B64 + unat ?u2) div ?D \<le> unat q"
      using ge by (simp add: less_Suc_eq_le [symmetric] less_mult_imp_div_less)
    have "unat q * ?v1 + unat r = ?H" unfolding w by simp
    from q_hat_loop_correct [OF v1 this qge] have "unat qh = (?H * B64 + unat ?u2) div ?D"
      unfolding qh_def q_hat_guess_def using True dm by (simp add: Let_def)
    then show ?thesis
      using guess_bounds [OF d(1,2,3,4) ge] v1 qge unat_u64_lt [of q] by simp
  next
    case False
    with d(5) have eq: "unat ?u0 = ?v1" by (simp add: word_less_nat_alt)
    have "unat qh = B64 - 1"
      unfolding qh_def q_hat_guess_def using False by (simp add: unsigned_minus_1_eq_mask mask_eq_exp_minus_1 B64_def)
    then show ?thesis
      using guess_max_bounds [OF d(1,2) d(3) [unfolded eq] unat_u64_lt norm B64_gt(2)]
        knuth_pre_W(1) [OF pre, folded W_def] by simp
  qed
qed

section \<open>One round and the loop\<close>

lemma sub_slice_val:
  assumes "length b \<le> length a" and "limbs_val a < B64 ^ length b"
  shows "sub_slice a b =
    (to_limbs (length b) (limbs_val a + B64 ^ length b - limbs_val b) @ drop (length b) a,
     limbs_val a < limbs_val b)"
  using assms by (simp add: sub_slice_def Let_def limbs_val_take)

text \<open>
  Adding the divisor back after a borrow: the digits below \<open>n\<close> are added with
  \<open>add_slice\<close>, the carry goes into the digit at \<open>n\<close>, modulo \<open>2^64\<close>.
\<close>

lemma add_back_val:
  assumes len: "length us = n + 1 + k" and y: "length ys = n" and X: "limbs_val us < B64 ^ (n + 1)"
    and r: "add_slice us ys = (us2, c)"
  shows "limbs_val (us2[n := us2 ! n + (if c then 1 else 0)]) = (limbs_val us + limbs_val ys) mod B64 ^ (n + 1)"
    and "length us2 = length us"
proof -
  let ?X = "limbs_val us" and ?Y = "limbs_val ys"
  define s where "s = ?X mod B64 ^ n + ?Y"
  have dn: "drop n us = us ! n # drop (n + 1) us"
    using len by (simp add: Cons_nth_drop_Suc)
  have c: "us2 = to_limbs n s @ us ! n # drop (n + 1) us" "c = (B64 ^ n \<le> s)"
    using r y dn by (auto simp: add_slice_def Let_def limbs_val_take s_def)
  have Y: "?Y < B64 ^ n" using limbs_val_lt [of ys] y by simp
  have "s < 2 * B64 ^ n" unfolding s_def using Y mod_less_divisor [of "B64 ^ n" ?X] B64_gt(1)
    by (metis add_strict_mono mult_2 zero_less_power)
  then have sd: "s div B64 ^ n = (if c then 1 else 0)"
    unfolding c by (auto simp: div_eq_0_iff intro!: div_nat_eqI)
  have z: "limbs_val (drop (n + 1) us) = 0"
    using X by (simp add: limbs_val_drop del: drop_Suc)
  have un: "unat (us ! n) = ?X div B64 ^ n"
  proof -
    have "?X div B64 ^ n < B64" using X by (simp add: less_mult_imp_div_less)
    then show ?thesis using limbs_nth [of n us] len by simp
  qed
  let ?d = "us ! n + (if c then 1 else 0)"
  have d: "unat ?d = (?X div B64 ^ n + s div B64 ^ n) mod B64"
    unfolding un [symmetric] sd by (simp add: unat_word_ariths B64_def)
  have "us2[n := us2 ! n + (if c then 1 else 0)] = to_limbs n s @ ?d # drop (n + 1) us"
    unfolding c by (simp add: list_update_append nth_append)
  then have "limbs_val (us2[n := us2 ! n + (if c then 1 else 0)]) =
      s mod B64 ^ n + B64 ^ n * ((?X div B64 ^ n + s div B64 ^ n) mod B64)"
    using z by (simp add: limbs_val_append limbs_val_to_limbs d del: drop_Suc)
  also have "?X div B64 ^ n + s div B64 ^ n = (?X + ?Y) div B64 ^ n"
    unfolding s_def using Y by (simp add: div_add1_eq [of ?X ?Y])
  also have "s mod B64 ^ n = (?X + ?Y) mod B64 ^ n"
    unfolding s_def by (simp add: mod_add_left_eq)
  finally show "limbs_val (us2[n := us2 ! n + (if c then 1 else 0)]) = (?X + ?Y) mod B64 ^ (n + 1)"
    by (simp add: mod_mult2_eq power_Suc2 del: power_Suc)
  show "length us2 = length us" unfolding c using len by simp
qed

lemma knuth_sub_val:
  assumes pre: "knuth_pre v n j u"
  defines "W \<equiv> limbs_val (drop j u)"
  shows "\<exists>us. sub_slice (drop j u) (take (n + 1) (full_mul_u64 v qh)) = (us, W < unat qh * limbs_val v) \<and>
    length us = 9 - j \<and>
    limbs_val us = (W + B64 ^ (n + 1) - unat qh * limbs_val v) mod B64 ^ (n + 1)"
proof -
  let ?b = "take (n + 1) (full_mul_u64 v qh)"
  have len: "length v = 4" "n \<le> 4" "length u = 9" "j + n \<le> 8" and V: "limbs_val v < B64 ^ n"
    using pre by (auto simp: knuth_pre_def)
  note W = knuth_pre_W [OF pre, folded W_def]
  have lb: "length ?b = n + 1" using len by (simp add: full_mul_u64_def)
  have qv: "limbs_val v * unat qh < B64 ^ (n + 1)"
    unfolding power_add using V unat_u64_lt [of qh] by (intro mult_strict_mono) auto
  also have "\<dots> \<le> B64 ^ 5" using len by (intro power_increasing) auto
  finally have vb: "limbs_val ?b = unat qh * limbs_val v"
    using qv len by (simp add: limbs_val_take full_mul_u64_def limbs_val_to_limbs mult.commute)
  have z: "limbs_val (drop (n + 1) (drop j u)) = 0"
    using W(2) by (simp only: limbs_val_drop [of "n + 1"] W_def [symmetric]) simp
  have l: "length ?b \<le> length (drop j u)" unfolding lb using len by simp
  show ?thesis
    unfolding sub_slice_val [OF l, unfolded lb, folded W_def, OF W(2)] vb
    using z len by (auto simp: limbs_val_append limbs_val_to_limbs)
qed

lemma knuth_step_digits:
  assumes pre: "knuth_pre v n j u" and step: "knuth_step v n j (u, q) = (u', q')"
  defines "W \<equiv> limbs_val (drop j u)"
  shows "\<exists>us e. u' = take j u @ us \<and> length us = 9 - j \<and> q' = q[j := e] \<and>
    unat e = W div limbs_val v \<and> limbs_val us = W mod limbs_val v"
proof -
  let ?V = "limbs_val v" and ?M = "B64 ^ (n + 1)"
  define d where "d = W div ?V"
  define qh where "qh = q_hat_guess u n (v ! (n - 1)) (v ! (n - 2)) j"
  have len: "length v = 4" "2 \<le> n" "n \<le> 4" "length u = 9" "j + n \<le> 8"
    and V: "?V < B64 ^ n" using pre by (auto simp: knuth_pre_def)
  have W: "W < ?V * B64" "W < ?M" "0 < ?V"
    using knuth_pre_W [OF pre] by (simp_all add: W_def)
  have g: "d \<le> unat qh" "unat qh \<le> d + 1"
    using q_hat_guess_correct [OF pre] by (simp_all add: d_def W_def qh_def)
  have dm: "W = d * ?V + W mod ?V" "W mod ?V < ?V" using W(3) by (simp_all add: d_def)
  obtain us where us: "sub_slice (drop j u) (take (n + 1) (full_mul_u64 v qh)) = (us, W < unat qh * ?V)"
    "length us = 9 - j" "limbs_val us = (W + ?M - unat qh * ?V) mod ?M"
    using knuth_sub_val [OF pre, of qh] unfolding W_def by blast
  note st = step [unfolded knuth_step_def Let_def prod.case, folded qh_def, unfolded us(1) prod.case]
  show ?thesis
  proof (cases "W < unat qh * ?V")
    case False
    have "unat qh \<le> d" unfolding d_def using False W(3) by (simp add: less_eq_div_iff_mult_less_eq)
    with g have "unat qh = d" by simp
    moreover have "limbs_val us = W mod ?V"
    proof -
      have "W + ?M - unat qh * ?V = W mod ?V + ?M"
        unfolding \<open>unat qh = d\<close> using dm(1) by linarith
      moreover have "W mod ?V < ?M" using W(2) by (metis le_less_trans mod_less_eq_dividend)
      ultimately show ?thesis unfolding us by simp
    qed
    ultimately show ?thesis
      using st us(2) False unfolding d_def by auto
  next
    case True
    have "\<not> unat qh \<le> d"
      using True dm(1) by (metis mult_le_mono1 not_le trans_le_add1)
    with g have qh: "unat qh = d + 1" by simp
    then have e: "unat (qh - 1) = d" by (subst unat_minus_one) auto
    obtain us2 c2 where as: "add_slice us (take n v) = (us2, c2)" by force
    have "0 < ?M" by simp
    with True have lt: "W + ?M - unat qh * ?V < ?M" by linarith
    have us_lt: "limbs_val us < ?M" unfolding us by simp
    have vn: "limbs_val (take n v) = ?V" "length (take n v) = n"
      using V len by (simp_all add: limbs_val_take)
    have lus: "length us = n + 1 + (8 - j - n)" using us(2) len by simp
    note ab = add_back_val [OF lus vn(2) us_lt as, unfolded vn(1)]
    have "(d + 1) * ?V \<le> W + ?V" using dm(1) by simp
    also have "\<dots> \<le> W + ?M" using V by (simp add: le_trans [OF less_imp_le])
    finally have "W + ?M - unat qh * ?V + ?V = W mod ?V + ?M"
      unfolding qh using dm(1) by (simp add: distrib_right)
    then have "limbs_val us + ?V = W mod ?V + ?M"
      unfolding us using lt by simp
    moreover have "W mod ?V < ?M" using W(2) by (metis le_less_trans mod_less_eq_dividend)
    ultimately have val: "limbs_val (us2[n := us2 ! n + (if c2 then 1 else 0)]) = W mod ?V"
      unfolding ab by simp
    have "u' = take j u @ us2[n := us2 ! n + (if c2 then 1 else 0)] \<and> q' = q[j := qh - 1]"
      using st as True len by (auto simp: list_update_append nth_append min_absorb2)
    then show ?thesis
      using val e ab(2) us(2) by (auto simp: d_def)
  qed
qed

lemma knuth_step_correct:
  assumes pre: "knuth_pre v n j u" and step: "knuth_step v n j (u, q) = (u', q')"
    and q: "length q = 8" "q ! j = 0"
  shows "length u' = 9" "length q' = 8" "\<forall>i<j. q' ! i = q ! i"
    and "limbs_val u' + limbs_val q' * limbs_val v = limbs_val u + limbs_val q * limbs_val v"
    and "limbs_val u' < limbs_val v * B64 ^ j"
proof -
  let ?V = "limbs_val v" and ?W = "limbs_val (drop j u)"
  have j: "j < 8" "length u = 9" using pre by (auto simp: knuth_pre_def)
  obtain us e where r: "u' = take j u @ us" "length us = 9 - j" "q' = q[j := e]"
    "unat e = ?W div ?V" "limbs_val us = ?W mod ?V"
    using knuth_step_digits [OF pre step] by blast
  show "length u' = 9" "length q' = 8" "\<forall>i<j. q' ! i = q ! i"
    using r q j by auto
  have u: "limbs_val u = limbs_val (take j u) + B64 ^ j * ?W"
    using j by (intro limbs_val_take_drop) simp
  have u': "limbs_val u' = limbs_val (take j u) + B64 ^ j * (?W mod ?V)"
    unfolding r(1) limbs_val_append r(5) using j by simp
  have q': "limbs_val q' = limbs_val q + B64 ^ j * (?W div ?V)"
    unfolding r(3) r(4) [symmetric] using q j by (intro limbs_val_update) auto
  have "?W = ?W div ?V * ?V + ?W mod ?V" by simp
  then have "B64 ^ j * ?W = B64 ^ j * (?W mod ?V) + B64 ^ j * (?W div ?V) * ?V"
    by (metis add.commute distrib_left mult.assoc)
  then show "limbs_val u' + limbs_val q' * ?V = limbs_val u + limbs_val q * ?V"
    unfolding u u' q' by (simp add: distrib_right)
  have "limbs_val (take j u) < B64 ^ j" using limbs_val_lt [of "take j u"] j by simp
  moreover have "B64 ^ j * Suc (?W mod ?V) \<le> B64 ^ j * ?V"
    using knuth_pre_W(3) [OF pre] by (intro mult_le_mono) (auto simp: Suc_le_eq)
  ultimately show "limbs_val u' < ?V * B64 ^ j"
    unfolding u' by (simp add: mult.commute)
qed

lemma knuth_loop_correct:
  assumes "knuth_pre v n j u" and "length q = 8" "\<forall>i\<le>j. q ! i = 0"
    and "knuth_loop v n j (u, q) = (u', q')"
  shows "length u' = 9 \<and> length q' = 8 \<and> limbs_val u' < limbs_val v \<and>
    limbs_val u' + limbs_val q' * limbs_val v = limbs_val u + limbs_val q * limbs_val v"
  using assms
proof (induction j arbitrary: u q)
  case 0
  then show ?case
    using knuth_step_correct [OF 0(1) _ 0(2)] by simp
next
  case (Suc j)
  obtain u1 q1 where s: "knuth_step v n (Suc j) (u, q) = (u1, q1)" by force
  note c = knuth_step_correct [OF Suc.prems(1) s Suc.prems(2)]
  have z: "q ! Suc j = 0" using Suc.prems(3) by simp
  have pre: "knuth_pre v n j u1"
    using Suc.prems(1) c(1,5) [OF z] by (auto simp: knuth_pre_def)
  have "\<forall>i\<le>j. q1 ! i = 0" using c(3) [OF z] Suc.prems(3) by simp
  moreover have "knuth_loop v n j (u1, q1) = (u', q')" using Suc.prems(4) s by simp
  ultimately show ?case
    using Suc.IH [OF pre c(2) [OF z]] c(4) [OF z] by simp
qed

section \<open>Division of a 512-bit by a 256-bit integer\<close>

lemma words_of_bits_bound: "0 < k \<Longrightarrow> k \<le> 64 * w \<longleftrightarrow> words_of_bits k \<le> w"
  by (cases w) (auto simp: words_of_bits_def)

lemma bitlen_words_bounds:
  assumes "0 < x"
  defines "w \<equiv> words_of_bits (bitlen x)"
  shows "x < B64 ^ w" "B64 ^ (w - 1) \<le> x"
proof -
  have p: "0 < bitlen x" using assms by simp
  have P: "B64 ^ k = 2 ^ (64 * k)" for k by (simp only: B64_def power_mult)
  show "x < B64 ^ w"
    unfolding P w_def bitlen_le_iff [symmetric] words_of_bits_bound [OF p] by simp
  have "\<not> bitlen x \<le> 64 * (w - 1)"
    unfolding words_of_bits_bound [OF p] using w_def by (simp add: words_of_bits_def)
  then show "B64 ^ (w - 1) \<le> x" unfolding P bitlen_le_iff by simp
qed

text \<open>Normalisation: the shifted divisor fills its \<open>n\<close> limbs up to the top bit.\<close>

lemma normalised_divisor:
  assumes n: "2 \<le> n" "n \<le> 4" and lo: "B64 ^ (n - 1) \<le> unat v0" and hi: "unat v0 < B64 ^ n"
  defines "shift \<equiv> leading_zeros (uint_limbs v0 ! (n - 1))"
  defines "v \<equiv> uint_limbs (push_bit shift v0)"
  shows "shift < 64" "limbs_val v = unat v0 * 2 ^ shift" "limbs_val v < B64 ^ n"
    and "B64 \<le> 2 * unat (v ! (n - 1))"
proof -
  let ?P = "B64 ^ (n - 1)" and ?t = "uint_limbs v0 ! (n - 1)"
  have Bn: "B64 ^ n = B64 * ?P" using n by (simp flip: power_Suc)
  have t: "unat ?t = unat v0 div ?P"
    using limbs_nth [of "n - 1" "uint_limbs v0"] n hi unfolding Bn by (simp add: less_mult_imp_div_less)
  then have "0 < unat ?t" using lo by (simp add: div_greater_zero_iff)
  then have t0: "?t \<noteq> 0" by auto
  note nz = leading_zeros_normalise [OF t0, folded shift_def]
  show "shift < 64" by (rule nz)
  have "unat v0 < (unat ?t + 1) * ?P"
    unfolding t using lo by (metis B64_gt(1) Suc_eq_plus1 dividend_less_div_times mult_Suc zero_less_power)
  then have "unat v0 * 2 ^ shift < (unat ?t + 1) * ?P * 2 ^ shift"
    by (rule mult_strict_right_mono) simp
  also have "\<dots> \<le> B64 * ?P"
    using mult_le_mono1 [OF nz(3), of ?P] by (simp only: mult_ac)
  finally have lt: "unat v0 * 2 ^ shift < B64 ^ n" unfolding Bn .
  also have "\<dots> \<le> B64 ^ 4" using n by (intro power_increasing) auto
  finally have "unat (push_bit shift v0) = unat v0 * 2 ^ shift"
    by (simp only: unsigned_push_bit_eq)
      (simp add: push_bit_eq_mult take_bit_nat_eq_self B64_def)
  then show V: "limbs_val v = unat v0 * 2 ^ shift" by (simp add: v_def)
  then show "limbs_val v < B64 ^ n" using lt by simp
  have "unat (v ! (n - 1)) = unat v0 * 2 ^ shift div ?P"
    using limbs_nth [of "n - 1" v] n lt V unfolding Bn by (simp add: v_def less_mult_imp_div_less)
  moreover have "unat ?t * 2 ^ shift \<le> unat v0 * 2 ^ shift div ?P"
    unfolding t by (simp add: less_eq_div_iff_mult_less_eq mult_ac div_times_less_eq_dividend)
  ultimately show "B64 \<le> 2 * unat (v ! (n - 1))" using nz(2) by linarith
qed

lemma div_mod_knuth_512_correct:
  assumes len: "length slf = 8" and v0: "64 < bitlen (unat v0)"
    and le: "bitlen (unat v0) \<le> bitlen (limbs_val slf)"
  defines "n \<equiv> words_of_bits (bitlen (unat v0))"
  defines "m \<equiv> words_of_bits (bitlen (limbs_val slf)) - n"
  assumes res: "div_mod_knuth_512 slf v0 n m = (q, r)"
  shows "length q = 8 \<and> limbs_val q = limbs_val slf div unat v0 \<and> unat r = limbs_val slf mod unat v0"
proof -
  let ?N = "limbs_val slf" and ?d = "unat v0"
  define shift where "shift = leading_zeros (uint_limbs v0 ! (n - 1))"
  define v where "v = uint_limbs (push_bit shift v0)"
  define u where "u = full_shl_512 slf shift"
  have pos: "0 < ?d" "0 < ?N" using v0 le by (metis bitlen_0 gr0I not_less_zero le_zero_eq)+
  note bv = bitlen_words_bounds [OF pos(1), folded n_def]
  have n: "2 \<le> n" "n \<le> 4"
    using v0 bitlen_le_iff [of ?d 256] unat_lt_2p [of v0] by (auto simp: n_def words_of_bits_def)
  have nm: "m + n = words_of_bits (bitlen ?N)"
    using le unfolding m_def n_def words_of_bits_def by (simp add: div_le_mono diff_le_mono)
  have "bitlen ?N \<le> 64 * 8"
    using limbs_val_lt [of slf] len unfolding bitlen_le_iff by (simp add: B64_def)
  then have nm8: "m + n \<le> 8" unfolding nm using pos words_of_bits_bound [of "bitlen ?N" 8] by simp
  note nd = normalised_divisor [OF n bv(2,1), folded shift_def, folded v_def]
  note ul = full_shl_512_val [OF len nd(1), folded u_def]
  have "?N * 2 ^ shift < ?d * 2 ^ shift * B64 ^ (m + 1)"
  proof -
    have "?N < B64 ^ (m + n)" using bitlen_words_bounds(1) [OF pos(2)] by (simp only: nm)
    also have "m + n = (n - 1) + (m + 1)" using n by simp
    also have "B64 ^ \<dots> = B64 ^ (n - 1) * B64 ^ (m + 1)" by (rule power_add)
    also have "\<dots> \<le> ?d * B64 ^ (m + 1)" using bv(2) by (rule mult_le_mono1)
    finally show ?thesis by (simp add: mult_ac)
  qed
  then have pre: "knuth_pre v n m u"
    using n nd ul nm8 by (simp add: knuth_pre_def v_def)
  obtain u' where loop: "knuth_loop v n m (u, replicate 8 0) = (u', q)"
    and r: "r = uint_of_limbs (take 4 (full_shr_512 u' shift))"
    using res [unfolded div_mod_knuth_512_def Let_def, folded shift_def, folded v_def u_def]
    by (auto split: prod.splits)
  have "m < 8" using n nm8 by linarith
  then have z: "\<forall>i\<le>m. replicate 8 (0 :: u64) ! i = 0" by simp
  note k = knuth_loop_correct [OF pre length_replicate z loop]
  then have eq: "limbs_val u' + limbs_val q * (?d * 2 ^ shift) = ?N * 2 ^ shift"
    and lt: "limbs_val u' < ?d * 2 ^ shift" using ul(2) nd(2) by simp_all
  have "limbs_val q = ?N * 2 ^ shift div (?d * 2 ^ shift)"
    and u': "limbs_val u' = ?N * 2 ^ shift mod (?d * 2 ^ shift)"
    unfolding eq [symmetric] using lt pos(1) by simp_all
  then have "limbs_val q = ?N div ?d" "limbs_val u' = ?N mod ?d * 2 ^ shift" by simp_all
  moreover have "limbs_val u' div 2 ^ shift = ?N mod ?d" using calculation by simp
  moreover have "?N mod ?d < B64 ^ 4"
    using pos(1) unat_lt_2p [of v0] mod_less_divisor [OF pos(1), of ?N] by (simp add: B64_def)
  moreover from this have "?N mod ?d < B64 ^ 8"
    by (rule less_le_trans) (simp add: power_increasing)
  ultimately show ?thesis
    using k unfolding r
    by (simp add: full_shr_512_to_limbs [OF _ nd(1)] unat_uint_of_limbs limbs_val_take limbs_val_to_limbs)
qed

lemma div_mod_512_correct:
  assumes len: "length slf = 8" and d: "other \<noteq> 0"
  shows "\<exists>q r. div_mod_512 slf other = Some (Some (q, r)) \<and> length q = 8 \<and>
    limbs_val q = limbs_val slf div unat other \<and> unat r = limbs_val slf mod unat other"
proof -
  let ?N = "limbs_val slf" and ?d = "unat other"
  have pos: "0 < ?d" using d by (simp add: unat_gt_0)
  have mb: "bits_512 slf = bitlen ?N" using len by (intro bits_512_bitlen) auto
  consider "bitlen ?N < bitlen ?d" | "bitlen ?d \<le> bitlen ?N" "bitlen ?d \<le> 64"
    | "bitlen ?d \<le> bitlen ?N" "64 < bitlen ?d" by linarith
  then show ?thesis
  proof cases
    case 1
    then have "?N < 2 ^ (bitlen ?d - 1)" by (simp flip: bitlen_le_iff)
    then have lt: "?N < ?d" using bitlen_bounds [OF pos] by linarith
    then have "?N < B64 ^ 4" using unat_lt_2p [of other] by (simp add: B64_def)
    then have "unat (uint_of_limbs (take 4 slf)) = ?N"
      using len by (simp add: unat_uint_of_limbs limbs_val_take)
    with 1 pos lt show ?thesis
      by (simp add: div_mod_512_def Let_def mb uint_bits_def)
  next
    case 2
    have "?d < 2 ^ 64" using 2(2) bitlen_le_iff by blast
    then have u: "unat (ucast other :: u64) = ?d"
      by (simp add: unsigned_ucast_eq take_bit_nat_eq_self)
    then have "(ucast other :: u64) \<noteq> 0" using pos by auto
    then show ?thesis
      using 2 pos len div_mod_small_512_correct [of "ucast other" slf] u
      by (cases "div_mod_small_512 slf (ucast other)") (simp add: div_mod_512_def Let_def mb uint_bits_def)
  next
    case 3
    let ?n = "words_of_bits (bitlen ?d)" and ?k = "words_of_bits (bitlen ?N)"
    have "?n \<le> ?k"
      unfolding words_of_bits_def using 3 by (simp add: div_le_mono diff_le_mono)
    with 3 pos have "div_mod_512 slf other = Some (Some (div_mod_knuth_512 slf other ?n (?k - ?n)))"
      unfolding div_mod_512_def Let_def mb uint_bits_def by simp
    moreover obtain q r where qr: "div_mod_knuth_512 slf other ?n (?k - ?n) = (q, r)" by force
    ultimately have "div_mod_512 slf other = Some (Some (q, r))" by (simp only:)
    then show ?thesis
      using div_mod_knuth_512_correct [OF len 3(2,1) qr] by blast
  qed
qed

lemma checked_mul_div_exact:
  "checked_mul_div a b d =
     (if d = 0 \<or> 2 ^ 256 \<le> unat a * unat b div unat d then None
      else Some (of_nat (unat a * unat b div unat d), of_nat (unat a * unat b mod unat d)))"
proof (cases "d = 0")
  case False
  let ?P = "unat a * unat b"
  have "?P < 2 ^ 256 * 2 ^ 256"
    using unat_lt_2p [of a] unat_lt_2p [of b] by (intro mult_strict_mono) auto
  then have p: "limbs_val (full_mul a b) = ?P" "length (full_mul a b) = 8"
    by (simp_all add: full_mul_def limbs_val_to_limbs B64_def)
  obtain q r where q: "div_mod_512 (full_mul a b) d = Some (Some (q, r))" "length q = 8"
    "limbs_val q = ?P div unat d" "unat r = ?P mod unat d"
    using div_mod_512_correct [OF p(2) False] unfolding p by blast
  have hi: "(\<exists>x \<in> set (drop 4 q). x \<noteq> 0) \<longleftrightarrow> 2 ^ 256 \<le> ?P div unat d"
  proof -
    have "(\<exists>x \<in> set (drop 4 q). x \<noteq> 0) \<longleftrightarrow> limbs_val (drop 4 q) \<noteq> 0"
      by (auto simp: limbs_val_eq_0_iff)
    also have "\<dots> \<longleftrightarrow> B64 ^ 4 \<le> ?P div unat d"
      unfolding limbs_val_drop q by (simp add: div_eq_0_iff not_less)
    finally show ?thesis by (simp add: B64_def)
  qed
  have lo: "uint_of_limbs (take 4 q) = of_nat (?P div unat d)" if "?P div unat d < 2 ^ 256"
    using that q by (simp add: uint_of_limbs_def limbs_val_take B64_def)
  have r: "r = of_nat (?P mod unat d)" using q(4) by (rule unat_eqI_of_nat)
  have eq: "checked_mul_div a b d =
      (if \<exists>x \<in> set (drop 4 q). x \<noteq> 0 then None else Some (uint_of_limbs (take 4 q), r))"
    unfolding checked_mul_div_def q(1) using False by simp
  show ?thesis
  proof (cases "2 ^ 256 \<le> ?P div unat d")
    case True
    then show ?thesis unfolding eq hi by simp
  next
    case False
    then show ?thesis unfolding eq hi using lo r \<open>d \<noteq> 0\<close> by (simp only: not_le if_False simp_thms)
  qed
qed (simp add: checked_mul_div_def)

text \<open>
  C2: The specification of \<open>checked_mul_div\<close>: the exact product divided by \<open>denom\<close>, unless
  the divisor is zero or the quotient needs more than 256 bits.
\<close>

theorem checked_mul_div_eq:
  "checked_mul_div a b d =
     (if d = 0 \<or> 2 ^ 256 \<le> unat a * unat b div unat d then None
      else Some (of_nat (unat a * unat b div unat d), of_nat (unat a * unat b mod unat d)))"
  by (rule checked_mul_div_exact)

end
