(* ===== verification/Uint256.thy ===== *)
theory Uint256
  imports Uint512
begin

text \<open>
  The rest of \<open>core/src/uint.rs\<close>: the integer operations of the unsigned 256-bit type
  \<open>Uint\<close>, and the signed 256-bit type \<open>I256\<close>, a two's complement reading of a \<open>Uint\<close>
  that has no second zero. The lemmas relate every operation to the integer operation it
  stands for.
\<close>

unbundle bit_operations_syntax

section \<open>Unsigned integers\<close>

definition MAX_VALUE :: Uint where
  "MAX_VALUE = - 1"

definition MAX_SIGNED_VALUE :: Uint where
  "MAX_SIGNED_VALUE = uint_of_limbs [- 1, - 1, - 1, 9223372036854775807]"

definition MINUS_ZERO :: Uint where
  "MINUS_ZERO = uint_of_limbs [0, 0, 0, 9223372036854775808]"

definition exp10 :: "nat \<Rightarrow> Uint" where
  "exp10 n = 10 ^ n"

definition fixed_precision_div :: "Uint \<Rightarrow> Uint \<Rightarrow> u8 \<Rightarrow> Uint option" where
  "fixed_precision_div slf rhs denom =
     do {
       res \<leftarrow> checked_pow 10 (unat denom);
       x \<leftarrow> checked_mul_div res slf rhs;
       Some (fst x)
     }"

definition Uint_canonical :: "Uint \<Rightarrow> Uint" where
  "Uint_canonical x = (if x = MINUS_ZERO then 0 else x)"

definition Uint_negate :: "Uint \<Rightarrow> Uint \<times> bool" where
  "Uint_negate x =
     (let output = uint_of_limbs (map (\<lambda>byte. byte XOR - 1) (uint_limbs x));
          (res, overflow) = overflowing_add output 1
      in (Uint_canonical res, overflow))"

text \<open>The \<open>Integer\<close> instance used by the rational voting powers.\<close>

fun trailing_zeros_nat :: "nat \<Rightarrow> nat" where
  "trailing_zeros_nat n = (if n = 0 \<or> odd n then 0 else Suc (trailing_zeros_nat (n div 2)))"

declare trailing_zeros_nat.simps [simp del]

definition trailing_zeros :: "Uint \<Rightarrow> nat" where
  "trailing_zeros x = (if x = 0 then 256 else trailing_zeros_nat (unat x))"

partial_function (option) gcd_loop :: "Uint \<Rightarrow> Uint \<Rightarrow> Uint option" where
  "gcd_loop u v =
     (let v1 = drop_bit (trailing_zeros v) v;
          (u2, v2) = (if u > v1 then (v1, u) else (u, v1));
          v3 = v2 - u2
      in if v3 = 0 then Some u2 else gcd_loop u2 v3)"

definition Uint_gcd :: "Uint \<Rightarrow> Uint \<Rightarrow> Uint option" where
  "Uint_gcd slf other =
     (if slf = 0 then Some slf
      else if other = 0 then Some other
      else
        let shift = trailing_zeros (slf OR other);
            u = drop_bit shift slf;
            v = drop_bit shift other;
            u1 = drop_bit (trailing_zeros u) u
        in map_option (push_bit shift) (gcd_loop u1 v))"

definition Uint_divides :: "Uint \<Rightarrow> Uint \<Rightarrow> bool" where
  "Uint_divides slf other = (case checked_rem other slf of None \<Rightarrow> False | Some rem \<Rightarrow> rem = 0)"

definition Uint_is_multiple_of :: "Uint \<Rightarrow> Uint \<Rightarrow> bool" where
  "Uint_is_multiple_of slf other = Uint_divides slf other"

definition Uint_is_even :: "Uint \<Rightarrow> bool" where
  "Uint_is_even slf = (slf AND 1 \<noteq> 1)"

definition Uint_is_odd :: "Uint \<Rightarrow> bool" where
  "Uint_is_odd slf = (\<not> Uint_is_even slf)"

section \<open>Signed integers\<close>

datatype I256 = I256 (i256_inner: Uint)

definition I256_negate :: "I256 \<Rightarrow> I256 option" where
  "I256_negate x =
     (let (uint, overflow) = Uint_negate (i256_inner x)
      in if overflow then None else Some (I256 uint))"

definition I256_non_negative :: "I256 \<Rightarrow> bool" where
  "I256_non_negative x \<longleftrightarrow> leading_zeros (uint_limbs (i256_inner x) ! 3) > 0"

definition I256_is_negative :: "I256 \<Rightarrow> bool" where
  "I256_is_negative x \<longleftrightarrow> \<not> I256_non_negative x"

definition I256_is_zero :: "I256 \<Rightarrow> bool" where
  "I256_is_zero x \<longleftrightarrow> i256_inner x = 0"

definition I256_is_positive :: "I256 \<Rightarrow> bool" where
  "I256_is_positive x \<longleftrightarrow> I256_non_negative x \<and> \<not> I256_is_zero x"

definition I256_abs :: "I256 \<Rightarrow> Uint" where
  "I256_abs x = (if I256_non_negative x then i256_inner x else fst (Uint_negate (i256_inner x)))"

definition I256_zero :: I256 where
  "I256_zero = I256 0"

definition I256_one :: I256 where
  "I256_one = I256 1"

definition I256_canonical :: "I256 \<Rightarrow> I256" where
  "I256_canonical x = I256 (Uint_canonical (i256_inner x))"

definition I256_maximum :: I256 where
  "I256_maximum = I256 MAX_SIGNED_VALUE"

definition I256_try_from_uint :: "Uint \<Rightarrow> I256 option" where
  "I256_try_from_uint value = (if value \<le> MAX_SIGNED_VALUE then Some (I256 value) else None)"

definition I256_checked_neg :: "I256 \<Rightarrow> I256 option" where
  "I256_checked_neg x =
     (if I256_is_zero x then Some x
      else
        let (inner, overflow) = Uint_negate (i256_inner x)
        in if overflow then None else Some (I256 inner))"

definition I256_checked_add :: "I256 \<Rightarrow> I256 \<Rightarrow> I256 option" where
  "I256_checked_add slf rhs =
     do {
       result \<leftarrow>
         (if I256_non_negative slf then
            if I256_non_negative rhs then
              do {
                inner \<leftarrow> checked_add (i256_inner slf) (i256_inner rhs);
                if inner > MAX_SIGNED_VALUE then None else Some (I256 inner)
              }
            else if i256_inner slf \<ge> I256_abs rhs then
              map_option I256 (checked_sub (i256_inner slf) (I256_abs rhs))
            else
              do {
                d \<leftarrow> checked_sub (I256_abs rhs) (i256_inner slf);
                I256_checked_neg (I256 d)
              }
          else if I256_non_negative rhs then
            if i256_inner rhs \<ge> I256_abs slf then
              map_option I256 (checked_sub (I256_abs rhs) (I256_abs slf))
            else
              do {
                d \<leftarrow> checked_sub (I256_abs slf) (i256_inner rhs);
                I256_checked_neg (I256 d)
              }
          else
            do {
              inner \<leftarrow> checked_add (I256_abs slf) (I256_abs rhs);
              if inner > MAX_SIGNED_VALUE then None else I256_checked_neg (I256 inner)
            });
       Some (I256_canonical result)
     }"

definition I256_checked_sub :: "I256 \<Rightarrow> I256 \<Rightarrow> I256 option" where
  "I256_checked_sub slf other = do { n \<leftarrow> I256_checked_neg other; I256_checked_add slf n }"

definition I256_checked_mul :: "I256 \<Rightarrow> I256 \<Rightarrow> I256 option" where
  "I256_checked_mul slf v =
     do {
       m \<leftarrow> checked_mul (I256_abs slf) (I256_abs v);
       unsigned_res \<leftarrow> I256_try_from_uint m;
       if I256_is_negative slf \<noteq> I256_is_negative v then I256_checked_neg unsigned_res
       else Some unsigned_res
     }"

definition I256_checked_div :: "I256 \<Rightarrow> I256 \<Rightarrow> I256 option" where
  "I256_checked_div slf rhs =
     (if I256_is_zero rhs then None
      else
        let quot = (case fixed_precision_div (I256_abs slf) (I256_abs rhs) 0 of
                      None \<Rightarrow> 0 | Some q \<Rightarrow> q)
        in if I256_is_negative slf = I256_is_negative rhs then Some (I256 quot)
           else I256_checked_neg (I256 quot))"

definition I256_checked_rem :: "I256 \<Rightarrow> I256 \<Rightarrow> I256 option" where
  "I256_checked_rem slf rhs =
     do {
       inner \<leftarrow> checked_rem (I256_abs slf) (I256_abs rhs);
       if I256_is_negative slf then I256_checked_neg (I256 inner) else Some (I256 inner)
     }"

fun I256_sum_from :: "I256 \<Rightarrow> I256 list \<Rightarrow> I256 option" where
  "I256_sum_from acc [] = Some acc"
| "I256_sum_from acc (amt # iter) = do { acc' \<leftarrow> I256_checked_add acc amt; I256_sum_from acc' iter }"

definition I256_sum :: "I256 list \<Rightarrow> I256 option" where
  "I256_sum iter = I256_sum_from I256_zero iter"

datatype ordering = Less | Equal | Greater

definition cmp_word :: "'a::len word \<Rightarrow> 'a word \<Rightarrow> ordering" where
  "cmp_word a b = (if a < b then Less else if a = b then Equal else Greater)"

definition I256_cmp :: "I256 \<Rightarrow> I256 \<Rightarrow> ordering" where
  "I256_cmp slf other =
     (case (I256_non_negative slf, I256_non_negative other) of
        (True, False) \<Rightarrow> Greater
      | (False, True) \<Rightarrow> Less
      | (True, True) \<Rightarrow> cmp_word (I256_abs slf) (I256_abs other)
      | (False, False) \<Rightarrow> cmp_word (I256_abs other) (I256_abs slf))"

definition i128_min_abs :: Uint where
  "i128_min_abs = 170141183460469231731687303715884105728"

text \<open>
  Conversions from and to \<open>i128\<close>: an \<open>i128\<close> is a 128-bit word read with \<^const>\<open>sint\<close>; the
  \<open>expect\<close> calls of \<open>From<i128>\<close> are the \<^const>\<open>None\<close> results.
\<close>

definition I256_from_i128 :: "i128 \<Rightarrow> I256 option" where
  "I256_from_i128 val =
     (if sint val = - (2 ^ 127) then I256_checked_neg (I256 i128_min_abs)
      else if sint val < 0 then I256_checked_neg (I256 (ucast (- val)))
      else Some (I256 (ucast val)))"

definition i128_try_from_I256 :: "I256 \<Rightarrow> i128 option" where
  "i128_try_from_I256 value =
     do {
       i128_min \<leftarrow> I256_checked_neg (I256 i128_min_abs);
       if value = i128_min then Some (of_int (- (2 ^ 127)))
       else
         let low = ucast (I256_abs value) :: u128
         in if unat low < 2 ^ 127 then
              Some (if \<not> I256_non_negative value then - low else low)
            else None
     }"

section \<open>The integer a signed value denotes\<close>

text \<open>
  \<open>i256_val\<close> reads the two's complement representation. The invariant excludes the bit
  pattern of \<open>MINUS_ZERO\<close>, so that the values are the integers between \<open>-(2^255 - 1)\<close>
  and \<open>2^255 - 1\<close> and each has one representation.
\<close>

definition i256_val :: "I256 \<Rightarrow> int" where
  "i256_val x = sint (i256_inner x)"

definition i256_of :: "int \<Rightarrow> I256" where
  "i256_of z = I256 (word_of_int z)"

definition I256_inv :: "I256 \<Rightarrow> bool" where
  "I256_inv x \<longleftrightarrow> i256_inner x \<noteq> MINUS_ZERO"

lemma MAX_SIGNED_VALUE_eq: "MAX_SIGNED_VALUE = 2 ^ 255 - 1"
  by (simp add: MAX_SIGNED_VALUE_def uint_of_limbs_def B64_def unsigned_minus_1_eq_mask mask_eq_exp_minus_1)

lemma MINUS_ZERO_eq: "MINUS_ZERO = 2 ^ 255"
  by (simp add: MINUS_ZERO_def uint_of_limbs_def B64_def)

lemma unat_MAX_SIGNED_VALUE: "unat MAX_SIGNED_VALUE = 2 ^ 255 - 1"
  by (simp add: MAX_SIGNED_VALUE_eq)

lemma unat_MINUS_ZERO: "unat MINUS_ZERO = 2 ^ 255"
  by (simp add: MINUS_ZERO_eq)

lemma le_MAX_SIGNED_iff: "w \<le> MAX_SIGNED_VALUE \<longleftrightarrow> unat w < 2 ^ 255"
  by (auto simp: word_le_nat_alt unat_MAX_SIGNED_VALUE)

lemma i256_val_if:
  "i256_val (I256 w) = (if unat w < 2 ^ 255 then int (unat w) else int (unat w) - 2 ^ 256)"
  by (simp add: i256_val_def sint_unat del: of_nat_unat)

lemma I256_inv_iff: "I256_inv (I256 w) \<longleftrightarrow> unat w \<noteq> 2 ^ 255"
  unfolding I256_inv_def unat_MINUS_ZERO [symmetric] by (auto dest: unat_eqD)

lemma I256_non_negative_iff: "I256_non_negative (I256 w) \<longleftrightarrow> unat w < 2 ^ 255"
proof -
  let ?t = "uint_limbs w ! 3"
  have "unat w div B64 ^ 3 < B64"
    using unat_lt_2p [of w] by (simp add: B64_def less_mult_imp_div_less)
  then have t: "unat ?t = unat w div B64 ^ 3"
    using limbs_nth [of 3 "uint_limbs w"] by simp
  have "0 < leading_zeros ?t \<longleftrightarrow> bitlen (unat ?t) \<le> 63"
    by (auto simp: leading_zeros_def)
  also have "\<dots> \<longleftrightarrow> unat w < 2 ^ 255"
    unfolding bitlen_le_iff t by (simp add: B64_def div_less_iff_less_mult)
  finally show ?thesis by (simp add: I256_non_negative_def)
qed

lemma limbs_val_map_not: "limbs_val (map (\<lambda>b. b XOR - 1) xs) + limbs_val xs + 1 = B64 ^ length xs"
proof (induction xs)
  case (Cons x xs)
  have "x XOR - 1 = - 1 - x" by (simp add: not_eq_complement)
  then have "unat (x XOR - 1) = B64 - 1 - unat x"
    using word_n1_ge [of x]
    by (simp only: unat_sub) (simp add: unsigned_minus_1_eq_mask mask_eq_exp_minus_1 B64_def)
  then have "unat (x XOR - 1) + unat x + 1 = B64"
    using unat_u64_lt [of x] by simp
  moreover have "limbs_val (map (\<lambda>b. b XOR - 1) (x # xs)) + limbs_val (x # xs) + 1 =
      (unat (x XOR - 1) + unat x + 1) + B64 * (limbs_val (map (\<lambda>b. b XOR - 1) xs) + limbs_val xs)"
    by (simp add: algebra_simps)
  ultimately have "limbs_val (map (\<lambda>b. b XOR - 1) (x # xs)) + limbs_val (x # xs) + 1 =
      B64 * (limbs_val (map (\<lambda>b. b XOR - 1) xs) + limbs_val xs + 1)"
    by (simp only: distrib_left)
  then show ?case unfolding Cons.IH by simp
qed simp

lemma Uint_negate_eq: "Uint_negate w = (Uint_canonical (- w), w = 0)"
proof -
  define n where "n = uint_of_limbs (map (\<lambda>b. b XOR - 1) (uint_limbs w))"
  have s: "unat n + unat w + 1 = 2 ^ 256"
    unfolding n_def
    using limbs_val_map_not [of "uint_limbs w"] by (simp add: unat_uint_of_limbs B64_def)
  have "n + 1 = - w"
  proof -
    have "n + w + 1 = of_nat (unat n + unat w + 1)" by simp
    also have "\<dots> = 0" unfolding s by simp
    finally show ?thesis by (simp add: algebra_simps eq_neg_iff_add_eq_0)
  qed
  moreover have "2 ^ 256 \<le> unat n + unat (1 :: Uint) \<longleftrightarrow> w = 0"
    using s by (auto simp: unat_eq_0 [symmetric])
  ultimately show ?thesis
    unfolding Uint_negate_def n_def [symmetric] by (simp add: overflowing_add_def)
qed

text \<open>Sign, absolute value and negation, read on integers.\<close>

lemma I256_cases_val:
  obtains (nonneg) "I256_non_negative x" "unat (i256_inner x) < 2 ^ 255" "i256_val x = int (unat (i256_inner x))"
  | (neg) "\<not> I256_non_negative x" "2 ^ 255 \<le> unat (i256_inner x)"
      "i256_val x = int (unat (i256_inner x)) - 2 ^ 256"
proof (cases x)
  case (I256 w)
  then show thesis
    using that i256_val_if [of w] I256_non_negative_iff [of w] by (cases "unat w < 2 ^ 255") simp_all
qed

lemma I256_non_negative_val: "I256_non_negative x \<longleftrightarrow> 0 \<le> i256_val x"
proof (cases x rule: I256_cases_val)
  case neg
  have "int (unat (i256_inner x)) < 2 ^ 256"
    using unat_lt_2p [of "i256_inner x"] by (simp del: of_nat_unat)
  with neg show ?thesis by simp
qed simp

lemma I256_is_negative_val: "I256_is_negative x \<longleftrightarrow> i256_val x < 0"
  by (auto simp: I256_is_negative_def I256_non_negative_val)

lemma I256_is_zero_val: "I256_is_zero x \<longleftrightarrow> i256_val x = 0"
  by (cases x) (auto simp: I256_is_zero_def i256_val_def signed_eq_0_iff)

lemma i256_of_val [simp]: "i256_of (i256_val x) = x"
  by (cases x) (simp add: i256_of_def i256_val_def)

lemma i256_val_inject: "i256_val x = i256_val y \<longleftrightarrow> x = y"
  by (metis i256_of_val)

lemma I256_inv_val: "I256_inv x \<longleftrightarrow> \<bar>i256_val x\<bar> < 2 ^ 255"
proof (cases x rule: I256_cases_val)
  case nonneg
  then show ?thesis
    using I256_inv_iff [of "i256_inner x"] by (simp del: of_nat_unat)
next
  case neg
  then show ?thesis
    using I256_inv_iff [of "i256_inner x"] unat_lt_2p [of "i256_inner x"]
    by (simp del: of_nat_unat) linarith
qed

lemma i256_val_of: "\<bar>z\<bar> < 2 ^ 255 \<Longrightarrow> i256_val (i256_of z) = z"
  by (simp add: i256_val_def i256_of_def signed_of_int signed_take_bit_int_eq_self)

lemma I256_inv_of: "\<bar>z\<bar> < 2 ^ 255 \<Longrightarrow> I256_inv (i256_of z)"
  by (simp add: I256_inv_val i256_val_of)

lemma I256_small: "unat w < 2 ^ 255 \<Longrightarrow> I256 w = i256_of (int (unat w))"
  by (simp add: i256_of_def)

lemma I256_abs_val:
  assumes "I256_inv x"
  shows "int (unat (I256_abs x)) = \<bar>i256_val x\<bar>"
proof (cases x rule: I256_cases_val)
  case nonneg
  then show ?thesis by (simp add: I256_abs_def)
next
  case neg
  let ?w = "i256_inner x"
  have ne: "?w \<noteq> 0" using neg by auto
  have "- ?w \<noteq> MINUS_ZERO"
  proof
    assume "- ?w = MINUS_ZERO"
    then have "unat (- ?w) = 2 ^ 255" by (simp add: unat_MINUS_ZERO)
    then have "unat ?w = 2 ^ 255" using unat_neg [OF ne] unat_lt_2p [of ?w] by simp
    with assms show False using I256_inv_iff [of ?w] by simp
  qed
  then have "unat (I256_abs x) = 2 ^ 256 - unat ?w"
    using neg unat_neg [OF ne] by (simp add: I256_abs_def Uint_negate_eq Uint_canonical_def)
  then show ?thesis
    using neg unat_lt_2p [of ?w] by (simp del: of_nat_unat add: of_nat_diff)
qed

lemma I256_abs_lt: "I256_inv x \<Longrightarrow> unat (I256_abs x) < 2 ^ 255"
  using I256_abs_val [of x] by (simp add: I256_inv_val del: of_nat_unat)

lemma I256_checked_neg_eq:
  assumes "I256_inv x"
  shows "I256_checked_neg x = Some (i256_of (- i256_val x))"
proof (cases "I256_is_zero x")
  case True
  then show ?thesis by (cases x) (simp add: I256_checked_neg_def I256_is_zero_def i256_val_def i256_of_def)
next
  case False
  let ?w = "i256_inner x"
  have "?w \<noteq> 0" using False by (simp add: I256_is_zero_def)
  moreover have "- ?w \<noteq> MINUS_ZERO"
  proof
    assume "- ?w = MINUS_ZERO"
    moreover have "- MINUS_ZERO = MINUS_ZERO" by (simp add: MINUS_ZERO_eq)
    ultimately have "?w = MINUS_ZERO" by (metis minus_minus)
    with assms show False by (simp add: I256_inv_def)
  qed
  ultimately show ?thesis
    using False by (simp add: I256_checked_neg_def Uint_negate_eq Uint_canonical_def i256_of_def i256_val_def)
qed

section \<open>Signed arithmetic is integer arithmetic\<close>

lemma I256_of_nat: "I256 (of_nat n) = i256_of (int n)"
  by (simp add: i256_of_def)

lemma I256_neg_of: "\<bar>z\<bar> < 2 ^ 255 \<Longrightarrow> I256_checked_neg (i256_of z) = Some (i256_of (- z))"
  using I256_checked_neg_eq [of "i256_of z"] by (simp add: i256_val_of I256_inv_of)

lemma I256_neg_of_nat: "n < 2 ^ 255 \<Longrightarrow> I256_checked_neg (i256_of (int n)) = Some (i256_of (- int n))"
  by (rule I256_neg_of) simp

lemma I256_canonical_inv: "I256_inv x \<Longrightarrow> I256_canonical x = x"
  by (cases x) (simp add: I256_canonical_def Uint_canonical_def I256_inv_def)

lemma I256_inner_nonneg: "I256_non_negative x \<Longrightarrow> int (unat (i256_inner x)) = i256_val x"
  by (cases x rule: I256_cases_val) auto

lemma gt_MAX_SIGNED_iff: "MAX_SIGNED_VALUE < w \<longleftrightarrow> 2 ^ 255 \<le> unat w"
  using le_MAX_SIGNED_iff [of w] by (simp add: not_le [symmetric])

text \<open>
  What a checked signed operation promises: the exact integer result when its absolute
  value is below \<open>2^255\<close>, and \<open>None\<close> otherwise.
\<close>

definition i256_checked :: "int \<Rightarrow> I256 option" where
  "i256_checked z = (if \<bar>z\<bar> < 2 ^ 255 then Some (i256_of z) else None)"

lemma i256_checked_Some:
  "i256_checked z = Some x \<longleftrightarrow> I256_inv x \<and> i256_val x = z"
  by (auto simp: i256_checked_def I256_inv_of i256_val_of I256_inv_val)

lemma I256_checked_add_eq:
  assumes a: "I256_inv a" and b: "I256_inv b"
  shows "I256_checked_add a b = i256_checked (i256_val a + i256_val b)"
proof -
  define m n where "m = unat (I256_abs a)" and "n = unat (I256_abs b)"
  have v: "\<bar>i256_val a\<bar> = int m" "\<bar>i256_val b\<bar> = int n" "m < 2 ^ 255" "n < 2 ^ 255"
    using I256_abs_val [OF a] I256_abs_val [OF b] I256_abs_lt [OF a] I256_abs_lt [OF b]
    by (simp_all only: m_def n_def)
  have can: "I256_canonical (i256_of z) = i256_of z" if "\<bar>z\<bar> < 2 ^ 255" for z
    using that by (intro I256_canonical_inv I256_inv_of)
  have ia: "unat (i256_inner a) = m" "i256_val a = int m" if "I256_non_negative a"
    using that v(1) by (simp_all add: m_def I256_abs_def I256_non_negative_val)
  have ib: "unat (i256_inner b) = n" "i256_val b = int n" if "I256_non_negative b"
    using that v(2) by (simp_all add: n_def I256_abs_def I256_non_negative_val)
  have na: "i256_val a = - int m" if "\<not> I256_non_negative a"
    using that v(1) by (simp add: I256_non_negative_val)
  have nb: "i256_val b = - int n" if "\<not> I256_non_negative b"
    using that v(2) by (simp add: I256_non_negative_val)
  consider "I256_non_negative a" "I256_non_negative b" | "I256_non_negative a" "\<not> I256_non_negative b"
    | "\<not> I256_non_negative a" "I256_non_negative b" | "\<not> I256_non_negative a" "\<not> I256_non_negative b"
    by blast
  then show ?thesis
  proof cases
    case 1
    then show ?thesis
      using ia ib v(3,4) unfolding I256_checked_add_def checked_add_of_nat
      by (simp add: I256_of_nat gt_MAX_SIGNED_iff unat_of_nat_lt i256_checked_def can del: of_nat_add) simp
  next
    case 2
    then show ?thesis
      using ia nb v(3,4) unfolding I256_checked_add_def checked_sub_of_nat
      by (simp add: I256_of_nat I256_neg_of_nat word_le_nat_alt n_def [symmetric]
          i256_checked_def can del: of_nat_diff) (simp add: of_nat_diff)
  next
    case 3
    then show ?thesis
      using ib na v(3,4) unfolding I256_checked_add_def checked_sub_of_nat
      by (simp add: I256_of_nat I256_neg_of_nat word_le_nat_alt m_def [symmetric] n_def [symmetric]
          i256_checked_def can del: of_nat_diff) (simp add: of_nat_diff)
  next
    case 4
    then show ?thesis
      using na nb v(3,4) unfolding I256_checked_add_def checked_add_of_nat
      by (simp add: I256_of_nat I256_neg_of_nat gt_MAX_SIGNED_iff unat_of_nat_lt
          m_def [symmetric] n_def [symmetric] i256_checked_def can del: of_nat_add) simp
  qed
qed

lemma I256_checked_sub_eq:
  assumes "I256_inv a" "I256_inv b"
  shows "I256_checked_sub a b = i256_checked (i256_val a - i256_val b)"
proof -
  have "I256_inv (i256_of (- i256_val b))" "i256_val (i256_of (- i256_val b)) = - i256_val b"
    using assms by (simp_all add: I256_inv_of i256_val_of I256_inv_val)
  then show ?thesis
    using assms by (simp add: I256_checked_sub_def I256_checked_neg_eq I256_checked_add_eq)
qed

lemma I256_try_from_uint_eq: "I256_try_from_uint w = i256_checked (int (unat w))"
  by (auto simp: I256_try_from_uint_def i256_checked_def le_MAX_SIGNED_iff I256_small simp del: of_nat_unat)

lemma neg_checked: "Option.bind (i256_checked z) I256_checked_neg = i256_checked (- z)"
  by (simp add: i256_checked_def I256_neg_of)

lemma I256_checked_mul_eq:
  assumes "I256_inv a" "I256_inv b"
  shows "I256_checked_mul a b = i256_checked (i256_val a * i256_val b)"
proof -
  have m: "Option.bind (checked_mul (I256_abs a) (I256_abs b)) I256_try_from_uint =
      i256_checked (\<bar>i256_val a\<bar> * \<bar>i256_val b\<bar>)"
  proof -
    have "int (unat (I256_abs a) * unat (I256_abs b)) = \<bar>i256_val a\<bar> * \<bar>i256_val b\<bar>"
      unfolding of_nat_mult using assms by (simp only: I256_abs_val)
    then show ?thesis
      unfolding checked_mul_of_nat
      by (auto simp: I256_try_from_uint_eq unat_of_nat_lt i256_checked_def
          simp del: of_nat_mult of_nat_unat)
  qed
  have e: "I256_checked_mul a b =
      Option.bind (Option.bind (checked_mul (I256_abs a) (I256_abs b)) I256_try_from_uint)
        (\<lambda>r. if I256_is_negative a \<noteq> I256_is_negative b then I256_checked_neg r else Some r)"
    by (simp add: I256_checked_mul_def Option.bind_assoc)
  show ?thesis
    unfolding e m I256_is_negative_val
    using neg_checked [of "\<bar>i256_val a\<bar> * \<bar>i256_val b\<bar>"]
    by (auto simp: abs_if)
qed

text \<open>Truncated division and remainder, as Rust's \<open>/\<close> and \<open>%\<close> on signed integers.\<close>

definition tdiv :: "int \<Rightarrow> int \<Rightarrow> int" where
  "tdiv a b = sgn a * sgn b * (\<bar>a\<bar> div \<bar>b\<bar>)"

definition tmod :: "int \<Rightarrow> int \<Rightarrow> int" where
  "tmod a b = sgn a * (\<bar>a\<bar> mod \<bar>b\<bar>)"

lemma fixed_precision_div_eq:
  "fixed_precision_div a b d =
     (if (2 :: nat) ^ 256 \<le> 10 ^ unat d \<or> b = 0 \<or> 2 ^ 256 \<le> 10 ^ unat d * unat a div unat b then None
      else Some (of_nat (10 ^ unat d * unat a div unat b)))"
proof (cases "10 ^ unat d < (2 :: nat) ^ 256")
  case True
  then have "unat ((10 :: Uint) ^ unat d) = 10 ^ unat d"
    using unat_power_small [of "10 :: Uint" "unat d"] by simp
  then show ?thesis
    using True by (auto simp: fixed_precision_div_def checked_pow_def checked_mul_div_exact)
next
  case False
  then show ?thesis by (simp add: fixed_precision_div_def checked_pow_def)
qed

lemma I256_abs_0_iff: "I256_inv x \<Longrightarrow> I256_abs x = 0 \<longleftrightarrow> i256_val x = 0"
  by (metis I256_abs_val abs_eq_0 of_nat_eq_0_iff unat_eq_0)

lemma I256_checked_div_eq:
  assumes a: "I256_inv a" and b: "I256_inv b"
  shows "I256_checked_div a b =
    (if i256_val b = 0 then None else Some (i256_of (tdiv (i256_val a) (i256_val b))))"
proof (cases "i256_val b = 0")
  case False
  let ?q = "unat (I256_abs a) div unat (I256_abs b)"
  have lt: "?q < 2 ^ 255"
    using I256_abs_lt [OF a] div_le_dividend [of "unat (I256_abs a)" "unat (I256_abs b)"] by linarith
  then have f: "fixed_precision_div (I256_abs a) (I256_abs b) 0 = Some (of_nat ?q)"
    using False b by (simp add: fixed_precision_div_eq I256_abs_0_iff)
  have q: "int ?q = \<bar>i256_val a\<bar> div \<bar>i256_val b\<bar>"
    unfolding zdiv_int using a b by (simp only: I256_abs_val)
  have "I256_checked_div a b = (if (i256_val a < 0) = (i256_val b < 0) then Some (i256_of (int ?q))
      else Some (i256_of (- int ?q)))"
    using False lt f unfolding I256_checked_div_def I256_is_zero_val I256_is_negative_val
    by (simp only: f option.case Let_def I256_of_nat I256_neg_of_nat if_False)
  then show ?thesis
    using False unfolding q by (auto simp: tdiv_def sgn_if)
qed (simp add: I256_checked_div_def I256_is_zero_val)

lemma I256_checked_rem_eq:
  assumes a: "I256_inv a" and b: "I256_inv b"
  shows "I256_checked_rem a b =
    (if i256_val b = 0 then None else Some (i256_of (tmod (i256_val a) (i256_val b))))"
proof (cases "i256_val b = 0")
  case False
  let ?q = "unat (I256_abs a) mod unat (I256_abs b)"
  have nz: "unat (I256_abs b) \<noteq> 0" using False I256_abs_0_iff [OF b] by (simp add: unat_eq_0)
  have lt: "?q < 2 ^ 255"
    using I256_abs_lt [OF a] mod_less_eq_dividend [of "unat (I256_abs a)" "unat (I256_abs b)"] by linarith
  have q: "int ?q = \<bar>i256_val a\<bar> mod \<bar>i256_val b\<bar>"
    unfolding zmod_int using a b by (simp only: I256_abs_val)
  have "I256_checked_rem a b = (if i256_val a < 0 then Some (i256_of (- int ?q)) else Some (i256_of (int ?q)))"
    using lt unfolding I256_checked_rem_def checked_rem_of_nat I256_is_negative_val
    by (simp only: nz if_False Option.bind.bind_lunit I256_of_nat I256_neg_of_nat)
  then show ?thesis
    using False unfolding q by (auto simp: tmod_def sgn_if)
qed (use b in \<open>simp add: I256_checked_rem_def checked_rem_def I256_abs_0_iff\<close>)

section \<open>Sums, order and conversions\<close>

lemma I256_sum_from_inv: "I256_sum_from acc xs = Some s \<Longrightarrow> I256_inv acc \<Longrightarrow> list_all I256_inv xs \<Longrightarrow>
    I256_inv s \<and> i256_val s = i256_val acc + sum_list (map i256_val xs)"
proof (induction xs arbitrary: acc)
  case (Cons x xs)
  then obtain acc' where "I256_checked_add acc x = Some acc'" "I256_sum_from acc' xs = Some s"
    by (auto simp: Option.bind_eq_Some_conv)
  with Cons show ?case
    by (auto simp: I256_checked_add_eq i256_checked_Some)
qed simp

lemma I256_zero_val [simp]: "I256_inv I256_zero" "i256_val I256_zero = 0"
  by (simp_all add: I256_zero_def I256_inv_iff i256_val_def)

lemma I256_sum_val: "I256_sum xs = Some s \<Longrightarrow> list_all I256_inv xs \<Longrightarrow>
    I256_inv s \<and> i256_val s = sum_list (map i256_val xs)"
  using I256_sum_from_inv [of I256_zero xs s]
  by (simp add: I256_sum_def I256_zero_def I256_inv_iff i256_val_def)

text \<open>
  \<open>I256_cmp\<close> is a total order on all representations; on those that satisfy the invariant
  it is the order of the integers.
\<close>

definition i256_key :: "I256 \<Rightarrow> int" where
  "i256_key x = (if I256_non_negative x then 2 * int (unat (I256_abs x)) + 1 else - 2 * int (unat (I256_abs x)))"

lemma I256_cmp_key:
  "I256_cmp x y = (if i256_key x < i256_key y then Less else if i256_key x = i256_key y then Equal else Greater)"
proof -
  have k: "2 * int m + 1 \<noteq> - (2 * int n)" "- (2 * int n) \<noteq> 2 * int m + 1" for m n :: nat by presburger+
  show ?thesis
    unfolding I256_cmp_def i256_key_def cmp_word_def word_less_nat_alt word_unat_eq_iff
    by (auto simp: k simp del: of_nat_unat)
qed

lemma I256_abs_neg: "\<not> I256_non_negative x \<Longrightarrow> I256_abs x = Uint_canonical (- i256_inner x)"
  by (simp add: I256_abs_def Uint_negate_eq)

lemma i256_key_inject: "i256_key x = i256_key y \<Longrightarrow> x = y"
proof -
  assume k: "i256_key x = i256_key y"
  have p: "2 * int m + 1 \<noteq> - (2 * int n)" for m n :: nat by presburger
  have s: "I256_non_negative x = I256_non_negative y"
    using k p by (auto simp: i256_key_def simp del: of_nat_unat split: if_splits)
  then have a: "I256_abs x = I256_abs y"
    using k by (auto simp: i256_key_def simp del: of_nat_unat split: if_splits intro: unat_eqD)
  show "x = y"
  proof (cases "I256_non_negative x")
    case True
    with s a show ?thesis by (cases x; cases y) (simp add: I256_abs_def)
  next
    case False
    have nz: "- i256_inner z \<noteq> 0" if "\<not> I256_non_negative z" for z
      using that by (cases z) (auto simp: I256_non_negative_iff)
    from False s a nz [of x] nz [of y] show ?thesis
      by (cases x; cases y) (auto simp: I256_abs_neg Uint_canonical_def split: if_splits, metis minus_minus)
  qed
qed

instantiation I256 :: linorder
begin

definition less_eq_I256 :: "I256 \<Rightarrow> I256 \<Rightarrow> bool" where
  "less_eq_I256 x y \<longleftrightarrow> I256_cmp x y \<noteq> Greater"

definition less_I256 :: "I256 \<Rightarrow> I256 \<Rightarrow> bool" where
  "less_I256 x y \<longleftrightarrow> I256_cmp x y = Less"

instance
  by standard
    (auto simp: less_eq_I256_def less_I256_def I256_cmp_key split: if_splits dest: i256_key_inject)

end

lemma I256_le_val: "I256_inv x \<Longrightarrow> I256_inv y \<Longrightarrow> x \<le> y \<longleftrightarrow> i256_val x \<le> i256_val y"
  using I256_abs_val [of x] I256_abs_val [of y] I256_non_negative_val [of x] I256_non_negative_val [of y]
  by (auto simp: less_eq_I256_def I256_cmp_key i256_key_def simp del: of_nat_unat split: if_splits)

lemma I256_less_val: "I256_inv x \<Longrightarrow> I256_inv y \<Longrightarrow> x < y \<longleftrightarrow> i256_val x < i256_val y"
  using I256_le_val [of y x] by (simp add: not_le [symmetric])

text \<open>Conversions from \<open>i128\<close> are exact.\<close>

lemma i128_min_abs_unat: "unat i128_min_abs = 2 ^ 127"
  by (simp add: i128_min_abs_def)

lemma I256_from_i128_eq: "I256_from_i128 v = Some (i256_of (sint v))"
proof -
  let ?h = "2 ^ 127 :: nat"
  have s: "sint v = (if unat v < ?h then int (unat v) else int (unat v) - 2 ^ 128)"
    using sint_unat [of v] by simp
  have lt: "unat v < 2 ^ 128" using unat_lt_2p [of v] by simp
  have up: "I256 (ucast w) = i256_of (int (unat w))" for w :: i128
    using I256_small [of "ucast w"] unat_lt_2p [of w] by (simp add: unat_ucast_up del: of_nat_unat)
  consider "unat v = ?h" | "?h < unat v" | "unat v < ?h" by linarith
  then show ?thesis
  proof cases
    case 1
    have "I256 i128_min_abs = i256_of (int (2 ^ 127))"
      by (simp add: i128_min_abs_def i256_of_def)
    with 1 s show ?thesis
      using I256_neg_of_nat [of ?h] by (simp add: I256_from_i128_def)
  next
    case 2
    then have "v \<noteq> 0" by auto
    then have "I256 (ucast (- v)) = i256_of (int (2 ^ 128 - unat v))"
      using up [of "- v"] unat_neg [of v] by simp
    with 2 s lt show ?thesis
      using I256_neg_of_nat [of "2 ^ 128 - unat v"]
      by (simp add: I256_from_i128_def of_nat_diff del: of_nat_unat)
  next
    case 3
    with s show ?thesis by (simp add: I256_from_i128_def up del: of_nat_unat)
  qed
qed

lemma i128_round_trip: "Option.bind (I256_from_i128 v) i128_try_from_I256 = Some v"
proof -
  let ?h = "2 ^ 127 :: nat" and ?z = "sint v"
  have s: "?z = (if unat v < ?h then int (unat v) else int (unat v) - 2 ^ 128)"
    using sint_unat [of v] by simp
  have lt: "unat v < 2 ^ 128" using unat_lt_2p [of v] by simp
  have z: "\<bar>?z\<bar> \<le> 2 ^ 127" unfolding s using lt by (auto simp del: of_nat_unat)
  then have inv: "I256_inv (i256_of ?z)" and val: "i256_val (i256_of ?z) = ?z"
    by (simp_all add: I256_inv_of i256_val_of)
  have "I256 i128_min_abs = i256_of (int ?h)" by (simp add: i128_min_abs_def i256_of_def)
  then have m: "I256_checked_neg (I256 i128_min_abs) = Some (i256_of (- (2 ^ 127)))"
    using I256_neg_of_nat [of ?h] by simp
  have "i256_val (i256_of (- (2 ^ 127))) = - (2 ^ 127)" by (rule i256_val_of) simp
  with val have min: "i256_of ?z = i256_of (- (2 ^ 127)) \<longleftrightarrow> ?z = - (2 ^ 127)" by metis
  show ?thesis
  proof (cases "?z = - (2 ^ 127)")
    case True
    have "v = of_int ?z" by simp
    then have "v = of_int (- (2 ^ 127))" unfolding True .
    then show ?thesis unfolding I256_from_i128_eq using True m by (simp add: i128_try_from_I256_def)
  next
    case False
    with z s lt have z': "\<bar>?z\<bar> < 2 ^ 127" by (auto simp del: of_nat_unat split: if_splits)
    define low :: u128 where "low = ucast (I256_abs (i256_of ?z))"
    have a: "int (unat (I256_abs (i256_of ?z))) = \<bar>?z\<bar>"
      using I256_abs_val [OF inv] val by simp
    have "low = of_nat (unat (I256_abs (i256_of ?z)))"
      by (simp add: low_def)
    then have low: "low = of_int \<bar>?z\<bar>" unfolding a [symmetric] by simp
    have ul: "int (unat low) = \<bar>?z\<bar>"
      unfolding low using z' by (simp add: unsigned_of_int take_bit_int_eq_self)
    then have lo: "unat low < 2 ^ 127" using z' by (simp del: of_nat_unat)
    have "(if \<not> 0 \<le> ?z then - low else low) = v"
      unfolding low by (simp add: abs_if)
    then show ?thesis
      unfolding I256_from_i128_eq
      using False m min lo val
      by (simp add: i128_try_from_I256_def Let_def I256_non_negative_val flip: low_def)
  qed
qed

text \<open>
  Beyond the range of \<open>i128\<close> the conversion keeps the low 128 bits only: a value that
  does not fit is not always refused.
\<close>

lemma i128_try_from_I256_truncates: "i128_try_from_I256 (I256 (2 ^ 128 + 5)) = Some 5"
proof -
  have "I256_non_negative (I256 (2 ^ 128 + 5))" by (simp add: I256_non_negative_iff)
  moreover have "I256_checked_neg (I256 i128_min_abs) = Some (i256_of (- (2 ^ 127)))"
    using I256_neg_of_nat [of "2 ^ 127"] by (simp add: i128_min_abs_def i256_of_def)
  ultimately show ?thesis
    by (simp add: i128_try_from_I256_def I256_abs_def i256_of_def ucast_eq)
qed

section \<open>Divisibility and the greatest common divisor\<close>

lemma Uint_divides_iff: "Uint_divides a b \<longleftrightarrow> a \<noteq> 0 \<and> unat a dvd unat b"
proof (cases "a = 0")
  case False
  have "b mod a = 0 \<longleftrightarrow> unat (b mod a) = 0" by (simp only: unat_eq_0)
  then show ?thesis
    using False by (simp add: Uint_divides_def checked_rem_def unat_mod dvd_eq_mod_eq_0)
qed (simp add: Uint_divides_def checked_rem_def)

lemma Uint_is_even_iff: "Uint_is_even a \<longleftrightarrow> even (unat a)"
proof -
  have "a AND 1 = 1 \<longleftrightarrow> unat (a AND 1) = 1" by (metis unat_eqD unat_1)
  also have "unat (a AND 1) = unat a mod 2" by (simp only: unsigned_and_eq) (simp add: and_one_eq)
  finally show ?thesis by (simp add: Uint_is_even_def even_iff_mod_2_eq_zero)
qed

lemma trailing_zeros_nat_split:
  "0 < n \<Longrightarrow> 2 ^ trailing_zeros_nat n dvd n \<and> odd (n div 2 ^ trailing_zeros_nat n)"
proof (induction n rule: trailing_zeros_nat.induct)
  case (1 n)
  show ?case
  proof (cases "odd n")
    case True
    then show ?thesis by (simp add: trailing_zeros_nat.simps)
  next
    case False
    with 1 have IH: "2 ^ trailing_zeros_nat (n div 2) dvd n div 2" "odd (n div 2 div 2 ^ trailing_zeros_nat (n div 2))"
      by auto
    have t: "trailing_zeros_nat n = Suc (trailing_zeros_nat (n div 2))"
      using False 1(2) by (subst trailing_zeros_nat.simps) auto
    have "n = 2 * (n div 2)" using False by simp
    with IH(1) have "2 ^ Suc (trailing_zeros_nat (n div 2)) dvd n"
      by (metis mult_dvd_mono dvd_refl power_Suc)
    with IH(2) show ?thesis unfolding t by (simp add: div_mult2_eq)
  qed
qed

lemma drop_trailing_zeros:
  assumes "x \<noteq> 0"
  shows "odd (unat (drop_bit (trailing_zeros x) x))"
    and "unat x = 2 ^ trailing_zeros x * unat (drop_bit (trailing_zeros x) x)"
proof -
  have pos: "0 < unat x" using assms by (simp add: unat_gt_0)
  have e: "unat (drop_bit (trailing_zeros x) x) = unat x div 2 ^ trailing_zeros_nat (unat x)"
    using assms by (simp only: unat_drop_bit_eq trailing_zeros_def if_False) (simp add: drop_bit_eq_div)
  show "odd (unat (drop_bit (trailing_zeros x) x))"
    unfolding e using trailing_zeros_nat_split [OF pos] by simp
  show "unat x = 2 ^ trailing_zeros x * unat (drop_bit (trailing_zeros x) x)"
    unfolding e using assms trailing_zeros_nat_split [OF pos] by (simp add: trailing_zeros_def)
qed

lemma gcd_power2_odd: "odd (a :: nat) \<Longrightarrow> gcd a (2 ^ k * b) = gcd a b"
  by (rule gcd_mult_right_left_cancel) (simp add: coprime_power_right_iff)

lemma gcd_loop_correct:
  assumes "odd (unat u)" and "v \<noteq> 0"
  shows "\<exists>g. gcd_loop u v = Some g \<and> unat g = gcd (unat u) (unat v)"
  using assms
proof (induction "unat u + unat v" arbitrary: u v rule: less_induct)
  case less
  define v1 where "v1 = drop_bit (trailing_zeros v) v"
  define a b where "a = min u v1" and "b = max u v1"
  note v1 = drop_trailing_zeros [OF less.prems(2), folded v1_def]
  have g: "gcd (unat u) (unat v) = gcd (unat a) (unat b)"
    unfolding v1(2) gcd_power2_odd [OF less.prems(1)] a_def b_def
    by (auto simp: min_def max_def gcd.commute)
  have odd: "odd (unat a)" "odd (unat b)"
    using less.prems(1) v1(1) by (auto simp: a_def b_def min_def max_def)
  have ab: "a \<le> b" by (auto simp: a_def b_def min_def max_def)
  have unf: "gcd_loop u v = (if b - a = 0 then Some a else gcd_loop a (b - a))"
    by (subst gcd_loop.simps) (auto simp: Let_def a_def b_def min_def max_def simp flip: v1_def)
  show ?case
  proof (cases "b - a = 0")
    case True
    then have "b = a" by simp
    then show ?thesis unfolding unf g by simp
  next
    case False
    have s: "unat (b - a) = unat b - unat a" "unat a \<le> unat b"
      using ab by (auto simp: unat_sub word_le_nat_alt)
    have pos: "0 < unat a" "0 < unat b" using odd by (auto intro: odd_pos)
    have "unat v1 \<le> unat v" unfolding v1(2) by simp
    moreover have "unat a + unat b = unat u + unat v1" by (auto simp: a_def b_def min_def max_def)
    ultimately have "unat a + unat (b - a) < unat u + unat v" using s pos by linarith
    then obtain r where "gcd_loop a (b - a) = Some r" "unat r = gcd (unat a) (unat (b - a))"
      using less.hyps odd(1) False by blast
    moreover have "gcd (unat a) (unat b - unat a) = gcd (unat a) (unat b)"
      using s(2) by (metis gcd.commute gcd_diff1_nat)
    ultimately show ?thesis unfolding unf g using False s(1) by simp
  qed
qed

lemma gcd_cofactor_odd:
  assumes "odd (a :: nat) \<or> odd b" and "a = 2 ^ k * a'"
  shows "gcd a' b = gcd a b"
proof (cases "odd a")
  case True
  with assms(2) show ?thesis by (cases k) auto
next
  case False
  with assms have "odd b" by blast
  then show ?thesis
    unfolding assms(2) by (metis gcd.commute gcd_power2_odd)
qed

lemma or_low_bits: "2 ^ k dvd unat (a OR b) \<longleftrightarrow> 2 ^ k dvd unat a \<and> 2 ^ k dvd unat b"
  for a b :: "'a::len word"
proof -
  have t: "2 ^ k dvd n \<longleftrightarrow> take_bit k n = 0" for n :: nat
    by (simp add: take_bit_eq_mod dvd_eq_mod_eq_0)
  show ?thesis unfolding t unsigned_or_eq take_bit_or by (simp add: or_eq_0_iff)
qed

lemma Uint_gcd_nonzero:
  assumes a: "a \<noteq> 0" and b: "b \<noteq> 0"
  shows "\<exists>g. Uint_gcd a b = Some g \<and> unat g = gcd (unat a) (unat b)"
proof -
  define s where "s = trailing_zeros (a OR b)"
  have ab: "a OR b \<noteq> 0" using a by (simp add: or_eq_0_iff)
  note t = drop_trailing_zeros [OF ab, folded s_def]
  have d: "2 ^ s dvd unat a" "2 ^ s dvd unat b" "\<not> (2 ^ Suc s dvd unat a \<and> 2 ^ Suc s dvd unat b)"
  proof -
    have "2 ^ s dvd unat (a OR b)" using t(2) by (metis dvd_triv_left)
    then show "2 ^ s dvd unat a" "2 ^ s dvd unat b" by (simp_all add: or_low_bits)
    have "\<not> 2 ^ s * 2 dvd 2 ^ s * unat (drop_bit s (a OR b))"
      using t(1) by (simp only: nat_mult_dvd_cancel_disj) simp
    then have "\<not> 2 ^ Suc s dvd unat (a OR b)"
      unfolding t(2) [symmetric] power_Suc2 .
    then show "\<not> (2 ^ Suc s dvd unat a \<and> 2 ^ Suc s dvd unat b)" unfolding or_low_bits .
  qed
  define u v where "u = drop_bit s a" and "v = drop_bit s b"
  have u: "unat a = 2 ^ s * unat u" and v: "unat b = 2 ^ s * unat v"
    unfolding u_def v_def unat_drop_bit_eq using d by (simp_all add: drop_bit_eq_div)
  have nz: "u \<noteq> 0" "v \<noteq> 0" using a b u v by (metis mult_0_right unat_0 unat_eq_0)+
  have o: "odd (unat u) \<or> odd (unat v)"
    using d(3) unfolding u v by auto
  obtain g where g: "gcd_loop (drop_bit (trailing_zeros u) u) v = Some g"
    "unat g = gcd (unat (drop_bit (trailing_zeros u) u)) (unat v)"
    using gcd_loop_correct [OF drop_trailing_zeros(1) [OF nz(1)] nz(2)] by blast
  have gg: "unat g = gcd (unat u) (unat v)"
    unfolding g(2) by (rule gcd_cofactor_odd [OF o drop_trailing_zeros(2) [OF nz(1)]])
  have eq: "2 ^ s * unat g = gcd (unat a) (unat b)"
    unfolding u v gg by (simp add: gcd_mult_distrib_nat)
  then have "2 ^ s * unat g \<le> unat a" using a by (simp add: unat_gt_0 gcd_le1_nat)
  then have "2 ^ s * unat g < 2 ^ 256" using unat_lt_2p [of a] by simp
  then have "unat (push_bit s g) = 2 ^ s * unat g"
    by (simp only: unsigned_push_bit_eq) (simp add: push_bit_eq_mult take_bit_nat_eq_self mult.commute)
  moreover have "Uint_gcd a b = Some (push_bit s g)"
    using a b g(1) by (simp add: Uint_gcd_def Let_def u_def v_def flip: s_def)
  ultimately show ?thesis using eq by simp
qed

lemma Uint_gcd_zero: "Uint_gcd 0 b = Some 0" "Uint_gcd a 0 = Some 0"
  by (simp_all add: Uint_gcd_def)

text \<open>
  C32: The binary GCD of any two 256-bit integers terminates, with their greatest common divisor, or with zero when one of them is zero.
\<close>

theorem Uint_gcd_terminates:
  "\<exists>g. Uint_gcd a b = Some g \<and> unat g = (if a = 0 \<or> b = 0 then 0 else gcd (unat a) (unat b))"
  using Uint_gcd_nonzero [of a b] Uint_gcd_zero by (cases "a = 0 \<or> b = 0") auto

end
