(* ===== verification/Strings.thy ===== *)
theory Strings
  imports Prelude
begin

text \<open>
  The operations of Rust's \<open>str\<close> that the parsers and printers of amounts use, on lists of
  characters, and decimal numerals. A character stands for the Unicode scalar value of its
  code, so that codes from 128 on take two bytes in UTF-8; \<open>utf8_len\<close> is \<open>str::len\<close>.
\<close>

section \<open>Operations of \<open>str\<close>\<close>

definition utf8_len :: "string \<Rightarrow> nat" where
  "utf8_len s = sum_list (map (\<lambda>c. if of_char c < (128 :: nat) then 1 else 2) s)"

fun strip_prefix :: "char \<Rightarrow> string \<Rightarrow> string option" where
  "strip_prefix c [] = None"
| "strip_prefix c (x # xs) = (if x = c then Some xs else None)"

fun split_once :: "char \<Rightarrow> string \<Rightarrow> (string \<times> string) option" where
  "split_once c [] = None"
| "split_once c (x # xs) =
     (if x = c then Some ([], xs) else map_option (\<lambda>(a, b). (x # a, b)) (split_once c xs))"

definition trim_end_matches :: "char \<Rightarrow> string \<Rightarrow> string" where
  "trim_end_matches c s = rev (dropWhile (\<lambda>x. x = c) (rev s))"

text \<open>\<open>String::insert\<close> at a byte index, on a string of one-byte characters.\<close>

definition string_insert :: "nat \<Rightarrow> char \<Rightarrow> string \<Rightarrow> string" where
  "string_insert i c s = take i s @ c # drop i s"

fun str_find :: "char \<Rightarrow> string \<Rightarrow> nat option" where
  "str_find c [] = None"
| "str_find c (x # xs) = (if x = c then Some 0 else map_option Suc (str_find c xs))"

section \<open>Decimal numerals\<close>

definition is_ascii_digit :: "char \<Rightarrow> bool" where
  "is_ascii_digit c \<longleftrightarrow> 48 \<le> (of_char c :: nat) \<and> of_char c \<le> (57 :: nat)"

definition digit_val :: "char \<Rightarrow> nat" where
  "digit_val c = of_char c - 48"

definition digit_char :: "nat \<Rightarrow> char" where
  "digit_char d = char_of (48 + d)"

fun dec_string :: "nat \<Rightarrow> string" where
  "dec_string n = (if n < 10 then [digit_char n] else dec_string (n div 10) @ [digit_char (n mod 10)])"

declare dec_string.simps [simp del]

definition dec_value :: "string \<Rightarrow> nat" where
  "dec_value s = foldl (\<lambda>a c. 10 * a + digit_val c) 0 s"

lemma of_char_char_of_lt: "n < 256 \<Longrightarrow> of_char (char_of n) = (n :: nat)"
  by (simp add: of_char_of)

lemma digit_val_char [simp]: "d < 10 \<Longrightarrow> digit_val (digit_char d) = d"
  by (simp add: digit_val_def digit_char_def of_char_char_of_lt)

lemma is_digit_char [simp]: "d < 10 \<Longrightarrow> is_ascii_digit (digit_char d)"
  by (simp add: is_ascii_digit_def digit_char_def of_char_char_of_lt)

lemma digit_val_lt: "is_ascii_digit c \<Longrightarrow> digit_val c < 10"
  by (auto simp: is_ascii_digit_def digit_val_def)

lemma digit_char_val: "is_ascii_digit c \<Longrightarrow> digit_char (digit_val c) = c"
  by (simp add: is_ascii_digit_def digit_val_def digit_char_def)

lemma digit_char_0: "digit_char 0 = CHR ''0''"
  using digit_char_val [of "CHR ''0''"] by (simp add: digit_val_def is_ascii_digit_def)

lemma digit_val_0 [simp]: "digit_val (CHR ''0'') = 0"
  by (simp add: digit_val_def)

lemma is_digit_0 [simp]: "is_ascii_digit (CHR ''0'')"
  by (simp add: is_ascii_digit_def)

lemma not_digit_punct [simp]: "\<not> is_ascii_digit (CHR ''.'')" "\<not> is_ascii_digit (CHR ''-'')"
  by (simp_all add: is_ascii_digit_def)

lemma dec_value_Nil [simp]: "dec_value [] = 0"
  by (simp add: dec_value_def)

lemma dec_value_snoc [simp]: "dec_value (s @ [c]) = 10 * dec_value s + digit_val c"
  by (simp add: dec_value_def)

lemma dec_value_append: "dec_value (s @ t) = dec_value s * 10 ^ length t + dec_value t"
  by (induction t rule: rev_induct) (simp_all add: append_assoc [symmetric] del: append_assoc)

lemma dec_value_zeros [simp]: "dec_value (replicate n (CHR ''0'')) = 0"
  by (induction n) (simp_all add: replicate_app_Cons_same [symmetric] replicate_append_same [symmetric])

lemma dec_value_lt: "list_all is_ascii_digit s \<Longrightarrow> dec_value s < 10 ^ length s"
proof (induction s rule: rev_induct)
  case (snoc c s)
  then show ?case using digit_val_lt [of c] by simp
qed simp

lemma dec_string_digits: "list_all is_ascii_digit (dec_string n)"
  by (induction n rule: dec_string.induct) (subst dec_string.simps, simp)

lemma dec_string_value [simp]: "dec_value (dec_string n) = n"
proof (induction n rule: dec_string.induct)
  case (1 n)
  then show ?case
    by (cases "n < 10") (simp_all add: dec_string.simps [of n] dec_value_def)
qed

lemma dec_string_ne [simp]: "dec_string n \<noteq> []"
  by (subst dec_string.simps) simp

lemma dec_string_hd: "0 < n \<Longrightarrow> hd (dec_string n) \<noteq> CHR ''0''"
proof (induction n rule: dec_string.induct)
  case (1 n)
  show ?case
  proof (cases "n < 10")
    case True
    then have "digit_char n \<noteq> CHR ''0''"
      using 1(2) digit_val_char [of n] by (metis digit_val_0 less_numeral_extra(3))
    then show ?thesis using True by (simp add: dec_string.simps [of n])
  next
    case False
    then show ?thesis using 1 by (simp add: dec_string.simps [of n] hd_append)
  qed
qed

lemma dec_string_len: "n < 10 ^ k \<Longrightarrow> 0 < k \<Longrightarrow> length (dec_string n) \<le> k"
proof (induction k arbitrary: n)
  case (Suc k)
  show ?case
  proof (cases "n < 10")
    case True
    then show ?thesis by (simp add: dec_string.simps [of n])
  next
    case False
    then have "n div 10 < 10 ^ k" "0 < k"
      using Suc.prems by (auto simp: div_less_iff_less_mult intro: Nat.gr0I)
    then show ?thesis using Suc.IH [of "n div 10"] False by (simp add: dec_string.simps [of n])
  qed
qed simp

section \<open>Properties of the string operations\<close>

lemma trim_end_append_replicate:
  "trim_end_matches c (s @ replicate n c) = trim_end_matches c s"
  by (simp add: trim_end_matches_def dropWhile_append dropWhile_replicate)

lemma trim_end_split: "\<exists>n. s = trim_end_matches c s @ replicate n c"
proof (induction s rule: rev_induct)
  case (snoc x s)
  show ?case
  proof (cases "x = c")
    case True
    obtain n where n: "s = trim_end_matches c s @ replicate n c" using snoc by blast
    have "trim_end_matches c (s @ [x]) = trim_end_matches c s"
      using True by (simp add: trim_end_matches_def)
    moreover have "s @ [x] = trim_end_matches c s @ replicate (Suc n) c"
      using True by (subst n) (simp add: replicate_append_same)
    ultimately show ?thesis by metis
  qed (simp add: trim_end_matches_def)
qed (simp add: trim_end_matches_def)

lemma trim_end_last: "trim_end_matches c s \<noteq> [] \<Longrightarrow> last (trim_end_matches c s) \<noteq> c"
  using hd_dropWhile [of "\<lambda>x. x = c" "rev s"] by (simp add: trim_end_matches_def last_rev)

lemma trim_end_other: "s \<noteq> [] \<Longrightarrow> last s \<noteq> c \<Longrightarrow> trim_end_matches c s = s"
  by (cases s rule: rev_cases) (simp_all add: trim_end_matches_def)

lemma split_once_None: "c \<notin> set s \<Longrightarrow> split_once c s = None"
  by (induction s) auto

lemma split_once_append: "c \<notin> set s \<Longrightarrow> split_once c (s @ c # t) = Some (s, t)"
  by (induction s) auto

lemma digits_no_punct:
  "list_all is_ascii_digit s \<Longrightarrow> CHR ''.'' \<notin> set s" "list_all is_ascii_digit s \<Longrightarrow> CHR ''-'' \<notin> set s"
  by (auto simp: list_all_iff)

lemma utf8_len_digits: "list_all is_ascii_digit s \<Longrightarrow> utf8_len s = length s"
  by (induction s) (auto simp: utf8_len_def is_ascii_digit_def)

text \<open>
  The decimal parser and printer of the 256-bit integers belong to the crate that provides
  them. What the code relies on: the parser of radix ten reads a non-empty digit string as
  its value, and rejects values that do not fit and strings with other characters; the
  printer gives the decimal numeral.
\<close>

definition radix10_parser :: "(string \<Rightarrow> 256 word option) \<Rightarrow> bool" where
  "radix10_parser p \<longleftrightarrow> (\<forall>s. s \<noteq> [] \<longrightarrow>
     p s = (if list_all is_ascii_digit s \<and> dec_value s < 2 ^ 256 then Some (of_nat (dec_value s)) else None))"

definition radix10_printer :: "(256 word \<Rightarrow> string) \<Rightarrow> bool" where
  "radix10_printer q \<longleftrightarrow> (\<forall>w. q w = dec_string (unat w))"

lemma radix10_parserD:
  assumes "radix10_parser p" "s \<noteq> []" "list_all is_ascii_digit s" "dec_value s < 2 ^ 256"
  shows "p s = Some (of_nat (dec_value s))"
  using assms by (simp add: radix10_parser_def)

lemma radix10_parser_bad:
  "radix10_parser p \<Longrightarrow> s \<noteq> [] \<Longrightarrow> \<not> list_all is_ascii_digit s \<Longrightarrow> p s = None"
  by (simp add: radix10_parser_def)

end
