(* ===== verification/Decimal.thy ===== *)
theory Decimal
  imports Uint256 Strings
begin

text \<open>
  \<open>core/src/dec.rs\<close>: the fixed precision decimal \<open>Dec\<close>, a signed 256-bit integer that counts
  units of \<open>10^-12\<close>. Its operations are related to exact integer arithmetic on the number of
  units, \<open>dec_val\<close>. A function that panics in the source returns \<^const>\<open>None\<close> here where its
  result type is not already an \<open>Option\<close>.
\<close>

section \<open>Data and operations\<close>

definition POS_DECIMAL_PRECISION :: u8 where
  "POS_DECIMAL_PRECISION = 12"

datatype Dec = Dec (dec_inner: I256)

datatype arith_error = ArithError

definition dec_scale :: I256 where
  "dec_scale = I256 (exp10 (unat POS_DECIMAL_PRECISION))"

definition Dec_trunc_div :: "Dec \<Rightarrow> Dec \<Rightarrow> Dec option" where
  "Dec_trunc_div slf rhs =
     (let is_neg = (I256_is_negative (dec_inner slf) \<noteq> I256_is_negative (dec_inner rhs));
          inner_uint = I256_abs (dec_inner slf);
          inner_rhs_uint = I256_abs (dec_inner rhs)
      in case fixed_precision_div inner_uint inner_rhs_uint POS_DECIMAL_PRECISION of
           Some r \<Rightarrow>
             do {
               res \<leftarrow> I256_try_from_uint r;
               if is_neg then do { n \<leftarrow> I256_checked_neg res; Some (Dec n) } else Some (Dec res)
             }
         | None \<Rightarrow> None)"

definition Dec_zero :: Dec where
  "Dec_zero = Dec I256_zero"

definition Dec_is_zero :: "Dec \<Rightarrow> bool" where
  "Dec_is_zero slf \<longleftrightarrow> slf = Dec_zero"

definition Dec_one :: "Dec option" where
  "Dec_one = map_option (\<lambda>u. Dec (I256 u)) (checked_mul 1 (exp10 (unat POS_DECIMAL_PRECISION)))"

definition Dec_checked_sub :: "Dec \<Rightarrow> Dec \<Rightarrow> Dec option" where
  "Dec_checked_sub slf rhs = do { x \<leftarrow> I256_checked_sub (dec_inner slf) (dec_inner rhs); Some (Dec x) }"

definition Dec_checked_add :: "Dec \<Rightarrow> Dec \<Rightarrow> Dec option" where
  "Dec_checked_add slf other = do { x \<leftarrow> I256_checked_add (dec_inner slf) (dec_inner other); Some (Dec x) }"

definition Dec_checked_mul :: "Dec \<Rightarrow> Dec \<Rightarrow> Dec option" where
  "Dec_checked_mul slf other =
     do {
       result \<leftarrow> I256_checked_mul (dec_inner slf) (dec_inner other);
       inner \<leftarrow> I256_checked_div result dec_scale;
       Some (Dec inner)
     }"

definition Dec_checked_div :: "Dec \<Rightarrow> Dec \<Rightarrow> Dec option" where
  "Dec_checked_div slf rhs = Dec_trunc_div slf rhs"

definition Dec_checked_neg :: "Dec \<Rightarrow> Dec option" where
  "Dec_checked_neg slf = do { x \<leftarrow> I256_checked_neg (dec_inner slf); Some (Dec x) }"

definition Dec_is_negative :: "Dec \<Rightarrow> bool" where
  "Dec_is_negative slf = I256_is_negative (dec_inner slf)"

text \<open>Conversions from integers; \<open>From<i32>\<close> goes through \<open>i128\<close>.\<close>

definition Dec_from_u64 :: "u64 \<Rightarrow> Dec option" where
  "Dec_from_u64 num = map_option Dec (I256_checked_mul (I256 (ucast num)) dec_scale)"

definition Dec_from_i128 :: "i128 \<Rightarrow> Dec option" where
  "Dec_from_i128 num =
     do { n \<leftarrow> I256_from_i128 num; x \<leftarrow> I256_checked_mul n dec_scale; Some (Dec x) }"

definition Dec_from_i32 :: "32 word \<Rightarrow> Dec option" where
  "Dec_from_i32 num = Dec_from_i128 (scast num)"

definition Dec_two :: "Dec option" where
  "Dec_two = do { a \<leftarrow> Dec_one; b \<leftarrow> Dec_one; Dec_checked_add a b }"

definition Dec_one_third :: "Dec option" where
  "Dec_one_third = do { a \<leftarrow> Dec_one; t \<leftarrow> Dec_from_i32 3; Dec_checked_div a t }"

definition Dec_two_thirds :: "Dec option" where
  "Dec_two_thirds = do { a \<leftarrow> Dec_two; t \<leftarrow> Dec_from_i32 3; Dec_checked_div a t }"

text \<open>
  \<open>i128::abs\<close> panics on the least value (overflow checks are on in release builds);
  \<open>Dec_new\<close> is \<^const>\<open>None\<close> there as well.
\<close>

definition i128_abs :: "i128 \<Rightarrow> i128 option" where
  "i128_abs m = (if sint m = - (2 ^ 127) then None else Some (if sint m < 0 then - m else m))"

definition u64_try_from_i128 :: "i128 \<Rightarrow> u64 option" where
  "u64_try_from_i128 m = (if 0 \<le> sint m \<and> sint m < 2 ^ 64 then Some (ucast m) else None)"

definition Dec_new :: "i128 \<Rightarrow> u8 \<Rightarrow> Dec option" where
  "Dec_new mantissa scale =
     (if scale > POS_DECIMAL_PRECISION then None
      else
        do {
          a \<leftarrow> i128_abs mantissa;
          abs \<leftarrow> u64_try_from_i128 a;
          let scale_diff = POS_DECIMAL_PRECISION - scale;
          case checked_mul (exp10 (unat scale_diff)) (ucast abs) of
            Some res \<Rightarrow>
              if sint mantissa < 0 then do { n \<leftarrow> I256_checked_neg (I256 res); Some (Dec n) }
              else Some (Dec (I256 res))
          | None \<Rightarrow> None
        })"

definition Dec_abs :: "Dec \<Rightarrow> Uint" where
  "Dec_abs slf = I256_abs (dec_inner slf)"

definition Dec_to_i256 :: "Dec \<Rightarrow> I256 option" where
  "Dec_to_i256 slf = I256_checked_div (dec_inner slf) dec_scale"

definition Dec_to_uint :: "Dec \<Rightarrow> Uint option" where
  "Dec_to_uint slf =
     (if Dec_is_negative slf then None
      else do { u \<leftarrow> checked_div (I256_abs (dec_inner slf)) (exp10 (unat POS_DECIMAL_PRECISION)); Some u })"

definition Dec_ceil :: "Dec \<Rightarrow> I256 option" where
  "Dec_ceil slf =
     (if I256_is_negative (dec_inner slf) then Dec_to_i256 slf
      else
        do {
          floor \<leftarrow> Dec_to_i256 slf;
          if (case map_option Dec_is_zero (Dec_checked_sub slf (Dec floor)) of None \<Rightarrow> False | Some z \<Rightarrow> z)
          then Some floor
          else I256_checked_add floor I256_one
        })"

definition Dec_try_from_uint :: "Uint \<Rightarrow> Dec option" where
  "Dec_try_from_uint value =
     do { i \<leftarrow> I256_try_from_uint value; x \<leftarrow> I256_checked_mul i dec_scale; Some (Dec x) }"

definition Dec_try_from_u128 :: "u128 \<Rightarrow> Dec option" where
  "Dec_try_from_u128 n =
     do { i \<leftarrow> I256_try_from_uint (ucast n); x \<leftarrow> I256_checked_mul i dec_scale; Some (Dec x) }"

definition Dec_try_from_I256 :: "I256 \<Rightarrow> Dec option" where
  "Dec_try_from_I256 num = do { x \<leftarrow> I256_checked_mul num dec_scale; Some (Dec x) }"

definition i128_try_from_Dec :: "Dec \<Rightarrow> i128 option" where
  "i128_try_from_Dec value = i128_try_from_I256 (dec_inner value)"

text \<open>The derived order of the newtype is the order of its field.\<close>

instantiation Dec :: linorder
begin

definition less_eq_Dec :: "Dec \<Rightarrow> Dec \<Rightarrow> bool" where
  "less_eq_Dec a b \<longleftrightarrow> dec_inner a \<le> dec_inner b"

definition less_Dec :: "Dec \<Rightarrow> Dec \<Rightarrow> bool" where
  "less_Dec a b \<longleftrightarrow> dec_inner a < dec_inner b"

instance
  by standard (auto simp: less_eq_Dec_def less_Dec_def Dec.expand)

end

definition Dec_abs_diff :: "Dec \<Rightarrow> Dec \<Rightarrow> arith_error + Dec" where
  "Dec_abs_diff slf other =
     (if slf > other then ok_or (Dec_checked_sub slf other) ArithError
      else ok_or (Dec_checked_sub other slf) ArithError)"

text \<open>
  Parsing and printing, over the parser and printer of the 256-bit integers. The errors are
  the messages of the source in their order; \<open>DecLenUnderflow\<close> is the panic of the
  subtraction that computes \<open>len_diff\<close>.
\<close>

datatype dec_error =
  DecNotInteger | DecNoDecimals | DecLenUnderflow | DecNotDecimals | DecDecimalOverflow
  | DecTooLarge | DecAddOverflow | DecNotI256 | DecNegate

definition Dec_from_str :: "(string \<Rightarrow> Uint option) \<Rightarrow> string \<Rightarrow> dec_error + Dec" where
  "Dec_from_str from_str_radix10 s =
     (let ((large, small), is_neg) =
        (case strip_prefix (CHR ''-'') s of
           Some strip \<Rightarrow>
             ((case split_once (CHR ''.'') strip of Some p \<Rightarrow> p | None \<Rightarrow> (strip, ''0'')), True)
         | None \<Rightarrow> ((case split_once (CHR ''.'') s of Some p \<Rightarrow> p | None \<Rightarrow> (s, ''0'')), False))
      in rbind (ok_or (from_str_radix10 large) DecNotInteger) (\<lambda>num_large.
         if small = [] then Inl DecNoDecimals
         else
           let trimmed = take (unat POS_DECIMAL_PRECISION) (trim_end_matches (CHR ''0'') small)
           in rbind
                (if trimmed = [] then Inr 0
                 else if utf8_len trimmed > unat POS_DECIMAL_PRECISION then Inl DecLenUnderflow
                 else
                   let len_diff = unat POS_DECIMAL_PRECISION - utf8_len trimmed
                   in rbind (ok_or (from_str_radix10 trimmed) DecNotDecimals) (\<lambda>d.
                        ok_or (checked_mul d (exp10 len_diff)) DecDecimalOverflow))
                (\<lambda>decimal_part.
              rbind (ok_or (checked_mul (exp10 (unat POS_DECIMAL_PRECISION)) num_large) DecTooLarge)
                (\<lambda>int_part.
              rbind (ok_or (checked_add int_part decimal_part) DecAddOverflow) (\<lambda>sm.
              rbind (ok_or (I256_try_from_uint sm) DecNotI256) (\<lambda>inner.
              if is_neg then rbind (ok_or (I256_checked_neg inner) DecNegate) (\<lambda>n. Inr (Dec n))
              else Inr (Dec inner)))))))"

definition Dec_to_string :: "(Uint \<Rightarrow> string) \<Rightarrow> Dec \<Rightarrow> string" where
  "Dec_to_string uint_to_string slf =
     (let is_neg = Dec_is_negative slf;
          p = unat POS_DECIMAL_PRECISION;
          digits = uint_to_string (I256_abs (dec_inner slf));
          padded =
            (if length digits > p
             then string_insert (length digits - p) (CHR ''.'') digits
             else ''0.'' @ replicate (p - length digits) (CHR ''0'') @ digits);
          stripped = trim_end_matches (CHR ''.'') (trim_end_matches (CHR ''0'') padded)
      in if stripped = [] then ''0''
         else if is_neg then CHR ''-'' # stripped
         else stripped)"

section \<open>Exact arithmetic\<close>

definition dec_val :: "Dec \<Rightarrow> int" where
  "dec_val d = i256_val (dec_inner d)"

definition Dec_inv :: "Dec \<Rightarrow> bool" where
  "Dec_inv d \<longleftrightarrow> I256_inv (dec_inner d)"

definition dec_of :: "int \<Rightarrow> Dec" where
  "dec_of z = Dec (i256_of z)"

definition dec_checked :: "int \<Rightarrow> Dec option" where
  "dec_checked z = (if \<bar>z\<bar> < 2 ^ 255 then Some (dec_of z) else None)"

lemma dec_checked_alt: "dec_checked z = map_option Dec (i256_checked z)"
  by (simp add: dec_checked_def i256_checked_def dec_of_def)

lemma dec_val_of: "\<bar>z\<bar> < 2 ^ 255 \<Longrightarrow> dec_val (dec_of z) = z"
  by (simp add: dec_val_def dec_of_def i256_val_of)

lemma Dec_inv_of: "\<bar>z\<bar> < 2 ^ 255 \<Longrightarrow> Dec_inv (dec_of z)"
  by (simp add: Dec_inv_def dec_of_def I256_inv_of)

lemma Dec_inv_val: "Dec_inv d \<longleftrightarrow> \<bar>dec_val d\<bar> < 2 ^ 255"
  by (simp add: Dec_inv_def dec_val_def I256_inv_val)

lemma dec_of_val [simp]: "dec_of (dec_val d) = d"
  by (simp add: dec_of_def dec_val_def)

lemma dec_checked_Some: "dec_checked z = Some d \<longleftrightarrow> Dec_inv d \<and> dec_val d = z"
  by (auto simp: dec_checked_def Dec_inv_of dec_val_of Dec_inv_val)

lemma exp10_pos_precision: "unat (exp10 (unat POS_DECIMAL_PRECISION)) = 10 ^ 12"
  by (simp add: exp10_def POS_DECIMAL_PRECISION_def)

lemma dec_scale_val [simp]: "i256_val dec_scale = 10 ^ 12" "I256_inv dec_scale"
  by (simp_all add: dec_scale_def exp10_def POS_DECIMAL_PRECISION_def i256_val_if I256_inv_iff)

lemma Dec_checked_add_eq:
  "Dec_inv a \<Longrightarrow> Dec_inv b \<Longrightarrow> Dec_checked_add a b = dec_checked (dec_val a + dec_val b)"
  by (simp add: Dec_checked_add_def Dec_inv_def dec_val_def I256_checked_add_eq dec_checked_alt
      i256_checked_def)

lemma Dec_checked_sub_eq:
  "Dec_inv a \<Longrightarrow> Dec_inv b \<Longrightarrow> Dec_checked_sub a b = dec_checked (dec_val a - dec_val b)"
  by (simp add: Dec_checked_sub_def Dec_inv_def dec_val_def I256_checked_sub_eq dec_checked_alt
      i256_checked_def)

lemma Dec_checked_neg_eq: "Dec_inv a \<Longrightarrow> Dec_checked_neg a = Some (dec_of (- dec_val a))"
  by (simp add: Dec_checked_neg_def Dec_inv_def dec_val_def dec_of_def I256_checked_neg_eq)

lemma Dec_checked_mul_eq:
  assumes "Dec_inv a" "Dec_inv b"
  shows "Dec_checked_mul a b =
    (if \<bar>dec_val a * dec_val b\<bar> < 2 ^ 255 then Some (dec_of (tdiv (dec_val a * dec_val b) (10 ^ 12))) else None)"
  using assms
  by (simp add: Dec_checked_mul_def Dec_inv_def dec_val_def dec_of_def I256_checked_mul_eq
      i256_checked_def I256_checked_div_eq I256_inv_of i256_val_of)

lemma Dec_trunc_div_eq:
  assumes a: "Dec_inv a" and b: "Dec_inv b"
  shows "Dec_trunc_div a b =
    (if dec_val b = 0 then None else dec_checked (tdiv (dec_val a * 10 ^ 12) (dec_val b)))"
proof (cases "dec_val b = 0")
  case True
  then show ?thesis
    using b by (simp add: Dec_trunc_div_def fixed_precision_div_eq Dec_inv_def dec_val_def I256_abs_0_iff)
next
  case False
  define m n where "m = unat (I256_abs (dec_inner a))" and "n = unat (I256_abs (dec_inner b))"
  define q where "q = 10 ^ 12 * m div n"
  have mn: "int m = \<bar>dec_val a\<bar>" "int n = \<bar>dec_val b\<bar>"
    using a b unfolding m_def n_def by (simp_all only: I256_abs_val Dec_inv_def dec_val_def)
  have q: "int q = \<bar>dec_val a * 10 ^ 12\<bar> div \<bar>dec_val b\<bar>"
    by (simp add: q_def zdiv_int mn abs_mult ac_simps)
  have "I256_abs (dec_inner b) \<noteq> 0"
    using False b by (simp add: I256_abs_0_iff Dec_inv_def dec_val_def)
  then have f: "fixed_precision_div (I256_abs (dec_inner a)) (I256_abs (dec_inner b)) POS_DECIMAL_PRECISION =
      (if 2 ^ 256 \<le> q then None else Some (of_nat q))"
    by (simp add: fixed_precision_div_eq POS_DECIMAL_PRECISION_def q_def m_def n_def)
  have r: "Dec_trunc_div a b =
      (if q < 2 ^ 255 then Some (dec_of (if (dec_val a < 0) = (dec_val b < 0) then int q else - int q)) else None)"
    unfolding Dec_trunc_div_def Let_def f
    by (simp add: I256_try_from_uint_eq unat_of_nat_lt i256_checked_def I256_neg_of
        I256_is_negative_val dec_val_def dec_of_def)
  have "tdiv (dec_val a * 10 ^ 12) (dec_val b) =
      (if (dec_val a < 0) = (dec_val b < 0) then int q else - int q)"
    using False unfolding q tdiv_def by (auto simp: sgn_if abs_mult mult_less_0_iff)
  then show ?thesis
    using False by (simp add: r dec_checked_def)
qed

lemma Dec_to_i256_eq: "Dec_inv a \<Longrightarrow> Dec_to_i256 a = Some (i256_of (tdiv (dec_val a) (10 ^ 12)))"
  by (simp add: Dec_to_i256_def Dec_inv_def dec_val_def I256_checked_div_eq)

lemma Dec_to_uint_eq:
  assumes "Dec_inv a"
  shows "Dec_to_uint a = (if dec_val a < 0 then None else Some (of_nat (nat (dec_val a) div 10 ^ 12)))"
proof -
  have "dec_val a \<ge> 0 \<Longrightarrow> unat (I256_abs (dec_inner a)) = nat (dec_val a)"
    using I256_abs_val [of "dec_inner a"] assms unfolding Dec_inv_def dec_val_def
    by (metis abs_of_nonneg nat_int)
  then show ?thesis
    by (simp add: Dec_to_uint_def Dec_is_negative_def I256_is_negative_val checked_div_of_nat
        exp10_pos_precision flip: dec_val_def)
qed

lemma Dec_le_val: "Dec_inv a \<Longrightarrow> Dec_inv b \<Longrightarrow> a \<le> b \<longleftrightarrow> dec_val a \<le> dec_val b"
  by (simp add: less_eq_Dec_def Dec_inv_def dec_val_def I256_le_val)

lemma Dec_less_val: "Dec_inv a \<Longrightarrow> Dec_inv b \<Longrightarrow> a < b \<longleftrightarrow> dec_val a < dec_val b"
  by (simp add: less_Dec_def Dec_inv_def dec_val_def I256_less_val)

lemma Dec_abs_diff_eq:
  "Dec_inv a \<Longrightarrow> Dec_inv b \<Longrightarrow> Dec_abs_diff a b = ok_or (dec_checked \<bar>dec_val a - dec_val b\<bar>) ArithError"
  by (simp add: Dec_abs_diff_def Dec_less_val Dec_checked_sub_eq)

section \<open>Rounding and conversions\<close>

lemma Dec_from_u64_eq: "Dec_from_u64 n = Some (dec_of (int (unat n) * 10 ^ 12))"
proof -
  have u: "unat (ucast n :: Uint) = unat n" by (rule unat_ucast_up) simp
  have "unat n < 2 ^ 64" using unat_lt_2p [of n] by simp
  then have "I256_inv (I256 (ucast n))" "i256_val (I256 (ucast n)) = int (unat n)"
    "\<bar>int (unat n) * 10 ^ 12\<bar> < 2 ^ 255"
    using u by (simp_all add: I256_inv_iff i256_val_if del: of_nat_unat)
  then show ?thesis
    by (simp add: Dec_from_u64_def I256_checked_mul_eq i256_checked_def dec_of_def del: of_nat_unat)
qed

lemma Dec_from_i128_eq: "Dec_from_i128 n = Some (dec_of (sint n * 10 ^ 12))"
proof -
  have b: "- (2 ^ 127) \<le> sint n" "sint n < 2 ^ 127"
    using sint_greater_eq [of n] sint_less [of n] by simp_all
  then have "\<bar>sint n\<bar> < 2 ^ 255" "\<bar>sint n * 10 ^ 12\<bar> < 2 ^ 255"
    by simp_all
  then show ?thesis
    by (simp add: Dec_from_i128_def I256_from_i128_eq I256_checked_mul_eq I256_inv_of i256_val_of
        i256_checked_def dec_of_def)
qed

lemma Dec_constants:
  "Dec_one = Some (dec_of (10 ^ 12))" "Dec_two = Some (dec_of (2 * 10 ^ 12))"
  "Dec_one_third = Some (dec_of 333333333333)" "Dec_two_thirds = Some (dec_of 666666666666)"
proof -
  show one: "Dec_one = Some (dec_of (10 ^ 12))"
    by (simp add: Dec_one_def checked_mul_of_nat exp10_pos_precision dec_of_def i256_of_def)
  show two: "Dec_two = Some (dec_of (2 * 10 ^ 12))"
    by (simp add: Dec_two_def one Dec_checked_add_eq Dec_inv_of dec_val_of dec_checked_def)
  have three: "Dec_from_i32 3 = Some (dec_of (3 * 10 ^ 12))"
    by (simp add: Dec_from_i32_def Dec_from_i128_eq)
  show "Dec_one_third = Some (dec_of 333333333333)"
    by (simp add: Dec_one_third_def one three Dec_checked_div_def Dec_trunc_div_eq Dec_inv_of dec_val_of
        dec_checked_def tdiv_def)
  show "Dec_two_thirds = Some (dec_of 666666666666)"
    by (simp add: Dec_two_thirds_def two three Dec_checked_div_def Dec_trunc_div_eq Dec_inv_of dec_val_of
        dec_checked_def tdiv_def)
qed

lemma unat_exp10: "n \<le> 12 \<Longrightarrow> unat (exp10 n) = 10 ^ n"
proof -
  assume "n \<le> 12"
  then have "(10 :: nat) ^ n \<le> 10 ^ 12" by (intro power_increasing) auto
  then have "(10 :: nat) ^ n < 2 ^ LENGTH(256)" by (rule le_less_trans) simp
  then show ?thesis by (simp add: exp10_def unat_power_small)
qed

lemma i128_abs_val:
  assumes "i128_abs m = Some a"
  shows "sint a = \<bar>sint m\<bar>"
proof (cases "sint m < 0")
  case True
  define u v where "u = unat m" and "v = unat (- m)"
  have "m \<noteq> 0" using True by auto
  then have "v = 2 ^ 128 - u" "u < 2 ^ 128" using unat_neg [of m] unat_lt_2p [of m] by (simp_all add: u_def v_def)
  moreover have "\<not> u < 2 ^ 127" "sint m = int u - 2 ^ 128"
    using True sint_unat [of m, folded u_def] by (auto split: if_splits)
  moreover have "sint m \<noteq> - (2 ^ 127)" "a = - m" using assms True by (auto simp: i128_abs_def split: if_splits)
  ultimately show ?thesis
    using True sint_unat [of "- m", folded v_def] by (auto simp: of_nat_diff)
qed (use assms in \<open>auto simp: i128_abs_def split: if_splits\<close>)

lemma Dec_new_eq:
  assumes "unat scale \<le> 12" "\<bar>sint mantissa\<bar> < 2 ^ 64"
  shows "Dec_new mantissa scale = Some (dec_of (sint mantissa * 10 ^ (12 - unat scale)))"
proof -
  let ?m = "sint mantissa" and ?k = "12 - unat scale"
  have p: "unat POS_DECIMAL_PRECISION = 12" by (simp add: POS_DECIMAL_PRECISION_def)
  have sc: "\<not> scale > POS_DECIMAL_PRECISION" "unat (POS_DECIMAL_PRECISION - scale) = ?k"
    using assms(1) by (simp_all add: word_less_nat_alt unat_sub word_le_nat_alt p)
  obtain a where a: "i128_abs mantissa = Some a" "sint a = \<bar>?m\<bar>"
  proof -
    have "sint mantissa \<noteq> - (2 ^ 127)" using assms(2) by auto
    then have a: "i128_abs mantissa = Some (if ?m < 0 then - mantissa else mantissa)" by (simp add: i128_abs_def)
    show ?thesis by (rule that [OF a i128_abs_val [OF a]])
  qed
  have ua: "int (unat a) = \<bar>?m\<bar>"
  proof -
    define u where "u = unat a"
    have "u < 2 ^ 128" using unat_lt_2p [of a] by (simp add: u_def)
    then show ?thesis using a(2) sint_unat [of a, folded u_def] unfolding u_def [symmetric] by (auto split: if_splits)
  qed
  have ab: "u64_try_from_i128 a = Some (ucast a)" using a(2) assms(2) by (simp add: u64_try_from_i128_def)
  have "int (unat a) < int (2 ^ 64)" using assms(2) unfolding ua by simp
  then have u64: "unat a < 2 ^ 64" by (simp only: of_nat_less_iff)
  then have "unat (ucast a :: u64) = unat a" by (simp add: unsigned_ucast_eq take_bit_nat_eq_self)
  then have uu: "unat (ucast (ucast a :: u64) :: Uint) = unat a" by (simp add: unat_ucast_up)
  have "(10 :: nat) ^ ?k \<le> 10 ^ 12" by (intro power_increasing) auto
  then have le: "10 ^ ?k * unat a \<le> 10 ^ 12 * 2 ^ 64" using u64 by (intro mult_le_mono) auto
  have mul: "checked_mul (exp10 ?k) (ucast (ucast a :: u64)) = Some (of_nat (10 ^ ?k * unat a) :: Uint)"
    using le_less_trans [OF le, of "2 ^ 256"]
    by (simp add: checked_mul_of_nat uu unat_exp10 del: of_nat_mult)
  have i: "int (10 ^ ?k * unat a) = \<bar>?m\<bar> * 10 ^ ?k" unfolding of_nat_mult ua by simp
  have "10 ^ ?k * unat a < 2 ^ 255" using le by (rule le_less_trans) simp
  then have n: "I256_checked_neg (I256 (of_nat (10 ^ ?k * unat a))) = Some (i256_of (- int (10 ^ ?k * unat a)))"
    unfolding I256_of_nat by (rule I256_neg_of_nat)
  show ?thesis
    using sc a(1) ab mul n unfolding Dec_new_def
    by (auto simp: I256_of_nat i dec_of_def simp del: of_nat_mult of_nat_power)
qed

text \<open>
  \<open>Dec::ceil\<close> subtracts the integer part without scaling it back. The result is the
  ceiling for zero, for negative and for fractional values, and one more than the value for
  every positive integer.
\<close>

lemma tdiv_nonneg: "0 \<le> a \<Longrightarrow> 0 < b \<Longrightarrow> tdiv a b = a div b"
  by (cases "a = 0") (simp_all add: tdiv_def)

lemma Dec_ceil_nonneg:
  assumes inv: "Dec_inv a" and nn: "0 \<le> dec_val a"
  shows "Dec_ceil a =
    (if dec_val a = 0 then Some (i256_of 0) else Some (i256_of (dec_val a div 10 ^ 12 + 1)))"
proof -
  define f where "f = dec_val a div 10 ^ 12"
  have v: "\<bar>dec_val a\<bar> < 2 ^ 255" using inv by (simp add: Dec_inv_val)
  have f: "0 \<le> f" "f \<le> dec_val a" "f = dec_val a \<longleftrightarrow> dec_val a = 0" "2 * f \<le> dec_val a"
    using nn by (auto simp: f_def)
  have fi: "I256_inv (i256_of f)" "i256_val (i256_of f) = f" "Dec_inv (dec_of f)" "dec_val (dec_of f) = f"
    using f v nn by (simp_all add: I256_inv_of i256_val_of Dec_inv_of dec_val_of)
  have neg: "\<not> I256_is_negative (dec_inner a)"
    using nn by (simp add: I256_is_negative_val dec_val_def)
  have t: "Dec_to_i256 a = Some (i256_of f)"
    using inv nn by (simp add: Dec_to_i256_eq tdiv_nonneg f_def)
  have s: "Dec_checked_sub a (dec_of f) = Some (dec_of (dec_val a - f))"
    using inv fi f v nn by (simp add: Dec_checked_sub_eq dec_checked_def)
  have z: "Dec_is_zero (dec_of (dec_val a - f)) \<longleftrightarrow> dec_val a = 0"
  proof -
    have "\<bar>dec_val a - f\<bar> < 2 ^ 255" using f v nn by simp
    then have "dec_val (dec_of (dec_val a - f)) = dec_val a - f" by (rule dec_val_of)
    moreover have "dec_val Dec_zero = 0" "dec_of 0 = Dec_zero"
      by (simp_all add: dec_val_def Dec_zero_def I256_zero_def i256_val_def dec_of_def i256_of_def)
    ultimately show ?thesis using f(3) by (metis Dec_is_zero_def eq_iff_diff_eq_0)
  qed
  have one: "I256_inv I256_one" "i256_val I256_one = 1"
    by (simp_all add: I256_one_def I256_inv_iff i256_val_if)
  have p: "I256_checked_add (i256_of f) I256_one = Some (i256_of (f + 1))" if "dec_val a \<noteq> 0"
  proof -
    have "\<bar>f + 1\<bar> < 2 ^ 255" using f v nn that by auto
    then show ?thesis using fi one by (simp add: I256_checked_add_eq i256_checked_def)
  qed
  have "Dec_ceil a = (if dec_val a = 0 then Some (i256_of f) else Some (i256_of (f + 1)))"
    using neg t s z p by (simp add: Dec_ceil_def flip: dec_of_def)
  then show ?thesis by (simp add: f_def)
qed

section \<open>Parsing and printing\<close>

text \<open>
  The value of the fractional digits in units of \<open>10^-12\<close>: digits beyond the twelfth are
  dropped. Trailing zeros do not change it.
\<close>

definition frac_units :: "string \<Rightarrow> nat" where
  "frac_units F = dec_value (take 12 F) * 10 ^ (12 - length (take 12 F))"

lemma frac_units_zeros: "frac_units (T @ replicate n (CHR ''0'')) = frac_units T"
proof (cases "length T < 12")
  case True
  define k where "k = min n (12 - length T)"
  have "take 12 (T @ replicate n (CHR ''0'')) = T @ replicate k (CHR ''0'')"
    using True by (simp add: k_def min.commute)
  moreover have "10 ^ k * 10 ^ (12 - (length T + k)) = (10 :: nat) ^ (12 - length T)"
    unfolding power_add [symmetric] using True by (simp add: k_def)
  ultimately show ?thesis
    using True by (simp add: frac_units_def dec_value_append mult.assoc)
qed (simp add: frac_units_def)

lemma frac_units_trim: "frac_units (trim_end_matches (CHR ''0'') F) = frac_units F"
  by (metis frac_units_zeros trim_end_split)

lemma set_trim_end: "set (trim_end_matches c s) \<subseteq> set s"
  by (metis Un_upper1 set_append trim_end_split)

lemma digits_trim: "list_all is_ascii_digit s \<Longrightarrow> list_all is_ascii_digit (trim_end_matches c s)"
  using set_trim_end [of c s] by (auto simp: list_all_iff)

lemma digits_take: "list_all is_ascii_digit s \<Longrightarrow> list_all is_ascii_digit (take n s)"
  by (auto simp: list_all_iff dest: in_set_takeD)

lemma frac_units_lt: "list_all is_ascii_digit F \<Longrightarrow> frac_units F < 10 ^ 12"
proof -
  assume "list_all is_ascii_digit F"
  then have "dec_value (take 12 F) < 10 ^ length (take 12 F)" by (intro dec_value_lt digits_take)
  then have "frac_units F < 10 ^ length (take 12 F) * 10 ^ (12 - length (take 12 F))"
    by (simp add: frac_units_def)
  also have "\<dots> = 10 ^ 12" unfolding power_add [symmetric] by simp
  finally show ?thesis .
qed

text \<open>The sign, the integer part and the fractional part of a numeral.\<close>

definition signed_numeral :: "bool \<Rightarrow> string \<Rightarrow> string" where
  "signed_numeral neg s = (if neg then CHR ''-'' # s else s)"

definition fixed_numeral :: "string \<Rightarrow> string option \<Rightarrow> string" where
  "fixed_numeral L F = (case F of None \<Rightarrow> L | Some f \<Rightarrow> L @ CHR ''.'' # f)"

lemma strip_numeral:
  assumes "list_all is_ascii_digit L" "L \<noteq> []"
  shows "strip_prefix (CHR ''-'') (signed_numeral neg (fixed_numeral L F)) =
    (if neg then Some (fixed_numeral L F) else None)"
proof -
  obtain c L' where "L = c # L'" "is_ascii_digit c" using assms by (cases L) auto
  then have "c \<noteq> CHR ''-''" by auto
  then show ?thesis
    using \<open>L = c # L'\<close> by (auto simp: signed_numeral_def fixed_numeral_def split: option.split)
qed

lemma split_numeral:
  "list_all is_ascii_digit L \<Longrightarrow>
    (case split_once (CHR ''.'') (fixed_numeral L F) of Some p \<Rightarrow> p | None \<Rightarrow> (fixed_numeral L F, ''0'')) =
    (L, case F of None \<Rightarrow> ''0'' | Some f \<Rightarrow> f)"
  using digits_no_punct(1) [of L]
  by (cases F) (simp_all add: fixed_numeral_def split_once_None split_once_append)

lemma decimal_part_eq:
  assumes p: "radix10_parser p" and F: "list_all is_ascii_digit F"
  defines "T \<equiv> take (unat POS_DECIMAL_PRECISION) (trim_end_matches (CHR ''0'') F)"
  shows "(if T = [] then Inr 0
     else if utf8_len T > unat POS_DECIMAL_PRECISION then Inl DecLenUnderflow
     else rbind (ok_or (p T) DecNotDecimals) (\<lambda>d.
            ok_or (checked_mul d (exp10 (unat POS_DECIMAL_PRECISION - utf8_len T))) DecDecimalOverflow)) =
     Inr (of_nat (frac_units F) :: Uint)"
proof -
  have P: "unat POS_DECIMAL_PRECISION = 12" by (simp add: POS_DECIMAL_PRECISION_def)
  have dT: "list_all is_ascii_digit T" unfolding T_def by (intro digits_take digits_trim F)
  have len: "length T \<le> 12" unfolding T_def P by simp
  have u: "utf8_len T = length T" using dT by (rule utf8_len_digits)
  have fr: "frac_units F = dec_value T * 10 ^ (12 - length T)"
    unfolding T_def P by (simp only: frac_units_trim [of F, symmetric]) (simp add: frac_units_def)
  have lt: "frac_units F < 10 ^ 12" using F by (rule frac_units_lt)
  have vT: "dec_value T < 10 ^ 12"
    using dec_value_lt [OF dT] power_increasing [OF len, of "10 :: nat"] by linarith
  have e: "unat (exp10 (12 - length T)) = 10 ^ (12 - length T)"
  proof -
    have "(10 :: nat) ^ (12 - length T) \<le> 10 ^ 12" by (rule power_increasing) simp_all
    then have "unat (10 :: Uint) ^ (12 - length T) < 2 ^ LENGTH(256)" by simp
    from unat_power_small [OF this] show ?thesis by (simp add: exp10_def)
  qed
  show ?thesis
  proof (cases "T = []")
    case True
    then show ?thesis using fr by simp
  next
    case False
    then have "p T = Some (of_nat (dec_value T))"
      using vT by (intro radix10_parserD p dT) simp_all
    then show ?thesis
      using False len vT lt e unfolding u P fr
      by (simp add: checked_mul_of_nat unat_of_nat_lt del: of_nat_mult)
  qed
qed

definition numeral_units :: "string \<Rightarrow> string option \<Rightarrow> nat" where
  "numeral_units L F = dec_value L * 10 ^ 12 + frac_units (case F of None \<Rightarrow> ''0'' | Some f \<Rightarrow> f)"

lemma Dec_from_str_numeral:
  assumes p: "radix10_parser p"
    and L: "L \<noteq> []" "list_all is_ascii_digit L"
    and F: "pred_option (\<lambda>f. f \<noteq> [] \<and> list_all is_ascii_digit f) F"
    and fits: "numeral_units L F < 2 ^ 255"
  shows "Dec_from_str p (signed_numeral neg (fixed_numeral L F)) =
    Inr (dec_of (if neg then - int (numeral_units L F) else int (numeral_units L F)))"
proof -
  define f where "f = (case F of None \<Rightarrow> ''0'' | Some f \<Rightarrow> f)"
  have f: "f \<noteq> []" "list_all is_ascii_digit f" using F by (auto simp: f_def split: option.split)
  have n: "numeral_units L F = dec_value L * 10 ^ 12 + frac_units f" by (simp add: numeral_units_def f_def)
  have ff: "frac_units f < 10 ^ 12" using f(2) by (rule frac_units_lt)
  have lL: "dec_value L * 10 ^ 12 < 2 ^ 255" using fits by (simp add: n)
  have pL: "p L = Some (of_nat (dec_value L))"
    by (rule radix10_parserD [OF p L]) (use lL in simp)
  have e: "unat (exp10 (unat POS_DECIMAL_PRECISION)) = 10 ^ 12" by (rule exp10_pos_precision)
  have ip: "checked_mul (exp10 (unat POS_DECIMAL_PRECISION)) (of_nat (dec_value L)) =
      Some (of_nat (dec_value L * 10 ^ 12) :: Uint)"
    using lL by (simp add: checked_mul_of_nat e unat_of_nat_lt mult.commute del: of_nat_mult)
  have sm: "checked_add (of_nat (dec_value L * 10 ^ 12) :: Uint) (of_nat (frac_units f)) =
      Some (of_nat (numeral_units L F))"
  proof -
    have "unat (of_nat (dec_value L * 10 ^ 12) :: Uint) = dec_value L * 10 ^ 12"
      using lL by (intro unat_of_nat_lt) simp
    moreover have "unat (of_nat (frac_units f) :: Uint) = frac_units f"
      using ff by (intro unat_of_nat_lt) simp
    ultimately show ?thesis
      using fits by (simp add: checked_add_of_nat n del: of_nat_add of_nat_mult)
  qed
  have i: "I256_try_from_uint (of_nat (numeral_units L F)) = Some (i256_of (int (numeral_units L F)))"
    using fits by (simp add: I256_try_from_uint_eq unat_of_nat_lt i256_checked_def del: of_nat_unat)
  have g: "I256_checked_neg (i256_of (int (numeral_units L F))) = Some (i256_of (- int (numeral_units L F)))"
    using fits by (rule I256_neg_of_nat)
  have split: "(case strip_prefix (CHR ''-'') (signed_numeral neg (fixed_numeral L F)) of
           Some strip \<Rightarrow>
             ((case split_once (CHR ''.'') strip of Some p \<Rightarrow> p | None \<Rightarrow> (strip, ''0'')), True)
         | None \<Rightarrow> ((case split_once (CHR ''.'') (signed_numeral neg (fixed_numeral L F)) of Some p \<Rightarrow> p
              | None \<Rightarrow> (signed_numeral neg (fixed_numeral L F), ''0'')), False)) = ((L, f), neg)"
    using strip_numeral [OF L(2,1), of neg F] split_numeral [OF L(2), of F]
    by (cases neg) (simp_all only: signed_numeral_def f_def if_True if_False option.case)
  show ?thesis
    unfolding Dec_from_str_def Let_def split prod.case pL decimal_part_eq [OF p f(2)] ok_or_simps rbind_simps
      ip sm i g
    using f(1) by (simp add: dec_of_def)
qed

text \<open>What \<open>Display\<close> writes: the integer part and the fractional digits without trailing zeros.\<close>

lemma padded_split:
  obtains L F where "L \<noteq> []" "list_all is_ascii_digit L" "list_all is_ascii_digit F" "length F = 12"
    "dec_value L * 10 ^ 12 + dec_value F = v"
    "(if length (dec_string v) > 12 then string_insert (length (dec_string v) - 12) (CHR ''.'') (dec_string v)
      else ''0.'' @ replicate (12 - length (dec_string v)) (CHR ''0'') @ dec_string v) = L @ CHR ''.'' # F"
proof (cases "length (dec_string v) > 12")
  case True
  define k where "k = length (dec_string v) - 12"
  let ?L = "take k (dec_string v)" and ?F = "drop k (dec_string v)"
  have l: "length ?F = 12" using True by (simp add: k_def)
  have "?L \<noteq> []" using True by (simp add: k_def)
  moreover have "list_all is_ascii_digit ?L" "list_all is_ascii_digit ?F"
    using dec_string_digits [of v] by (auto simp: list_all_iff dest: in_set_takeD in_set_dropD)
  moreover have "dec_value ?L * 10 ^ 12 + dec_value ?F = v"
    using dec_value_append [of ?L ?F] l by simp
  ultimately show thesis using that [of ?L ?F] l True by (simp add: string_insert_def k_def)
next
  case False
  let ?F = "replicate (12 - length (dec_string v)) (CHR ''0'') @ dec_string v"
  have "list_all is_ascii_digit ?F" using dec_string_digits [of v] by (auto simp: list_all_iff)
  moreover have "dec_value ?F = v" by (simp add: dec_value_append)
  ultimately show thesis using that [of "''0''" ?F] False by (simp add: dec_value_def)
qed

lemma stripped_numeral:
  assumes L: "L \<noteq> []" "list_all is_ascii_digit L" and F: "list_all is_ascii_digit F"
  defines "T \<equiv> trim_end_matches (CHR ''0'') F"
  shows "trim_end_matches (CHR ''.'') (trim_end_matches (CHR ''0'') (L @ CHR ''.'' # F)) =
    fixed_numeral L (if T = [] then None else Some T)"
proof -
  obtain n where n: "F = T @ replicate n (CHR ''0'')" unfolding T_def using trim_end_split by blast
  have lL: "last L \<noteq> CHR ''.''"
    using L digits_no_punct(1) [OF L(2)] by (metis last_in_set)
  have dT: "list_all is_ascii_digit T" unfolding T_def using F by (rule digits_trim)
  have z: "trim_end_matches (CHR ''0'') (L @ CHR ''.'' # F) = trim_end_matches (CHR ''0'') (L @ CHR ''.'' # T)"
    using trim_end_append_replicate [of "CHR ''0''" "L @ CHR ''.'' # T" n] by (simp add: n)
  show ?thesis
  proof (cases "T = []")
    case True
    have "trim_end_matches (CHR ''0'') (L @ ''.'') = L @ ''.''" by (rule trim_end_other) simp_all
    moreover have "trim_end_matches (CHR ''.'') (L @ ''.'') = L"
      using trim_end_append_replicate [of "CHR ''.''" L 1] trim_end_other [OF L(1) lL] by simp
    ultimately show ?thesis using True z by (simp add: fixed_numeral_def)
  next
    case False
    have "last T \<noteq> CHR ''0''" using False unfolding T_def by (rule trim_end_last)
    moreover have "last T \<noteq> CHR ''.''" using False digits_no_punct(1) [OF dT] by (metis last_in_set)
    ultimately show ?thesis
      using False z by (simp add: fixed_numeral_def trim_end_other)
  qed
qed

lemma Dec_to_string_numeral:
  assumes q: "radix10_printer q" and inv: "Dec_inv d"
  obtains L F where "Dec_to_string q d = signed_numeral (dec_val d < 0) (fixed_numeral L F)"
    "L \<noteq> []" "list_all is_ascii_digit L" "pred_option (\<lambda>f. f \<noteq> [] \<and> list_all is_ascii_digit f) F"
    "int (numeral_units L F) = \<bar>dec_val d\<bar>"
proof -
  define v where "v = unat (I256_abs (dec_inner d))"
  have v: "int v = \<bar>dec_val d\<bar>"
    unfolding v_def dec_val_def by (rule I256_abs_val) (use inv in \<open>simp add: Dec_inv_def\<close>)
  obtain L F where LF: "L \<noteq> []" "list_all is_ascii_digit L" "list_all is_ascii_digit F" "length F = 12"
    "dec_value L * 10 ^ 12 + dec_value F = v"
    and pad: "(if length (dec_string v) > 12 then string_insert (length (dec_string v) - 12) (CHR ''.'') (dec_string v)
      else ''0.'' @ replicate (12 - length (dec_string v)) (CHR ''0'') @ dec_string v) = L @ CHR ''.'' # F"
    by (rule padded_split [of v])
  define T where "T = trim_end_matches (CHR ''0'') F"
  define G where "G = (if T = [] then None else Some T)"
  have P: "unat POS_DECIMAL_PRECISION = 12" by (simp add: POS_DECIMAL_PRECISION_def)
  have neg: "Dec_is_negative d \<longleftrightarrow> dec_val d < 0"
    by (simp add: Dec_is_negative_def I256_is_negative_val dec_val_def)
  have ne: "fixed_numeral L G \<noteq> []" using LF(1) by (simp add: fixed_numeral_def split: option.split)
  have digits: "q (I256_abs (dec_inner d)) = dec_string v" using q by (simp add: radix10_printer_def v_def)
  have "Dec_to_string q d = signed_numeral (dec_val d < 0) (fixed_numeral L G)"
    unfolding Dec_to_string_def Let_def P digits pad stripped_numeral [OF LF(1-3)]
      T_def [symmetric] G_def [symmetric] neg using ne by (simp add: signed_numeral_def)
  moreover have "frac_units F = dec_value F" using LF(4) by (simp add: frac_units_def)
  then have "frac_units (case G of None \<Rightarrow> ''0'' | Some f \<Rightarrow> f) = dec_value F"
    using frac_units_trim [of F] by (auto simp: G_def T_def [symmetric] frac_units_def dec_value_def)
  then have "int (numeral_units L G) = \<bar>dec_val d\<bar>"
    unfolding v [symmetric] LF(5) [symmetric] numeral_units_def by simp
  moreover have "pred_option (\<lambda>f. f \<noteq> [] \<and> list_all is_ascii_digit f) G"
    using digits_trim [OF LF(3)] by (auto simp: G_def T_def)
  ultimately show thesis using that LF(1,2) by blast
qed

text \<open>
  C31: Printing a decimal and parsing it back is the identity, for every decimal that satisfies
  the invariant of the signed integers, given a parser and a printer of decimal integers.
\<close>

theorem Dec_string_roundtrip:
  assumes "radix10_parser p" and "radix10_printer q" and "Dec_inv d"
  shows "Dec_from_str p (Dec_to_string q d) = Inr d"
proof -
  obtain L F where s: "Dec_to_string q d = signed_numeral (dec_val d < 0) (fixed_numeral L F)"
    and LF: "L \<noteq> []" "list_all is_ascii_digit L" "pred_option (\<lambda>f. f \<noteq> [] \<and> list_all is_ascii_digit f) F"
    and n: "int (numeral_units L F) = \<bar>dec_val d\<bar>"
    by (rule Dec_to_string_numeral [OF assms(2,3)])
  have "numeral_units L F < 2 ^ 255"
    using n assms(3) by (simp add: Dec_inv_val)
  from Dec_from_str_numeral [OF assms(1) LF this, where neg = "dec_val d < 0"] show ?thesis
    unfolding s n by (auto simp: abs_if split: if_splits)
qed

text \<open>A parser and a printer of decimal integers, to evaluate the model with.\<close>

definition from_dec_str :: "string \<Rightarrow> Uint option" where
  "from_dec_str s =
     (if list_all is_ascii_digit s \<and> dec_value s < 2 ^ 256 then Some (of_nat (dec_value s)) else None)"

definition to_dec_str :: "Uint \<Rightarrow> string" where
  "to_dec_str w = dec_string (unat w)"

lemma radix10_instances: "radix10_parser from_dec_str" "radix10_printer to_dec_str"
  by (simp_all add: radix10_parser_def from_dec_str_def radix10_printer_def to_dec_str_def)

theorem Dec_string_roundtrip_witness:
  "Dec_from_str from_dec_str (Dec_to_string to_dec_str (dec_of (- 1500000000000))) =
     Inr (dec_of (- 1500000000000))"
  by (rule Dec_string_roundtrip [OF radix10_instances]) (rule Dec_inv_of, simp)

text \<open>
  The decimals of a number are cut before they are parsed by counting characters, but the
  missing places are counted in bytes: on a fraction of seven two-byte characters the
  subtraction underflows, and the parser panics instead of returning its error.
\<close>

theorem Dec_from_str_panics:
  assumes "radix10_parser p"
  shows "Dec_from_str p (''0.'' @ replicate 7 (CHR 0xE9)) = Inl DecLenUnderflow"
proof -
  have "p ''0'' = Some 0" using radix10_parserD [OF assms, of "''0''"] by (simp add: dec_value_def)
  moreover have "replicate 7 c = [c, c, c, c, c, c, c]" for c :: char by (simp add: numeral_eq_Suc)
  ultimately show ?thesis
    by (simp add: Dec_from_str_def trim_end_matches_def utf8_len_def POS_DECIMAL_PRECISION_def)
qed

theorem Dec_from_str_panics_witness:
  "Dec_from_str from_dec_str (''0.'' @ replicate 7 (CHR 0xE9)) = Inl DecLenUnderflow"
  by (rule Dec_from_str_panics [OF radix10_instances(1)])

section \<open>Decimals are always in range\<close>

text \<open>The decimals that the constructors, the parser and the arithmetic of the module can build.\<close>

inductive dec_built :: "Dec \<Rightarrow> bool" where
  built_zero: "dec_built Dec_zero"
| built_one: "Dec_one = Some d \<Longrightarrow> dec_built d"
| built_new: "Dec_new mantissa scale = Some d \<Longrightarrow> dec_built d"
| built_u64: "Dec_from_u64 n = Some d \<Longrightarrow> dec_built d"
| built_i128: "Dec_from_i128 i = Some d \<Longrightarrow> dec_built d"
| built_uint: "Dec_try_from_uint u = Some d \<Longrightarrow> dec_built d"
| built_u128: "Dec_try_from_u128 w = Some d \<Longrightarrow> dec_built d"
| built_str: "Dec_from_str from_str_radix10 s = Inr d \<Longrightarrow> dec_built d"
| built_add: "dec_built a \<Longrightarrow> dec_built b \<Longrightarrow> Dec_checked_add a b = Some d \<Longrightarrow> dec_built d"
| built_sub: "dec_built a \<Longrightarrow> dec_built b \<Longrightarrow> Dec_checked_sub a b = Some d \<Longrightarrow> dec_built d"
| built_mul: "dec_built a \<Longrightarrow> dec_built b \<Longrightarrow> Dec_checked_mul a b = Some d \<Longrightarrow> dec_built d"
| built_div: "dec_built a \<Longrightarrow> dec_built b \<Longrightarrow> Dec_checked_div a b = Some d \<Longrightarrow> dec_built d"
| built_neg: "dec_built a \<Longrightarrow> Dec_checked_neg a = Some d \<Longrightarrow> dec_built d"
| built_abs_diff: "dec_built a \<Longrightarrow> dec_built b \<Longrightarrow> Dec_abs_diff a b = Inr d \<Longrightarrow> dec_built d"

lemma i256_checked_inv: "i256_checked z = Some x \<Longrightarrow> I256_inv x"
  by (simp add: i256_checked_Some)

lemma neg_inv: "I256_inv a \<Longrightarrow> I256_checked_neg a = Some n \<Longrightarrow> I256_inv n"
  by (auto simp: I256_checked_neg_eq I256_inv_val i256_val_of)

lemma Dec_new_inv:
  assumes "Dec_new mantissa scale = Some d"
  shows "Dec_inv d"
proof -
  have sc: "unat scale \<le> 12"
    using assms by (simp add: Dec_new_def word_less_nat_alt POS_DECIMAL_PRECISION_def split: if_splits)
  obtain a where a: "i128_abs mantissa = Some a" "sint a < 2 ^ 64"
    using assms by (auto simp: Dec_new_def u64_try_from_i128_def bind_eq_Some_conv split: if_splits)
  then have m: "\<bar>sint mantissa\<bar> < 2 ^ 64" using i128_abs_val by metis
  have "(10 :: int) ^ (12 - unat scale) \<le> 10 ^ 12" by (intro power_increasing) simp_all
  then have "\<bar>sint mantissa * 10 ^ (12 - unat scale)\<bar> \<le> 2 ^ 64 * 10 ^ 12"
    unfolding abs_mult using m by (intro mult_mono) simp_all
  then have "\<bar>sint mantissa * 10 ^ (12 - unat scale)\<bar> < 2 ^ 255" by simp
  then show ?thesis using assms Dec_inv_of unfolding Dec_new_eq [OF sc m] by blast
qed

lemma Dec_from_str_inv:
  assumes "Dec_from_str p s = Inr d"
  shows "Dec_inv d"
proof -
  have "\<exists>sm inner. I256_try_from_uint sm = Some inner \<and> (d = Dec inner \<or> (\<exists>n. I256_checked_neg inner = Some n \<and> d = Dec n))"
    using assms unfolding Dec_from_str_def Let_def by (auto simp: rbind_Inr_iff result_simps split: prod.splits if_splits)
  then show ?thesis by (auto simp: Dec_inv_def I256_try_from_uint_eq dest: i256_checked_inv intro: neg_inv)
qed

lemma dec_built_inv: "dec_built d \<Longrightarrow> Dec_inv d"
proof (induction rule: dec_built.induct)
  case built_zero
  show ?case by (simp add: Dec_zero_def Dec_inv_def)
next
  case (built_one d)
  then show ?case by (auto simp: Dec_constants Dec_inv_of)
next
  case (built_u64 n d)
  have "unat n < 2 ^ 64" using unat_lt_2p [of n] by simp
  then have "int (unat n) * 10 ^ 12 < 2 ^ 255" by (simp del: of_nat_unat)
  then show ?case using built_u64 by (auto simp: Dec_from_u64_eq simp del: of_nat_unat intro!: Dec_inv_of)
next
  case (built_i128 i d)
  have "- (2 ^ 127) \<le> sint i" "sint i < 2 ^ 127" using sint_greater_eq [of i] sint_less [of i] by simp_all
  then show ?case using built_i128 by (auto simp: Dec_from_i128_eq intro!: Dec_inv_of)
next
  case (built_uint u d)
  then show ?case
    by (auto simp: Dec_try_from_uint_def bind_eq_Some_conv I256_try_from_uint_eq I256_checked_mul_eq i256_checked_inv Dec_inv_def dest!: i256_checked_inv)
next
  case (built_u128 w d)
  then show ?case
    by (auto simp: Dec_try_from_u128_def bind_eq_Some_conv I256_try_from_uint_eq I256_checked_mul_eq i256_checked_inv Dec_inv_def dest!: i256_checked_inv)
next
  case (built_mul a b d)
  have le: "\<bar>tdiv z (10 ^ 12)\<bar> \<le> \<bar>z\<bar>" for z :: int
    using zdiv_mono2 [of "\<bar>z\<bar>" 1 "10 ^ 12"] by (simp add: tdiv_def abs_mult abs_sgn_eq)
  show ?case using built_mul le_less_trans [OF le [of "dec_val a * dec_val b"]]
    by (auto simp: Dec_checked_mul_eq split: if_splits intro!: Dec_inv_of)
next
  case (built_neg a d)
  then show ?case by (auto simp: Dec_checked_neg_eq Dec_inv_val dec_val_of)
qed (auto simp: Dec_new_inv Dec_from_str_inv Dec_checked_add_eq Dec_checked_sub_eq Dec_checked_div_def Dec_trunc_div_eq
    Dec_abs_diff_eq dec_checked_Some result_simps split: if_splits)

text \<open>
  Every decimal that the module can build lies strictly between $-2^{255}$ and $2^{255}$: the least value of the
  signed representation, which has no negation, is never reached, so that negation never fails.
\<close>

theorem dec_built_in_range:
  assumes "dec_built d"
  shows "\<bar>dec_val d\<bar> < 2 ^ 255 \<and> (\<exists>n. Dec_checked_neg d = Some n \<and> dec_val n = - dec_val d)"
  using dec_built_inv [OF assms] by (simp add: Dec_inv_val Dec_checked_neg_eq dec_val_of)

theorem dec_built_in_range_witness: "\<bar>dec_val Dec_zero\<bar> < 2 ^ 255"
  using dec_built_in_range [OF built_zero] by blast

end
