(* ===== verification/TokenAmount.thy ===== *)
theory TokenAmount
  imports Decimal
begin

text \<open>
  \<open>core/src/token.rs\<close>: token amounts, amounts with a denomination, their parsing and
  printing, the products with decimals used for slashes and rewards, and the split of an
  amount into the four 64-bit digits of the shielded pool.
\<close>

section \<open>Amounts\<close>

datatype Amount = Amount (amount_raw: Uint)

type_synonym Change = I256

datatype AmountError = Insufficient | Overflow

datatype AmountParseError =
  ScaleTooLarge nat u8 | InvalidRange | ConvertToDecimal | FromString | NotNumeric
  | PrecisionOverflow | PrecisionDecrease

definition NATIVE_MAX_DECIMAL_PLACES :: u8 where
  "NATIVE_MAX_DECIMAL_PLACES = 6"

definition NATIVE_SCALE :: u64 where
  "NATIVE_SCALE = 1000000"

definition Amount_from_u64 :: "u64 \<Rightarrow> Amount" where
  "Amount_from_u64 x = Amount (ucast x)"

definition Amount_from_u128 :: "u128 \<Rightarrow> Amount" where
  "Amount_from_u128 x = Amount (ucast x)"

text \<open>\<open>change\<close> panics (\<^const>\<open>None\<close>) when the amount exceeds the signed range.\<close>

definition Amount_change :: "Amount \<Rightarrow> Change option" where
  "Amount_change slf = I256_try_from_uint (amount_raw slf)"

definition Amount_spend :: "Amount \<Rightarrow> Amount \<Rightarrow> AmountError + Amount" where
  "Amount_spend slf amount =
     rbind (ok_or (checked_sub (amount_raw slf) (amount_raw amount)) Insufficient) (\<lambda>r. Inr (Amount r))"

definition Amount_can_spend :: "Amount \<Rightarrow> Amount \<Rightarrow> bool" where
  "Amount_can_spend slf amount \<longleftrightarrow> amount_raw slf \<ge> amount_raw amount"

definition Amount_receive :: "Amount \<Rightarrow> Amount \<Rightarrow> AmountError + Amount" where
  "Amount_receive slf amount =
     rbind (ok_or (checked_add (amount_raw slf) (amount_raw amount)) Overflow) (\<lambda>r. Inr (Amount r))"

definition Amount_native_whole :: "u64 \<Rightarrow> Amount option" where
  "Amount_native_whole amount = map_option Amount (checked_mul (ucast amount) (ucast NATIVE_SCALE))"

definition Amount_max :: Amount where
  "Amount_max = Amount MAX_VALUE"

definition Amount_max_signed :: Amount where
  "Amount_max_signed = Amount MAX_SIGNED_VALUE"

definition Amount_zero :: Amount where
  "Amount_zero = Amount 0"

definition Amount_is_zero :: "Amount \<Rightarrow> bool" where
  "Amount_is_zero slf \<longleftrightarrow> amount_raw slf = 0"

definition Amount_is_positive :: "Amount \<Rightarrow> bool" where
  "Amount_is_positive slf \<longleftrightarrow> \<not> Amount_is_zero slf"

definition Amount_checked_add :: "Amount \<Rightarrow> Amount \<Rightarrow> Amount option" where
  "Amount_checked_add slf amount =
     do {
       r \<leftarrow> checked_add (amount_raw slf) (amount_raw amount);
       if r \<le> MAX_VALUE then Some (Amount r) else None
     }"

definition Amount_checked_signed_add :: "Amount \<Rightarrow> Amount \<Rightarrow> Amount option" where
  "Amount_checked_signed_add slf amount =
     do {
       r \<leftarrow> checked_add (amount_raw slf) (amount_raw amount);
       if r \<le> MAX_SIGNED_VALUE then Some (Amount r) else None
     }"

definition Amount_checked_sub :: "Amount \<Rightarrow> Amount \<Rightarrow> Amount option" where
  "Amount_checked_sub slf amount = map_option Amount (checked_sub (amount_raw slf) (amount_raw amount))"

definition Amount_from_change :: "Change \<Rightarrow> Amount" where
  "Amount_from_change change = Amount (I256_abs change)"

definition Amount_checked_div :: "Amount \<Rightarrow> Amount \<Rightarrow> Amount option" where
  "Amount_checked_div slf amount = map_option Amount (checked_div (amount_raw slf) (amount_raw amount))"

definition Amount_checked_mul :: "Amount \<Rightarrow> Amount \<Rightarrow> Amount option" where
  "Amount_checked_mul slf amount = map_option Amount (checked_mul (amount_raw slf) (amount_raw amount))"

definition Amount_from_uint :: "Uint \<Rightarrow> u8 \<Rightarrow> AmountParseError + Amount" where
  "Amount_from_uint value denom =
     (if denom = 0 then Inr (Amount value)
      else
        case do { scaling \<leftarrow> checked_pow 10 (unat denom); checked_mul scaling value } of
          Some amount \<Rightarrow> Inr (Amount amount)
        | None \<Rightarrow> Inl ConvertToDecimal)"

definition Amount_mul_ceil :: "Amount \<Rightarrow> Dec \<Rightarrow> arith_error + Amount" where
  "Amount_mul_ceil slf dec =
     rbind (ok_or (Dec_checked_sub (Dec I256_maximum) dec) ArithError) (\<lambda>_.
     rbind (ok_or (checked_mul (amount_raw slf) (Dec_abs dec)) ArithError) (\<lambda>tot.
     let denom = ucast ((10 :: u64) ^ unat POS_DECIMAL_PRECISION)
     in rbind (ok_or (checked_div tot denom) ArithError) (\<lambda>floor_div.
        rbind (ok_or (checked_rem tot denom) ArithError) (\<lambda>rem.
        rbind (if rem \<noteq> 0 then ok_or (checked_add floor_div 1) ArithError else Inr floor_div) (\<lambda>raw.
        Inr (Amount raw))))))"

definition Amount_mul_floor :: "Amount \<Rightarrow> Dec \<Rightarrow> arith_error + Amount" where
  "Amount_mul_floor slf dec =
     rbind (ok_or (Dec_checked_sub (Dec I256_maximum) dec) ArithError) (\<lambda>_.
     rbind (ok_or (checked_mul (amount_raw slf) (I256_abs (dec_inner dec))) ArithError) (\<lambda>tot.
     rbind (ok_or (checked_div tot (ucast ((10 :: u64) ^ unat POS_DECIMAL_PRECISION))) ArithError) (\<lambda>raw.
     Inr (Amount raw))))"

fun Amount_sum_from :: "Amount \<Rightarrow> Amount list \<Rightarrow> Amount option" where
  "Amount_sum_from acc [] = Some acc"
| "Amount_sum_from acc (amt # iter) = do { acc' \<leftarrow> Amount_checked_add acc amt; Amount_sum_from acc' iter }"

definition Amount_sum :: "Amount list \<Rightarrow> Amount option" where
  "Amount_sum iter = Amount_sum_from Amount_zero iter"

definition Amount_checked_div_u64 :: "Amount \<Rightarrow> u64 \<Rightarrow> Amount option" where
  "Amount_checked_div_u64 slf rhs =
     (if rhs = 0 then None
      else do { raw \<leftarrow> checked_div (amount_raw slf) (ucast rhs); Some (Amount raw) })"

definition Amount_u128_eucl_div_rem :: "Amount \<Rightarrow> u128 \<times> u128 \<Rightarrow> (Amount \<times> Amount) option" where
  "Amount_u128_eucl_div_rem slf ab =
     (let a = ucast (fst ab) :: Uint; b = ucast (snd ab) :: Uint
      in do {
        d \<leftarrow> checked_div (amount_raw slf) b;
        raw \<leftarrow> checked_mul d a;
        let amt = Amount raw;
        r \<leftarrow> checked_rem (amount_raw slf) b;
        Some (amt, Amount r)
      })"

instantiation Amount :: linorder
begin

definition less_eq_Amount :: "Amount \<Rightarrow> Amount \<Rightarrow> bool" where
  "less_eq_Amount a b \<longleftrightarrow> amount_raw a \<le> amount_raw b"

definition less_Amount :: "Amount \<Rightarrow> Amount \<Rightarrow> bool" where
  "less_Amount a b \<longleftrightarrow> amount_raw a < amount_raw b"

instance
  by standard (auto simp: less_eq_Amount_def less_Amount_def Amount.expand)

end

text \<open>Conversions between amounts, decimals and machine integers.\<close>

definition Dec_try_from_Amount :: "Amount \<Rightarrow> Dec option" where
  "Dec_try_from_Amount amt =
     do {
       raw \<leftarrow> I256_try_from_uint (amount_raw amt);
       let denom = I256 (exp10 (unat (POS_DECIMAL_PRECISION - NATIVE_MAX_DECIMAL_PLACES)));
       inner \<leftarrow> I256_checked_mul raw denom;
       Some (Dec inner)
     }"

definition Amount_try_from_Dec :: "Dec \<Rightarrow> arith_error + Amount" where
  "Amount_try_from_Dec dec =
     rbind (ok_or (Dec_checked_sub (Dec I256_maximum) dec) ArithError) (\<lambda>_.
     Inr (Amount (I256_abs (dec_inner dec) div exp10 (unat POS_DECIMAL_PRECISION))))"

definition u128_try_from_Amount :: "Amount \<Rightarrow> u128 option" where
  "u128_try_from_Amount value =
     (if list_ex (\<lambda>word. word \<noteq> 0) (drop 2 (uint_limbs (amount_raw value))) then None
      else Some (ucast (amount_raw value)))"

section \<open>Denominated amounts\<close>

datatype Denomination = Denomination (denomination: u8)

record DenominatedAmount =
  da_amount :: Amount
  da_denom :: Denomination

definition DenominatedAmount_new :: "Amount \<Rightarrow> Denomination \<Rightarrow> DenominatedAmount" where
  "DenominatedAmount_new amount denom = \<lparr>da_amount = amount, da_denom = denom\<rparr>"

definition DenominatedAmount_native :: "Amount \<Rightarrow> DenominatedAmount" where
  "DenominatedAmount_native amount =
     \<lparr>da_amount = amount, da_denom = Denomination NATIVE_MAX_DECIMAL_PLACES\<rparr>"

definition DenominatedAmount_is_zero :: "DenominatedAmount \<Rightarrow> bool" where
  "DenominatedAmount_is_zero slf = Amount_is_zero (da_amount slf)"

definition to_string_precise :: "(Uint \<Rightarrow> string) \<Rightarrow> DenominatedAmount \<Rightarrow> string" where
  "to_string_precise uint_to_string slf =
     (let decimals = unat (denomination (da_denom slf));
          str = uint_to_string (amount_raw (da_amount slf))
      in if decimals = 0 then str
         else if length str > decimals then string_insert (length str - decimals) (CHR ''.'') str
         else CHR ''0'' # CHR ''.'' # replicate (decimals - length str) (CHR ''0'') @ str)"

fun canonical_loop :: "nat \<Rightarrow> Uint \<Rightarrow> u8 \<Rightarrow> Uint \<times> u8" where
  "canonical_loop 0 value denom = (value, denom)"
| "canonical_loop (Suc n) value denom =
     (let (quot, rem) = (value div 10, value mod 10)
      in if rem = 0
         then canonical_loop n quot (case checked_sub denom 1 of Some d \<Rightarrow> d | None \<Rightarrow> 0)
         else canonical_loop n value denom)"

definition DenominatedAmount_canonical :: "DenominatedAmount \<Rightarrow> DenominatedAmount" where
  "DenominatedAmount_canonical slf =
     (let d = denomination (da_denom slf);
          (value, denom) = canonical_loop (unat d) (amount_raw (da_amount slf)) d
      in \<lparr>da_amount = Amount value, da_denom = Denomination denom\<rparr>)"

definition increase_precision :: "DenominatedAmount \<Rightarrow> Denomination \<Rightarrow> AmountParseError + DenominatedAmount" where
  "increase_precision slf denom =
     (if denomination denom < denomination (da_denom slf) then Inl PrecisionDecrease
      else
        let denom_diff = denomination denom - denomination (da_denom slf)
        in ok_or
             (map_option (\<lambda>amount. \<lparr>da_amount = Amount amount, da_denom = denom\<rparr>)
               (do {
                 scaling \<leftarrow> checked_pow 10 (unat denom_diff);
                 checked_mul (amount_raw (da_amount slf)) scaling
               }))
             PrecisionOverflow)"

definition DenominatedAmount_scale :: "DenominatedAmount \<Rightarrow> u8 \<Rightarrow> AmountParseError + Amount" where
  "DenominatedAmount_scale slf denom =
     rbind (increase_precision slf (Denomination denom)) (\<lambda>x. Inr (da_amount x))"

definition DenominatedAmount_checked_mul ::
  "DenominatedAmount \<Rightarrow> DenominatedAmount \<Rightarrow> DenominatedAmount option" where
  "DenominatedAmount_checked_mul slf rhs =
     do {
       amount \<leftarrow> Amount_checked_mul (da_amount slf) (da_amount rhs);
       denom \<leftarrow> checked_add (denomination (da_denom slf)) (denomination (da_denom rhs));
       Some \<lparr>da_amount = amount, da_denom = Denomination denom\<rparr>
     }"

text \<open>The alignment of the operands that subtraction and addition share.\<close>

definition align_denoms ::
  "DenominatedAmount \<Rightarrow> DenominatedAmount \<Rightarrow> (DenominatedAmount \<times> DenominatedAmount) option" where
  "align_denoms lhs rhs =
     (if denomination (da_denom lhs) < denomination (da_denom rhs)
      then do { l \<leftarrow> result_ok (increase_precision lhs (da_denom rhs)); Some (l, rhs) }
      else do { r \<leftarrow> result_ok (increase_precision rhs (da_denom lhs)); Some (lhs, r) })"

definition DenominatedAmount_checked_sub ::
  "DenominatedAmount \<Rightarrow> DenominatedAmount \<Rightarrow> DenominatedAmount option" where
  "DenominatedAmount_checked_sub slf rhs =
     do {
       (l, r) \<leftarrow> align_denoms slf rhs;
       amount \<leftarrow> Amount_checked_sub (da_amount l) (da_amount r);
       Some \<lparr>da_amount = amount, da_denom = da_denom l\<rparr>
     }"

definition DenominatedAmount_checked_add ::
  "DenominatedAmount \<Rightarrow> DenominatedAmount \<Rightarrow> DenominatedAmount option" where
  "DenominatedAmount_checked_add slf rhs =
     do {
       (l, r) \<leftarrow> align_denoms slf rhs;
       amount \<leftarrow> Amount_checked_add (da_amount l) (da_amount r);
       Some \<lparr>da_amount = amount, da_denom = da_denom l\<rparr>
     }"

definition DenominatedAmount_to_string :: "(Uint \<Rightarrow> string) \<Rightarrow> DenominatedAmount \<Rightarrow> string" where
  "DenominatedAmount_to_string uint_to_string slf =
     (let str = to_string_precise uint_to_string slf;
          str' = (if denomination (da_denom slf) > 0 then trim_end_matches (CHR ''0'') str else str)
      in trim_end_matches (CHR ''.'') str')"

text \<open>
  Parsing. \<open>char::is_numeric\<close> holds of the ASCII digits and of the six numeric characters of
  the upper Latin-1 range; \<open>char::to_digit\<close> only reads the former.
\<close>

definition char_is_numeric :: "char \<Rightarrow> bool" where
  "char_is_numeric c \<longleftrightarrow> is_ascii_digit c \<or> of_char c \<in> {178, 179, 185, 188, 189, 190 :: nat}"

definition to_digit10 :: "char \<Rightarrow> nat option" where
  "to_digit10 c = (if is_ascii_digit c then Some (digit_val c) else None)"

fun sum_digits :: "nat \<Rightarrow> Uint list \<Rightarrow> Uint \<Rightarrow> Uint option" where
  "sum_digits pow [] value = Some value"
| "sum_digits pow (digit # digits) value =
     do {
       scaling \<leftarrow> checked_pow 10 pow;
       scaled \<leftarrow> checked_mul scaling digit;
       value' \<leftarrow> checked_add value scaled;
       sum_digits (Suc pow) digits value'
     }"

definition DenominatedAmount_from_str :: "string \<Rightarrow> AmountParseError + DenominatedAmount" where
  "DenominatedAmount_from_str s =
     (let precision = map_option (\<lambda>pos. utf8_len s - (utf8_len (take pos s) + 1)) (str_find (CHR ''.'') s);
          digits = rev (List.map_filter
            (\<lambda>c. if char_is_numeric c then map_option of_nat (to_digit10 c) else None) s)
      in if (length digits \<noteq> utf8_len s \<and> precision = None)
            \<or> (length digits \<noteq> utf8_len s - 1 \<and> precision \<noteq> None)
         then Inl NotNumeric
         else if length digits > 77 then Inl (ScaleTooLarge (length digits) 77)
         else
           rbind (ok_or (sum_digits 0 digits 0) InvalidRange) (\<lambda>value.
           let prec = (case precision of Some p \<Rightarrow> p | None \<Rightarrow> 0)
           in if prec < 256
              then Inr \<lparr>da_amount = Amount value, da_denom = Denomination (of_nat prec)\<rparr>
              else Inl PrecisionOverflow))"

definition Amount_from_str :: "string \<Rightarrow> u8 \<Rightarrow> AmountParseError + Amount" where
  "Amount_from_str str denom =
     rbind (DenominatedAmount_from_str str) (\<lambda>d. DenominatedAmount_scale d denom)"

definition Amount_from_string_precise :: "string \<Rightarrow> AmountParseError + Amount" where
  "Amount_from_string_precise str = rbind (DenominatedAmount_from_str str) (\<lambda>d. Inr (da_amount d))"

text \<open>The JSON form of an amount is its decimal string; the reader unwraps the parse.\<close>

definition Amount_deserialize :: "string \<Rightarrow> Amount option" where
  "Amount_deserialize amount_string =
     map_option da_amount (result_ok (DenominatedAmount_from_str amount_string))"

definition Uint_deserialize :: "string \<Rightarrow> AmountParseError + Uint" where
  "Uint_deserialize amount_string =
     (let digits = rev (List.map_filter
            (\<lambda>c. if is_ascii_digit c then map_option of_nat (to_digit10 c) else None) amount_string)
      in if length digits \<noteq> utf8_len amount_string then Inl FromString
         else if length digits > 77 then Inl (ScaleTooLarge (length digits) 77)
         else ok_or (sum_digits 0 digits 0) PrecisionOverflow)"

text \<open>
  The order. \<open>Uint::exp10\<close> panics from the 78th power on, so the comparison is \<^const>\<open>None\<close>
  when the denominations differ by more than 77.
\<close>

definition cmp_ceil :: "Uint \<Rightarrow> u8 \<Rightarrow> (Uint \<times> bool) option" where
  "cmp_ceil raw diff =
     do {
       e \<leftarrow> checked_pow 10 (unat diff);
       let (quot, rem) = (raw div e, raw mod e);
       let div_ceil =
         (if rem = 0 then quot else case checked_add quot 1 of Some c \<Rightarrow> c | None \<Rightarrow> MAX_VALUE);
       Some (div_ceil, rem = 0)
     }"

definition DenominatedAmount_cmp :: "DenominatedAmount \<Rightarrow> DenominatedAmount \<Rightarrow> ordering option" where
  "DenominatedAmount_cmp slf other =
     (if denomination (da_denom slf) < denomination (da_denom other)
      then do {
        (div_ceil, rem_is_zero) \<leftarrow>
          cmp_ceil (amount_raw (da_amount other)) (denomination (da_denom other) - denomination (da_denom slf));
        let ord = cmp_word (amount_raw (da_amount slf)) div_ceil;
        Some (case ord of Equal \<Rightarrow> (if rem_is_zero then Equal else Greater) | _ \<Rightarrow> ord)
      }
      else do {
        (div_ceil, rem_is_zero) \<leftarrow>
          cmp_ceil (amount_raw (da_amount slf)) (denomination (da_denom slf) - denomination (da_denom other));
        let ord = cmp_word div_ceil (amount_raw (da_amount other));
        Some (case ord of Equal \<Rightarrow> (if rem_is_zero then Equal else Less) | _ \<Rightarrow> ord)
      })"

section \<open>Digits of the shielded pool\<close>

datatype MaspDigitPos = Zero | One | Two | Three

fun masp_index :: "MaspDigitPos \<Rightarrow> nat" where
  "masp_index Zero = 0"
| "masp_index One = 1"
| "masp_index Two = 2"
| "masp_index Three = 3"

definition MaspDigitPos_from_u8 :: "u8 \<Rightarrow> MaspDigitPos option" where
  "MaspDigitPos_from_u8 denom =
     (if denom = 0 then Some Zero else if denom = 1 then Some One
      else if denom = 2 then Some Two else if denom = 3 then Some Three else None)"

definition MaspDigitPos_iter :: "MaspDigitPos list" where
  "MaspDigitPos_iter = map (the \<circ> MaspDigitPos_from_u8 \<circ> of_nat) [0..<4]"

definition denominate :: "MaspDigitPos \<Rightarrow> Amount \<Rightarrow> u64" where
  "denominate slf amount = uint_limbs (amount_raw amount) ! masp_index slf"

definition denominate_i128 :: "MaspDigitPos \<Rightarrow> Change \<Rightarrow> i128" where
  "denominate_i128 slf amount =
     (let val = ucast (uint_limbs (I256_abs amount) ! masp_index slf) :: i128
      in if I256_is_negative amount then - val else val)"

definition from_masp_denominated :: "u64 \<Rightarrow> MaspDigitPos \<Rightarrow> Amount" where
  "from_masp_denominated val denom = Amount (uint_of_limbs ([0, 0, 0, 0][masp_index denom := val]))"

definition from_masp_denominated_u128 :: "u128 \<Rightarrow> MaspDigitPos \<Rightarrow> Amount option" where
  "from_masp_denominated_u128 val denom =
     do {
       lo \<leftarrow> (if unat val < 2 ^ 64 then Some (ucast val) else None);
       let hi = (ucast (drop_bit 64 val) :: u64);
       let lo_pos = masp_index denom;
       let hi_pos = Suc lo_pos;
       let raw = ([0, 0, 0, 0][lo_pos := lo]);
       if hi \<noteq> 0 \<and> hi_pos \<ge> 4 then None
       else if hi \<noteq> 0 then Some (Amount (uint_of_limbs (raw[hi_pos := hi])))
       else Some (Amount (uint_of_limbs raw))
     }"

text \<open>\<open>I256::from_masp_denominated\<close> and \<open>I256::mul_ceil\<close> of \<open>core/src/uint.rs\<close>.\<close>

definition i128_unsigned_abs :: "i128 \<Rightarrow> u128" where
  "i128_unsigned_abs v = (if sint v < 0 then - v else v)"

definition I256_from_masp_denominated :: "i128 \<Rightarrow> MaspDigitPos \<Rightarrow> AmountParseError + I256" where
  "I256_from_masp_denominated val denom =
     (let is_negative = sint val < 0;
          value = i128_unsigned_abs val
      in rbind (if unat value < 2 ^ 64 then Inr (ucast value :: u64) else Inl PrecisionOverflow) (\<lambda>digit.
         let result = uint_of_limbs ([0, 0, 0, 0][masp_index denom := digit])
         in if result \<le> MAX_SIGNED_VALUE then
              if is_negative then
                let (inner, overflow) = Uint_negate result
                in if overflow then Inl InvalidRange else Inr (I256 inner)
              else Inr (I256_canonical (I256 result))
            else Inl InvalidRange))"

definition I256_mul_ceil :: "I256 \<Rightarrow> Dec \<Rightarrow> arith_error + I256" where
  "I256_mul_ceil slf dec =
     (let is_res_negative = (I256_is_negative slf \<noteq> Dec_is_negative dec)
      in rbind (ok_or (checked_mul (I256_abs slf) (I256_abs (dec_inner dec))) ArithError) (\<lambda>tot.
         let denom = ucast ((10 :: u64) ^ unat POS_DECIMAL_PRECISION)
         in rbind (ok_or (checked_div tot denom) ArithError) (\<lambda>floor_div.
            rbind (ok_or (checked_rem tot denom) ArithError) (\<lambda>rem.
            rbind (if rem \<noteq> 0 \<and> \<not> is_res_negative then ok_or (checked_add floor_div 1) ArithError
                   else Inr floor_div) (\<lambda>u.
            let abs_res = I256 u
            in if is_res_negative then ok_or (I256_checked_neg abs_res) ArithError else Inr abs_res)))))"

section \<open>Amounts as natural numbers\<close>

definition amount_val :: "Amount \<Rightarrow> nat" where
  "amount_val a = unat (amount_raw a)"

definition amount_of :: "nat \<Rightarrow> Amount" where
  "amount_of n = Amount (of_nat n)"

lemma amount_val_lt: "amount_val a < 2 ^ 256"
  using unat_lt_2p [of "amount_raw a"] by (simp add: amount_val_def)

lemma amount_val_of [simp]: "n < 2 ^ 256 \<Longrightarrow> amount_val (amount_of n) = n"
  by (simp add: amount_val_def amount_of_def unat_of_nat_lt)

lemma amount_val_of_diff [simp]: "amount_val (amount_of (amount_val a - n)) = amount_val a - n"
  using amount_val_lt [of a] by (intro amount_val_of) linarith

lemma amount_of_val [simp]: "amount_of (amount_val a) = a"
  by (simp add: amount_val_def amount_of_def)

lemma amount_eq_iff: "a = b \<longleftrightarrow> amount_val a = amount_val b"
  by (metis amount_of_val)

lemma amount_le_iff: "a \<le> b \<longleftrightarrow> amount_val a \<le> amount_val b"
  by (simp add: less_eq_Amount_def amount_val_def word_le_nat_alt)

lemma amount_less_iff: "a < b \<longleftrightarrow> amount_val a < amount_val b"
  by (simp add: less_Amount_def amount_val_def word_less_nat_alt)

lemma amount_val_zero [simp]: "amount_val Amount_zero = 0"
  by (simp add: amount_val_def Amount_zero_def)

lemma Amount_checked_add_eq:
  "Amount_checked_add a b =
     (if amount_val a + amount_val b < 2 ^ 256 then Some (amount_of (amount_val a + amount_val b)) else None)"
  unfolding Amount_checked_add_def checked_add_of_nat
  by (simp add: MAX_VALUE_def amount_val_def amount_of_def del: of_nat_add)

lemma Amount_checked_sub_eq:
  "Amount_checked_sub a b =
     (if amount_val b \<le> amount_val a then Some (amount_of (amount_val a - amount_val b)) else None)"
  unfolding Amount_checked_sub_def checked_sub_of_nat
  by (simp add: amount_val_def amount_of_def del: of_nat_diff)

lemma Amount_checked_mul_eq:
  "Amount_checked_mul a b =
     (if amount_val a * amount_val b < 2 ^ 256 then Some (amount_of (amount_val a * amount_val b)) else None)"
  unfolding Amount_checked_mul_def checked_mul_of_nat
  by (simp add: amount_val_def amount_of_def del: of_nat_mult)

lemma Amount_checked_add_Some [checked_unat]:
  "Amount_checked_add a b = Some c \<longleftrightarrow> amount_val c = amount_val a + amount_val b"
  using amount_val_lt [of c] by (auto simp: Amount_checked_add_eq amount_eq_iff)

lemma Amount_checked_sub_Some [checked_unat]:
  "Amount_checked_sub a b = Some c \<longleftrightarrow> amount_val a = amount_val b + amount_val c"
proof -
  have "amount_val a - amount_val b < 2 ^ 256" using amount_val_lt [of a] by linarith
  then show ?thesis by (auto simp: Amount_checked_sub_eq amount_eq_iff)
qed

lemma Amount_spend_eq:
  "Amount_spend a b = (if Amount_can_spend a b then Inr (amount_of (amount_val a - amount_val b)) else Inl Insufficient)"
  unfolding Amount_spend_def checked_sub_of_nat
  by (simp add: Amount_can_spend_def word_le_nat_alt amount_val_def amount_of_def del: of_nat_diff)

lemma Amount_receive_eq:
  "Amount_receive a b =
     (if amount_val a + amount_val b < 2 ^ 256 then Inr (amount_of (amount_val a + amount_val b)) else Inl Overflow)"
  unfolding Amount_receive_def checked_add_of_nat
  by (simp add: amount_val_def amount_of_def del: of_nat_add)

lemma Amount_sum_from_val:
  "Amount_sum_from acc xs = Some s \<longleftrightarrow> amount_val s = amount_val acc + sum_list (map amount_val xs)"
proof (induction xs arbitrary: acc)
  case Nil
  then show ?case by (auto simp: amount_eq_iff)
next
  case (Cons x xs)
  have "(\<exists>acc'. amount_val acc' = amount_val acc + amount_val x \<and>
      amount_val s = amount_val acc' + sum_list (map amount_val xs)) \<longleftrightarrow>
      amount_val s = amount_val acc + amount_val x + sum_list (map amount_val xs)"
    using amount_val_lt [of s] by (auto intro!: exI [of _ "amount_of (amount_val acc + amount_val x)"])
  then show ?case
    by (simp add: Option.bind_eq_Some_conv checked_unat Cons.IH add.assoc)
qed

lemma Amount_sum_val: "Amount_sum xs = Some s \<longleftrightarrow> amount_val s = sum_list (map amount_val xs)"
  by (simp add: Amount_sum_def Amount_sum_from_val)

lemma Amount_change_eq: "Amount_change a = i256_checked (int (amount_val a))"
  by (simp add: Amount_change_def amount_val_def I256_try_from_uint_eq)

lemma Amount_from_change_val: "I256_inv c \<Longrightarrow> int (amount_val (Amount_from_change c)) = \<bar>i256_val c\<bar>"
  unfolding Amount_from_change_def amount_val_def Amount.sel by (rule I256_abs_val)

section \<open>Products with decimals\<close>

definition div_ceil :: "nat \<Rightarrow> nat \<Rightarrow> nat" where
  "div_ceil a b = a div b + (if a mod b = 0 then 0 else 1)"

lemma pos_precision_denom: "unat (ucast ((10 :: u64) ^ unat POS_DECIMAL_PRECISION) :: Uint) = 10 ^ 12"
proof -
  have "unat (10 :: u64) ^ unat POS_DECIMAL_PRECISION < 2 ^ LENGTH(64)"
    by (simp add: POS_DECIMAL_PRECISION_def)
  from unat_power_small [OF this] have "unat ((10 :: u64) ^ unat POS_DECIMAL_PRECISION) = 10 ^ 12"
    by (simp add: POS_DECIMAL_PRECISION_def)
  moreover have "unat (ucast ((10 :: u64) ^ unat POS_DECIMAL_PRECISION) :: Uint) =
      unat ((10 :: u64) ^ unat POS_DECIMAL_PRECISION)"
    by (rule unat_ucast_up) simp
  ultimately show ?thesis by simp
qed

lemma Dec_maximum_val: "Dec_inv (Dec I256_maximum)" "dec_val (Dec I256_maximum) = 2 ^ 255 - 1"
  by (simp_all add: Dec_inv_def dec_val_def I256_maximum_def I256_inv_iff i256_val_if unat_MAX_SIGNED_VALUE)

text \<open>The guard of the products: subtraction from the maximum fails exactly on negative decimals.\<close>

lemma negative_guard:
  assumes "Dec_inv d"
  shows "(\<exists>r. Dec_checked_sub (Dec I256_maximum) d = Some r) \<longleftrightarrow> 0 \<le> dec_val d"
    and "Dec_checked_sub (Dec I256_maximum) d = None \<longleftrightarrow> dec_val d < 0"
  using assms by (auto simp: Dec_checked_sub_eq Dec_maximum_val dec_checked_def Dec_inv_val)

lemma Dec_abs_nonneg: "Dec_inv d \<Longrightarrow> 0 \<le> dec_val d \<Longrightarrow> unat (Dec_abs d) = nat (dec_val d)"
  using I256_abs_val [of "dec_inner d"] unfolding Dec_inv_def dec_val_def Dec_abs_def
  by (metis abs_of_nonneg nat_int)

lemma checked_div_rem_precision:
  "checked_div (w :: Uint) (ucast ((10 :: u64) ^ unat POS_DECIMAL_PRECISION)) = Some (of_nat (unat w div 10 ^ 12))"
  "checked_rem (w :: Uint) (ucast ((10 :: u64) ^ unat POS_DECIMAL_PRECISION)) = Some (of_nat (unat w mod 10 ^ 12))"
  unfolding checked_div_of_nat checked_rem_of_nat pos_precision_denom by simp_all

lemma Amount_mul_floor_eq:
  assumes "Dec_inv d"
  shows "Amount_mul_floor a d =
    (if 0 \<le> dec_val d \<and> amount_val a * nat (dec_val d) < 2 ^ 256
     then Inr (amount_of (amount_val a * nat (dec_val d) div 10 ^ 12)) else Inl ArithError)"
proof (cases "0 \<le> dec_val d")
  case True
  then obtain r where "Dec_checked_sub (Dec I256_maximum) d = Some r"
    using negative_guard(1) [OF assms] by blast
  moreover have "unat (I256_abs (dec_inner d)) = nat (dec_val d)"
    using Dec_abs_nonneg [OF assms True] by (simp add: Dec_abs_def)
  ultimately show ?thesis
    using True unfolding Amount_mul_floor_def checked_div_rem_precision checked_mul_of_nat
    by (simp add: amount_val_def amount_of_def unat_of_nat_lt del: of_nat_mult)
next
  case False
  then have "Dec_checked_sub (Dec I256_maximum) d = None" using negative_guard(2) [OF assms] by simp
  then show ?thesis using False by (simp add: Amount_mul_floor_def)
qed

lemma Amount_mul_ceil_eq:
  assumes "Dec_inv d"
  shows "Amount_mul_ceil a d =
    (if 0 \<le> dec_val d \<and> amount_val a * nat (dec_val d) < 2 ^ 256
     then Inr (amount_of (div_ceil (amount_val a * nat (dec_val d)) (10 ^ 12))) else Inl ArithError)"
proof (cases "0 \<le> dec_val d")
  case True
  then obtain r where g: "Dec_checked_sub (Dec I256_maximum) d = Some r"
    using negative_guard(1) [OF assms] by blast
  have m: "unat (Dec_abs d) = nat (dec_val d)" using assms True by (rule Dec_abs_nonneg)
  show ?thesis
  proof (cases "amount_val a * nat (dec_val d) < 2 ^ 256")
    case fits: True
    define t where "t = amount_val a * nat (dec_val d)"
    have t: "checked_mul (amount_raw a) (Dec_abs d) = Some (of_nat t)"
      using fits by (simp add: checked_mul_of_nat m amount_val_def t_def del: of_nat_mult)
    have ut: "unat (of_nat t :: Uint) = t" using fits unfolding t_def by (intro unat_of_nat_lt) simp
    have q: "t div 10 ^ 12 + 1 < 2 ^ 256" using fits by (simp add: t_def)
    have c: "checked_add (of_nat (t div 10 ^ 12) :: Uint) 1 = Some (of_nat (t div 10 ^ 12 + 1))"
      using q by (simp add: checked_add_of_nat unat_of_nat_lt)
    have "unat (of_nat (t mod 10 ^ 12) :: Uint) = t mod 10 ^ 12"
      by (rule unat_of_nat_lt) (rule less_trans [OF mod_less_divisor], simp_all)
    then have "of_nat (t mod 10 ^ 12) = (0 :: Uint) \<longleftrightarrow> t mod 10 ^ 12 = 0"
      by (metis unat_eq_0)
    then show ?thesis
      using True fits g c t ut unfolding Amount_mul_ceil_def Let_def checked_div_rem_precision
      by (simp add: div_ceil_def amount_of_def t_def [symmetric])
  qed (use True g in \<open>simp add: Amount_mul_ceil_def checked_mul_def m flip: amount_val_def\<close>)
next
  case False
  then have "Dec_checked_sub (Dec I256_maximum) d = None" using negative_guard(2) [OF assms] by simp
  then show ?thesis using False by (simp add: Amount_mul_ceil_def)
qed

lemma div_ceil_le_iff: "0 < b \<Longrightarrow> div_ceil a b \<le> c \<longleftrightarrow> a \<le> c * b"
proof -
  assume b: "0 < b"
  define q r where "q = a div b" and "r = a mod b"
  have a: "a = q * b + r" "r < b" using b by (simp_all add: q_def r_def)
  show ?thesis
  proof (cases "r = 0")
    case True
    then show ?thesis using a b by (simp add: div_ceil_def q_def [symmetric] r_def [symmetric])
  next
    case False
    have "q + 1 \<le> c \<longleftrightarrow> q * b + r \<le> c * b"
    proof
      assume "q + 1 \<le> c"
      then have "(q + 1) * b \<le> c * b" by (rule mult_right_mono) simp
      then show "q * b + r \<le> c * b" using a(2) by (simp add: algebra_simps)
    next
      assume "q * b + r \<le> c * b"
      then have "q * b < c * b" using False by linarith
      then show "q + 1 \<le> c" by simp
    qed
    then show ?thesis using False a by (simp add: div_ceil_def q_def [symmetric] r_def [symmetric])
  qed
qed

lemma div_ceil_bounds: "a div b \<le> div_ceil a b \<and> div_ceil a b \<le> a div b + 1"
  by (simp add: div_ceil_def)

text \<open>
  Rounding up a share of an amount by a rate between zero and one succeeds whenever the
  product fits, never exceeds the amount, and is at most one unit above the share rounded
  down.
\<close>

theorem mul_ceil_share:
  assumes "Dec_inv d" and "0 \<le> dec_val d" and "dec_val d \<le> 10 ^ 12"
    and "amount_val a * nat (dec_val d) < 2 ^ 256"
  shows "\<exists>c f. Amount_mul_ceil a d = Inr c \<and> Amount_mul_floor a d = Inr f \<and>
    f \<le> c \<and> c \<le> a \<and> amount_val c \<le> amount_val f + 1 \<and>
    amount_val f * 10 ^ 12 \<le> amount_val a * nat (dec_val d) \<and>
    amount_val a * nat (dec_val d) \<le> amount_val c * 10 ^ 12"
proof -
  define t where "t = amount_val a * nat (dec_val d)"
  have "t \<le> amount_val a * 10 ^ 12" unfolding t_def using assms(3) by (intro mult_left_mono) simp_all
  then have c: "div_ceil t (10 ^ 12) \<le> amount_val a" by (simp add: div_ceil_le_iff)
  then have s: "div_ceil t (10 ^ 12) < 2 ^ 256" "t div 10 ^ 12 < 2 ^ 256"
    using amount_val_lt [of a] assms(4) by (simp_all add: t_def)
  have "t \<le> div_ceil t (10 ^ 12) * 10 ^ 12" by (simp flip: div_ceil_le_iff)
  then show ?thesis
    using assms c s div_ceil_bounds [of t "10 ^ 12"]
    by (simp add: Amount_mul_ceil_eq Amount_mul_floor_eq amount_le_iff t_def [symmetric])
qed

theorem mul_ceil_share_witness:
  "\<exists>c f. Amount_mul_ceil (amount_of 10) (dec_of 333333333333) = Inr c \<and>
    Amount_mul_floor (amount_of 10) (dec_of 333333333333) = Inr f \<and> c \<le> amount_of 10 \<and> f \<le> c"
proof -
  have "Dec_inv (dec_of 333333333333)" "dec_val (dec_of 333333333333) = 333333333333"
    by (simp_all add: Dec_inv_of dec_val_of)
  then show ?thesis using mul_ceil_share [of "dec_of 333333333333" "amount_of 10"] by auto
qed

section \<open>Denominations\<close>

lemma pow10_lt_iff: "(10 :: nat) ^ n < 2 ^ 256 \<longleftrightarrow> n \<le> 77"
proof
  assume "n \<le> 77"
  then have "(10 :: nat) ^ n \<le> 10 ^ 77" by (intro power_increasing) simp_all
  also have "(10 :: nat) ^ 77 < 2 ^ 256" by simp
  finally show "(10 :: nat) ^ n < 2 ^ 256" .
next
  assume l: "(10 :: nat) ^ n < 2 ^ 256"
  show "n \<le> 77"
  proof (rule ccontr)
    assume "\<not> n \<le> 77"
    then have "(10 :: nat) ^ 78 \<le> 10 ^ n" by (intro power_increasing) simp_all
    then show False using l by simp
  qed
qed

lemma checked_pow10: "checked_pow (10 :: Uint) n = (if n \<le> 77 then Some (of_nat (10 ^ n)) else None)"
  using pow10_lt_iff [of n] by (simp add: checked_pow_def)

lemma unat_pow10: "n \<le> 77 \<Longrightarrow> unat (of_nat (10 ^ n) :: Uint) = 10 ^ n"
  using pow10_lt_iff [of n] by (intro unat_of_nat_lt) simp

abbreviation da_places :: "DenominatedAmount \<Rightarrow> nat" where
  "da_places d \<equiv> unat (denomination (da_denom d))"

abbreviation da_units :: "DenominatedAmount \<Rightarrow> nat" where
  "da_units d \<equiv> amount_val (da_amount d)"

text \<open>Two denominated amounts stand for the same number.\<close>

definition same_number :: "DenominatedAmount \<Rightarrow> DenominatedAmount \<Rightarrow> bool" where
  "same_number x y \<longleftrightarrow> da_units x * 10 ^ da_places y = da_units y * 10 ^ da_places x"

lemma increase_precision_eq:
  assumes "da_places x \<le> unat (denomination dn)"
  shows "increase_precision x dn =
    (let k = unat (denomination dn) - da_places x
     in if k \<le> 77 \<and> da_units x * 10 ^ k < 2 ^ 256
        then Inr \<lparr>da_amount = amount_of (da_units x * 10 ^ k), da_denom = dn\<rparr> else Inl PrecisionOverflow)"
proof -
  define k where "k = unat (denomination dn) - da_places x"
  have k: "unat (denomination dn - denomination (da_denom x)) = k"
    using assms by (simp add: k_def unat_sub word_le_nat_alt)
  have n: "\<not> denomination dn < denomination (da_denom x)" using assms by (simp add: word_less_nat_alt)
  show ?thesis
    unfolding increase_precision_def Let_def k checked_pow10 k_def [symmetric]
    using n unat_pow10 [of k]
    by (simp add: checked_mul_of_nat amount_val_def amount_of_def del: of_nat_mult of_nat_power)
qed

lemma increase_precision_decrease:
  "unat (denomination dn) < da_places x \<Longrightarrow> increase_precision x dn = Inl PrecisionDecrease"
  by (simp add: increase_precision_def word_less_nat_alt)

lemma increase_precision_Inr:
  assumes "increase_precision x dn = Inr y"
  shows "da_denom y = dn" "da_places x \<le> da_places y"
    "da_units y = da_units x * 10 ^ (da_places y - da_places x)"
proof -
  have p: "da_places x \<le> unat (denomination dn)"
    using assms increase_precision_decrease [of dn x] by (cases "da_places x \<le> unat (denomination dn)") auto
  then show "da_denom y = dn" "da_places x \<le> da_places y"
    "da_units y = da_units x * 10 ^ (da_places y - da_places x)"
    using assms by (auto simp: increase_precision_eq Let_def split: if_splits)
qed

lemma increase_precision_same: "increase_precision x dn = Inr y \<Longrightarrow> same_number x y"
  using increase_precision_Inr [of x dn y]
  by (simp add: same_number_def power_add [symmetric])

lemma align_denoms_Some:
  assumes "align_denoms x y = Some (l, r)"
  shows "same_number x l" "same_number y r" "da_denom l = da_denom r" "da_places l = max (da_places x) (da_places y)"
proof -
  have refl: "same_number z z" for z by (simp add: same_number_def)
  have "(da_places x < da_places y \<and> r = y \<and> increase_precision x (da_denom y) = Inr l) \<or>
      (da_places y \<le> da_places x \<and> l = x \<and> increase_precision y (da_denom x) = Inr r)"
    using assms by (auto simp: align_denoms_def word_less_nat_alt result_ok_def Option.bind_eq_Some_conv
        split: if_splits sum.splits)
  then show "same_number x l" "same_number y r" "da_denom l = da_denom r"
    "da_places l = max (da_places x) (da_places y)"
    using refl by (auto dest: increase_precision_same increase_precision_Inr)
qed

lemma same_number_scaled:
  assumes "same_number x l" "da_places x \<le> da_places l"
  shows "da_units l = da_units x * 10 ^ (da_places l - da_places x)"
proof -
  have "da_units x * 10 ^ (da_places l - da_places x) * 10 ^ da_places x = da_units l * 10 ^ da_places x"
    using assms by (simp add: same_number_def mult.assoc power_add [symmetric])
  then show ?thesis by simp
qed

text \<open>
  Addition and subtraction of denominated amounts are exact at the larger number of
  places: nothing is rounded when the operands are aligned.
\<close>

lemma denominated_add_sub_exact:
  fixes x y :: DenominatedAmount
  defines "p \<equiv> max (da_places x) (da_places y)"
  shows "DenominatedAmount_checked_add x y = Some z \<Longrightarrow> da_places z = p \<and>
      da_units z = da_units x * 10 ^ (p - da_places x) + da_units y * 10 ^ (p - da_places y)"
    and "DenominatedAmount_checked_sub x y = Some z \<Longrightarrow> da_places z = p \<and>
      da_units z + da_units y * 10 ^ (p - da_places y) = da_units x * 10 ^ (p - da_places x)"
proof -
  have al: "da_places l = p \<and> da_units l = da_units x * 10 ^ (p - da_places x) \<and>
      da_units r = da_units y * 10 ^ (p - da_places y)" if "align_denoms x y = Some (l, r)" for l r
  proof -
    note a = align_denoms_Some [OF that]
    have "da_places l = p" "da_places r = p" using a(3,4) by (auto simp: p_def)
    then show ?thesis
      using same_number_scaled [OF a(1)] same_number_scaled [OF a(2)] by (auto simp: p_def)
  qed
  show "da_places z = p \<and>
      da_units z = da_units x * 10 ^ (p - da_places x) + da_units y * 10 ^ (p - da_places y)"
    if "DenominatedAmount_checked_add x y = Some z"
    using that al by (auto simp: DenominatedAmount_checked_add_def Option.bind_eq_Some_conv checked_unat)
  show "da_places z = p \<and>
      da_units z + da_units y * 10 ^ (p - da_places y) = da_units x * 10 ^ (p - da_places x)"
    if "DenominatedAmount_checked_sub x y = Some z"
    using that al by (fastforce simp: DenominatedAmount_checked_sub_def Option.bind_eq_Some_conv checked_unat)
qed

text \<open>The canonical form: the same number with as few places as possible.\<close>

lemma canonical_loop_spec:
  assumes "n \<le> unat d" and "canonical_loop n v d = (v', d')"
  shows "unat d' \<le> unat d \<and> unat d - n \<le> unat d' \<and> unat v = unat v' * 10 ^ (unat d - unat d') \<and>
    (unat d' = unat d - n \<or> unat v' mod 10 \<noteq> 0)"
  using assms
proof (induction n arbitrary: v d)
  case (Suc n)
  have m: "v mod 10 = 0 \<longleftrightarrow> unat v mod 10 = 0"
  proof -
    have "unat (v mod 10) = unat v mod 10" by (simp add: unat_mod)
    then show ?thesis by (metis unat_eq_0)
  qed
  show ?case
  proof (cases "v mod 10 = 0")
    case True
    have d1: "unat (d - 1) = unat d - 1" using Suc.prems(1) by (simp add: unat_sub word_le_nat_alt)
    have sub: "checked_sub d 1 = Some (d - 1)"
      using Suc.prems(1) by (simp add: checked_sub_def word_le_nat_alt)
    have "canonical_loop n (v div 10) (d - 1) = (v', d')" using Suc.prems(2) True sub by simp
    then have ih: "unat d' \<le> unat d - 1 \<and> unat d - 1 - n \<le> unat d' \<and>
        unat (v div 10) = unat v' * 10 ^ (unat d - 1 - unat d') \<and>
        (unat d' = unat d - 1 - n \<or> unat v' mod 10 \<noteq> 0)"
      using Suc.IH [of "d - 1" "v div 10"] Suc.prems(1) unfolding d1 by simp
    have "unat v = unat v div 10 * 10" using True m by auto
    also have "unat v div 10 = unat (v div 10)" by (simp add: unat_div)
    finally have v: "unat v = unat (v div 10) * 10" .
    have "unat d - unat d' = Suc (unat d - 1 - unat d')" using ih Suc.prems(1) by linarith
    then have "unat v = unat v' * 10 ^ (unat d - unat d')" using v ih by simp
    then show ?thesis using ih Suc.prems(1) by auto
  next
    case False
    then have "canonical_loop n v d = (v', d')" using Suc.prems(2) by simp
    then have "(unat d' = unat d - n \<or> unat v' mod 10 \<noteq> 0)" "unat d' \<le> unat d" "unat d - n \<le> unat d'"
      "unat v = unat v' * 10 ^ (unat d - unat d')"
      using Suc.IH [of d v] Suc.prems(1) by simp_all
    moreover have "unat v' mod 10 \<noteq> 0"
    proof -
      have "10 dvd unat v' \<Longrightarrow> 10 dvd unat v" using calculation(4) by simp
      then show ?thesis using False m by (auto simp: dvd_eq_mod_eq_0)
    qed
    ultimately show ?thesis by simp
  qed
qed simp

lemma canonical_spec:
  shows "same_number x (DenominatedAmount_canonical x)"
    and "da_places (DenominatedAmount_canonical x) \<le> da_places x"
    and "da_places (DenominatedAmount_canonical x) = 0 \<or> da_units (DenominatedAmount_canonical x) mod 10 \<noteq> 0"
proof -
  let ?d = "denomination (da_denom x)" and ?v = "amount_raw (da_amount x)"
  obtain v' d' where l: "canonical_loop (unat ?d) ?v ?d = (v', d')" by fastforce
  have c: "DenominatedAmount_canonical x = \<lparr>da_amount = Amount v', da_denom = Denomination d'\<rparr>"
    by (simp add: DenominatedAmount_canonical_def Let_def l)
  note s = canonical_loop_spec [OF order.refl l]
  show "same_number x (DenominatedAmount_canonical x)"
    using s by (simp add: c same_number_def amount_val_def mult.assoc power_add [symmetric])
  show "da_places (DenominatedAmount_canonical x) \<le> da_places x"
    "da_places (DenominatedAmount_canonical x) = 0 \<or> da_units (DenominatedAmount_canonical x) mod 10 \<noteq> 0"
    using s by (simp_all add: c amount_val_def)
qed

text \<open>The order.\<close>

definition cmp_nat :: "nat \<Rightarrow> nat \<Rightarrow> ordering" where
  "cmp_nat a b = (if a < b then Less else if a = b then Equal else Greater)"

lemma cmp_word_nat: "cmp_word a b = cmp_nat (unat a) (unat b)"
  by (auto simp: cmp_word_def cmp_nat_def word_less_nat_alt dest: unat_eqD)

lemma cmp_nat_scale: "0 < c \<Longrightarrow> cmp_nat (a * c) (b * c) = cmp_nat a b"
  by (simp add: cmp_nat_def)

lemma cmp_ceil_eq:
  "cmp_ceil raw d = (if unat d \<le> 77 then
     Some (of_nat (div_ceil (unat raw) (10 ^ unat d)), unat raw mod 10 ^ unat d = 0) else None)"
proof (cases "unat d \<le> 77")
  case True
  define p :: nat where "p = 10 ^ unat d"
  define E :: Uint where "E = of_nat p"
  have e: "unat E = p" using True unfolding E_def p_def by (rule unat_pow10)
  have r: "raw mod E = 0 \<longleftrightarrow> unat raw mod p = 0"
    using unat_mod [of raw E] unfolding e by (metis unat_eq_0)
  have q: "raw div E = of_nat (unat raw div p)"
    using unat_div [of raw E] unfolding e by (metis unat_eqI_of_nat)
  have c: "checked_add (raw div E) 1 = Some (of_nat (unat raw div p + 1))" if "unat raw mod p \<noteq> 0"
  proof -
    have "p \<noteq> 1" using that by (metis mod_by_1)
    then have "2 \<le> p" by (cases "unat d") (simp_all add: p_def)
    then have "unat raw div p \<le> unat raw div 2" by (intro div_le_mono2) simp_all
    moreover have "unat raw div 2 + 1 < 2 ^ 256" using unat_lt_2p [of raw] by simp
    moreover have "unat (raw div E) = unat raw div p" unfolding unat_div e ..
    ultimately show ?thesis
      unfolding checked_add_of_nat by simp
  qed
  have "checked_pow (10 :: Uint) (unat d) = Some E" using True by (simp add: checked_pow10 E_def p_def)
  then have "cmp_ceil raw d = Some (if unat raw mod p = 0 then raw div E else of_nat (unat raw div p + 1),
      unat raw mod p = 0)"
    using c r by (simp add: cmp_ceil_def)
  then show ?thesis
    using True unfolding q by (simp add: div_ceil_def p_def [symmetric])
qed (simp add: cmp_ceil_def checked_pow10)

lemma cmp_div_ceil:
  assumes "0 < p"
  shows "cmp_nat s (div_ceil w p) =
      (if w mod p \<noteq> 0 \<and> s = div_ceil w p then Equal else cmp_nat (s * p) w)"
    and "cmp_nat (div_ceil w p) s =
      (if w mod p \<noteq> 0 \<and> s = div_ceil w p then Equal else cmp_nat w (s * p))"
    and "w mod p \<noteq> 0 \<Longrightarrow> w < div_ceil w p * p"
proof -
  have le: "div_ceil w p \<le> s \<longleftrightarrow> w \<le> s * p" for s using assms by (rule div_ceil_le_iff)
  have eq: "s = div_ceil w p \<longleftrightarrow> s * p = w" if "w mod p = 0" for s
    using that assms by (auto simp: div_ceil_def)
  have ne: "w \<noteq> s * p" if "w mod p \<noteq> 0" for s using that by auto
  show "w mod p \<noteq> 0 \<Longrightarrow> w < div_ceil w p * p"
    using le [of "div_ceil w p"] ne [of "div_ceil w p"] by simp
  show "cmp_nat s (div_ceil w p) =
      (if w mod p \<noteq> 0 \<and> s = div_ceil w p then Equal else cmp_nat (s * p) w)"
    "cmp_nat (div_ceil w p) s =
      (if w mod p \<noteq> 0 \<and> s = div_ceil w p then Equal else cmp_nat w (s * p))"
    using le [of s] eq [of s] ne [of s]
    by (cases "w mod p = 0"; cases "s = div_ceil w p"; force simp: cmp_nat_def not_less le_less)+
qed

lemma cmp_equal_nat: "cmp_nat a b = Equal \<longleftrightarrow> a = b"
  by (simp add: cmp_nat_def)

lemma unat_of_nat_div_ceil:
  "unat (of_nat (div_ceil (unat (w :: Uint)) (10 ^ k)) :: Uint) = div_ceil (unat w) (10 ^ k)"
proof (rule unat_of_nat_lt)
  have "div_ceil (unat w) (10 ^ k) \<le> unat w"
  proof (subst div_ceil_le_iff)
    show "unat w \<le> unat w * 10 ^ k" by simp
  qed simp
  then show "div_ceil (unat w) (10 ^ k) < 2 ^ LENGTH(256)"
    using unat_lt_2p [of w] by simp
qed

lemma case_tie: "(case ord of Equal \<Rightarrow> t | _ \<Rightarrow> ord) = (if ord = Equal then t else ord)"
  by (cases ord) simp_all

lemma adjusted_cmp:
  assumes "0 < p"
  shows "(if cmp_nat s (div_ceil w p) = Equal then if w mod p = 0 then Equal else Greater
      else cmp_nat s (div_ceil w p)) = cmp_nat (s * p) w"
    and "(if cmp_nat (div_ceil w p) s = Equal then if w mod p = 0 then Equal else Less
      else cmp_nat (div_ceil w p) s) = cmp_nat w (s * p)"
proof -
  note c = cmp_div_ceil(1,2) [OF assms, where s = s and w = w] cmp_div_ceil(3) [OF assms, where w = w]
  have "cmp_nat s (div_ceil w p) = Equal \<longleftrightarrow> s = div_ceil w p" "cmp_nat (div_ceil w p) s = Equal \<longleftrightarrow> s = div_ceil w p"
    by (auto simp: cmp_equal_nat)
  then show "(if cmp_nat s (div_ceil w p) = Equal then if w mod p = 0 then Equal else Greater
      else cmp_nat s (div_ceil w p)) = cmp_nat (s * p) w"
    "(if cmp_nat (div_ceil w p) s = Equal then if w mod p = 0 then Equal else Less
      else cmp_nat (div_ceil w p) s) = cmp_nat w (s * p)"
    using c by (cases "w mod p = 0"; cases "s = div_ceil w p"; simp add: cmp_nat_def)+
qed

text \<open>
  Comparing denominated amounts compares the numbers they stand for, whatever the
  denominations, as long as these differ by at most 77 places; beyond that the comparison
  panics.
\<close>

theorem denominated_cmp_exact:
  "DenominatedAmount_cmp x y =
     (if da_places x \<le> da_places y + 77 \<and> da_places y \<le> da_places x + 77
      then Some (cmp_nat (da_units x * 10 ^ da_places y) (da_units y * 10 ^ da_places x)) else None)"
proof (cases "da_places x < da_places y")
  case True
  let ?k = "da_places y - da_places x"
  have k: "unat (denomination (da_denom y) - denomination (da_denom x)) = ?k"
    using True by (simp add: unat_sub word_le_nat_alt)
  have "cmp_nat (da_units x * 10 ^ ?k) (da_units y) =
      cmp_nat (da_units x * 10 ^ da_places y) (da_units y * 10 ^ da_places x)"
    using cmp_nat_scale [of "10 ^ da_places x" "da_units x * 10 ^ ?k" "da_units y"] True
    by (simp add: mult.assoc power_add [symmetric])
  then show ?thesis
    using True adjusted_cmp(1) [of "10 ^ ?k", where s = "da_units x" and w = "da_units y"]
    by (auto simp: DenominatedAmount_cmp_def word_less_nat_alt cmp_ceil_eq k cmp_word_nat
        unat_of_nat_div_ceil amount_val_def Let_def case_tie)
next
  case False
  let ?k = "da_places x - da_places y"
  have k: "unat (denomination (da_denom x) - denomination (da_denom y)) = ?k"
    using False by (simp add: unat_sub word_le_nat_alt)
  have "cmp_nat (da_units x) (da_units y * 10 ^ ?k) =
      cmp_nat (da_units x * 10 ^ da_places y) (da_units y * 10 ^ da_places x)"
    using cmp_nat_scale [of "10 ^ da_places y" "da_units x" "da_units y * 10 ^ ?k"] False
    by (simp add: mult.assoc power_add [symmetric])
  then show ?thesis
    using False adjusted_cmp(2) [of "10 ^ ?k", where s = "da_units y" and w = "da_units x"]
    by (auto simp: DenominatedAmount_cmp_def word_less_nat_alt cmp_ceil_eq k cmp_word_nat
        unat_of_nat_div_ceil amount_val_def Let_def case_tie)
qed

section \<open>Parsing and printing of amounts\<close>

lemma sum_digits_eq:
  assumes "list_all is_ascii_digit s" "length s + k \<le> 77" "unat v < 10 ^ k"
  shows "sum_digits k (map (of_nat \<circ> digit_val) (rev s)) v = Some (of_nat (unat v + 10 ^ k * dec_value s))"
  using assms
proof (induction s arbitrary: k v rule: rev_induct)
  case (snoc c s)
  let ?d = "digit_val c"
  have d: "?d < 10" using snoc.prems(1) by (simp add: digit_val_lt)
  have k: "k \<le> 77" "Suc k \<le> 77" using snoc.prems(2) by simp_all
  have "unat v + 10 ^ k * ?d < 10 ^ k + 10 ^ k * ?d" using snoc.prems(3) by simp
  also have "\<dots> \<le> 10 ^ k + 10 ^ k * 9" using d by simp
  finally have lt: "unat v + 10 ^ k * ?d < 10 ^ Suc k" by simp
  then have lt2: "unat v + 10 ^ k * ?d < 2 ^ 256" using pow10_lt_iff [of "Suc k"] k by linarith
  have ud: "unat (of_nat ?d :: Uint) = ?d" using d by (intro unat_of_nat_lt) simp
  have m: "checked_mul (of_nat (10 ^ k) :: Uint) (of_nat ?d) = Some (of_nat (10 ^ k * ?d))"
    unfolding checked_mul_of_nat ud unat_pow10 [OF k(1)] using lt2 by simp
  have um: "unat (of_nat (10 ^ k * ?d) :: Uint) = 10 ^ k * ?d" using lt2 by (intro unat_of_nat_lt) simp
  define v' :: Uint where "v' = of_nat (unat v + 10 ^ k * ?d)"
  have a: "checked_add v (of_nat (10 ^ k * ?d)) = Some v'"
    unfolding checked_add_of_nat um v'_def using lt2 by simp
  have uv: "unat v' = unat v + 10 ^ k * ?d" unfolding v'_def using lt2 by (intro unat_of_nat_lt) simp
  have "sum_digits (Suc k) (map (of_nat \<circ> digit_val) (rev s)) v' =
      Some (of_nat (unat v' + 10 ^ Suc k * dec_value s))"
    using snoc.prems lt uv by (intro snoc.IH) simp_all
  also have "unat v' + 10 ^ Suc k * dec_value s = unat v + 10 ^ k * dec_value (s @ [c])"
    unfolding uv by (simp add: algebra_simps)
  finally have ih: "sum_digits (Suc k) (map (of_nat \<circ> digit_val) (rev s)) v' =
      Some (of_nat (unat v + 10 ^ k * dec_value (s @ [c])))" .
  show ?case
    using k m a ih by (simp add: checked_pow10 comp_def del: of_nat_add of_nat_mult of_nat_power dec_value_snoc)
qed simp

lemma map_filter_digits:
  "List.map_filter (\<lambda>c. if char_is_numeric c then map_option of_nat (to_digit10 c) else None) s =
     map (of_nat \<circ> digit_val) (filter is_ascii_digit s)"
  "List.map_filter (\<lambda>c. if is_ascii_digit c then map_option of_nat (to_digit10 c) else None) s =
     map (of_nat \<circ> digit_val) (filter is_ascii_digit s)"
  by (induction s) (auto simp: List.map_filter_simps char_is_numeric_def to_digit10_def)

lemma filter_digits: "list_all is_ascii_digit s \<Longrightarrow> filter is_ascii_digit s = s"
  by (induction s) auto

lemma str_find_None: "c \<notin> set s \<Longrightarrow> str_find c s = None"
  by (induction s) auto

lemma str_find_append: "c \<notin> set s \<Longrightarrow> str_find c (s @ c # t) = Some (length s)"
  by (induction s) auto

lemma utf8_len_append: "utf8_len (s @ t) = utf8_len s + utf8_len t"
  by (simp add: utf8_len_def)

lemma sum_digits_value:
  assumes "list_all is_ascii_digit s" "length s \<le> 77"
  shows "sum_digits 0 (rev (map (of_nat \<circ> digit_val) s)) 0 = Some (of_nat (dec_value s))"
  using sum_digits_eq [of s 0 0] assms by (simp add: rev_map)

lemma from_str_numeral:
  assumes L: "list_all is_ascii_digit L" and F: "list_all is_ascii_digit (case F of None \<Rightarrow> [] | Some f \<Rightarrow> f)"
  defines "ds \<equiv> L @ (case F of None \<Rightarrow> [] | Some f \<Rightarrow> f)"
  shows "DenominatedAmount_from_str (fixed_numeral L F) =
    (if length ds > 77 then Inl (ScaleTooLarge (length ds) 77)
     else Inr \<lparr>da_amount = amount_of (dec_value ds),
       da_denom = Denomination (of_nat (length (case F of None \<Rightarrow> [] | Some f \<Rightarrow> f)))\<rparr>)"
proof -
  have ds: "list_all is_ascii_digit ds" using L F by (simp add: ds_def)
  have fl: "filter is_ascii_digit (fixed_numeral L F) = ds"
    using L F by (cases F) (simp_all add: fixed_numeral_def ds_def filter_digits)
  show ?thesis
  proof (cases F)
    case None
    then have "str_find (CHR ''.'') (fixed_numeral L F) = None" "utf8_len (fixed_numeral L F) = length ds"
      using L digits_no_punct(1) [OF L]
      by (simp_all add: fixed_numeral_def str_find_None utf8_len_digits ds_def)
    then show ?thesis
      using ds None unfolding DenominatedAmount_from_str_def map_filter_digits fl
      by (simp add: sum_digits_value amount_of_def)
  next
    case (Some f)
    then have f: "list_all is_ascii_digit f" using F by simp
    have "str_find (CHR ''.'') (fixed_numeral L F) = Some (length L)"
      using Some digits_no_punct(1) [OF L] by (simp add: fixed_numeral_def str_find_append)
    moreover have "utf8_len (fixed_numeral L F) = Suc (length ds)"
      "utf8_len (take (length L) (fixed_numeral L F)) = length L"
      using Some L f by (simp_all add: fixed_numeral_def utf8_len_append utf8_len_digits ds_def)
        (simp add: utf8_len_def utf8_len_digits [unfolded utf8_len_def])
    ultimately show ?thesis
      using ds Some unfolding DenominatedAmount_from_str_def map_filter_digits fl
      by (simp add: sum_digits_value amount_of_def) (simp add: ds_def)
  qed
qed

text \<open>What \<open>to_string_precise\<close> writes.\<close>

lemma to_string_precise_numeral:
  assumes q: "radix10_printer q"
  obtains L F where "to_string_precise q x = fixed_numeral L F"
    "list_all is_ascii_digit L" "list_all is_ascii_digit (case F of None \<Rightarrow> [] | Some f \<Rightarrow> f)"
    "dec_value (L @ (case F of None \<Rightarrow> [] | Some f \<Rightarrow> f)) = da_units x"
    "length (case F of None \<Rightarrow> [] | Some f \<Rightarrow> f) = da_places x"
    "length (L @ (case F of None \<Rightarrow> [] | Some f \<Rightarrow> f)) = max (length (dec_string (da_units x))) (if da_places x = 0 then 0 else da_places x + 1)"
proof -
  let ?s = "dec_string (da_units x)" and ?p = "da_places x"
  have q: "q (amount_raw (da_amount x)) = ?s" using q by (simp add: radix10_printer_def amount_val_def)
  have dg: "list_all is_ascii_digit ?s" by (rule dec_string_digits)
  consider "?p = 0" | "?p \<noteq> 0" "?p < length ?s" | "?p \<noteq> 0" "length ?s \<le> ?p" by linarith
  then show thesis
  proof cases
    case 1
    then show thesis
      using that [of ?s None] dg by (simp add: to_string_precise_def q fixed_numeral_def)
  next
    case 2
    let ?k = "length ?s - ?p"
    have "to_string_precise q x = fixed_numeral (take ?k ?s) (Some (drop ?k ?s))"
      using 2 by (simp add: to_string_precise_def q fixed_numeral_def string_insert_def Let_def)
    then show thesis
      using that [of "take ?k ?s" "Some (drop ?k ?s)"] dg 2
      by (auto simp: list_all_iff dest: in_set_takeD in_set_dropD)
  next
    case 3
    let ?F = "replicate (?p - length ?s) (CHR ''0'') @ ?s"
    have "to_string_precise q x = fixed_numeral ''0'' (Some ?F)"
      using 3 by (simp add: to_string_precise_def q fixed_numeral_def Let_def)
    moreover have "list_all is_ascii_digit ?F" using dg by (auto simp: list_all_iff)
    moreover have "dec_value (''0'' @ ?F) = da_units x"
    proof -
      have "dec_value ''0'' = 0" by (simp add: dec_value_def)
      then show ?thesis unfolding dec_value_append by simp
    qed
    ultimately show thesis using that [of "''0''" "Some ?F"] 3 by simp
  qed
qed

lemma dec_string_len_iff: "0 < k \<Longrightarrow> length (dec_string n) \<le> k \<longleftrightarrow> n < 10 ^ k"
proof
  assume "length (dec_string n) \<le> k"
  then have "(10 :: nat) ^ length (dec_string n) \<le> 10 ^ k" by (intro power_increasing) simp_all
  moreover have "n < 10 ^ length (dec_string n)" using dec_value_lt [OF dec_string_digits, of n] by simp
  ultimately show "n < 10 ^ k" by linarith
qed (rule dec_string_len)

lemma from_str_to_string_precise:
  assumes "radix10_printer q"
  shows "DenominatedAmount_from_str (to_string_precise q x) =
    (if da_units x < 10 ^ 77 \<and> da_places x \<le> 76 then Inr x
     else Inl (ScaleTooLarge (max (length (dec_string (da_units x))) (da_places x + 1)) 77))"
proof -
  obtain L F where s: "to_string_precise q x = fixed_numeral L F"
    and d: "list_all is_ascii_digit L" "list_all is_ascii_digit (case F of None \<Rightarrow> [] | Some f \<Rightarrow> f)"
    and v: "dec_value (L @ (case F of None \<Rightarrow> [] | Some f \<Rightarrow> f)) = da_units x"
    and p: "length (case F of None \<Rightarrow> [] | Some f \<Rightarrow> f) = da_places x"
    and l: "length (L @ (case F of None \<Rightarrow> [] | Some f \<Rightarrow> f)) =
      max (length (dec_string (da_units x))) (if da_places x = 0 then 0 else da_places x + 1)"
    by (rule to_string_precise_numeral [OF assms])
  have ne: "1 \<le> length (dec_string (da_units x))"
    using dec_string_ne [of "da_units x"] by (cases "dec_string (da_units x)") auto
  have m: "max (length (dec_string (da_units x))) (if da_places x = 0 then 0 else da_places x + 1) =
      max (length (dec_string (da_units x))) (da_places x + 1)"
    using ne by auto
  have "\<not> 77 < max (length (dec_string (da_units x))) (da_places x + 1) \<longleftrightarrow> da_units x < 10 ^ 77 \<and> da_places x \<le> 76"
    using dec_string_len_iff [of 77 "da_units x"] by auto
  moreover have "\<lparr>da_amount = amount_of (da_units x), da_denom = Denomination (of_nat (da_places x))\<rparr> = x"
    by (cases x) simp
  ultimately show ?thesis
    unfolding s from_str_numeral [OF d] v p l m by auto
qed

text \<open>
  An amount below \<open>10^77\<close> with at most 76 decimal places is read back exactly, with its
  denomination, from its precise string; every other one is rejected for its length.
\<close>

theorem denominated_string_roundtrip:
  assumes "radix10_printer q"
  shows "DenominatedAmount_from_str (to_string_precise q x) =
    (if da_units x < 10 ^ 77 \<and> da_places x \<le> 76 then Inr x
     else Inl (ScaleTooLarge (max (length (dec_string (da_units x))) (da_places x + 1)) 77))"
  by (rule from_str_to_string_precise [OF assms])

theorem denominated_string_roundtrip_witness:
  "DenominatedAmount_from_str (to_string_precise to_dec_str
     \<lparr>da_amount = amount_of 1500, da_denom = Denomination 6\<rparr>) =
     Inr \<lparr>da_amount = amount_of 1500, da_denom = Denomination 6\<rparr>"
  by (simp add: denominated_string_roundtrip [OF radix10_instances(2)])

text \<open>
  The reader of a serialized amount unwraps the parse, so it panics on the string of an amount
  that needs 78 digits, such as the maximum.
\<close>

lemma amount_json_roundtrip:
  assumes "radix10_printer q"
  shows "Amount_deserialize (q (amount_raw a)) = (if amount_val a < 10 ^ 77 then Some a else None)"
proof -
  let ?x = "\<lparr>da_amount = a, da_denom = Denomination 0\<rparr>"
  have "to_string_precise q ?x = q (amount_raw a)" by (simp add: to_string_precise_def)
  with from_str_to_string_precise [OF assms, of ?x] show ?thesis
    by (simp add: Amount_deserialize_def)
qed

lemma Uint_json_roundtrip:
  assumes "radix10_printer q"
  shows "Uint_deserialize (q w) = (if unat w < 10 ^ 77 then Inr w else Inl (ScaleTooLarge 78 77))"
proof -
  let ?s = "dec_string (unat w)"
  have dg: "list_all is_ascii_digit ?s" by (rule dec_string_digits)
  have "unat w < 10 ^ 78" using unat_lt_2p [of w] by simp
  then have "length ?s \<le> 78" by (simp add: dec_string_len_iff)
  moreover have "\<not> 77 < length ?s \<longleftrightarrow> unat w < 10 ^ 77" using dec_string_len_iff [of 77 "unat w"] by auto
  ultimately show ?thesis
    using assms dg unfolding Uint_deserialize_def map_filter_digits
    by (auto simp: radix10_printer_def filter_digits utf8_len_digits sum_digits_value)
qed

section \<open>The digits of the shielded pool\<close>

lemma MaspDigitPos_iter_eq: "MaspDigitPos_iter = [Zero, One, Two, Three]"
  by (simp add: MaspDigitPos_iter_def MaspDigitPos_from_u8_def upt_rec)

lemma limbs_val_single: "i < 4 \<Longrightarrow> limbs_val ([0, 0, 0, 0][i := d]) = unat d * B64 ^ i"
proof -
  assume "i < 4"
  then consider "i = 0" | "i = 1" | "i = 2" | "i = 3" by linarith
  then show ?thesis by cases (simp_all add: eval_nat_numeral algebra_simps)
qed

lemma masp_index_lt [simp]: "masp_index p < 4"
  by (cases p) simp_all

lemma unat_masp_digit:
  "unat (uint_of_limbs ([0, 0, 0, 0][masp_index p := d])) = unat d * B64 ^ masp_index p"
proof -
  have "length ([0, 0, 0, 0][masp_index p := d]) = 4" unfolding length_list_update by simp
  from unat_uint_of_limbs [OF this] show ?thesis by (simp only: limbs_val_single masp_index_lt)
qed

lemma from_masp_denominated_val: "amount_val (from_masp_denominated d p) = unat d * B64 ^ masp_index p"
  unfolding amount_val_def from_masp_denominated_def Amount.sel by (rule unat_masp_digit)

lemma uint_limbs_cases: obtains a b c d where "uint_limbs w = [a, b, c, d]"
proof -
  have "length (uint_limbs w) = Suc (Suc (Suc (Suc 0)))" by simp
  then show thesis using that by (auto simp: length_Suc_conv simp del: length_uint_limbs)
qed

lemma masp_digits_sum:
  "(\<Sum>p\<leftarrow>MaspDigitPos_iter. unat (uint_limbs w ! masp_index p) * B64 ^ masp_index p) = unat w"
proof -
  obtain a b c d where l: "uint_limbs w = [a, b, c, d]" by (rule uint_limbs_cases)
  have "limbs_val [a, b, c, d] = unat w" using limbs_val_uint_limbs [of w] by (simp add: l)
  then show ?thesis by (simp add: MaspDigitPos_iter_eq l eval_nat_numeral algebra_simps)
qed

text \<open>
  The four 64-bit digits of an amount, each turned back into an amount at its position, add
  up to the amount.
\<close>

theorem masp_digits_reassemble:
  "Amount_sum (map (\<lambda>p. from_masp_denominated (denominate p a) p) MaspDigitPos_iter) = Some a"
  using masp_digits_sum [of "amount_raw a"]
  by (simp add: Amount_sum_val comp_def from_masp_denominated_val denominate_def flip: amount_val_def)

text \<open>The 128-bit constructor rejects every value that needs its second digit.\<close>

lemma from_masp_denominated_u128_eq:
  "from_masp_denominated_u128 v p =
     (if unat v < 2 ^ 64 then Some (from_masp_denominated (ucast v) p) else None)"
proof -
  have "unat v < 2 ^ 64 \<Longrightarrow> drop_bit 64 v = 0"
    by (rule unat_eqD) (simp add: drop_bit_eq_div unat_div)
  then show ?thesis
    by (simp add: from_masp_denominated_u128_def from_masp_denominated_def Let_def)
qed

lemma unat_i128_unsigned_abs: "int (unat (i128_unsigned_abs v)) = \<bar>sint v\<bar>"
proof (cases "sint v < 0")
  case True
  then have v: "sint v = int (unat v) - 2 ^ 128" "2 ^ 127 \<le> unat v"
    unfolding sint_unat by (auto split: if_splits)
  then have "v \<noteq> 0" by auto
  then have "unat (- v) = 2 ^ 128 - unat v" using unat_neg [of v] by simp
  moreover have "unat v < 2 ^ 128" using unat_lt_2p [of v] by simp
  ultimately show ?thesis using True v(1) by (simp add: i128_unsigned_abs_def of_nat_diff del: of_nat_unat)
next
  case False
  then have "sint v = int (unat v)"
    using unat_lt_2p [of v] unfolding sint_unat by (auto split: if_splits simp del: of_nat_unat)
  then show ?thesis using False by (simp add: i128_unsigned_abs_def del: of_nat_unat)
qed

lemma I256_from_masp_denominated_eq:
  assumes "\<bar>sint v\<bar> < 2 ^ 64"
  shows "I256_from_masp_denominated v p =
    (let z = sint v * int (B64 ^ masp_index p)
     in if \<bar>z\<bar> < 2 ^ 255 then Inr (i256_of z) else Inl InvalidRange)"
proof -
  define n where "n = unat (i128_unsigned_abs v)"
  define r where "r = uint_of_limbs ([0, 0, 0, 0][masp_index p := ucast (i128_unsigned_abs v)])"
  have n: "int n = \<bar>sint v\<bar>" unfolding n_def by (rule unat_i128_unsigned_abs)
  have n64: "n < 2 ^ 64" using assms n by simp
  have "unat (ucast (i128_unsigned_abs v) :: u64) = n"
    using n64 by (simp add: n_def unsigned_ucast_eq take_bit_nat_eq_self)
  then have r: "unat r = n * B64 ^ masp_index p"
    unfolding r_def unat_masp_digit by simp
  have z: "\<bar>sint v * int (B64 ^ masp_index p)\<bar> = int (unat r)"
    unfolding r by (simp add: abs_mult n)
  have le: "r \<le> MAX_SIGNED_VALUE \<longleftrightarrow> \<bar>sint v * int (B64 ^ masp_index p)\<bar> < 2 ^ 255"
    unfolding le_MAX_SIGNED_iff z by (metis of_nat_less_iff of_nat_numeral of_nat_power)
  have pos: "I256_canonical (I256 r) = i256_of (int (unat r))" if "r \<le> MAX_SIGNED_VALUE"
    using that by (simp add: le_MAX_SIGNED_iff I256_small I256_canonical_inv I256_inv_of del: of_nat_unat)
  have neg: "Uint_negate r = (Uint_canonical (- r), False)" "I256 (Uint_canonical (- r)) = i256_of (- int (unat r))"
    if "r \<le> MAX_SIGNED_VALUE" "sint v < 0"
  proof -
    have "0 < n" using n that(2) by linarith
    then have nz: "r \<noteq> 0" using r by (auto simp: B64_def)
    then show 1: "Uint_negate r = (Uint_canonical (- r), False)" by (simp add: Uint_negate_eq)
    have "I256_checked_neg (I256 r) = Some (i256_of (- int (unat r)))"
      using that(1) I256_neg_of_nat [of "unat r"] I256_small [of r] by (simp add: le_MAX_SIGNED_iff del: of_nat_unat)
    then show "I256 (Uint_canonical (- r)) = i256_of (- int (unat r))"
      using nz 1 by (simp add: I256_checked_neg_def I256_is_zero_def del: of_nat_unat)
  qed
  have s: "sint v * int (B64 ^ masp_index p) = (if sint v < 0 then - int (unat r) else int (unat r))"
    unfolding z [symmetric] by (simp add: abs_if mult_less_0_iff)
  have "I256_from_masp_denominated v p =
      (if r \<le> MAX_SIGNED_VALUE then
         if sint v < 0 then
           let (inner, overflow) = Uint_negate r in if overflow then Inl InvalidRange else Inr (I256 inner)
         else Inr (I256_canonical (I256 r))
       else Inl InvalidRange)"
    using n64 unfolding I256_from_masp_denominated_def n_def r_def Let_def by simp
  then show ?thesis
    unfolding Let_def le [symmetric] using pos neg s by (auto simp del: of_nat_unat)
qed

lemma denominate_i128_val:
  assumes "I256_inv c"
  shows "sint (denominate_i128 p c) = sgn (i256_val c) * int (unat (uint_limbs (I256_abs c) ! masp_index p))"
proof -
  define w where "w = uint_limbs (I256_abs c) ! masp_index p"
  have u: "unat (ucast w :: i128) = unat w" by (rule unat_ucast_up) simp
  have lt: "unat w < 2 ^ 64" using unat_lt_2p [of w] by simp
  then have s: "sint (ucast w :: i128) = int (unat w)" unfolding sint_unat u by simp
  have n: "sint (- (ucast w :: i128)) = - int (unat w)"
  proof (cases "w = 0")
    case False
    then have "(ucast w :: i128) \<noteq> 0" using u by (metis unat_eq_0)
    then have "unat (- (ucast w :: i128)) = 2 ^ 128 - unat w" using unat_neg [of "ucast w :: i128"] u by simp
    then show ?thesis using lt False unfolding sint_unat by (simp add: of_nat_diff unat_eq_0 del: of_nat_unat)
  qed simp
  have "w = 0" if "i256_val c = 0"
  proof -
    have "I256_abs c = 0" using that assms by (simp add: I256_abs_0_iff)
    then have "unat (I256_abs c) = 0" by simp
    then have "\<forall>x\<in>set (uint_limbs (I256_abs c)). x = 0" by (metis limbs_val_uint_limbs limbs_val_eq_0_iff)
    then show ?thesis unfolding w_def by simp
  qed
  then show ?thesis
    using s n unfolding denominate_i128_def Let_def w_def [symmetric] I256_is_negative_val
    by (auto simp: sgn_if simp del: of_nat_unat)
qed

text \<open>
  The signed digits of a change, each turned back into a change at its position, add up to
  the change; no digit is out of range.
\<close>

theorem masp_signed_digits_reassemble:
  assumes "I256_inv c"
  shows "\<exists>cs. map (\<lambda>p. I256_from_masp_denominated (denominate_i128 p c) p) MaspDigitPos_iter = map Inr cs \<and>
    I256_sum cs = Some c"
proof -
  define s where "s = sgn (i256_val c)"
  define d where "d p = int (unat (uint_limbs (I256_abs c) ! masp_index p) * B64 ^ masp_index p)" for p
  have s: "s = 0 \<or> s = 1 \<or> s = -1" by (auto simp: s_def sgn_if)
  have sum: "(\<Sum>p\<leftarrow>MaspDigitPos_iter. d p) = \<bar>i256_val c\<bar>"
  proof -
    have "(\<Sum>p\<leftarrow>MaspDigitPos_iter. d p) = int (unat (I256_abs c))"
      unfolding masp_digits_sum [of "I256_abs c", symmetric] d_def by (simp add: MaspDigitPos_iter_eq)
    then show ?thesis using I256_abs_val [OF assms] by simp
  qed
  have nn: "0 \<le> d p" for p by (simp add: d_def)
  have lt: "\<bar>i256_val c\<bar> < 2 ^ 255" using assms by (simp add: I256_inv_val)
  have e: "I256_from_masp_denominated (denominate_i128 p c) p = Inr (i256_of (s * d p)) \<and> \<bar>s * d p\<bar> < 2 ^ 255"
    for p
  proof -
    let ?u = "int (unat (uint_limbs (I256_abs c) ! masp_index p))"
    have v: "sint (denominate_i128 p c) = s * ?u" unfolding s_def by (rule denominate_i128_val [OF assms])
    have "d p \<le> \<bar>i256_val c\<bar>" using sum nn [of Zero] nn [of One] nn [of Two] nn [of Three]
      by (cases p) (simp_all add: MaspDigitPos_iter_eq)
    then have b: "\<bar>s * d p\<bar> < 2 ^ 255" using s lt nn [of p] by auto
    have "?u < 2 ^ 64" using unat_lt_2p [of "uint_limbs (I256_abs c) ! masp_index p"]
      by (simp del: of_nat_unat)
    then have "\<bar>sint (denominate_i128 p c)\<bar> < 2 ^ 64" using s v by auto
    from I256_from_masp_denominated_eq [OF this, of p] show ?thesis
      using b v by (simp add: d_def mult.assoc)
  qed
  have "\<exists>t. I256_sum_from (i256_of (s * a)) (map (\<lambda>p. i256_of (s * d p)) ps) = Some (i256_of (s * (a + (\<Sum>p\<leftarrow>ps. d p))))"
    if "0 \<le> a" "a + (\<Sum>p\<leftarrow>ps. d p) < 2 ^ 255" for a ps
    using that
  proof (induction ps arbitrary: a)
    case (Cons q qs)
    have q0: "0 \<le> (\<Sum>p\<leftarrow>qs. d p)" using nn by (intro sum_list_nonneg) auto
    then have "\<bar>s * a\<bar> < 2 ^ 255" "\<bar>s * (a + d q)\<bar> < 2 ^ 255"
      using s Cons.prems nn [of q] by (auto simp: abs_mult)
    then have "I256_checked_add (i256_of (s * a)) (i256_of (s * d q)) = Some (i256_of (s * (a + d q)))"
      using e [of q] by (simp add: I256_checked_add_eq I256_inv_of i256_val_of i256_checked_def distrib_left)
    then show ?case
      using Cons.IH [of "a + d q"] Cons.prems nn [of q] by (simp add: add.assoc)
  qed simp
  from this [of 0 MaspDigitPos_iter]
  have "I256_sum (map (\<lambda>p. i256_of (s * d p)) MaspDigitPos_iter) = Some (i256_of (s * \<bar>i256_val c\<bar>))"
    using lt sum by (simp add: I256_sum_def I256_zero_def i256_of_def)
  moreover have "s * \<bar>i256_val c\<bar> = i256_val c" by (simp add: s_def sgn_mult_abs)
  ultimately show ?thesis
    using e by (intro exI [of _ "map (\<lambda>p. i256_of (s * d p)) MaspDigitPos_iter"]) simp
qed

theorem masp_signed_digits_reassemble_witness:
  "\<exists>cs. map (\<lambda>p. I256_from_masp_denominated (denominate_i128 p (i256_of (- 5 * 2 ^ 70))) p) MaspDigitPos_iter = map Inr cs \<and>
    I256_sum cs = Some (i256_of (- 5 * 2 ^ 70))"
  by (rule masp_signed_digits_reassemble) (rule I256_inv_of, simp)

text \<open>
  The product of a change and a decimal is the exact product rounded towards plus infinity,
  for every sign, and fails exactly when the product of the magnitudes overflows 256 bits.
\<close>

theorem I256_mul_ceil_exact:
  assumes a: "I256_inv a" and d: "Dec_inv d"
  shows "I256_mul_ceil a d =
    (if \<bar>i256_val a * dec_val d\<bar> < 2 ^ 256
     then Inr (i256_of (- ((- (i256_val a * dec_val d)) div 10 ^ 12))) else Inl ArithError)"
proof -
  define z where "z = i256_val a * dec_val d"
  define t where "t = unat (I256_abs a) * unat (I256_abs (dec_inner d))"
  have t: "int t = \<bar>z\<bar>"
    unfolding t_def z_def abs_mult of_nat_mult dec_val_def using a d by (simp only: I256_abs_val Dec_inv_def)
  have fits: "t < 2 ^ 256 \<longleftrightarrow> \<bar>z\<bar> < 2 ^ 256" unfolding t [symmetric] by simp
  have neg: "(I256_is_negative a \<noteq> Dec_is_negative d) = ((i256_val a < 0) \<noteq> (dec_val d < 0))"
    by (simp add: I256_is_negative_val Dec_is_negative_def dec_val_def)
  show ?thesis
  proof (cases "t < 2 ^ 256")
    case False
    then show ?thesis
      using fits by (simp add: I256_mul_ceil_def checked_mul_def t_def [symmetric] z_def [symmetric])
  next
    case True
    define q r where "q = t div 10 ^ 12" and "r = t mod 10 ^ 12"
    have q: "q + 1 < 2 ^ 255" using True by (simp add: q_def)
    have m: "checked_mul (I256_abs a) (I256_abs (dec_inner d)) = Some (of_nat t)"
      using True by (simp add: checked_mul_of_nat t_def [symmetric])
    have ut: "unat (of_nat t :: Uint) = t" using True by (intro unat_of_nat_lt) simp
    have "unat (of_nat r :: Uint) = r"
      unfolding r_def by (rule unat_of_nat_lt) (rule less_trans [OF mod_less_divisor], simp_all)
    then have r0: "of_nat r = (0 :: Uint) \<longleftrightarrow> r = 0" by (metis unat_eq_0)
    have c: "checked_add (of_nat q :: Uint) 1 = Some (of_nat (q + 1))"
      using q by (simp add: checked_add_of_nat unat_of_nat_lt)
    have ng: "I256_checked_neg (I256 (of_nat q)) = Some (i256_of (- int q))"
      using q by (simp add: I256_of_nat I256_neg_of_nat)
    have e: "I256_mul_ceil a d =
        (if (i256_val a < 0) \<noteq> (dec_val d < 0) then Inr (i256_of (- int q))
         else Inr (i256_of (int (if r = 0 then q else q + 1))))"
      unfolding I256_mul_ceil_def Let_def neg m ok_or_simps rbind_simps checked_div_rem_precision ut
        q_def [symmetric] r_def [symmetric] r0
      using ng by (simp add: c I256_of_nat del: of_nat_add of_nat_Suc)
    have "- ((- z) div 10 ^ 12) =
        (if (i256_val a < 0) \<noteq> (dec_val d < 0) then - int q else int (if r = 0 then q else q + 1))"
    proof (cases "(i256_val a < 0) \<noteq> (dec_val d < 0)")
      case True
      then have "z \<le> 0" by (auto simp: z_def mult_le_0_iff)
      then have "- z = int t" using t by simp
      then show ?thesis using True by (simp add: q_def zdiv_int)
    next
      case False
      then have "0 \<le> z" by (auto simp: z_def zero_le_mult_iff)
      then have z: "z = int t" using t by simp
      have "(- int t) div 10 ^ 12 = - (int t div 10 ^ 12) - (if int t mod 10 ^ 12 = 0 then 0 else 1)"
        by (subst zdiv_zminus1_eq_if) simp_all
      moreover have "int t mod 10 ^ 12 = int r" "int t div 10 ^ 12 = int q"
        by (simp_all add: r_def q_def zdiv_int zmod_int)
      ultimately show ?thesis using False z by simp
    qed
    then show ?thesis using True fits by (simp add: e z_def [symmetric] split: if_splits)
  qed
qed

theorem I256_mul_ceil_exact_witness:
  "I256_mul_ceil (i256_of (- 7)) (dec_of (5 * 10 ^ 11)) = Inr (i256_of (- 3))"
proof -
  have "I256_inv (i256_of (- 7))" "i256_val (i256_of (- 7)) = - 7"
    "Dec_inv (dec_of (5 * 10 ^ 11))" "dec_val (dec_of (5 * 10 ^ 11)) = 5 * 10 ^ 11"
    by (simp_all add: I256_inv_of i256_val_of Dec_inv_of dec_val_of)
  then show ?thesis using I256_mul_ceil_exact [of "i256_of (- 7)" "dec_of (5 * 10 ^ 11)"] by simp
qed

end
