(* ===== verification/StorageTypes.thy ===== *)
theory StorageTypes
  imports Uint256 Strings "HOL-Library.Multiset"
begin

text \<open>
  \<open>core/src/storage.rs\<close>: block heights, epochs and the record of the first block of every
  epoch; the queue of confirmed Ethereum events; storage keys and their segments.
\<close>

unbundle bit_operations_syntax

section \<open>Heights and epochs\<close>

datatype BlockHeight = BlockHeight (block_height: u64)

definition BlockHeight_first :: BlockHeight where
  "BlockHeight_first = BlockHeight 1"

definition BlockHeight_sentinel :: BlockHeight where
  "BlockHeight_sentinel = BlockHeight 0"

definition next_height :: "BlockHeight \<Rightarrow> BlockHeight option" where
  "next_height slf = map_option BlockHeight (checked_add (block_height slf) 1)"

definition prev_height :: "BlockHeight \<Rightarrow> BlockHeight option" where
  "prev_height slf = do { h \<leftarrow> checked_sub (block_height slf) 1; Some (BlockHeight h) }"

definition BlockHeight_checked_add :: "BlockHeight \<Rightarrow> BlockHeight \<Rightarrow> BlockHeight option" where
  "BlockHeight_checked_add slf rhs =
     do { h \<leftarrow> checked_add (block_height slf) (block_height rhs); Some (BlockHeight h) }"

definition BlockHeight_checked_sub :: "BlockHeight \<Rightarrow> BlockHeight \<Rightarrow> BlockHeight option" where
  "BlockHeight_checked_sub slf rhs =
     do { h \<leftarrow> checked_sub (block_height slf) (block_height rhs); Some (BlockHeight h) }"

instantiation BlockHeight :: linorder
begin

definition less_eq_BlockHeight :: "BlockHeight \<Rightarrow> BlockHeight \<Rightarrow> bool" where
  "less_eq_BlockHeight a b \<longleftrightarrow> block_height a \<le> block_height b"

definition less_BlockHeight :: "BlockHeight \<Rightarrow> BlockHeight \<Rightarrow> bool" where
  "less_BlockHeight a b \<longleftrightarrow> block_height a < block_height b"

instance
  by standard (auto simp: less_eq_BlockHeight_def less_BlockHeight_def BlockHeight.expand)

end

datatype Epoch = Epoch (epoch_num: u64)

instantiation Epoch :: linorder
begin

definition less_eq_Epoch :: "Epoch \<Rightarrow> Epoch \<Rightarrow> bool" where
  "less_eq_Epoch a b \<longleftrightarrow> epoch_num a \<le> epoch_num b"

definition less_Epoch :: "Epoch \<Rightarrow> Epoch \<Rightarrow> bool" where
  "less_Epoch a b \<longleftrightarrow> epoch_num a < epoch_num b"

instance
  by standard (auto simp: less_eq_Epoch_def less_Epoch_def Epoch.expand)

end

definition Epoch_default :: Epoch where
  "Epoch_default = Epoch 0"

text \<open>\<open>next\<close> and \<open>unchecked_add\<close> panic (\<^const>\<open>None\<close>) on overflow.\<close>

definition Epoch_next :: "Epoch \<Rightarrow> Epoch option" where
  "Epoch_next slf = map_option Epoch (checked_add (epoch_num slf) 1)"

definition Epoch_prev :: "Epoch \<Rightarrow> Epoch option" where
  "Epoch_prev slf = do { e \<leftarrow> checked_sub (epoch_num slf) 1; Some (Epoch e) }"

definition Epoch_iter_range :: "Epoch \<Rightarrow> u64 \<Rightarrow> Epoch list" where
  "Epoch_iter_range slf len =
     (let start_ix = epoch_num slf;
          end_ix = (case checked_add start_ix len of Some e \<Rightarrow> e | None \<Rightarrow> - 1)
      in map (Epoch \<circ> of_nat) [unat start_ix ..< unat end_ix])"

definition Epoch_iter_bounds_inclusive :: "Epoch \<Rightarrow> Epoch \<Rightarrow> Epoch list" where
  "Epoch_iter_bounds_inclusive start ends =
     map (Epoch \<circ> of_nat) [unat (epoch_num start) ..< Suc (unat (epoch_num ends))]"

definition Epoch_checked_add :: "Epoch \<Rightarrow> u64 \<Rightarrow> Epoch option" where
  "Epoch_checked_add slf rhs = do { e \<leftarrow> checked_add (epoch_num slf) rhs; Some (Epoch e) }"

definition Epoch_unchecked_add :: "Epoch \<Rightarrow> u64 \<Rightarrow> Epoch option" where
  "Epoch_unchecked_add slf rhs = Epoch_checked_add slf rhs"

definition Epoch_checked_sub :: "Epoch \<Rightarrow> u64 \<Rightarrow> Epoch option" where
  "Epoch_checked_sub slf rhs = do { e \<leftarrow> checked_sub (epoch_num slf) rhs; Some (Epoch e) }"

definition Epoch_checked_div :: "Epoch \<Rightarrow> u64 \<Rightarrow> Epoch option" where
  "Epoch_checked_div slf rhs = do { e \<leftarrow> checked_div (epoch_num slf) rhs; Some (Epoch e) }"

definition Epoch_checked_mul :: "Epoch \<Rightarrow> u64 \<Rightarrow> Epoch option" where
  "Epoch_checked_mul slf rhs = do { e \<leftarrow> checked_mul (epoch_num slf) rhs; Some (Epoch e) }"

definition Epoch_checked_rem :: "Epoch \<Rightarrow> u64 \<Rightarrow> Epoch option" where
  "Epoch_checked_rem slf rhs = do { e \<leftarrow> checked_rem (epoch_num slf) rhs; Some (Epoch e) }"

definition Epoch_sub_or_default :: "Epoch \<Rightarrow> Epoch \<Rightarrow> Epoch" where
  "Epoch_sub_or_default slf rhs =
     (case Epoch_checked_sub slf (epoch_num rhs) of Some e \<Rightarrow> e | None \<Rightarrow> Epoch_default)"

text \<open>The first block heights of the known epochs.\<close>

record Epochs =
  first_block_heights :: "BlockHeight list"

definition new_epoch :: "BlockHeight \<Rightarrow> Epochs \<Rightarrow> Epochs" where
  "new_epoch height slf = slf\<lparr>first_block_heights := first_block_heights slf @ [height]\<rparr>"

fun get_epoch_loop :: "BlockHeight \<Rightarrow> Epoch \<Rightarrow> BlockHeight list \<Rightarrow> Epoch option" where
  "get_epoch_loop height epoch [] = Some epoch"
| "get_epoch_loop height epoch (next_block_height # rest) =
     (if height < next_block_height then Some epoch
      else do { e \<leftarrow> Epoch_next epoch; get_epoch_loop height e rest })"

definition get_epoch :: "Epochs \<Rightarrow> BlockHeight \<Rightarrow> Epoch option" where
  "get_epoch slf height =
     (case first_block_heights slf of
        _ # rest \<Rightarrow> get_epoch_loop height Epoch_default rest
      | [] \<Rightarrow> None)"

definition get_epoch_start_height :: "Epochs \<Rightarrow> BlockHeight \<Rightarrow> BlockHeight option" where
  "get_epoch_start_height slf height =
     find (\<lambda>start_height. start_height \<le> height) (rev (first_block_heights slf))"

definition get_start_height_of_epoch :: "Epochs \<Rightarrow> Epoch \<Rightarrow> BlockHeight option" where
  "get_start_height_of_epoch slf epoch =
     (if unat (epoch_num epoch) > length (first_block_heights slf) then None
      else
        let idx = unat (epoch_num epoch)
        in if idx < length (first_block_heights slf) then Some (first_block_heights slf ! idx) else None)"

section \<open>The queue of Ethereum events\<close>

record 'e InnerEthEventsQueue =
  next_nonce_to_process :: Uint
  queue_inner :: "'e list"

definition queue_new_at :: "Uint \<Rightarrow> 'e InnerEthEventsQueue" where
  "queue_new_at n = \<lparr>next_nonce_to_process = n, queue_inner = []\<rparr>"

text \<open>
  \<open>binary_search_by_key\<close>: \<open>Inr i\<close> for an element with the key at position \<open>i\<close>, \<open>Inl i\<close> for
  the position where an element with the key can be inserted.
\<close>

function binary_search :: "('e \<Rightarrow> Uint) \<Rightarrow> Uint \<Rightarrow> 'e list \<Rightarrow> nat \<Rightarrow> nat \<Rightarrow> nat + nat" where
  "binary_search key k xs left right =
     (if left < right then
        let mid = left + (right - left) div 2;
            m = key (xs ! mid)
        in if m < k then binary_search key k xs (mid + 1) right
           else if k < m then binary_search key k xs left mid
           else Inr mid
      else Inl left)"
  by pat_completeness auto
termination
  by (relation "measure (\<lambda>(key, k, xs, left, right). right - left)") auto

declare binary_search.simps [simp del]

definition try_push_event :: "('e \<Rightarrow> Uint) \<Rightarrow> 'e \<Rightarrow> 'e InnerEthEventsQueue \<Rightarrow> 'e InnerEthEventsQueue option" where
  "try_push_event nonce new_event slf =
     (case binary_search nonce (nonce new_event) (queue_inner slf) 0 (length (queue_inner slf)) of
        Inl insert_at \<Rightarrow>
          Some (slf\<lparr>queue_inner := take insert_at (queue_inner slf) @ new_event # drop insert_at (queue_inner slf)\<rparr>)
      | Inr _ \<Rightarrow> None)"

definition peek_event_nonce :: "('e \<Rightarrow> Uint) \<Rightarrow> 'e InnerEthEventsQueue \<Rightarrow> Uint option" where
  "peek_event_nonce nonce slf = (case queue_inner slf of [] \<Rightarrow> None | e # _ \<Rightarrow> Some (nonce e))"

definition pop_event :: "'e InnerEthEventsQueue \<Rightarrow> 'e option \<times> 'e InnerEthEventsQueue" where
  "pop_event slf = (case queue_inner slf of [] \<Rightarrow> (None, slf) | e # es \<Rightarrow> (Some e, slf\<lparr>queue_inner := es\<rparr>))"

record 'e EthEventsQueueIter =
  current_nonce :: Uint
  iter_queue :: "'e InnerEthEventsQueue"

text \<open>
  \<open>push_and_iter\<close> is \<^const>\<open>None\<close> when it panics: on a nonce below the next one, or on a nonce
  that is already queued. A step of the iterator returns the event and the new iterator, and
  panics on the last nonce.
\<close>

definition push_and_iter :: "('e \<Rightarrow> Uint) \<Rightarrow> 'e \<Rightarrow> 'e InnerEthEventsQueue \<Rightarrow> 'e EthEventsQueueIter option" where
  "push_and_iter nonce latest_event slf =
     (let event_nonce = nonce latest_event
      in if next_nonce_to_process slf > event_nonce then None
         else do {
           q \<leftarrow> try_push_event nonce latest_event slf;
           Some \<lparr>current_nonce = next_nonce_to_process q, iter_queue = q\<rparr>
         })"

definition iter_next :: "('e \<Rightarrow> Uint) \<Rightarrow> 'e EthEventsQueueIter \<Rightarrow> ('e option \<times> 'e EthEventsQueueIter) option" where
  "iter_next nonce slf =
     (case peek_event_nonce nonce (iter_queue slf) of
        None \<Rightarrow> Some (None, slf)
      | Some nonce_in_queue \<Rightarrow>
          if nonce_in_queue = current_nonce slf then
            do {
              n \<leftarrow> checked_add (current_nonce slf) 1;
              let (e, q) = pop_event (iter_queue slf);
              Some (e, \<lparr>current_nonce = n, iter_queue = q\<rparr>)
            }
          else Some (None, slf))"

definition iter_drop :: "'e EthEventsQueueIter \<Rightarrow> 'e InnerEthEventsQueue" where
  "iter_drop slf =
     (if next_nonce_to_process (iter_queue slf) < current_nonce slf
      then (iter_queue slf)\<lparr>next_nonce_to_process := current_nonce slf\<rparr>
      else iter_queue slf)"

text \<open>Consuming the iterator to its end, with at most \<open>n\<close> steps.\<close>

fun iter_collect :: "('e \<Rightarrow> Uint) \<Rightarrow> nat \<Rightarrow> 'e EthEventsQueueIter \<Rightarrow> ('e list \<times> 'e EthEventsQueueIter) option" where
  "iter_collect nonce 0 it = Some ([], it)"
| "iter_collect nonce (Suc n) it =
     do {
       (e, it') \<leftarrow> iter_next nonce it;
       case e of
         None \<Rightarrow> Some ([], it')
       | Some ev \<Rightarrow> do { (es, it'') \<leftarrow> iter_collect nonce n it'; Some (ev # es, it'') }
     }"

section \<open>Storage keys\<close>

text \<open>
  Addresses and their text form belong to other modules: a key is over a type of addresses,
  with \<open>encode\<close> and \<open>decode\<close> as parameters.
\<close>

datatype 'a DbKeySeg = AddressSeg 'a | StringSeg string

record 'a Key =
  segments :: "'a DbKeySeg list"

datatype key_error = ParseKeySeg string | InvalidKeySeg string | ParseAddress | MissingSegments | EmptyKey

definition KEY_SEGMENT_SEPARATOR :: char where
  "KEY_SEGMENT_SEPARATOR = CHR ''/''"

definition RESERVED_ADDRESS_PREFIX :: char where
  "RESERVED_ADDRESS_PREFIX = CHR ''#''"

definition RESERVED_VP_KEY :: string where
  "RESERVED_VP_KEY = ''?''"

definition DbKeySeg_parse :: "(string \<Rightarrow> 'a option) \<Rightarrow> string \<Rightarrow> key_error + 'a DbKeySeg" where
  "DbKeySeg_parse decode str =
     (if KEY_SEGMENT_SEPARATOR \<in> set str then Inl (InvalidKeySeg str)
      else
        case str of
          c # rest \<Rightarrow>
            if c = RESERVED_ADDRESS_PREFIX
            then rbind (ok_or (decode rest) ParseAddress) (\<lambda>a. Inr (AddressSeg a))
            else Inr (StringSeg str)
        | [] \<Rightarrow> Inr (StringSeg str))"

fun DbKeySeg_raw :: "('a \<Rightarrow> string) \<Rightarrow> 'a DbKeySeg \<Rightarrow> string" where
  "DbKeySeg_raw encode (AddressSeg addr) = RESERVED_ADDRESS_PREFIX # encode addr"
| "DbKeySeg_raw encode (StringSeg seg) = seg"

text \<open>\<open>str::split\<close> on a separator and \<open>[String]::join\<close>.\<close>

fun str_split :: "char \<Rightarrow> string \<Rightarrow> string list" where
  "str_split sep [] = [[]]"
| "str_split sep (c # cs) =
     (if c = sep then [] # str_split sep cs
      else case str_split sep cs of [] \<Rightarrow> [[c]] | s # ss \<Rightarrow> (c # s) # ss)"

fun str_join :: "char \<Rightarrow> string list \<Rightarrow> string" where
  "str_join sep [] = []"
| "str_join sep [s] = s"
| "str_join sep (s # ss) = s @ sep # str_join sep ss"

fun parse_segments :: "(string \<Rightarrow> 'a option) \<Rightarrow> string list \<Rightarrow> key_error + 'a DbKeySeg list" where
  "parse_segments decode [] = Inr []"
| "parse_segments decode (s # ss) =
     rbind (DbKeySeg_parse decode s) (\<lambda>seg. rbind (parse_segments decode ss) (\<lambda>segs. Inr (seg # segs)))"

definition Key_parse :: "(string \<Rightarrow> 'a option) \<Rightarrow> string \<Rightarrow> key_error + 'a Key" where
  "Key_parse decode str =
     (if str = [] then Inl (ParseKeySeg str)
      else rbind (parse_segments decode (str_split KEY_SEGMENT_SEPARATOR str)) (\<lambda>segs. Inr \<lparr>segments = segs\<rparr>))"

definition Key_to_string :: "('a \<Rightarrow> string) \<Rightarrow> 'a Key \<Rightarrow> string" where
  "Key_to_string encode slf = str_join KEY_SEGMENT_SEPARATOR (map (DbKeySeg_raw encode) (segments slf))"

definition Key_push :: "(string \<Rightarrow> 'a option) \<Rightarrow> string \<Rightarrow> 'a Key \<Rightarrow> key_error + 'a Key" where
  "Key_push decode other_raw slf =
     rbind (DbKeySeg_parse decode other_raw) (\<lambda>seg. Inr \<lparr>segments = segments slf @ [seg]\<rparr>)"

definition with_segment :: "'a DbKeySeg \<Rightarrow> 'a Key \<Rightarrow> 'a Key" where
  "with_segment other slf = slf\<lparr>segments := segments slf @ [other]\<rparr>"

definition Key_join :: "'a Key \<Rightarrow> 'a Key \<Rightarrow> 'a Key" where
  "Key_join slf other = \<lparr>segments = segments slf @ segments other\<rparr>"

definition fst_address :: "'a Key \<Rightarrow> 'a option" where
  "fst_address slf =
     (case segments slf of [] \<Rightarrow> None | s # _ \<Rightarrow> (case s of AddressSeg addr \<Rightarrow> Some addr | StringSeg _ \<Rightarrow> None))"

definition iter_addresses :: "'a Key \<Rightarrow> 'a list" where
  "iter_addresses slf =
     List.map_filter (\<lambda>s. case s of AddressSeg addr \<Rightarrow> Some addr | StringSeg _ \<Rightarrow> None) (segments slf)"

definition find_addresses :: "'a Key \<Rightarrow> 'a list" where
  "find_addresses slf = iter_addresses slf"

definition split_last :: "'a Key \<Rightarrow> ('a DbKeySeg list \<times> 'a DbKeySeg) option" where
  "split_last slf = (if segments slf = [] then None else Some (butlast (segments slf), last (segments slf)))"

definition validity_predicate :: "'a \<Rightarrow> 'a Key" where
  "validity_predicate addr = \<lparr>segments = [AddressSeg addr, StringSeg RESERVED_VP_KEY]\<rparr>"

definition is_validity_predicate :: "'a Key \<Rightarrow> 'a option" where
  "is_validity_predicate slf =
     (case segments slf of
        [AddressSeg address, StringSeg sub_key] \<Rightarrow> if sub_key = RESERVED_VP_KEY then Some address else None
      | _ \<Rightarrow> None)"

definition sub_key :: "'a Key \<Rightarrow> key_error + 'a Key" where
  "sub_key slf =
     (case segments slf of
        _ # rest \<Rightarrow> if rest = [] then Inl MissingSegments else Inr \<lparr>segments = rest\<rparr>
      | [] \<Rightarrow> Inl EmptyKey)"

definition split_prefix :: "'a Key \<Rightarrow> 'a Key \<Rightarrow> 'a Key option option" where
  "split_prefix slf pre =
     (if length (segments slf) < length (segments pre) then None
      else if slf = pre then Some None
      else
        let n = length (segments pre);
            self_prefix = take n (segments slf);
            rest = drop n (segments slf)
        in if self_prefix = segments pre then Some (Some \<lparr>segments = rest\<rparr>) else None)"

text \<open>
  Integer segments: big endian bytes in base32hex, a codec of another crate. Signed integers
  are shifted by the least value first.
\<close>

definition to_be_bytes :: "nat \<Rightarrow> nat \<Rightarrow> nat list" where
  "to_be_bytes len n = rev (map (\<lambda>i. n div 256 ^ i mod 256) [0..<len])"

definition from_be_bytes :: "nat list \<Rightarrow> nat" where
  "from_be_bytes bs = foldl (\<lambda>a b. 256 * a + b) 0 bs"

definition u64_raw :: "(nat list \<Rightarrow> string) \<Rightarrow> u64 \<Rightarrow> string" where
  "u64_raw b32encode v = b32encode (to_be_bytes 8 (unat v))"

text \<open>\<open>copy_from_slice\<close> panics (\<^const>\<open>None\<close>) when the length is not that of the integer.\<close>

definition u64_parse :: "(string \<Rightarrow> nat list option) \<Rightarrow> string \<Rightarrow> u64 option" where
  "u64_parse b32decode str =
     do {
       bytes \<leftarrow> b32decode str;
       if length bytes = 8 then Some (of_nat (from_be_bytes bytes)) else None
     }"

definition i64_min :: u64 where
  "i64_min = 2 ^ 63"

definition i64_raw :: "(nat list \<Rightarrow> string) \<Rightarrow> u64 \<Rightarrow> string" where
  "i64_raw b32encode v = u64_raw b32encode (v XOR i64_min)"

definition i64_parse :: "(string \<Rightarrow> nat list option) \<Rightarrow> string \<Rightarrow> u64 option" where
  "i64_parse b32decode str = do { complemented \<leftarrow> u64_parse b32decode str; Some (complemented XOR i64_min) }"

definition BlockHeight_raw :: "(nat list \<Rightarrow> string) \<Rightarrow> BlockHeight \<Rightarrow> string" where
  "BlockHeight_raw b32encode slf = u64_raw b32encode (block_height slf)"

definition u64_from_dec_str :: "string \<Rightarrow> u64 option" where
  "u64_from_dec_str str =
     (let ds = (case str of c # rest \<Rightarrow> if c = CHR ''+'' then rest else str | [] \<Rightarrow> [])
      in if ds \<noteq> [] \<and> list_all is_ascii_digit ds \<and> dec_value ds < 2 ^ 64 then Some (of_nat (dec_value ds))
         else None)"

definition BlockHeight_parse :: "string \<Rightarrow> BlockHeight option" where
  "BlockHeight_parse str = map_option BlockHeight (u64_from_dec_str str)"

section \<open>Epochs of heights\<close>

definition Epochs_inv :: "Epochs \<Rightarrow> bool" where
  "Epochs_inv E \<longleftrightarrow> sorted (first_block_heights E) \<and> length (first_block_heights E) < 2 ^ 64"

lemma Epoch_next_eq: "n + 1 < 2 ^ 64 \<Longrightarrow> Epoch_next (Epoch (of_nat n)) = Some (Epoch (of_nat (n + 1)))"
  by (simp add: Epoch_next_def checked_add_of_nat unat_of_nat_lt)

lemma get_epoch_loop_eq:
  "n + length rest < 2 ^ 64 \<Longrightarrow>
   get_epoch_loop h (Epoch (of_nat n)) rest = Some (Epoch (of_nat (n + length (takeWhile (\<lambda>s. s \<le> h) rest))))"
proof (induction rest arbitrary: n)
  case (Cons s rest)
  then show ?case
    using Epoch_next_eq [of n] Cons.IH [of "n + 1"] by (auto simp: not_le)
qed simp

lemma get_epoch_eq:
  assumes "first_block_heights E = s # rest" "Epochs_inv E"
  shows "get_epoch E h = Some (Epoch (of_nat (length (takeWhile (\<lambda>s. s \<le> h) rest))))"
  using get_epoch_loop_eq [of 0 rest h] assms
  by (simp add: get_epoch_def Epoch_default_def Epochs_inv_def)

lemma takeWhile_snoc_False: "\<not> P x \<Longrightarrow> takeWhile P (xs @ [x]) = takeWhile P xs"
  by (induction xs) auto

lemma find_rev_sorted:
  "sorted (s # rest) \<Longrightarrow> s \<le> h \<Longrightarrow>
   find (\<lambda>x. x \<le> h) (rev (s # rest)) = Some ((s # rest) ! length (takeWhile (\<lambda>x. x \<le> h) rest))"
proof (induction rest rule: rev_induct)
  case (snoc x rest)
  have so: "sorted (s # rest)" using snoc.prems(1) by (simp add: sorted_append)
  show ?case
  proof (cases "x \<le> h")
    case True
    then have "\<forall>y\<in>set rest. y \<le> h" using snoc.prems(1) by (auto simp: sorted_append)
    then show ?thesis using True by (simp add: takeWhile_append nth_append)
  next
    case False
    then have "find (\<lambda>x. x \<le> h) (rev (s # rest @ [x])) = find (\<lambda>x. x \<le> h) (rev (s # rest))" by simp
    also have "\<dots> = Some ((s # rest) ! length (takeWhile (\<lambda>x. x \<le> h) rest))"
      using so snoc.prems(2) by (rule snoc.IH)
    also have "(s # rest) ! length (takeWhile (\<lambda>x. x \<le> h) rest) =
        ((s # rest) @ [x]) ! length (takeWhile (\<lambda>x. x \<le> h) rest)"
      using length_takeWhile_le [of "\<lambda>x. x \<le> h" rest] by (intro nth_append_left [symmetric]) simp
    finally show ?thesis
      using False by (simp add: takeWhile_snoc_False)
  qed
qed simp

text \<open>
  For a height from the first recorded one on, \<open>get_epoch\<close> returns the epoch whose interval
  of heights holds it: the epoch starts at or before the height, the next known epoch starts
  after it, and the two start-height lookups agree on it.
\<close>

theorem get_epoch_interval:
  assumes "Epochs_inv E" and "first_block_heights E \<noteq> []" and "hd (first_block_heights E) \<le> h"
  shows "\<exists>e. get_epoch E h = Some (Epoch e) \<and> unat e < length (first_block_heights E) \<and>
    first_block_heights E ! unat e \<le> h \<and>
    (Suc (unat e) < length (first_block_heights E) \<longrightarrow> h < first_block_heights E ! Suc (unat e)) \<and>
    get_epoch_start_height E h = Some (first_block_heights E ! unat e) \<and>
    get_start_height_of_epoch E (Epoch e) = Some (first_block_heights E ! unat e)"
proof -
  obtain s rest where hs: "first_block_heights E = s # rest" using assms(2) by (cases "first_block_heights E") auto
  define k where "k = length (takeWhile (\<lambda>s. s \<le> h) rest)"
  have k: "k \<le> length rest" by (simp add: k_def length_takeWhile_le)
  then have u: "unat (of_nat k :: u64) = k"
    using assms(1) hs by (intro unat_of_nat_lt) (simp add: Epochs_inv_def)
  have le: "(s # rest) ! k \<le> h"
  proof (cases k)
    case (Suc j)
    then have "rest ! j = takeWhile (\<lambda>s. s \<le> h) rest ! j" "j < length (takeWhile (\<lambda>s. s \<le> h) rest)"
      by (simp_all add: takeWhile_nth k_def)
    moreover from this(2) have "takeWhile (\<lambda>s. s \<le> h) rest ! j \<le> h"
      using nth_mem set_takeWhileD by metis
    ultimately show ?thesis using Suc by simp
  qed (use assms(3) hs in simp)
  have gt: "h < rest ! k" if "k < length rest"
    using nth_length_takeWhile [of "\<lambda>s. s \<le> h" rest] that by (simp add: k_def)
  have f: "get_epoch_start_height E h = Some ((s # rest) ! k)"
    unfolding get_epoch_start_height_def hs k_def
    using assms hs by (intro find_rev_sorted) (simp_all add: Epochs_inv_def)
  show ?thesis
    using get_epoch_eq [OF hs assms(1), of h] k u le gt f
    by (intro exI [of _ "of_nat k"]) (simp add: hs k_def [symmetric] get_start_height_of_epoch_def)
qed

theorem get_epoch_interval_witness:
  "\<exists>e. get_epoch \<lparr>first_block_heights = [BlockHeight 1, BlockHeight 10, BlockHeight 20]\<rparr> (BlockHeight 15) = Some (Epoch e) \<and>
     unat e < 3"
  using get_epoch_interval [of "\<lparr>first_block_heights = [BlockHeight 1, BlockHeight 10, BlockHeight 20]\<rparr>" "BlockHeight 15"]
  by (auto simp: Epochs_inv_def less_eq_BlockHeight_def)

text \<open>Recording a new epoch leaves the epochs of earlier heights as they were.\<close>

lemma new_epoch_inv:
  "Epochs_inv E \<Longrightarrow> \<forall>s\<in>set (first_block_heights E). s \<le> h \<Longrightarrow>
   length (first_block_heights E) + 1 < 2 ^ 64 \<Longrightarrow> Epochs_inv (new_epoch h E)"
  by (simp add: Epochs_inv_def new_epoch_def sorted_append)

lemma get_epoch_new_epoch:
  assumes "Epochs_inv (new_epoch h' E)" "first_block_heights E \<noteq> []" "h < h'"
  shows "get_epoch (new_epoch h' E) h = get_epoch E h"
proof -
  obtain s rest where hs: "first_block_heights E = s # rest" using assms(2) by (cases "first_block_heights E") auto
  have inv: "Epochs_inv E" using assms(1) by (simp add: Epochs_inv_def new_epoch_def sorted_append)
  have hs': "first_block_heights (new_epoch h' E) = s # (rest @ [h'])" by (simp add: new_epoch_def hs)
  have "takeWhile (\<lambda>s. s \<le> h) (rest @ [h']) = takeWhile (\<lambda>s. s \<le> h) rest"
    using assms(3) by (simp add: takeWhile_snoc_False)
  then show ?thesis
    using get_epoch_eq [OF hs inv, of h] get_epoch_eq [OF hs' assms(1), of h] by simp
qed

section \<open>Ordered delivery of Ethereum events\<close>

definition queue_inv :: "('e \<Rightarrow> Uint) \<Rightarrow> 'e InnerEthEventsQueue \<Rightarrow> bool" where
  "queue_inv nonce q \<longleftrightarrow> sorted_wrt (<) (map nonce (queue_inner q)) \<and>
     (\<forall>e\<in>set (queue_inner q). next_nonce_to_process q \<le> nonce e)"

lemma binary_search_sorted:
  assumes "sorted_wrt (<) (map key xs)" "l \<le> r" "r \<le> length xs"
    and "\<And>i. i < l \<Longrightarrow> key (xs ! i) < k" and "\<And>i. r \<le> i \<Longrightarrow> i < length xs \<Longrightarrow> k < key (xs ! i)"
  shows "case binary_search key k xs l r of
     Inl i \<Rightarrow> i \<le> length xs \<and> (\<forall>j<i. key (xs ! j) < k) \<and> (\<forall>j. i \<le> j \<longrightarrow> j < length xs \<longrightarrow> k < key (xs ! j))
   | Inr i \<Rightarrow> i < length xs \<and> key (xs ! i) = k"
  using assms
proof (induction key k xs l r rule: binary_search.induct)
  case (1 key k xs l r)
  have mono: "key (xs ! i) < key (xs ! j)" if "i < j" "j < length xs" for i j
    using 1(3) that by (simp add: sorted_wrt_iff_nth_less)
  define mid where "mid = l + (r - l) div 2"
  consider "\<not> l < r" | "l < r" "key (xs ! mid) < k" | "l < r" "k < key (xs ! mid)" | "l < r" "key (xs ! mid) = k"
    by fastforce
  then show ?case
  proof cases
    case 1
    then show ?thesis using "1.prems" by (simp add: binary_search.simps)
  next
    case 2
    have "l \<le> mid" "mid < r" using 2(1) by (auto simp: mid_def)
    then have "key (xs ! i) < k" if "i < mid + 1" for i
      using that 2(2) mono [of i mid] "1.prems"(3) by (cases "i = mid") (auto intro: less_trans)
    then show ?thesis
      using "1.IH"(1) [OF 2(1) mid_def refl] 2 "1.prems" \<open>mid < r\<close>
      by (subst binary_search.simps) (simp add: mid_def [symmetric])
  next
    case 3
    have m: "l \<le> mid" "mid < r" using 3(1) by (auto simp: mid_def)
    then have "k < key (xs ! i)" if "mid \<le> i" "i < length xs" for i
      using that 3(2) mono [of mid i] by (cases "i = mid") (auto intro: less_trans)
    moreover have "\<not> key (xs ! mid) < k" using 3(2) by (rule less_not_sym)
    ultimately show ?thesis
      using "1.IH"(2) [OF 3(1) mid_def refl] 3 "1.prems" m
      by (subst binary_search.simps) (simp add: mid_def [symmetric])
  next
    case 4
    have "mid < r" using 4(1) by (auto simp: mid_def)
    then show ?thesis
      using 4 "1.prems"(3) by (subst binary_search.simps) (simp add: mid_def [symmetric])
  qed
qed

lemma sorted_insert_at:
  assumes "sorted_wrt (<) (map nonce xs)" "i \<le> length xs"
    and "\<forall>j<i. nonce (xs ! j) < nonce e" "\<forall>j. i \<le> j \<longrightarrow> j < length xs \<longrightarrow> nonce e < nonce (xs ! j)"
  shows "sorted_wrt (<) (map nonce (take i xs @ e # drop i xs))"
proof -
  have s: "sorted_wrt (<) (map nonce (take i xs) @ map nonce (drop i xs))"
    using assms(1) by (simp flip: map_append)
  have "\<forall>x\<in>set (take i xs). nonce x < nonce e"
    using assms(2,3) by (auto simp: in_set_conv_nth)
  moreover have "\<forall>x\<in>set (drop i xs). nonce e < nonce x"
    using assms(4) by (auto simp: in_set_conv_nth)
  ultimately show ?thesis using s by (auto simp: sorted_wrt_append)
qed

lemma try_push_event_spec:
  assumes "queue_inv nonce q" "next_nonce_to_process q \<le> nonce e"
  shows "case try_push_event nonce e q of
      None \<Rightarrow> nonce e \<in> nonce ` set (queue_inner q)
    | Some q' \<Rightarrow> nonce e \<notin> nonce ` set (queue_inner q) \<and> queue_inv nonce q' \<and>
        next_nonce_to_process q' = next_nonce_to_process q \<and>
        mset (queue_inner q') = add_mset e (mset (queue_inner q))"
proof -
  let ?xs = "queue_inner q"
  have so: "sorted_wrt (<) (map nonce ?xs)" using assms(1) by (simp add: queue_inv_def)
  note b = binary_search_sorted [OF so, of 0 "length ?xs" "nonce e"]
  show ?thesis
  proof (cases "binary_search nonce (nonce e) ?xs 0 (length ?xs)")
    case (Inl i)
    then have i: "i \<le> length ?xs" "\<forall>j<i. nonce (?xs ! j) < nonce e"
      "\<forall>j. i \<le> j \<longrightarrow> j < length ?xs \<longrightarrow> nonce e < nonce (?xs ! j)"
      using b by simp_all
    have "nonce e \<noteq> nonce (?xs ! j)" if "j < length ?xs" for j
      using i(2,3) that by (metis less_irrefl not_less)
    then have "nonce e \<notin> nonce ` set ?xs" by (metis imageE in_set_conv_nth)
    moreover have "mset (take i ?xs @ e # drop i ?xs) = add_mset e (mset ?xs)"
    proof -
      have "mset ?xs = mset (take i ?xs) + mset (drop i ?xs)" by (metis append_take_drop_id mset_append)
      then show ?thesis by simp
    qed
    moreover have "x \<in> set ?xs" if "x \<in> set (take i ?xs) \<or> x \<in> set (drop i ?xs)" for x
      using that by (auto dest: in_set_takeD in_set_dropD)
    ultimately show ?thesis
      using assms sorted_insert_at [OF so i] by (auto simp: try_push_event_def Inl queue_inv_def)
  next
    case (Inr i)
    then have "i < length ?xs" "nonce (?xs ! i) = nonce e" using b by simp_all
    then have "nonce e \<in> nonce ` set ?xs" by (metis image_eqI nth_mem)
    then show ?thesis by (simp add: try_push_event_def Inr)
  qed
qed

text \<open>The iterator between its creation and its drop.\<close>

definition iter_inv :: "('e \<Rightarrow> Uint) \<Rightarrow> 'e EthEventsQueueIter \<Rightarrow> bool" where
  "iter_inv nonce it \<longleftrightarrow> sorted_wrt (<) (map nonce (queue_inner (iter_queue it))) \<and>
     next_nonce_to_process (iter_queue it) \<le> current_nonce it \<and>
     (\<forall>e\<in>set (queue_inner (iter_queue it)). current_nonce it \<le> nonce e)"

lemma iter_drop_inv: "iter_inv nonce it \<Longrightarrow> queue_inv nonce (iter_drop it)"
  by (auto simp: iter_inv_def queue_inv_def iter_drop_def)

lemma iter_drop_nonce: "iter_inv nonce it \<Longrightarrow> next_nonce_to_process (iter_drop it) = current_nonce it"
  by (auto simp: iter_inv_def iter_drop_def)

lemma iter_drop_inner [simp]: "queue_inner (iter_drop it) = queue_inner (iter_queue it)"
  by (simp add: iter_drop_def)

lemma iter_next_cases:
  assumes "iter_inv nonce it"
  obtains (stop) "iter_next nonce it = Some (None, it)"
      "queue_inner (iter_queue it) = [] \<or> nonce (hd (queue_inner (iter_queue it))) \<noteq> current_nonce it"
    | (overflow) "iter_next nonce it = None" "\<exists>e\<in>set (queue_inner (iter_queue it)). nonce e = - 1"
    | (event) e es it' where "iter_next nonce it = Some (Some e, it')" "queue_inner (iter_queue it) = e # es"
      "nonce e = current_nonce it" "queue_inner (iter_queue it') = es"
      "unat (current_nonce it') = Suc (unat (current_nonce it))" "iter_inv nonce it'"
proof (cases "queue_inner (iter_queue it)")
  case Nil
  then show thesis using stop by (simp add: iter_next_def peek_event_nonce_def)
next
  case (Cons e es)
  show thesis
  proof (cases "nonce e = current_nonce it")
    case False
    then show thesis using stop Cons by (simp add: iter_next_def peek_event_nonce_def)
  next
    case eq: True
    show thesis
    proof (cases "checked_add (current_nonce it) 1")
      case None
      then have "current_nonce it = - 1"
        using unat_lt_2p [of "current_nonce it"]
        by (intro unat_eqD) (auto simp: checked_add_None_iff unsigned_minus_1_eq_mask mask_eq_exp_minus_1)
      then show thesis using overflow None Cons eq by (simp add: iter_next_def peek_event_nonce_def)
    next
      case (Some n)
      let ?it = "\<lparr>current_nonce = n, iter_queue = (iter_queue it)\<lparr>queue_inner := es\<rparr>\<rparr>"
      have n: "unat n = Suc (unat (current_nonce it))" using Some by (simp add: checked_add_Some_iff)
      have "iter_next nonce it = Some (Some e, ?it)"
        using Some Cons eq by (simp add: iter_next_def peek_event_nonce_def pop_event_def)
      moreover have "iter_inv nonce ?it"
        using assms n eq Cons by (auto simp: iter_inv_def word_le_nat_alt word_less_nat_alt Suc_le_eq)
      ultimately show thesis using event [of e ?it es] Cons eq n by simp
    qed
  qed
qed

lemma iter_collect_spec:
  assumes "iter_inv nonce it" "length (queue_inner (iter_queue it)) < n"
    and "\<forall>e\<in>set (queue_inner (iter_queue it)). nonce e \<noteq> - 1"
  shows "\<exists>es it'. iter_collect nonce n it = Some (es, it') \<and> iter_inv nonce it' \<and>
    queue_inner (iter_queue it) = es @ queue_inner (iter_queue it') \<and>
    map (unat \<circ> nonce) es = [unat (current_nonce it) ..< unat (current_nonce it')] \<and>
    unat (current_nonce it) \<le> unat (current_nonce it') \<and>
    (\<forall>e\<in>set (queue_inner (iter_queue it')). current_nonce it' < nonce e)"
  using assms
proof (induction n arbitrary: it)
  case (Suc n)
  from Suc.prems(1) show ?case
  proof (cases rule: iter_next_cases)
    case stop
    have "current_nonce it < nonce e" if e: "e \<in> set (queue_inner (iter_queue it))" for e
    proof -
      obtain x xs where q: "queue_inner (iter_queue it) = x # xs" using e by (cases "queue_inner (iter_queue it)") auto
      then have "current_nonce it < nonce x" using stop(2) Suc.prems(1) by (auto simp: iter_inv_def)
      then show ?thesis using e q Suc.prems(1) by (auto simp: iter_inv_def intro: less_trans)
    qed
    then show ?thesis using stop(1) Suc.prems(1) by simp
  next
    case overflow
    then show ?thesis using Suc.prems(3) by blast
  next
    case (event e es it')
    have "length (queue_inner (iter_queue it')) < n" using event(2,4) Suc.prems(2) by simp
    moreover have "\<forall>e\<in>set (queue_inner (iter_queue it')). nonce e \<noteq> - 1" using event(2,4) Suc.prems(3) by simp
    ultimately obtain out it'' where ih: "iter_collect nonce n it' = Some (out, it'')" "iter_inv nonce it''"
      "es = out @ queue_inner (iter_queue it'')"
      "map (unat \<circ> nonce) out = [unat (current_nonce it') ..< unat (current_nonce it'')]"
      "unat (current_nonce it') \<le> unat (current_nonce it'')"
      "\<forall>e\<in>set (queue_inner (iter_queue it'')). current_nonce it'' < nonce e"
      using Suc.IH [OF event(6)] unfolding event(4) by blast
    moreover have "[unat (current_nonce it) ..< unat (current_nonce it'')] =
        unat (nonce e) # [unat (current_nonce it') ..< unat (current_nonce it'')]"
      using event(3,5) ih(5) by (simp add: upt_conv_Cons)
    ultimately show ?thesis
      using event by (intro exI [of _ "e # out"] exI [of _ it'']) (simp add: comp_def)
  qed
qed simp

text \<open>
  The ledger's use of the queue: every confirmed event is pushed, the iterator is consumed and
  dropped.
\<close>

fun process_events :: "('e \<Rightarrow> Uint) \<Rightarrow> 'e InnerEthEventsQueue \<Rightarrow> 'e list \<Rightarrow> ('e list \<times> 'e InnerEthEventsQueue) option" where
  "process_events nonce q [] = Some ([], q)"
| "process_events nonce q (e # es) =
     do {
       it \<leftarrow> push_and_iter nonce e q;
       (out, it') \<leftarrow> iter_collect nonce (Suc (length (queue_inner (iter_queue it)))) it;
       (out', q') \<leftarrow> process_events nonce (iter_drop it') es;
       Some (out @ out', q')
     }"

lemma push_and_iter_inv:
  assumes "queue_inv nonce q" "next_nonce_to_process q \<le> nonce e" "nonce e \<notin> nonce ` set (queue_inner q)"
  obtains it where "push_and_iter nonce e q = Some it" "iter_inv nonce it"
    "current_nonce it = next_nonce_to_process q" "mset (queue_inner (iter_queue it)) = add_mset e (mset (queue_inner q))"
proof -
  obtain q' where "try_push_event nonce e q = Some q'" "queue_inv nonce q'"
    "next_nonce_to_process q' = next_nonce_to_process q" "mset (queue_inner q') = add_mset e (mset (queue_inner q))"
    using try_push_event_spec [OF assms(1,2)] assms(3) by (cases "try_push_event nonce e q") auto
  then show thesis
    using that [of "\<lparr>current_nonce = next_nonce_to_process q', iter_queue = q'\<rparr>"] assms(2)
    by (auto simp: push_and_iter_def iter_inv_def queue_inv_def not_less)
qed

lemma upt_split: "i \<le> j \<Longrightarrow> j \<le> k \<Longrightarrow> [i..<j] @ [j..<k] = [i..<k]"
  by (metis le_add_diff_inverse upt_add_eq_append)

lemma process_events_spec:
  assumes "queue_inv nonce q" "distinct (map nonce (queue_inner q @ evs))"
    and "\<forall>e\<in>set evs. next_nonce_to_process q \<le> nonce e" "\<forall>e\<in>set (queue_inner q @ evs). nonce e \<noteq> - 1"
  shows "\<exists>out q'. process_events nonce q evs = Some (out, q') \<and> queue_inv nonce q' \<and>
    map (unat \<circ> nonce) out = [unat (next_nonce_to_process q) ..< unat (next_nonce_to_process q')] \<and>
    unat (next_nonce_to_process q) \<le> unat (next_nonce_to_process q') \<and>
    mset (queue_inner q @ evs) = mset (out @ queue_inner q') \<and>
    (evs \<noteq> [] \<longrightarrow> (\<forall>e\<in>set (queue_inner q'). next_nonce_to_process q' < nonce e))"
  using assms
proof (induction evs arbitrary: q)
  case (Cons e evs)
  have "nonce e \<notin> nonce ` set (queue_inner q)" using Cons.prems(2) by auto
  then obtain it where p: "push_and_iter nonce e q = Some it" "iter_inv nonce it"
    "current_nonce it = next_nonce_to_process q" "mset (queue_inner (iter_queue it)) = add_mset e (mset (queue_inner q))"
    using push_and_iter_inv [OF Cons.prems(1)] Cons.prems(3) by auto
  have set_it: "set (queue_inner (iter_queue it)) = insert e (set (queue_inner q))"
    using p(4) by (metis set_mset_add_mset_insert set_mset_mset)
  have "\<forall>x\<in>set (queue_inner (iter_queue it)). nonce x \<noteq> - 1" using Cons.prems(4) unfolding set_it by simp
  then obtain out it' where c: "iter_collect nonce (Suc (length (queue_inner (iter_queue it)))) it = Some (out, it')"
    "iter_inv nonce it'" "queue_inner (iter_queue it) = out @ queue_inner (iter_queue it')"
    "map (unat \<circ> nonce) out = [unat (current_nonce it) ..< unat (current_nonce it')]"
    "unat (current_nonce it) \<le> unat (current_nonce it')"
    "\<forall>e\<in>set (queue_inner (iter_queue it')). current_nonce it' < nonce e"
    using iter_collect_spec [OF p(2) lessI] by blast
  define q1 where "q1 = iter_drop it'"
  have q1: "queue_inv nonce q1" "next_nonce_to_process q1 = current_nonce it'" "queue_inner q1 = queue_inner (iter_queue it')"
    using c(2) by (simp_all add: q1_def iter_drop_inv iter_drop_nonce)
  have ms: "mset (queue_inner q @ e # evs) = mset (out @ queue_inner q1 @ evs)"
    using p(4) by (simp add: c(3) q1(3))
  then have d: "distinct (map nonce (out @ queue_inner q1 @ evs))"
    using Cons.prems(2) mset_eq_imp_distinct_iff by (metis mset_map)
  have st: "set (queue_inner q @ e # evs) = set (out @ queue_inner q1 @ evs)" using ms by (metis set_mset_mset)
  have le: "current_nonce it' \<le> nonce x" if "x \<in> set evs" for x
  proof (rule ccontr)
    assume "\<not> current_nonce it' \<le> nonce x"
    moreover have "current_nonce it \<le> nonce x" using that Cons.prems(3) p(3) by simp
    ultimately have "unat (nonce x) \<in> set (map (unat \<circ> nonce) out)" unfolding c(4) by (simp add: word_le_nat_alt)
    then have "nonce x \<in> nonce ` set out" by (auto dest!: unat_eqD)
    moreover have "nonce x \<in> nonce ` set evs" using that by simp
    ultimately show False using d by auto
  qed
  have "\<forall>x\<in>set evs. next_nonce_to_process q1 \<le> nonce x" using le q1(2) by simp
  moreover have "\<forall>x\<in>set (queue_inner q1 @ evs). nonce x \<noteq> - 1" using Cons.prems(4) st by auto
  moreover have "distinct (map nonce (queue_inner q1 @ evs))" using d by simp
  ultimately obtain out' q' where ih: "process_events nonce q1 evs = Some (out', q')" "queue_inv nonce q'"
    "map (unat \<circ> nonce) out' = [unat (next_nonce_to_process q1) ..< unat (next_nonce_to_process q')]"
    "unat (next_nonce_to_process q1) \<le> unat (next_nonce_to_process q')"
    "mset (queue_inner q1 @ evs) = mset (out' @ queue_inner q')"
    "evs \<noteq> [] \<longrightarrow> (\<forall>e\<in>set (queue_inner q'). next_nonce_to_process q' < nonce e)"
    using Cons.IH [OF q1(1)] by blast
  have "process_events nonce q (e # evs) = Some (out @ out', q')"
    using p(1) c(1) ih(1) by (simp add: q1_def del: iter_collect.simps)
  moreover have "map (unat \<circ> nonce) (out @ out') = [unat (next_nonce_to_process q) ..< unat (next_nonce_to_process q')]"
    using c(4,5) ih(3,4) unfolding q1(2) p(3) by (simp add: upt_split)
  moreover have "mset (queue_inner q @ e # evs) = mset ((out @ out') @ queue_inner q')"
  proof -
    have "mset (queue_inner q @ e # evs) = mset out + mset (queue_inner q1 @ evs)" using ms by simp
    also have "\<dots> = mset out + mset (out' @ queue_inner q')" unfolding ih(5) ..
    finally show ?thesis by simp
  qed
  moreover have "\<forall>e\<in>set (queue_inner q'). next_nonce_to_process q' < nonce e"
  proof (cases "evs = []")
    case True
    then have "q' = q1" using ih(1) by simp
    then show ?thesis using c(6) q1(2,3) by simp
  qed (use ih(6) in simp)
  ultimately show ?case
    using ih(2,4) c(5) p(3) q1(2) by (intro exI [of _ "out @ out'"] exI [of _ q']) (simp add: comp_def)
qed simp

text \<open>
  C29: Confirmed Ethereum events with different nonces, pushed in any order, are delivered
  exactly once and in the order of their nonces with no gap, starting at the initial nonce;
  the events not delivered stay queued and are waiting for a smaller nonce. No push panics.
\<close>

theorem eth_events_delivered_in_order:
  assumes "distinct (map nonce evs)" and "\<forall>e\<in>set evs. n0 \<le> nonce e" and "\<forall>e\<in>set evs. nonce e \<noteq> - 1"
  shows "\<exists>out q. process_events nonce (queue_new_at n0) evs = Some (out, q) \<and>
    map (unat \<circ> nonce) out = [unat n0 ..< unat (next_nonce_to_process q)] \<and>
    mset evs = mset out + mset (queue_inner q) \<and>
    (\<forall>e\<in>set (queue_inner q). next_nonce_to_process q < nonce e)"
proof -
  have "queue_inv nonce (queue_new_at n0)" by (simp add: queue_inv_def queue_new_at_def)
  from process_events_spec [OF this, of evs] assms
  obtain out q where "process_events nonce (queue_new_at n0) evs = Some (out, q)"
    "map (unat \<circ> nonce) out = [unat n0 ..< unat (next_nonce_to_process q)]"
    "mset evs = mset (out @ queue_inner q)" "evs \<noteq> [] \<longrightarrow> (\<forall>e\<in>set (queue_inner q). next_nonce_to_process q < nonce e)"
    by (auto simp: queue_new_at_def)
  then show ?thesis by (cases "evs = []") auto
qed

theorem eth_events_delivered_in_order_witness:
  "\<exists>out q. process_events id (queue_new_at 3) [4, 6, 3 :: Uint] = Some (out, q) \<and>
    map (unat \<circ> id) out = [unat (3 :: Uint) ..< unat (next_nonce_to_process q)] \<and>
    mset [4, 6, 3] = mset out + mset (queue_inner q)"
  using eth_events_delivered_in_order [of id "[4, 6, 3 :: Uint]" 3] by auto

section \<open>Keys\<close>

text \<open>
  What keys rely on of the text form of addresses: it decodes to the address and has no
  separator. A string segment is printed as it is, so it must not look like an address.
\<close>

definition address_codec :: "('a \<Rightarrow> string) \<Rightarrow> (string \<Rightarrow> 'a option) \<Rightarrow> bool" where
  "address_codec encode decode \<longleftrightarrow> (\<forall>a. decode (encode a) = Some a \<and> KEY_SEGMENT_SEPARATOR \<notin> set (encode a))"

fun valid_seg :: "'a DbKeySeg \<Rightarrow> bool" where
  "valid_seg (AddressSeg a) = True"
| "valid_seg (StringSeg s) = (KEY_SEGMENT_SEPARATOR \<notin> set s \<and> (s = [] \<or> hd s \<noteq> RESERVED_ADDRESS_PREFIX))"

lemma str_split_no_sep: "sep \<notin> set s \<Longrightarrow> str_split sep s = [s]"
  by (induction s) auto

lemma str_split_append: "sep \<notin> set s \<Longrightarrow> str_split sep (s @ sep # t) = s # str_split sep t"
  by (induction s) auto

lemma str_split_join: "ss \<noteq> [] \<Longrightarrow> \<forall>s\<in>set ss. sep \<notin> set s \<Longrightarrow> str_split sep (str_join sep ss) = ss"
  by (induction sep ss rule: str_join.induct) (auto simp: str_split_no_sep str_split_append)

lemma DbKeySeg_parse_raw:
  assumes "address_codec encode decode" "valid_seg seg"
  shows "DbKeySeg_parse decode (DbKeySeg_raw encode seg) = Inr seg"
    and "KEY_SEGMENT_SEPARATOR \<notin> set (DbKeySeg_raw encode seg)"
  using assms
  by (cases seg; auto simp: DbKeySeg_parse_def address_codec_def KEY_SEGMENT_SEPARATOR_def
      RESERVED_ADDRESS_PREFIX_def split: list.split)+

lemma parse_segments_raw:
  "address_codec encode decode \<Longrightarrow> \<forall>s\<in>set segs. valid_seg s \<Longrightarrow>
   parse_segments decode (map (DbKeySeg_raw encode) segs) = Inr segs"
  by (induction segs) (auto simp: DbKeySeg_parse_raw)

text \<open>
  C30: A storage key whose string segments contain no separator and do not start with the
  address prefix is parsed back from its text form, unless that form is the empty string.
\<close>

theorem Key_string_roundtrip:
  assumes "address_codec encode decode" and "\<forall>s\<in>set (segments k). valid_seg s"
    and "segments k \<noteq> []" and "Key_to_string encode k \<noteq> []"
  shows "Key_parse decode (Key_to_string encode k) = Inr k"
proof -
  have "\<forall>s\<in>set (map (DbKeySeg_raw encode) (segments k)). KEY_SEGMENT_SEPARATOR \<notin> set s"
    using assms(1,2) by (auto simp: DbKeySeg_parse_raw(2))
  then have "str_split KEY_SEGMENT_SEPARATOR (Key_to_string encode k) = map (DbKeySeg_raw encode) (segments k)"
    unfolding Key_to_string_def using assms(3) by (intro str_split_join) simp_all
  then show ?thesis
    using assms by (simp add: Key_parse_def parse_segments_raw)
qed

theorem Key_string_roundtrip_witness:
  "Key_parse (\<lambda>s. if s = ''addr'' then Some () else None)
     (Key_to_string (\<lambda>_. ''addr'') \<lparr>segments = [AddressSeg (), StringSeg ''balance'']\<rparr>) =
     Inr \<lparr>segments = [AddressSeg (), StringSeg ''balance'']\<rparr>"
  by (rule Key_string_roundtrip)
     (simp_all add: address_codec_def KEY_SEGMENT_SEPARATOR_def RESERVED_ADDRESS_PREFIX_def Key_to_string_def)

lemma is_validity_predicate_iff: "is_validity_predicate k = Some a \<longleftrightarrow> k = validity_predicate a"
proof
  assume "is_validity_predicate k = Some a"
  then show "k = validity_predicate a"
    by (cases k) (auto simp: is_validity_predicate_def validity_predicate_def
        split: list.splits DbKeySeg.splits if_splits)
qed (simp add: is_validity_predicate_def validity_predicate_def)

lemma split_prefix_Some:
  "split_prefix k p = Some (Some r) \<longleftrightarrow> k = Key_join p r \<and> segments r \<noteq> []"
  by (cases k; cases p; cases r)
     (auto simp: split_prefix_def Key_join_def Let_def, metis append_take_drop_id)

text \<open>Integer segments are read back.\<close>

lemma from_be_bytes_snoc: "from_be_bytes (bs @ [b]) = 256 * from_be_bytes bs + b"
  by (simp add: from_be_bytes_def)

lemma to_be_bytes_Suc: "to_be_bytes (Suc len) n = to_be_bytes len (n div 256) @ [n mod 256]"
proof -
  have "map (\<lambda>i. n div 256 ^ i mod 256) [0..<Suc len] =
      n mod 256 # map (\<lambda>i. n div 256 div 256 ^ i mod 256) [0..<len]"
    by (rule nth_equalityI) (auto simp: nth_Cons' div_mult2_eq [symmetric] nth_append less_Suc_eq
        simp flip: power_Suc intro!: arg_cong2 [where f = "(mod)"])
  then show ?thesis by (simp add: to_be_bytes_def del: upt_Suc)
qed

lemma from_to_be_bytes: "from_be_bytes (to_be_bytes len n) = n mod 256 ^ len"
proof (induction len arbitrary: n)
  case (Suc len)
  have "n mod (256 * 256 ^ len) = 256 * (n div 256 mod 256 ^ len) + n mod 256" by (rule mod_mult2_eq)
  then show ?case using Suc.IH [of "n div 256"] by (simp add: to_be_bytes_Suc from_be_bytes_snoc)
qed (simp add: to_be_bytes_def from_be_bytes_def)

lemma length_to_be_bytes [simp]: "length (to_be_bytes len n) = len"
  by (simp add: to_be_bytes_def)

lemma u64_key_roundtrip:
  assumes "\<And>bs. dec (enc bs) = Some bs"
  shows "u64_parse dec (u64_raw enc v) = Some v" "i64_parse dec (i64_raw enc v) = Some v"
proof -
  have "unat v mod 256 ^ 8 = unat v" for v :: u64 using unat_lt_2p [of v] by simp
  then have u: "u64_parse dec (u64_raw enc v) = Some v" for v
    unfolding u64_parse_def u64_raw_def by (simp add: assms from_to_be_bytes)
  then show "u64_parse dec (u64_raw enc v) = Some v" .
  show "i64_parse dec (i64_raw enc v) = Some v"
    by (simp add: i64_parse_def i64_raw_def u xor.assoc)
qed

text \<open>
  The key segment of a block height is written in base32hex but read as a decimal: the
  segment of height one, whose encoding is \<open>0000000000002\<close>, is read back as height two.
\<close>

theorem BlockHeight_segment_misread:
  assumes "b32encode [0, 0, 0, 0, 0, 0, 0, 1] = ''0000000000002''"
  shows "BlockHeight_parse (BlockHeight_raw b32encode (BlockHeight 1)) = Some (BlockHeight 2)"
proof -
  have "to_be_bytes 8 1 = [0, 0, 0, 0, 0, 0, 0, 1]" by (simp add: to_be_bytes_def upt_rec)
  then have "BlockHeight_raw b32encode (BlockHeight 1) = ''0000000000002''"
    using assms by (simp add: BlockHeight_raw_def u64_raw_def)
  then show ?thesis
    by (simp add: BlockHeight_parse_def u64_from_dec_str_def dec_value_def digit_val_def is_ascii_digit_def)
qed

theorem BlockHeight_segment_misread_witness:
  "BlockHeight_parse (BlockHeight_raw (\<lambda>_. ''0000000000002'') (BlockHeight 1)) = Some (BlockHeight 2)"
  by (rule BlockHeight_segment_misread) simp

end
