(* ===== verification/Addresses.thy ===== *)
theory Addresses
  imports Prelude
begin

text \<open>
  Account addresses (\<open>core/src/address.rs\<close>) and their 21 byte raw form
  (\<open>core/src/address/raw.rs\<close>): a discriminant byte and 20 bytes of data, which are zero for the
  addresses that stand for a module of the ledger. The bech32m text form belongs to another crate.
\<close>

section \<open>Addresses\<close>

type_synonym hash20 = "u8 list"

datatype InternalAddress =
    PoS | PosSlashPool | Parameters | Ibc | IbcToken hash20 | Governance | EthBridge | EthBridgePool
  | Erc20 hash20 | Nut hash20 | Multitoken | Pgf | Masp | TempStorage

datatype Address = Established hash20 | Implicit hash20 | Internal InternalAddress

definition HASH_LEN :: nat where
  "HASH_LEN = 20"

definition IBC :: Address where "IBC = Internal Ibc"
definition POS :: Address where "POS = Internal PoS"
definition GOV :: Address where "GOV = Internal Governance"
definition PGF :: Address where "PGF = Internal Pgf"
definition MULTITOKEN :: Address where "MULTITOKEN = Internal Multitoken"

definition Address_is_internal :: "Address \<Rightarrow> bool" where
  "Address_is_internal slf = (case slf of Internal _ \<Rightarrow> True | _ \<Rightarrow> False)"

text \<open>The arrays of the source have 20 bytes; the lists of the model have that length.\<close>

fun internal_wf :: "InternalAddress \<Rightarrow> bool" where
  "internal_wf (IbcToken h) \<longleftrightarrow> length h = HASH_LEN"
| "internal_wf (Erc20 h) \<longleftrightarrow> length h = HASH_LEN"
| "internal_wf (Nut h) \<longleftrightarrow> length h = HASH_LEN"
| "internal_wf _ \<longleftrightarrow> True"

fun address_wf :: "Address \<Rightarrow> bool" where
  "address_wf (Established h) \<longleftrightarrow> length h = HASH_LEN"
| "address_wf (Implicit h) \<longleftrightarrow> length h = HASH_LEN"
| "address_wf (Internal a) \<longleftrightarrow> internal_wf a"

section \<open>Raw addresses\<close>

datatype Discriminant =
    D_Implicit | D_Established | D_Pos | D_SlashPool | D_Parameters | D_Governance | D_Ibc | D_EthBridge
  | D_BridgePool | D_Multitoken | D_Pgf | D_Erc20 | D_Nut | D_IbcToken | D_Masp | D_TempStorage

record raw_Address =
  discriminant :: Discriminant
  data :: hash20

definition ADDR_ENCODING_LEN :: nat where
  "ADDR_ENCODING_LEN = 1 + HASH_LEN"

definition ADDR_DEFAULT_DATA :: hash20 where
  "ADDR_DEFAULT_DATA = replicate HASH_LEN 0"

definition discriminants :: "Discriminant list" where
  "discriminants =
     [D_Implicit, D_Established, D_Pos, D_SlashPool, D_Parameters, D_Governance, D_Ibc, D_EthBridge,
      D_BridgePool, D_Multitoken, D_Pgf, D_Erc20, D_Nut, D_IbcToken, D_Masp, D_TempStorage]"

fun Discriminant_as_u8 :: "Discriminant \<Rightarrow> u8" where
  "Discriminant_as_u8 D_Implicit = 0"
| "Discriminant_as_u8 D_Established = 1"
| "Discriminant_as_u8 D_Pos = 2"
| "Discriminant_as_u8 D_SlashPool = 3"
| "Discriminant_as_u8 D_Parameters = 4"
| "Discriminant_as_u8 D_Governance = 5"
| "Discriminant_as_u8 D_Ibc = 6"
| "Discriminant_as_u8 D_EthBridge = 7"
| "Discriminant_as_u8 D_BridgePool = 8"
| "Discriminant_as_u8 D_Multitoken = 9"
| "Discriminant_as_u8 D_Pgf = 10"
| "Discriminant_as_u8 D_Erc20 = 11"
| "Discriminant_as_u8 D_Nut = 12"
| "Discriminant_as_u8 D_IbcToken = 13"
| "Discriminant_as_u8 D_Masp = 14"
| "Discriminant_as_u8 D_TempStorage = 15"

text \<open>The derived conversion from a byte finds the variant with that value.\<close>

definition Discriminant_try_from :: "u8 \<Rightarrow> Discriminant option" where
  "Discriminant_try_from b = find (\<lambda>d. Discriminant_as_u8 d = b) discriminants"

definition has_default_data :: "raw_Address \<Rightarrow> bool" where
  "has_default_data slf \<longleftrightarrow>
     \<not> (discriminant slf \<in> {D_Implicit, D_Established, D_Erc20, D_Nut, D_IbcToken})"

definition from_discriminant :: "Discriminant \<Rightarrow> raw_Address" where
  "from_discriminant d = \<lparr>discriminant = d, data = ADDR_DEFAULT_DATA\<rparr>"

definition with_data_array :: "hash20 \<Rightarrow> raw_Address \<Rightarrow> raw_Address" where
  "with_data_array dat slf = \<lparr>discriminant = discriminant slf, data = dat\<rparr>"

definition try_with_data_slice :: "u8 list \<Rightarrow> raw_Address \<Rightarrow> raw_Address option" where
  "try_with_data_slice dat slf = (if length dat = HASH_LEN then Some (with_data_array dat slf) else None)"

definition try_from_slice :: "u8 list \<Rightarrow> raw_Address option" where
  "try_from_slice raw_addr =
     (if length raw_addr \<noteq> ADDR_ENCODING_LEN then None
      else do {
        d \<leftarrow> Discriminant_try_from (hd raw_addr);
        try_with_data_slice (tl raw_addr) (from_discriminant d)
      })"

definition validate :: "raw_Address \<Rightarrow> raw_Address option" where
  "validate slf = (if has_default_data slf \<and> data slf \<noteq> ADDR_DEFAULT_DATA then None else Some slf)"

definition raw_to_bytes :: "raw_Address \<Rightarrow> u8 list" where
  "raw_to_bytes slf = Discriminant_as_u8 (discriminant slf) # data slf"

text \<open>
  The conversions between addresses and raw addresses. The conversion to a raw address panics
  (\<^const>\<open>None\<close>) when the raw address it builds is not valid, which \<open>raw_of_address_total\<close> excludes.
\<close>

definition address_of_raw :: "raw_Address \<Rightarrow> Address" where
  "address_of_raw raw_addr =
     (case discriminant raw_addr of
        D_Implicit \<Rightarrow> Implicit (data raw_addr)
      | D_Established \<Rightarrow> Established (data raw_addr)
      | D_Pos \<Rightarrow> Internal PoS
      | D_SlashPool \<Rightarrow> Internal PosSlashPool
      | D_Parameters \<Rightarrow> Internal Parameters
      | D_Governance \<Rightarrow> Internal Governance
      | D_Ibc \<Rightarrow> Internal Ibc
      | D_EthBridge \<Rightarrow> Internal EthBridge
      | D_BridgePool \<Rightarrow> Internal EthBridgePool
      | D_Multitoken \<Rightarrow> Internal Multitoken
      | D_Pgf \<Rightarrow> Internal Pgf
      | D_Erc20 \<Rightarrow> Internal (Erc20 (data raw_addr))
      | D_Nut \<Rightarrow> Internal (Nut (data raw_addr))
      | D_IbcToken \<Rightarrow> Internal (IbcToken (data raw_addr))
      | D_Masp \<Rightarrow> Internal Masp
      | D_TempStorage \<Rightarrow> Internal TempStorage)"

fun raw_of_address :: "Address \<Rightarrow> raw_Address option" where
  "raw_of_address (Established h) = validate (with_data_array h (from_discriminant D_Established))"
| "raw_of_address (Implicit pkh) = validate (with_data_array pkh (from_discriminant D_Implicit))"
| "raw_of_address (Internal PoS) = validate (from_discriminant D_Pos)"
| "raw_of_address (Internal PosSlashPool) = validate (from_discriminant D_SlashPool)"
| "raw_of_address (Internal Parameters) = validate (from_discriminant D_Parameters)"
| "raw_of_address (Internal Governance) = validate (from_discriminant D_Governance)"
| "raw_of_address (Internal Ibc) = validate (from_discriminant D_Ibc)"
| "raw_of_address (Internal (IbcToken h)) = validate (with_data_array h (from_discriminant D_IbcToken))"
| "raw_of_address (Internal EthBridge) = validate (from_discriminant D_EthBridge)"
| "raw_of_address (Internal EthBridgePool) = validate (from_discriminant D_BridgePool)"
| "raw_of_address (Internal (Erc20 eth_addr)) = validate (with_data_array eth_addr (from_discriminant D_Erc20))"
| "raw_of_address (Internal (Nut eth_addr)) = validate (with_data_array eth_addr (from_discriminant D_Nut))"
| "raw_of_address (Internal Multitoken) = validate (from_discriminant D_Multitoken)"
| "raw_of_address (Internal Pgf) = validate (from_discriminant D_Pgf)"
| "raw_of_address (Internal Masp) = validate (from_discriminant D_Masp)"
| "raw_of_address (Internal TempStorage) = validate (from_discriminant D_TempStorage)"

definition Address_to_bytes :: "Address \<Rightarrow> u8 list option" where
  "Address_to_bytes slf = map_option raw_to_bytes (raw_of_address slf)"

datatype decode_error = InvalidRawLength | InvalidDiscriminantDataPair

definition Address_decode_bytes :: "u8 list \<Rightarrow> decode_error + Address" where
  "Address_decode_bytes bytes =
     rbind (ok_or (try_from_slice bytes) InvalidRawLength) (\<lambda>unvalidated_raw_addr.
     rbind (ok_or (validate unvalidated_raw_addr) InvalidDiscriminantDataPair) (\<lambda>validated_raw_addr.
     Inr (address_of_raw validated_raw_addr)))"

section \<open>The raw form is a bijection\<close>

lemma Discriminant_roundtrip [simp]: "Discriminant_try_from (Discriminant_as_u8 d) = Some d"
  by (cases d) (simp_all add: Discriminant_try_from_def discriminants_def)

lemma Discriminant_try_from_Some: "Discriminant_try_from b = Some d \<Longrightarrow> Discriminant_as_u8 d = b"
  unfolding Discriminant_try_from_def by (auto simp: find_Some_iff)

text \<open>The valid raw addresses: 20 bytes of data, all zero where the kind of the address carries none.\<close>

definition raw_valid :: "raw_Address \<Rightarrow> bool" where
  "raw_valid r \<longleftrightarrow> length (data r) = HASH_LEN \<and> (has_default_data r \<longrightarrow> data r = ADDR_DEFAULT_DATA)"

lemma raw_of_address_eq:
  "address_wf a \<Longrightarrow> \<exists>r. raw_of_address a = Some r \<and> raw_valid r \<and> address_of_raw r = a"
  by (cases a rule: raw_of_address.cases)
     (simp_all add: validate_def from_discriminant_def with_data_array_def has_default_data_def raw_valid_def
        address_of_raw_def ADDR_DEFAULT_DATA_def)

lemma address_of_raw_eq: "raw_valid r \<Longrightarrow> raw_of_address (address_of_raw r) = Some r \<and> address_wf (address_of_raw r)"
  by (cases r; cases "discriminant r")
     (simp_all add: validate_def from_discriminant_def with_data_array_def has_default_data_def raw_valid_def
        address_of_raw_def ADDR_DEFAULT_DATA_def)

lemma raw_of_address_total: "address_wf a \<Longrightarrow> raw_of_address a \<noteq> None"
  using raw_of_address_eq [of a] by auto

lemma try_from_slice_to_bytes: "raw_valid r \<Longrightarrow> try_from_slice (raw_to_bytes r) = Some r"
  by (simp add: try_from_slice_def raw_to_bytes_def raw_valid_def ADDR_ENCODING_LEN_def try_with_data_slice_def
        with_data_array_def from_discriminant_def)

lemma validate_valid: "raw_valid r \<Longrightarrow> validate r = Some r"
  by (simp add: validate_def raw_valid_def)

lemma try_from_slice_Some:
  assumes "try_from_slice bs = Some r" "validate r = Some r'"
  shows "r' = r \<and> raw_valid r \<and> raw_to_bytes r = bs"
proof -
  obtain d where d: "length bs = ADDR_ENCODING_LEN" "Discriminant_try_from (hd bs) = Some d"
      "try_with_data_slice (tl bs) (from_discriminant d) = Some r"
    using assms(1) by (auto simp: try_from_slice_def bind_eq_Some_conv split: if_splits)
  then have r: "r = \<lparr>discriminant = d, data = tl bs\<rparr>" "length (tl bs) = HASH_LEN"
    by (auto simp: try_with_data_slice_def with_data_array_def from_discriminant_def split: if_splits)
  have "bs \<noteq> []" using d(1) by (auto simp: ADDR_ENCODING_LEN_def)
  then show ?thesis
    using r assms(2) Discriminant_try_from_Some [OF d(2)]
    by (auto simp: raw_to_bytes_def raw_valid_def validate_def split: if_splits)
qed

text \<open>
  The raw form of addresses is canonical: decoding a byte string gives an address exactly when
  the byte string is the encoding of that address. So the encoding round trips, no address has
  two encodings and no two addresses share one.
\<close>

theorem Address_bytes_canonical:
  assumes "address_wf a"
  shows "Address_decode_bytes bs = Inr a \<longleftrightarrow> Address_to_bytes a = Some bs"
proof
  assume "Address_decode_bytes bs = Inr a"
  then obtain r r' where "try_from_slice bs = Some r" "validate r = Some r'" "a = address_of_raw r'"
    by (auto simp: Address_decode_bytes_def result_simps)
  then show "Address_to_bytes a = Some bs"
    using try_from_slice_Some address_of_raw_eq by (fastforce simp: Address_to_bytes_def)
next
  assume "Address_to_bytes a = Some bs"
  then show "Address_decode_bytes bs = Inr a"
    using raw_of_address_eq [OF assms]
    by (auto simp: Address_to_bytes_def Address_decode_bytes_def try_from_slice_to_bytes validate_valid)
qed

theorem Address_bytes_canonical_witness:
  "Address_decode_bytes (12 # replicate 20 7) = Inr (Internal (Nut (replicate 20 7)))"
  using Address_bytes_canonical [of "Internal (Nut (replicate 20 7))" "12 # replicate 20 7"]
  by (simp add: HASH_LEN_def Address_to_bytes_def validate_def from_discriminant_def with_data_array_def
        has_default_data_def raw_to_bytes_def)

end
