(* ===== verification/TransToken.thy ===== *)
theory TransToken
  imports StateResult TokenAmount StorageTypes Addresses
begin

text \<open>
  Transparent tokens: the storage keys (\<open>trans_token/src/storage_key.rs\<close>), the operations on
  balances and supplies (\<open>trans_token/src/storage.rs\<close>) and the validity predicate that accepts
  or rejects the changes a transaction made to them
  (\<open>namada/src/ledger/native_vp/multitoken.rs\<close>).

  Storage is a partial function from keys to values; a value is tagged with the type it was
  serialised from, and reading it at another type is the error of the decoder.
\<close>

section \<open>Storage\<close>

datatype storage_value =
    AmountVal Amount | DenomVal Denomination | AddressVal Address | BoolVal bool

type_synonym storage = "Address Key \<Rightarrow> storage_value option"

datatype storage_error =
    DecodeFailed | AmountErr AmountError | InsufficientBalance | TransferOverflow | NoDenomination
  | ScaleFailed | Panicked

type_synonym 'a storage_result = "(storage, storage_error, 'a) sresult"

definition write_value :: "Address Key \<Rightarrow> storage_value \<Rightarrow> unit storage_result" where
  "write_value key v = modifies (\<lambda>s. s(key \<mapsto> v))"

definition decode_amount :: "storage_value option \<Rightarrow> storage_error + Amount option" where
  "decode_amount v =
     (case v of None \<Rightarrow> Inr None | Some (AmountVal a) \<Rightarrow> Inr (Some a) | Some _ \<Rightarrow> Inl DecodeFailed)"

definition read_amount :: "Address Key \<Rightarrow> Amount option storage_result" where
  "read_amount key = reads (\<lambda>s. decode_amount (s key))"

definition unwrap_or_default :: "Amount option \<Rightarrow> Amount" where
  "unwrap_or_default m = (case m of None \<Rightarrow> Amount_zero | Some a \<Rightarrow> a)"

section \<open>Keys\<close>

definition BALANCE_STORAGE_KEY :: string where "BALANCE_STORAGE_KEY = ''balance''"
definition DENOM_STORAGE_KEY :: string where "DENOM_STORAGE_KEY = ''denomination''"
definition MINTER_STORAGE_KEY :: string where "MINTER_STORAGE_KEY = ''minter''"
definition MINTED_STORAGE_KEY :: string where "MINTED_STORAGE_KEY = ''minted''"
definition PARAMETERS_STORAGE_KEY :: string where "PARAMETERS_STORAGE_KEY = ''parameters''"

lemmas token_key_segments =
  BALANCE_STORAGE_KEY_def DENOM_STORAGE_KEY_def MINTER_STORAGE_KEY_def MINTED_STORAGE_KEY_def
  PARAMETERS_STORAGE_KEY_def

definition balance_prefix :: "Address \<Rightarrow> Address Key" where
  "balance_prefix token_addr =
     \<lparr>segments = [AddressSeg MULTITOKEN, AddressSeg token_addr, StringSeg BALANCE_STORAGE_KEY]\<rparr>"

definition balance_key :: "Address \<Rightarrow> Address \<Rightarrow> Address Key" where
  "balance_key token_addr owner = with_segment (AddressSeg owner) (balance_prefix token_addr)"

definition parameter_prefix :: "Address \<Rightarrow> Address Key" where
  "parameter_prefix token_addr =
     \<lparr>segments = [AddressSeg MULTITOKEN, AddressSeg token_addr, StringSeg PARAMETERS_STORAGE_KEY]\<rparr>"

definition minter_key :: "Address \<Rightarrow> Address Key" where
  "minter_key token_addr =
     \<lparr>segments = [AddressSeg MULTITOKEN, AddressSeg token_addr, StringSeg MINTER_STORAGE_KEY]\<rparr>"

definition minted_balance_key :: "Address \<Rightarrow> Address Key" where
  "minted_balance_key token_addr = with_segment (StringSeg MINTED_STORAGE_KEY) (balance_prefix token_addr)"

definition denom_key :: "Address \<Rightarrow> Address Key" where
  "denom_key token_addr = \<lparr>segments = [AddressSeg token_addr, StringSeg DENOM_STORAGE_KEY]\<rparr>"

fun balance_segments :: "Address DbKeySeg list \<Rightarrow> (Address \<times> Address) option" where
  "balance_segments [AddressSeg addr, AddressSeg token, StringSeg balance, AddressSeg owner] =
     (if addr = MULTITOKEN \<and> balance = BALANCE_STORAGE_KEY then Some (token, owner) else None)"
| "balance_segments _ = None"

definition is_any_token_balance_key :: "Address Key \<Rightarrow> (Address \<times> Address) option" where
  "is_any_token_balance_key key = balance_segments (segments key)"

definition is_balance_key :: "Address \<Rightarrow> Address Key \<Rightarrow> Address option" where
  "is_balance_key token_addr key =
     (case balance_segments (segments key) of
        Some (token, owner) \<Rightarrow> if token = token_addr then Some owner else None
      | None \<Rightarrow> None)"

fun parameter_segments :: "Address DbKeySeg list \<Rightarrow> Address option" where
  "parameter_segments [AddressSeg addr, AddressSeg token, StringSeg parameter, StringSeg _] =
     (if addr = MULTITOKEN \<and> parameter = PARAMETERS_STORAGE_KEY then Some token else None)"
| "parameter_segments _ = None"

definition is_any_token_parameter_key :: "Address Key \<Rightarrow> Address option" where
  "is_any_token_parameter_key key = parameter_segments (segments key)"

fun minter_segments :: "Address DbKeySeg list \<Rightarrow> Address option" where
  "minter_segments [AddressSeg addr, AddressSeg token, StringSeg minter] =
     (if addr = MULTITOKEN \<and> minter = MINTER_STORAGE_KEY then Some token else None)"
| "minter_segments _ = None"

definition is_any_minter_key :: "Address Key \<Rightarrow> Address option" where
  "is_any_minter_key key = minter_segments (segments key)"

fun minted_segments :: "Address DbKeySeg list \<Rightarrow> Address option" where
  "minted_segments [AddressSeg addr, AddressSeg token, StringSeg balance, StringSeg owner] =
     (if addr = MULTITOKEN \<and> balance = BALANCE_STORAGE_KEY \<and> owner = MINTED_STORAGE_KEY
      then Some token else None)"
| "minted_segments _ = None"

definition is_any_minted_balance_key :: "Address Key \<Rightarrow> Address option" where
  "is_any_minted_balance_key key = minted_segments (segments key)"

definition is_denom_key :: "Address \<Rightarrow> Address Key \<Rightarrow> bool" where
  "is_denom_key token_addr key =
     (case segments key of
        AddressSeg addr # rest \<Rightarrow>
          rest \<noteq> [] \<and> last rest = StringSeg DENOM_STORAGE_KEY \<and> addr = token_addr
      | _ \<Rightarrow> False)"

definition is_any_shielded_action_balance_key :: "Address Key \<Rightarrow> (Address \<times> Address) option" where
  "is_any_shielded_action_balance_key key =
     (case is_any_token_balance_key key of
        Some p \<Rightarrow> Some p
      | None \<Rightarrow> map_option (\<lambda>token. (token, IBC)) (is_any_minted_balance_key key))"

section \<open>Balances and supplies\<close>

definition write_params :: "Address \<Rightarrow> unit storage_result" where
  "write_params address = write_value (minted_balance_key address) (AmountVal Amount_zero)"

definition read_balance :: "Address \<Rightarrow> Address \<Rightarrow> Amount storage_result" where
  "read_balance token owner =
     sbind (read_amount (balance_key token owner)) (\<lambda>m. ret (unwrap_or_default m))"

definition update_balance ::
    "Address \<Rightarrow> Address \<Rightarrow> (Amount \<Rightarrow> storage_error + Amount) \<Rightarrow> unit storage_result" where
  "update_balance token owner f =
     sbind (read_amount (balance_key token owner)) (\<lambda>m.
     sbind (lift_result (f (unwrap_or_default m))) (\<lambda>new_balance.
     write_value (balance_key token owner) (AmountVal new_balance)))"

definition increment_balance :: "Address \<Rightarrow> Address \<Rightarrow> Amount \<Rightarrow> unit storage_result" where
  "increment_balance token owner amount =
     update_balance token owner (\<lambda>cur_amount. ok_or (Amount_checked_add cur_amount amount) (AmountErr Overflow))"

definition decrement_balance :: "Address \<Rightarrow> Address \<Rightarrow> Amount \<Rightarrow> unit storage_result" where
  "decrement_balance token owner amount =
     update_balance token owner (\<lambda>cur_amount. ok_or (Amount_checked_sub cur_amount amount) (AmountErr Insufficient))"

definition read_total_supply :: "Address \<Rightarrow> Amount storage_result" where
  "read_total_supply token =
     sbind (read_amount (minted_balance_key token)) (\<lambda>m. ret (unwrap_or_default m))"

definition update_total_supply ::
    "Address \<Rightarrow> (Amount \<Rightarrow> storage_error + Amount) \<Rightarrow> unit storage_result" where
  "update_total_supply token f =
     sbind (read_amount (minted_balance_key token)) (\<lambda>m.
     sbind (lift_result (f (unwrap_or_default m))) (\<lambda>new_supply.
     write_value (minted_balance_key token) (AmountVal new_supply)))"

definition increment_total_supply :: "Address \<Rightarrow> Amount \<Rightarrow> unit storage_result" where
  "increment_total_supply token amount =
     update_total_supply token (\<lambda>cur_supply. ok_or (Amount_checked_add cur_supply amount) (AmountErr Overflow))"

definition decrement_total_supply :: "Address \<Rightarrow> Amount \<Rightarrow> unit storage_result" where
  "decrement_total_supply token amount =
     update_total_supply token (\<lambda>cur_supply. ok_or (Amount_checked_sub cur_supply amount) (AmountErr Insufficient))"

definition get_effective_total_native_supply :: "Address \<Rightarrow> Amount storage_result" where
  "get_effective_total_native_supply native_token =
     sbind (read_total_supply native_token) (\<lambda>raw_total.
     sbind (read_balance native_token PGF) (\<lambda>pgf_balance.
     lift_result (ok_or (Amount_checked_sub raw_total pgf_balance) Panicked)))"

definition decode_denom :: "storage_value option \<Rightarrow> storage_error + Denomination option" where
  "decode_denom v =
     (case v of None \<Rightarrow> Inr None | Some (DenomVal d) \<Rightarrow> Inr (Some d) | Some _ \<Rightarrow> Inl DecodeFailed)"

definition read_denom :: "Address \<Rightarrow> Denomination option storage_result" where
  "read_denom token =
     (let lookup = (\<lambda>key is_default_zero.
            sbind (reads (\<lambda>s. decode_denom (s key))) (\<lambda>opt_denom.
            ret (Some (case opt_denom of
                   Some d \<Rightarrow> d
                 | None \<Rightarrow> if is_default_zero then Denomination 0 else Denomination NATIVE_MAX_DECIMAL_PLACES))))
      in case token of
           Internal (Nut erc20) \<Rightarrow> lookup (denom_key (Internal (Erc20 erc20))) True
         | Internal (IbcToken _) \<Rightarrow> ret (Some (Denomination 0))
         | _ \<Rightarrow> lookup (denom_key token) False)"

definition write_denom :: "Address \<Rightarrow> Denomination \<Rightarrow> unit storage_result" where
  "write_denom token denm = write_value (denom_key token) (DenomVal denm)"

definition transfer :: "Address \<Rightarrow> Address \<Rightarrow> Address \<Rightarrow> Amount \<Rightarrow> unit storage_result" where
  "transfer token src dest amount =
     (if Amount_is_zero amount then ret ()
      else
        sbind (read_balance token src) (\<lambda>src_balance.
        case Amount_checked_sub src_balance amount of
          Some new_src_balance \<Rightarrow>
            sbind (read_balance token dest) (\<lambda>dest_balance.
            case Amount_checked_add dest_balance amount of
              Some new_dest_balance \<Rightarrow>
                sthen (write_value (balance_key token src) (AmountVal new_src_balance))
                  (write_value (balance_key token dest) (AmountVal new_dest_balance))
            | None \<Rightarrow> throw TransferOverflow)
        | None \<Rightarrow> throw InsufficientBalance))"

definition credit_tokens :: "Address \<Rightarrow> Address \<Rightarrow> Amount \<Rightarrow> unit storage_result" where
  "credit_tokens token dest amount =
     sthen (increment_balance token dest amount) (increment_total_supply token amount)"

definition mint_tokens :: "Address \<Rightarrow> Address \<Rightarrow> Address \<Rightarrow> Amount \<Rightarrow> unit storage_result" where
  "mint_tokens minter token dest amount =
     sthen (credit_tokens token dest amount) (write_value (minter_key token) (AddressVal minter))"

definition burn_tokens :: "Address \<Rightarrow> Address \<Rightarrow> Amount \<Rightarrow> unit storage_result" where
  "burn_tokens token source amount =
     sbind (read_balance token source) (\<lambda>source_balance.
     sbind
       (case Amount_checked_sub source_balance amount of
          Some new_amount \<Rightarrow>
            sthen (write_value (balance_key token source) (AmountVal new_amount)) (ret amount)
        | None \<Rightarrow>
            sthen (write_value (balance_key token source) (AmountVal Amount_zero)) (ret source_balance))
       (\<lambda>amount_to_burn. decrement_total_supply token amount_to_burn))"

definition denominated :: "Amount \<Rightarrow> Address \<Rightarrow> DenominatedAmount storage_result" where
  "denominated amount token =
     sbind (read_denom token) (\<lambda>m.
     sbind (lift_result (ok_or m NoDenomination)) (\<lambda>denm.
     ret (DenominatedAmount_new amount denm)))"

definition denom_to_amount :: "DenominatedAmount \<Rightarrow> Address \<Rightarrow> Amount storage_result" where
  "denom_to_amount denom_amount token =
     sbind (read_denom token) (\<lambda>m.
     sbind (lift_result (ok_or m NoDenomination)) (\<lambda>denm.
     case DenominatedAmount_scale denom_amount (denomination denm) of
       Inl _ \<Rightarrow> throw ScaleFailed | Inr a \<Rightarrow> ret a))"

section \<open>Keys do not collide\<close>

lemmas token_keys =
  balance_key_def balance_prefix_def minted_balance_key_def minter_key_def denom_key_def parameter_prefix_def
  with_segment_def

lemma token_key_inj [simp]:
  "balance_key t a = balance_key u b \<longleftrightarrow> t = u \<and> a = b"
  "minted_balance_key t = minted_balance_key u \<longleftrightarrow> t = u"
  "minter_key t = minter_key u \<longleftrightarrow> t = u"
  by (auto simp: token_keys)

lemma token_key_disjoint [simp]:
  "balance_key t a \<noteq> minted_balance_key u" "minted_balance_key u \<noteq> balance_key t a"
  "balance_key t a \<noteq> minter_key u" "minter_key u \<noteq> balance_key t a"
  "minter_key t \<noteq> minted_balance_key u" "minted_balance_key u \<noteq> minter_key t"
  by (simp_all add: token_keys)

lemma is_any_token_balance_key_iff [simp]: "is_any_token_balance_key k = Some (t, a) \<longleftrightarrow> k = balance_key t a"
proof -
  obtain segs where k: "k = \<lparr>segments = segs\<rparr>" by (cases k) auto
  have "balance_segments segs = Some (t, a) \<longleftrightarrow>
      segs = [AddressSeg MULTITOKEN, AddressSeg t, StringSeg BALANCE_STORAGE_KEY, AddressSeg a]"
    by (cases segs rule: balance_segments.cases) auto
  then show ?thesis by (simp add: k is_any_token_balance_key_def token_keys)
qed

lemma is_any_minted_balance_key_iff [simp]: "is_any_minted_balance_key k = Some t \<longleftrightarrow> k = minted_balance_key t"
proof -
  obtain segs where k: "k = \<lparr>segments = segs\<rparr>" by (cases k) auto
  have "minted_segments segs = Some t \<longleftrightarrow>
      segs = [AddressSeg MULTITOKEN, AddressSeg t, StringSeg BALANCE_STORAGE_KEY, StringSeg MINTED_STORAGE_KEY]"
    by (cases segs rule: minted_segments.cases) auto
  then show ?thesis by (simp add: k is_any_minted_balance_key_def token_keys)
qed

lemma is_any_key_simps [simp]:
  "is_any_token_balance_key (balance_key t a) = Some (t, a)"
  "is_any_minted_balance_key (minted_balance_key t) = Some t"
  by simp_all

lemma is_balance_key_iff: "is_balance_key t k = Some a \<longleftrightarrow> k = balance_key t a"
  using is_any_token_balance_key_iff [of k t a]
  by (auto simp: is_balance_key_def is_any_token_balance_key_def split: option.splits if_splits)

text \<open>
  The source builds a key by pushing the text of each segment, which parses it again: with an
  address codec that round trips the result is the key of the model, and no push fails.
\<close>

lemma balance_key_push:
  assumes "address_codec encode decode"
  shows "rbind (Key_push decode (DbKeySeg_raw encode (AddressSeg t)) \<lparr>segments = [AddressSeg MULTITOKEN]\<rparr>) (\<lambda>k.
         rbind (Key_push decode BALANCE_STORAGE_KEY k) (\<lambda>k.
         Key_push decode (DbKeySeg_raw encode (AddressSeg a)) k)) = Inr (balance_key t a)"
  using assms
  by (simp add: address_codec_def Key_push_def DbKeySeg_parse_def KEY_SEGMENT_SEPARATOR_def
        RESERVED_ADDRESS_PREFIX_def token_keys token_key_segments)

section \<open>Balances as numbers\<close>

definition key_amount :: "storage \<Rightarrow> Address Key \<Rightarrow> nat" where
  "key_amount s k = (case s k of Some (AmountVal a) \<Rightarrow> amount_val a | _ \<Rightarrow> 0)"

abbreviation bal :: "storage \<Rightarrow> Address \<Rightarrow> Address \<Rightarrow> nat" where
  "bal s t a \<equiv> key_amount s (balance_key t a)"

abbreviation minted :: "storage \<Rightarrow> Address \<Rightarrow> nat" where
  "minted s t \<equiv> key_amount s (minted_balance_key t)"

text \<open>Every balance and supply in storage holds an amount.\<close>

definition amount_slot :: "storage \<Rightarrow> Address Key \<Rightarrow> bool" where
  "amount_slot s k \<longleftrightarrow> decode_amount (s k) \<noteq> Inl DecodeFailed"

definition tokens_typed :: "storage \<Rightarrow> bool" where
  "tokens_typed s \<longleftrightarrow> (\<forall>t. amount_slot s (minted_balance_key t) \<and> (\<forall>a. amount_slot s (balance_key t a)))"

lemma decode_amount_cases:
  assumes "amount_slot s k"
  shows "\<exists>m. decode_amount (s k) = Inr m \<and> unwrap_or_default m = amount_of (key_amount s k)"
  using assms amount_of_val [of Amount_zero]
  by (auto simp: amount_slot_def decode_amount_def key_amount_def unwrap_or_default_def
      split: option.splits storage_value.splits)

lemma key_amount_lt: "key_amount s k < 2 ^ 256"
  using amount_val_lt by (auto simp: key_amount_def split: option.splits storage_value.splits)

lemma amount_val_of_key [simp]: "amount_val (amount_of (key_amount s k)) = key_amount s k"
  using key_amount_lt by (rule amount_val_of)

lemma key_amount_upd [simp]: "key_amount (s(k \<mapsto> AmountVal a)) j = (if j = k then amount_val a else key_amount s j)"
  by (simp add: key_amount_def)

lemma key_amount_other [simp]: "j \<noteq> k \<Longrightarrow> key_amount (s(k \<mapsto> v)) j = key_amount s j"
  by (simp add: key_amount_def)

lemma amount_slot_upd [simp]: "amount_slot (s(k \<mapsto> AmountVal a)) j \<longleftrightarrow> j = k \<or> amount_slot s j"
  by (auto simp: amount_slot_def decode_amount_def)

lemma tokens_typed_upd: "tokens_typed s \<Longrightarrow> tokens_typed (s(k \<mapsto> AmountVal a))"
  by (simp add: tokens_typed_def)

lemma read_amount_eq:
  "amount_slot s k \<Longrightarrow> \<exists>m. read_amount k s = (Inr m, s) \<and> unwrap_or_default m = amount_of (key_amount s k)"
  using decode_amount_cases [of s k] by (auto simp: read_amount_def)

lemma read_balance_eq: "tokens_typed s \<Longrightarrow> read_balance t a s = (Inr (amount_of (bal s t a)), s)"
  using read_amount_eq [of s "balance_key t a"] by (auto simp: read_balance_def tokens_typed_def)

lemma read_total_supply_eq: "tokens_typed s \<Longrightarrow> read_total_supply t s = (Inr (amount_of (minted s t)), s)"
  using read_amount_eq [of s "minted_balance_key t"] by (auto simp: read_total_supply_def tokens_typed_def)

section \<open>The effect of each operation\<close>

lemma update_balance_eq:
  "tokens_typed s \<Longrightarrow> update_balance t a f s =
     (case f (amount_of (bal s t a)) of
        Inl e \<Rightarrow> (Inl e, s) | Inr b \<Rightarrow> (Inr (), s(balance_key t a \<mapsto> AmountVal b)))"
  using read_amount_eq [of s "balance_key t a"]
  by (auto simp: update_balance_def tokens_typed_def sbind_lift_result write_value_def split: sum.split)

lemma update_total_supply_eq:
  "tokens_typed s \<Longrightarrow> update_total_supply t f s =
     (case f (amount_of (minted s t)) of
        Inl e \<Rightarrow> (Inl e, s) | Inr b \<Rightarrow> (Inr (), s(minted_balance_key t \<mapsto> AmountVal b)))"
  using read_amount_eq [of s "minted_balance_key t"]
  by (auto simp: update_total_supply_def tokens_typed_def sbind_lift_result write_value_def split: sum.split)

lemma increment_balance_eq:
  "tokens_typed s \<Longrightarrow> increment_balance t a amt s =
     (if bal s t a + amount_val amt < 2 ^ 256
      then (Inr (), s(balance_key t a \<mapsto> AmountVal (amount_of (bal s t a + amount_val amt))))
      else (Inl (AmountErr Overflow), s))"
  by (simp add: increment_balance_def update_balance_eq Amount_checked_add_eq key_amount_lt)

lemma decrement_balance_eq:
  "tokens_typed s \<Longrightarrow> decrement_balance t a amt s =
     (if amount_val amt \<le> bal s t a
      then (Inr (), s(balance_key t a \<mapsto> AmountVal (amount_of (bal s t a - amount_val amt))))
      else (Inl (AmountErr Insufficient), s))"
  by (simp add: decrement_balance_def update_balance_eq Amount_checked_sub_eq key_amount_lt)

lemma increment_total_supply_eq:
  "tokens_typed s \<Longrightarrow> increment_total_supply t amt s =
     (if minted s t + amount_val amt < 2 ^ 256
      then (Inr (), s(minted_balance_key t \<mapsto> AmountVal (amount_of (minted s t + amount_val amt))))
      else (Inl (AmountErr Overflow), s))"
  by (simp add: increment_total_supply_def update_total_supply_eq Amount_checked_add_eq key_amount_lt)

lemma decrement_total_supply_eq:
  "tokens_typed s \<Longrightarrow> decrement_total_supply t amt s =
     (if amount_val amt \<le> minted s t
      then (Inr (), s(minted_balance_key t \<mapsto> AmountVal (amount_of (minted s t - amount_val amt))))
      else (Inl (AmountErr Insufficient), s))"
  by (simp add: decrement_total_supply_def update_total_supply_eq Amount_checked_sub_eq key_amount_lt)

lemma transfer_eq:
  "tokens_typed s \<Longrightarrow> transfer t src dest amt s =
     (if amount_val amt = 0 then (Inr (), s)
      else if bal s t src < amount_val amt then (Inl InsufficientBalance, s)
      else if 2 ^ 256 \<le> bal s t dest + amount_val amt then (Inl TransferOverflow, s)
      else (Inr (), s(balance_key t src \<mapsto> AmountVal (amount_of (bal s t src - amount_val amt)),
                      balance_key t dest \<mapsto> AmountVal (amount_of (bal s t dest + amount_val amt)))))"
  by (simp add: transfer_def Amount_is_zero_def amount_val_def [symmetric] unat_eq_0 [symmetric] read_balance_eq
        Amount_checked_sub_eq Amount_checked_add_eq key_amount_lt write_value_def not_less)

lemma credit_tokens_eq:
  assumes "tokens_typed s" "bal s t a + amount_val amt < 2 ^ 256" "minted s t + amount_val amt < 2 ^ 256"
  shows "credit_tokens t a amt s =
     (Inr (), s(balance_key t a \<mapsto> AmountVal (amount_of (bal s t a + amount_val amt)),
                minted_balance_key t \<mapsto> AmountVal (amount_of (minted s t + amount_val amt))))"
  using assms
  by (simp add: credit_tokens_def increment_balance_eq increment_total_supply_eq tokens_typed_upd)

lemma credit_tokens_ok:
  assumes "tokens_typed s" "credit_tokens t a amt s = (Inr (), s')"
  shows "bal s t a + amount_val amt < 2 ^ 256 \<and> minted s t + amount_val amt < 2 ^ 256"
  using assms
  by (simp add: credit_tokens_def increment_balance_eq increment_total_supply_eq tokens_typed_upd result_simps
      split: if_splits)

lemma burn_tokens_eq:
  fixes t a :: Address and amt :: Amount
  assumes "tokens_typed s"
  defines "burnt \<equiv> min (amount_val amt) (bal s t a)"
  shows "burn_tokens t a amt s =
     (if burnt \<le> minted s t
      then (Inr (), s(balance_key t a \<mapsto> AmountVal (amount_of (bal s t a - burnt)),
                      minted_balance_key t \<mapsto> AmountVal (amount_of (minted s t - burnt))))
      else (Inl (AmountErr Insufficient), s(balance_key t a \<mapsto> AmountVal (amount_of (bal s t a - burnt)))))"
proof -
  have zero: "Amount_zero = amount_of 0" using amount_of_val [of Amount_zero] by simp
  show ?thesis
    using assms(1)
    by (simp add: burn_tokens_def read_balance_eq Amount_checked_sub_eq key_amount_lt write_value_def burnt_def
        decrement_total_supply_eq tokens_typed_upd min_def zero not_le)
qed

section \<open>Total balances\<close>

definition balance_keys :: "Address \<Rightarrow> Address Key set" where
  "balance_keys t = range (balance_key t)"

definition total_balance :: "storage \<Rightarrow> Address \<Rightarrow> nat" where
  "total_balance s t = (\<Sum>k\<in>dom s \<inter> balance_keys t. key_amount s k)"

lemma total_balance_superset:
  assumes "finite A" "dom s \<subseteq> A"
  shows "total_balance s t = (\<Sum>k\<in>A \<inter> balance_keys t. key_amount s k)"
  unfolding total_balance_def
proof (rule sum.mono_neutral_left)
  show "finite (A \<inter> balance_keys t)" using assms(1) by simp
  show "dom s \<inter> balance_keys t \<subseteq> A \<inter> balance_keys t" using assms(2) by auto
  show "\<forall>k\<in>A \<inter> balance_keys t - dom s \<inter> balance_keys t. key_amount s k = 0"
    by (auto simp: key_amount_def domIff split: option.splits)
qed

lemma balance_keys_iff [simp]:
  "balance_key t a \<in> balance_keys u \<longleftrightarrow> t = u" "minted_balance_key t \<notin> balance_keys u" "minter_key t \<notin> balance_keys u"
  by (auto simp: balance_keys_def)

lemma total_balance_upd:
  assumes "finite (dom s)"
  shows "total_balance (s(k \<mapsto> v)) t + (if k \<in> balance_keys t then key_amount s k else 0) =
     total_balance s t + (if k \<in> balance_keys t then key_amount (s(k \<mapsto> v)) k else 0)"
proof -
  let ?A = "insert k (dom s) \<inter> balance_keys t"
  have fin: "finite ?A" using assms by simp
  have "total_balance s t = sum (key_amount s) ?A" "total_balance (s(k \<mapsto> v)) t = sum (key_amount (s(k \<mapsto> v))) ?A"
    using assms by (auto intro!: total_balance_superset)
  moreover have "sum (key_amount (s(k \<mapsto> v))) (?A - {k}) = sum (key_amount s) (?A - {k})"
    by (intro sum.cong) auto
  ultimately show ?thesis
    using sum.remove [OF fin, of k "key_amount s"] sum.remove [OF fin, of k "key_amount (s(k \<mapsto> v))"]
    by (cases "k \<in> balance_keys t") (simp_all del: key_amount_upd)
qed

lemma bal_le_total: "finite (dom s) \<Longrightarrow> bal s t a \<le> total_balance s t"
  using total_balance_superset [of "insert (balance_key t a) (dom s)" s t]
    member_le_sum [of "balance_key t a" "insert (balance_key t a) (dom s) \<inter> balance_keys t" "key_amount s"]
  by (simp add: subset_insertI)

section \<open>The supply accounts for every balance\<close>

definition supply_inv :: "storage \<Rightarrow> bool" where
  "supply_inv s \<longleftrightarrow> finite (dom s) \<and> tokens_typed s \<and> (\<forall>t. total_balance s t = minted s t)"

datatype token_op =
    Transfer Address Address Address Amount
  | Credit Address Address Amount
  | Mint Address Address Address Amount
  | Burn Address Address Amount

fun exec_token_op :: "token_op \<Rightarrow> unit storage_result" where
  "exec_token_op (Transfer token src dest amount) = transfer token src dest amount"
| "exec_token_op (Credit token dest amount) = credit_tokens token dest amount"
| "exec_token_op (Mint minter token dest amount) = mint_tokens minter token dest amount"
| "exec_token_op (Burn token source amount) = burn_tokens token source amount"

fun to_another_account :: "token_op \<Rightarrow> bool" where
  "to_another_account (Transfer token src dest amount) \<longleftrightarrow> src \<noteq> dest"
| "to_another_account _ \<longleftrightarrow> True"

lemma total_balance_set:
  "finite (dom s) \<Longrightarrow> v < 2 ^ 256 \<Longrightarrow>
   total_balance (s(balance_key t a \<mapsto> AmountVal (amount_of v))) u + (if u = t then bal s t a else 0) =
     total_balance s u + (if u = t then v else 0)"
  using total_balance_upd [of s "balance_key t a" "AmountVal (amount_of v)" u] by (auto split: if_splits)

lemma total_balance_frame:
  "finite (dom s) \<Longrightarrow> k \<notin> balance_keys t \<Longrightarrow> total_balance (s(k \<mapsto> v)) t = total_balance s t"
  using total_balance_upd [of s k v t] by simp

lemma transfer_total:
  assumes "finite (dom s)" "src \<noteq> dest" "n \<le> bal s t src" "bal s t dest + n < 2 ^ 256"
  shows "total_balance (s(balance_key t src \<mapsto> AmountVal (amount_of (bal s t src - n)),
      balance_key t dest \<mapsto> AmountVal (amount_of (bal s t dest + n)))) u = total_balance s u"
proof -
  let ?s = "s(balance_key t src \<mapsto> AmountVal (amount_of (bal s t src - n)))"
  have "bal s t src - n < 2 ^ 256" using key_amount_lt [of s "balance_key t src"] by linarith
  then have "total_balance ?s u + (if u = t then bal s t src else 0) = total_balance s u + (if u = t then bal s t src - n else 0)"
    using assms(1) by (rule total_balance_set [rotated])
  moreover have "bal ?s t dest = bal s t dest" using assms(2) by simp
  moreover have "finite (dom ?s)" using assms(1) by simp
  ultimately show ?thesis
    using total_balance_set [of ?s "bal s t dest + n" t dest u] assms by (auto split: if_splits)
qed

lemma transfer_keeps_supply:
  assumes "supply_inv s" "src \<noteq> dest"
  shows "supply_inv (snd (transfer t src dest amt s))"
proof -
  note typed = assms(1) [unfolded supply_inv_def, THEN conjunct2, THEN conjunct1]
  show ?thesis
    using assms transfer_total [of s src dest "amount_val amt" t]
    by (auto simp: supply_inv_def transfer_eq [OF typed] tokens_typed_upd not_le not_less)
qed

lemma credit_keeps_supply:
  assumes inv: "supply_inv s" and ok: "credit_tokens t a amt s = (Inr (), s')"
  shows "supply_inv s'"
proof -
  let ?s = "s(balance_key t a \<mapsto> AmountVal (amount_of (bal s t a + amount_val amt)))"
  have fin: "finite (dom s)" and typed: "tokens_typed s" using inv by (simp_all add: supply_inv_def)
  note lt = credit_tokens_ok [OF typed ok]
  have s': "s' = ?s(minted_balance_key t \<mapsto> AmountVal (amount_of (minted s t + amount_val amt)))"
    using credit_tokens_eq [OF typed, of t a amt] lt ok by simp
  have "total_balance s' u = minted s' u" for u
    using total_balance_frame [of ?s "minted_balance_key t" u] lt fin inv
      total_balance_set [OF fin, of "bal s t a + amount_val amt" t a u]
    by (auto simp: s' supply_inv_def split: if_splits)
  then show ?thesis using fin typed by (simp add: supply_inv_def s' tokens_typed_upd)
qed

lemma tokens_typed_minter: "tokens_typed s \<Longrightarrow> tokens_typed (s(minter_key t \<mapsto> v))"
  by (simp add: tokens_typed_def amount_slot_def)

lemma mint_keeps_supply:
  assumes inv: "supply_inv s" and ok: "mint_tokens m t a amt s = (Inr (), s')"
  shows "supply_inv s'"
proof -
  obtain s1 where s1: "credit_tokens t a amt s = (Inr (), s1)" "s' = s1(minter_key t \<mapsto> AddressVal m)"
    using ok by (auto simp: mint_tokens_def result_simps write_value_def)
  have "supply_inv s1" using inv s1(1) by (rule credit_keeps_supply)
  then show ?thesis by (simp add: s1(2) supply_inv_def tokens_typed_minter total_balance_frame)
qed

lemma burn_keeps_supply:
  assumes inv: "supply_inv s"
  shows "fst (burn_tokens t a amt s) = Inr () \<and> supply_inv (snd (burn_tokens t a amt s))"
proof -
  define burnt where "burnt = min (amount_val amt) (bal s t a)"
  let ?s = "s(balance_key t a \<mapsto> AmountVal (amount_of (bal s t a - burnt)))"
  let ?s' = "?s(minted_balance_key t \<mapsto> AmountVal (amount_of (minted s t - burnt)))"
  have fin: "finite (dom s)" and typed: "tokens_typed s" using inv by (simp_all add: supply_inv_def)
  have le: "burnt \<le> bal s t a" "burnt \<le> minted s t"
    using bal_le_total [OF fin, of t a] inv by (auto simp: supply_inv_def burnt_def)
  have lt: "bal s t a - burnt < 2 ^ 256" "minted s t - burnt < 2 ^ 256"
    using key_amount_lt [of s "balance_key t a"] key_amount_lt [of s "minted_balance_key t"] by linarith+
  have "burn_tokens t a amt s = (Inr (), ?s')"
    using le by (simp add: burn_tokens_eq [OF typed] burnt_def)
  moreover have "total_balance ?s' u = minted ?s' u" for u
    using total_balance_frame [of ?s "minted_balance_key t" u] total_balance_set [OF fin lt(1), of t a u] fin lt inv le
    by (auto simp: supply_inv_def split: if_splits)
  ultimately show ?thesis using fin typed by (simp add: supply_inv_def tokens_typed_upd)
qed

text \<open>
  C3: The recorded supply of each token is the sum of its balances, after any sequence of
  successful transfers between distinct accounts, credits, mints and burns.
\<close>

theorem token_supply_invariant:
  assumes "sfold exec_token_op ops s = (Inr (), s')" "\<forall>op\<in>set ops. to_another_account op" "supply_inv s"
  shows "supply_inv s'"
  using assms(1,3)
proof (rule sfold_Inr_invariant [where I = supply_inv])
  fix s :: storage and op s'
  assume op: "op \<in> set ops" "supply_inv s" "exec_token_op op s = (Inr (), s')"
  have ok: "to_another_account op" using assms(2) op(1) by blast
  show "supply_inv s'"
  proof (cases op)
    case (Transfer t src dest amt)
    then show ?thesis using transfer_keeps_supply [OF op(2), of src dest t amt] ok op(3) by simp
  next
    case (Credit t a amt)
    then show ?thesis using credit_keeps_supply [OF op(2), of t a amt] op(3) by simp
  next
    case (Mint m t a amt)
    then show ?thesis using mint_keeps_supply [OF op(2), of m t a amt] op(3) by simp
  next
    case (Burn t a amt)
    then show ?thesis using burn_keeps_supply [OF op(2), of t a amt] op(3) by simp
  qed
qed

lemma supply_inv_empty: "supply_inv Map.empty"
  by (simp add: supply_inv_def tokens_typed_def amount_slot_def decode_amount_def total_balance_def key_amount_def)

definition sample_token :: Address where
  "sample_token = Established (replicate 20 0)"

definition sample_account :: "u8 \<Rightarrow> Address" where
  "sample_account b = Implicit (replicate 20 b)"

theorem token_supply_invariant_witness:
  "\<exists>s. sfold exec_token_op
     [Credit sample_token (sample_account 1) (Amount 10), Transfer sample_token (sample_account 1) (sample_account 2) (Amount 4)]
     Map.empty = (Inr (), s) \<and> supply_inv s"
proof -
  let ?a = "sample_account 1" and ?b = "sample_account 2"
  have typed: "tokens_typed Map.empty" using supply_inv_empty by (simp add: supply_inv_def)
  have ne: "?a \<noteq> ?b" by (simp add: sample_account_def)
  have vals: "amount_val (Amount 10) = 10" "amount_val (Amount 4) = 4" "\<And>k. key_amount Map.empty k = 0"
    by (simp_all add: amount_val_def key_amount_def)
  let ?s1 = "Map.empty(balance_key sample_token ?a \<mapsto> AmountVal (amount_of 10),
      minted_balance_key sample_token \<mapsto> AmountVal (amount_of 10)) :: storage"
  have c: "credit_tokens sample_token ?a (Amount 10) Map.empty = (Inr (), ?s1)"
    using credit_tokens_eq [OF typed, of sample_token ?a "Amount 10"] by (simp add: vals)
  have "fst (transfer sample_token ?a ?b (Amount 4) ?s1) = Inr ()"
    using ne typed by (simp add: transfer_eq tokens_typed_upd vals)
  then obtain s where t: "transfer sample_token ?a ?b (Amount 4) ?s1 = (Inr (), s)"
    by (cases "transfer sample_token ?a ?b (Amount 4) ?s1") simp
  have run: "sfold exec_token_op [Credit sample_token ?a (Amount 10), Transfer sample_token ?a ?b (Amount 4)] Map.empty = (Inr (), s)"
    by (simp add: c t)
  have "supply_inv s" using ne by (intro token_supply_invariant [OF run _ supply_inv_empty]) simp
  with run show ?thesis by blast
qed

text \<open>
  C38: A transfer from an account to itself, covered by its balance, does not leave the balance
  alone: the second write overwrites the first, so the balance grows by the amount while the
  recorded supply stays.
\<close>

theorem transfer_to_self_mints:
  assumes "tokens_typed s" "0 < amount_val amt" "amount_val amt \<le> bal s t a" "bal s t a + amount_val amt < 2 ^ 256"
  shows "fst (transfer t a a amt s) = Inr () \<and>
    bal (snd (transfer t a a amt s)) t a = bal s t a + amount_val amt \<and>
    minted (snd (transfer t a a amt s)) t = minted s t"
  using assms by (simp add: transfer_eq)

theorem transfer_to_self_mints_witness:
  "bal (snd (transfer sample_token (sample_account 1) (sample_account 1) (Amount 4)
     [balance_key sample_token (sample_account 1) \<mapsto> AmountVal (Amount 10)]))
     sample_token (sample_account 1) = 14"
proof -
  let ?s = "[balance_key sample_token (sample_account 1) \<mapsto> AmountVal (Amount 10)] :: storage"
  have "tokens_typed Map.empty" using supply_inv_empty by (simp add: supply_inv_def)
  then have "tokens_typed ?s" by (rule tokens_typed_upd)
  then show ?thesis
    using transfer_to_self_mints [of ?s "Amount 4" sample_token "sample_account 1"] by (simp add: amount_val_def)
qed

text \<open>
  Burning never fails while the supply accounts for the balances, and it removes
  the requested amount or, when that exceeds the balance, the whole balance, from the balance and
  the supply alike.
\<close>

theorem burn_tokens_exact:
  assumes "supply_inv s"
  shows "burn_tokens t a amt s =
    (Inr (), s(balance_key t a \<mapsto> AmountVal (amount_of (bal s t a - min (amount_val amt) (bal s t a))),
       minted_balance_key t \<mapsto> AmountVal (amount_of (minted s t - min (amount_val amt) (bal s t a)))))"
proof -
  have "tokens_typed s" "bal s t a \<le> minted s t"
    using bal_le_total [of s t a] assms by (simp_all add: supply_inv_def)
  then show ?thesis by (simp add: burn_tokens_eq)
qed

theorem burn_tokens_exact_witness:
  "fst (burn_tokens sample_token (sample_account 1) (Amount 3) Map.empty) = Inr ()"
  using burn_tokens_exact [OF supply_inv_empty, of sample_token "sample_account 1" "Amount 3"] by simp

lemma effective_supply_no_panic:
  assumes "supply_inv s"
  shows "get_effective_total_native_supply t s = (Inr (amount_of (minted s t - bal s t PGF)), s)"
  using assms bal_le_total [of s t PGF]
  by (simp add: get_effective_total_native_supply_def supply_inv_def read_total_supply_eq read_balance_eq
        Amount_checked_sub_eq)

end
