(* ===== verification/Collections.thy ===== *)
theory Collections
  imports Prelude "HOL-Library.AList" "HOL-Library.Char_ord" "HOL-Library.List_Lexorder"
begin

text \<open>
  The containers of the source. A hash map (an \<open>IndexMap\<close>, which keeps the order of insertion)
  is an association list updated in place; a \<open>BTreeMap\<close>, and a map in storage read through a
  prefix iterator, is an association list sorted by its keys. Both implement one interface,
  the locale \<open>map_container\<close>, where the facts on updates, unions and sums are proved once.
\<close>

section \<open>The interface\<close>

definition entry_sum :: "('k \<Rightarrow> 'v \<Rightarrow> 'n::comm_monoid_add) \<Rightarrow> ('k \<times> 'v) list \<Rightarrow> 'n" where
  "entry_sum f es = (\<Sum>(k, v)\<leftarrow>es. f k v)"

lemma entry_sum_dom:
  assumes "distinct (map fst es)"
  shows "entry_sum f es = (\<Sum>k\<in>dom (map_of es). f k (the (map_of es k)))"
  using assms
proof (induction es)
  case (Cons e es)
  obtain k v where e: "e = (k, v)" by force
  have k: "k \<notin> dom (map_of es)" using Cons.prems by (auto simp: e dom_map_of_conv_image_fst image_iff)
  have "(\<Sum>j\<in>insert k (dom (map_of es)). f j (the (map_of (e # es) j))) =
      f k v + (\<Sum>j\<in>dom (map_of es). f j (the (map_of (e # es) j)))"
    using k by (subst sum.insert) (simp_all add: e finite_dom_map_of)
  also have "(\<Sum>j\<in>dom (map_of es). f j (the (map_of (e # es) j))) = (\<Sum>j\<in>dom (map_of es). f j (the (map_of es j)))"
    using k by (intro sum.cong) (auto simp: e)
  also have "\<dots> = entry_sum f es" using Cons by simp
  finally have "(\<Sum>j\<in>insert k (dom (map_of es)). f j (the (map_of (e # es) j))) = entry_sum f (e # es)"
    by (simp add: e entry_sum_def)
  moreover have "dom (map_of (e # es)) = insert k (dom (map_of es))" by (auto simp: e)
  ultimately show ?case by (simp only:)
qed (simp add: entry_sum_def)

locale map_container =
  fixes get :: "'m \<Rightarrow> 'k \<Rightarrow> 'v option"
    and ins :: "'k \<Rightarrow> 'v \<Rightarrow> 'm \<Rightarrow> 'm"
    and rem :: "'k \<Rightarrow> 'm \<Rightarrow> 'm"
    and entries :: "'m \<Rightarrow> ('k \<times> 'v) list"
    and ok :: "'m \<Rightarrow> bool"
  assumes get_ins: "ok m \<Longrightarrow> get (ins k v m) = (get m)(k \<mapsto> v)"
    and get_rem: "ok m \<Longrightarrow> get (rem k m) = (get m)(k := None)"
    and ok_ins: "ok m \<Longrightarrow> ok (ins k v m)"
    and ok_rem: "ok m \<Longrightarrow> ok (rem k m)"
    and entries_get: "ok m \<Longrightarrow> map_of (entries m) = get m"
    and entries_distinct: "ok m \<Longrightarrow> distinct (map fst (entries m))"
begin

lemma ok_extend: "ok m \<Longrightarrow> ok (fold (\<lambda>(k, v). ins k v) es m)"
  by (induction es arbitrary: m) (auto simp: ok_ins)

lemma get_extend:
  "ok m \<Longrightarrow> distinct (map fst es) \<Longrightarrow> get (fold (\<lambda>(k, v). ins k v) es m) = get m ++ map_of es"
proof (induction es arbitrary: m)
  case (Cons e es)
  obtain k v where e: "e = (k, v)" by force
  have "map_of es k = None" using Cons.prems(2) by (simp add: e map_of_eq_None_iff)
  then have "(get m)(k \<mapsto> v) ++ map_of es = get m ++ map_of (e # es)"
    by (auto simp: e map_add_def fun_eq_iff split: option.split)
  moreover have "get (fold (\<lambda>(k, v). ins k v) es (ins k v m)) = (get m)(k \<mapsto> v) ++ map_of es"
    using Cons.prems(2) by (subst Cons.IH) (simp_all only: ok_ins Cons.prems(1) get_ins e list.map distinct.simps)
  ultimately show ?case by (simp only: e fold.simps comp_def case_prod_conv)
qed simp

lemma finite_get: "ok m \<Longrightarrow> finite (dom (get m))"
  by (metis entries_get finite_dom_map_of)

lemma sum_dom: "ok m \<Longrightarrow> entry_sum f (entries m) = (\<Sum>k\<in>dom (get m). f k (the (get m k)))"
  using entry_sum_dom [OF entries_distinct, of m f] by (simp add: entries_get)

lemma sum_ins_new:
  assumes "ok m" "get m k = None"
  shows "entry_sum f (entries (ins k v m)) = f k v + entry_sum f (entries m)"
proof -
  have "(\<Sum>j\<in>insert k (dom (get m)). f j (the (((get m)(k \<mapsto> v)) j))) =
      f k v + (\<Sum>j\<in>dom (get m). f j (the (((get m)(k \<mapsto> v)) j)))"
    using assms finite_get by (subst sum.insert) auto
  also have "(\<Sum>j\<in>dom (get m). f j (the (((get m)(k \<mapsto> v)) j))) = (\<Sum>j\<in>dom (get m). f j (the (get m j)))"
    using assms by (intro sum.cong) auto
  finally show ?thesis using assms by (simp add: sum_dom ok_ins get_ins)
qed

lemma sum_split:
  assumes "ok m" "get m k = Some v"
  shows "entry_sum f (entries m) = f k v + (\<Sum>j\<in>dom (get m) - {k}. f j (the (get m j)))"
proof -
  have "k \<in> dom (get m)" using assms(2) by auto
  then show ?thesis
    using sum.remove [OF finite_get [OF assms(1)], of k "\<lambda>j. f j (the (get m j))"] assms
    by (simp add: sum_dom)
qed

lemma sum_ins_old:
  assumes "ok m" "get m k = Some w"
  shows "entry_sum f (entries (ins k v m)) + f k w = entry_sum f (entries m) + f k v"
proof -
  have "entry_sum f (entries (ins k v m)) = f k v + (\<Sum>j\<in>dom (get (ins k v m)) - {k}. f j (the (get (ins k v m) j)))"
    using assms by (intro sum_split) (simp_all add: ok_ins get_ins)
  also have "(\<Sum>j\<in>dom (get (ins k v m)) - {k}. f j (the (get (ins k v m) j))) = (\<Sum>j\<in>dom (get m) - {k}. f j (the (get m j)))"
    using assms by (intro sum.cong) (auto simp: get_ins)
  finally show ?thesis using sum_split [OF assms, of f] by (simp add: ac_simps)
qed

lemma sum_rem:
  assumes "ok m" "get m k = Some w"
  shows "entry_sum f (entries (rem k m)) + f k w = entry_sum f (entries m)"
proof -
  have "entry_sum f (entries (rem k m)) = (\<Sum>j\<in>dom (get m) - {k}. f j (the (get m j)))"
    using assms by (simp add: sum_dom ok_rem get_rem)
  then show ?thesis using sum_split [OF assms, of f] by (simp add: ac_simps)
qed

lemma in_entries: "ok m \<Longrightarrow> (k, v) \<in> set (entries m) \<longleftrightarrow> get m k = Some v"
  by (metis entries_distinct entries_get map_of_eq_Some_iff)

end

section \<open>Hash maps\<close>

type_synonym ('k, 'v) index_map = "('k \<times> 'v) list"

definition im_ok :: "('k, 'v) index_map \<Rightarrow> bool" where
  "im_ok m \<longleftrightarrow> distinct (map fst m)"

definition im_extend :: "('k, 'v) index_map \<Rightarrow> ('k, 'v) index_map \<Rightarrow> ('k, 'v) index_map" where
  "im_extend m es = fold (\<lambda>(k, v). AList.update k v) es m"

interpretation im: map_container map_of AList.update AList.delete "\<lambda>m. m" im_ok
  by unfold_locales
     (simp_all add: im_ok_def update_conv' delete_conv' distinct_update distinct_delete)

lemma im_extend_get: "im_ok m \<Longrightarrow> im_ok es \<Longrightarrow> map_of (im_extend m es) = map_of m ++ map_of es"
  unfolding im_extend_def by (rule im.get_extend) (simp_all add: im_ok_def)

lemma im_extend_ok: "im_ok m \<Longrightarrow> im_ok (im_extend m es)"
  unfolding im_extend_def by (rule im.ok_extend)

lemma im_ok_Nil [simp]: "im_ok []"
  by (simp add: im_ok_def)

section \<open>Sorted maps\<close>

type_synonym ('k, 'v) btree_map = "('k \<times> 'v) list"

definition bt_ok :: "('k::linorder, 'v) btree_map \<Rightarrow> bool" where
  "bt_ok m \<longleftrightarrow> sorted_wrt (<) (map fst m)"

fun bt_insert :: "'k::linorder \<Rightarrow> 'v \<Rightarrow> ('k, 'v) btree_map \<Rightarrow> ('k, 'v) btree_map" where
  "bt_insert k v [] = [(k, v)]"
| "bt_insert k v ((j, w) # m) =
     (if k < j then (k, v) # (j, w) # m else if k = j then (k, v) # m else (j, w) # bt_insert k v m)"

definition bt_remove :: "'k::linorder \<Rightarrow> ('k, 'v) btree_map \<Rightarrow> ('k, 'v) btree_map" where
  "bt_remove k m = filter (\<lambda>e. fst e \<noteq> k) m"

definition bt_extend :: "('k::linorder, 'v) btree_map \<Rightarrow> ('k \<times> 'v) list \<Rightarrow> ('k, 'v) btree_map" where
  "bt_extend m es = fold (\<lambda>(k, v). bt_insert k v) es m"

lemma bt_ok_Nil [simp]: "bt_ok []"
  by (simp add: bt_ok_def)

lemma set_bt_insert: "fst ` set (bt_insert k v m) = insert k (fst ` set m)"
  by (induction k v m rule: bt_insert.induct) auto

lemma bt_ok_insert: "bt_ok m \<Longrightarrow> bt_ok (bt_insert k v m)"
proof (induction k v m rule: bt_insert.induct)
  case (2 k v j w m)
  have "\<forall>x\<in>fst ` set (bt_insert k v m). j < x" if "\<not> k < j" "k \<noteq> j"
    using 2(2) that by (auto simp: set_bt_insert bt_ok_def)
  then show ?case using 2 by (auto simp: bt_ok_def)
qed (simp add: bt_ok_def)

lemma bt_insert_last: "\<forall>j\<in>fst ` set m. j < k \<Longrightarrow> bt_insert k v m = m @ [(k, v)]"
  by (induction k v m rule: bt_insert.induct) auto

lemma map_of_bt_insert: "map_of (bt_insert k v m) = (map_of m)(k \<mapsto> v)"
proof (induction k v m rule: bt_insert.induct)
  case (2 k v j w m)
  then show ?case by (auto simp: fun_upd_twist)
qed simp

lemma map_of_bt_remove: "map_of (bt_remove k m) = (map_of m)(k := None)"
  unfolding bt_remove_def by (induction m) auto

lemma bt_ok_distinct: "bt_ok m \<Longrightarrow> distinct (map fst m)"
  unfolding bt_ok_def by (simp add: strict_sorted_iff)

interpretation bt: map_container map_of bt_insert bt_remove "\<lambda>m. m" bt_ok
proof
  fix m :: "('k::linorder \<times> 'v) list" and k v
  assume ok: "bt_ok m"
  show "map_of (bt_insert k v m) = (map_of m)(k \<mapsto> v)" by (rule map_of_bt_insert)
  show "map_of (bt_remove k m) = (map_of m)(k := None)" by (rule map_of_bt_remove)
  show "bt_ok (bt_insert k v m)" using ok by (rule bt_ok_insert)
  show "bt_ok (bt_remove k m)"
    using ok by (simp add: bt_ok_def bt_remove_def sorted_wrt_map sorted_wrt_filter)
  show "distinct (map fst m)" using ok by (rule bt_ok_distinct)
  show "map_of m = map_of m" ..
qed

lemma bt_extend_get: "bt_ok m \<Longrightarrow> distinct (map fst es) \<Longrightarrow> map_of (bt_extend m es) = map_of m ++ map_of es"
  unfolding bt_extend_def by (rule bt.get_extend)

lemma bt_extend_ok: "bt_ok m \<Longrightarrow> bt_ok (bt_extend m es)"
  unfolding bt_extend_def by (rule bt.ok_extend)

end
