(* ===== verification/MultitokenVp.thy ===== *)
theory MultitokenVp
  imports TransToken Collections
begin

text \<open>
  The native validity predicate of the multitoken account
  (\<open>namada/src/ledger/native_vp/multitoken.rs\<close>), with what it calls of governance
  (\<open>is_proposal_accepted\<close>) and of the protocol parameters (\<open>is_native_token_transferable\<close>).
  It sees the storage before and after the transaction, the changed keys in order and the
  addresses whose predicates run on the transaction.
\<close>

section \<open>The predicate\<close>

datatype vp_error =
    NativeDepositNotAllowed | NativeWithdrawNotAllowed | NativeMintNotAllowed | OverflowedInBalanceCheck
  | UnexpectedChange "Address Key" | TokenMustVerify Address | UnbalancedChanges
  | IbcVpNotTriggered | OnlyIbcMints | MintedNonIbcToken Address
  | ParameterNeedsTxData | ParameterNeedsProposal | MissingTransferableParameter
  | VpReadError | VpPanicked

record vp_ctx =
  pre :: storage
  post :: storage
  native_token :: Address
  verifiers :: "Address set"
  tx_data :: "u8 list option"

definition native_token_transferable_key :: "Address Key" where
  "native_token_transferable_key =
     \<lparr>segments = [AddressSeg (Internal Parameters), StringSeg ''native_token_transferable'']\<rparr>"

definition is_native_token_transferable :: "storage \<Rightarrow> vp_error + bool" where
  "is_native_token_transferable s =
     (case s native_token_transferable_key of
        None \<Rightarrow> Inl MissingTransferableParameter
      | Some (BoolVal b) \<Rightarrow> Inr b
      | Some _ \<Rightarrow> Inl VpReadError)"

definition get_proposal_execution_key :: "u64 \<Rightarrow> Address Key" where
  "get_proposal_execution_key i =
     \<lparr>segments = [AddressSeg GOV, StringSeg ''pending'', StringSeg (dec_string (unat i))]\<rparr>"

definition u64_try_from_slice :: "u8 list \<Rightarrow> u64 option" where
  "u64_try_from_slice bytes =
     (if length bytes = 8 then Some (of_nat (foldr (\<lambda>b n. unat b + 256 * n) bytes 0)) else None)"

definition is_proposal_accepted :: "storage \<Rightarrow> u8 list \<Rightarrow> bool" where
  "is_proposal_accepted s dat =
     (case u64_try_from_slice dat of
        Some i \<Rightarrow> s (get_proposal_execution_key i) \<noteq> None
      | None \<Rightarrow> False)"

definition read_vp :: "storage \<Rightarrow> Address Key \<Rightarrow> vp_error + Amount" where
  "read_vp s key =
     (case decode_amount (s key) of Inl _ \<Rightarrow> Inl VpReadError | Inr m \<Rightarrow> Inr (unwrap_or_default m))"

definition is_valid_minter :: "vp_ctx \<Rightarrow> Address \<Rightarrow> vp_error + unit" where
  "is_valid_minter ctx token =
     (case token of
        Internal (IbcToken _) \<Rightarrow>
          (case post ctx (minter_key token) of
             Some (AddressVal minter) \<Rightarrow>
               if minter = IBC
               then (if minter \<in> verifiers ctx then Inr () else Inl IbcVpNotTriggered)
               else Inl OnlyIbcMints
           | None \<Rightarrow> Inl OnlyIbcMints
           | Some _ \<Rightarrow> Inl VpReadError)
      | _ \<Rightarrow> Inl (MintedNonIbcToken token))"

definition is_valid_parameter :: "vp_ctx \<Rightarrow> vp_error + unit" where
  "is_valid_parameter ctx =
     (case tx_data ctx of
        None \<Rightarrow> Inl ParameterNeedsTxData
      | Some dat \<Rightarrow> if is_proposal_accepted (pre ctx) dat then Inr () else Inl ParameterNeedsProposal)"

record token_changes =
  inc_changes :: "(Address, Amount) index_map"
  dec_changes :: "(Address, Amount) index_map"
  inc_mints :: "(Address, Amount) index_map"
  dec_mints :: "(Address, Amount) index_map"

definition no_changes :: token_changes where
  "no_changes = \<lparr>inc_changes = [], dec_changes = [], inc_mints = [], dec_mints = []\<rparr>"

text \<open>\<open>map.entry(token).or_default()\<close> followed by the checked addition.\<close>

definition add_change :: "Address \<Rightarrow> Amount \<Rightarrow> (Address, Amount) index_map \<Rightarrow> vp_error + (Address, Amount) index_map" where
  "add_change token diff m =
     rbind (ok_or (Amount_checked_add (unwrap_or_default (map_of m token)) diff) OverflowedInBalanceCheck) (\<lambda>a.
     Inr (AList.update token a m))"

definition is_allowed_inc :: "vp_ctx \<Rightarrow> bool \<Rightarrow> Address \<Rightarrow> Address \<Rightarrow> bool" where
  "is_allowed_inc ctx transferable token target \<longleftrightarrow>
     token \<noteq> native_token ctx \<or> transferable \<or> target = POS \<or> target = GOV"

definition is_allowed_dec :: "vp_ctx \<Rightarrow> bool \<Rightarrow> Address \<Rightarrow> Address \<Rightarrow> bool" where
  "is_allowed_dec ctx transferable token target \<longleftrightarrow>
     token \<noteq> native_token ctx \<or> transferable \<or> (target \<noteq> POS \<and> target \<noteq> GOV)"

definition check_balance_key ::
    "vp_ctx \<Rightarrow> bool \<Rightarrow> Address Key \<Rightarrow> Address \<Rightarrow> Address \<Rightarrow> token_changes \<Rightarrow> vp_error + token_changes" where
  "check_balance_key ctx transferable key token owner ch =
     rbind (read_vp (pre ctx) key) (\<lambda>p.
     rbind (read_vp (post ctx) key) (\<lambda>q.
     case Amount_checked_sub q p of
       Some diff \<Rightarrow>
         if \<not> is_allowed_inc ctx transferable token owner then Inl NativeDepositNotAllowed
         else rbind (add_change token diff (inc_changes ch)) (\<lambda>m. Inr (ch\<lparr>inc_changes := m\<rparr>))
     | None \<Rightarrow>
         if \<not> is_allowed_dec ctx transferable token owner then Inl NativeWithdrawNotAllowed
         else
           rbind (ok_or (Amount_checked_sub p q) VpPanicked) (\<lambda>diff.
           rbind (add_change token diff (dec_changes ch)) (\<lambda>m. Inr (ch\<lparr>dec_changes := m\<rparr>)))))"

definition check_minted_key ::
    "vp_ctx \<Rightarrow> bool \<Rightarrow> Address Key \<Rightarrow> Address \<Rightarrow> token_changes \<Rightarrow> vp_error + token_changes" where
  "check_minted_key ctx transferable key token ch =
     (if token = native_token ctx \<and> \<not> transferable then Inl NativeMintNotAllowed
      else
        rbind (read_vp (pre ctx) key) (\<lambda>p.
        rbind (read_vp (post ctx) key) (\<lambda>q.
        rbind
          (case Amount_checked_sub q p of
             Some diff \<Rightarrow> rbind (add_change token diff (inc_mints ch)) (\<lambda>m. Inr (ch\<lparr>inc_mints := m\<rparr>))
           | None \<Rightarrow>
               rbind (ok_or (Amount_checked_sub p q) VpPanicked) (\<lambda>diff.
               rbind (add_change token diff (dec_mints ch)) (\<lambda>m. Inr (ch\<lparr>dec_mints := m\<rparr>))))
          (\<lambda>ch'. rbind (is_valid_minter ctx token) (\<lambda>_. Inr ch')))))"

text \<open>
  The loop over the changed keys. A changed token parameter ends the predicate with the verdict
  on that parameter: \<open>Inr None\<close> is that early acceptance.
\<close>

fun check_keys :: "vp_ctx \<Rightarrow> bool \<Rightarrow> Address Key list \<Rightarrow> token_changes \<Rightarrow> vp_error + token_changes option" where
  "check_keys ctx transferable [] ch = Inr (Some ch)"
| "check_keys ctx transferable (key # keys) ch =
     (case is_any_token_balance_key key of
        Some (token, owner) \<Rightarrow>
          rbind (check_balance_key ctx transferable key token owner ch) (check_keys ctx transferable keys)
      | None \<Rightarrow>
     (case is_any_minted_balance_key key of
        Some token \<Rightarrow>
          rbind (check_minted_key ctx transferable key token ch) (check_keys ctx transferable keys)
      | None \<Rightarrow>
     (case is_any_minter_key key of
        Some token \<Rightarrow> rbind (is_valid_minter ctx token) (\<lambda>_. check_keys ctx transferable keys ch)
      | None \<Rightarrow>
     (case is_any_token_parameter_key key of
        Some _ \<Rightarrow> rbind (is_valid_parameter ctx) (\<lambda>_. Inr None)
      | None \<Rightarrow>
          if fst_address key = Some MULTITOKEN then Inl (UnexpectedChange key)
          else check_keys ctx transferable keys ch))))"

definition changed_tokens :: "token_changes \<Rightarrow> Address list" where
  "changed_tokens ch =
     remdups (map fst (inc_changes ch) @ map fst (dec_changes ch) @ map fst (inc_mints ch) @ map fst (dec_mints ch))"

definition get_change :: "(Address, Amount) index_map \<Rightarrow> Address \<Rightarrow> Amount" where
  "get_change m token = unwrap_or_default (map_of m token)"

definition changes_balanced :: "token_changes \<Rightarrow> Address \<Rightarrow> bool" where
  "changes_balanced ch token =
     (let inc_change = get_change (inc_changes ch) token;
          dec_change = get_change (dec_changes ch) token;
          inc_mint = get_change (inc_mints ch) token;
          dec_mint = get_change (dec_mints ch) token
      in if dec_change \<le> inc_change \<and> dec_mint \<le> inc_mint
         then Amount_checked_sub inc_change dec_change = Amount_checked_sub inc_mint dec_mint
         else if (inc_change < dec_change \<and> dec_mint \<le> inc_mint) \<or> (dec_change \<le> inc_change \<and> inc_mint < dec_mint)
         then False
         else Amount_checked_sub dec_change inc_change = Amount_checked_sub dec_mint inc_mint)"

definition is_nut :: "Address \<Rightarrow> bool" where
  "is_nut token = (case token of Internal (Nut _) \<Rightarrow> True | _ \<Rightarrow> False)"

definition check_token :: "vp_ctx \<Rightarrow> token_changes \<Rightarrow> Address \<Rightarrow> vp_error + unit" where
  "check_token ctx ch token =
     (if Address_is_internal token \<and> is_nut token \<and> token \<notin> verifiers ctx then Inl (TokenMustVerify token)
      else if changes_balanced ch token then Inr () else Inl UnbalancedChanges)"

definition validate_tx :: "vp_ctx \<Rightarrow> Address Key list \<Rightarrow> vp_error + unit" where
  "validate_tx ctx keys_changed =
     rbind (is_native_token_transferable (pre ctx)) (\<lambda>transferable.
     rbind (check_keys ctx transferable keys_changed no_changes) (\<lambda>res.
     case res of
       None \<Rightarrow> Inr ()
     | Some ch \<Rightarrow> rfold (\<lambda>_ token. check_token ctx ch token) () (changed_tokens ch)))"

section \<open>What an accepted transaction did to the balances\<close>

definition net_change :: "token_changes \<Rightarrow> Address \<Rightarrow> int" where
  "net_change ch t = int (amount_val (get_change (inc_changes ch) t)) - int (amount_val (get_change (dec_changes ch) t))"

definition net_mint :: "token_changes \<Rightarrow> Address \<Rightarrow> int" where
  "net_mint ch t = int (amount_val (get_change (inc_mints ch) t)) - int (amount_val (get_change (dec_mints ch) t))"

definition key_diff :: "vp_ctx \<Rightarrow> Address Key \<Rightarrow> int" where
  "key_diff ctx k = int (key_amount (post ctx) k) - int (key_amount (pre ctx) k)"

lemma changes_balanced_iff: "changes_balanced ch t \<longleftrightarrow> net_change ch t = net_mint ch t"
proof -
  have sub: "Amount_checked_sub a b = Amount_checked_sub c d \<longleftrightarrow>
      int (amount_val a) - int (amount_val b) = int (amount_val c) - int (amount_val d)"
    if "amount_val b \<le> amount_val a" "amount_val d \<le> amount_val c" for a b c d
  proof -
    have "amount_val a - amount_val b < 2 ^ 256" "amount_val c - amount_val d < 2 ^ 256"
      using amount_val_lt [of a] amount_val_lt [of c] by linarith+
    then have "amount_of (amount_val a - amount_val b) = amount_of (amount_val c - amount_val d) \<longleftrightarrow>
        amount_val a - amount_val b = amount_val c - amount_val d"
      by (metis amount_val_of)
    then show ?thesis using that by (simp add: Amount_checked_sub_eq) linarith
  qed
  show ?thesis
    by (auto simp: changes_balanced_def Let_def net_change_def net_mint_def amount_le_iff amount_less_iff sub)
qed

lemma add_change_get:
  assumes "add_change t d m = Inr m'"
  shows "amount_val (get_change m' u) = amount_val (get_change m u) + (if u = t then amount_val d else 0)"
proof -
  obtain a where a: "Amount_checked_add (get_change m t) d = Some a" "m' = AList.update t a m"
    using assms by (auto simp: add_change_def get_change_def result_simps)
  then have "amount_val a = amount_val (get_change m t) + amount_val d" by (simp add: checked_unat)
  then show ?thesis by (simp add: a(2) get_change_def update_conv' unwrap_or_default_def)
qed

lemma read_vp_Inr: "read_vp s k = Inr a \<Longrightarrow> amount_val a = key_amount s k"
  by (auto simp: read_vp_def decode_amount_def key_amount_def unwrap_or_default_def
      split: option.splits storage_value.splits sum.splits)

lemma amount_diff_cases:
  assumes "read_vp (pre ctx) k = Inr p" "read_vp (post ctx) k = Inr q"
  shows "case Amount_checked_sub q p of
      Some d \<Rightarrow> int (amount_val d) = key_diff ctx k
    | None \<Rightarrow> \<exists>d. Amount_checked_sub p q = Some d \<and> int (amount_val d) = - key_diff ctx k"
proof (cases "Amount_checked_sub q p")
  case None
  then have lt: "amount_val q < amount_val p" by (simp add: Amount_checked_sub_eq split: if_splits)
  obtain d where d: "Amount_checked_sub p q = Some d" using lt by (simp add: Amount_checked_sub_eq)
  then have "amount_val p = amount_val q + amount_val d" by (simp only: checked_unat)
  then show ?thesis using assms [THEN read_vp_Inr] None d by (simp add: key_diff_def)
next
  case (Some d)
  then have "amount_val q = amount_val p + amount_val d" by (simp only: checked_unat)
  then show ?thesis using assms [THEN read_vp_Inr] Some by (simp add: key_diff_def)
qed

lemma check_balance_key_net:
  assumes "check_balance_key ctx tr k t a ch = Inr ch'"
  shows "net_change ch' u = net_change ch u + (if u = t then key_diff ctx k else 0) \<and> net_mint ch' u = net_mint ch u"
proof -
  obtain p q where pq: "read_vp (pre ctx) k = Inr p" "read_vp (post ctx) k = Inr q"
    using assms by (auto simp: check_balance_key_def result_simps)
  note diff = amount_diff_cases [OF pq]
  show ?thesis
  proof (cases "Amount_checked_sub q p")
    case None
    then obtain d where d: "Amount_checked_sub p q = Some d" "int (amount_val d) = - key_diff ctx k"
      using diff by auto
    then obtain m where "add_change t d (dec_changes ch) = Inr m" "ch' = ch\<lparr>dec_changes := m\<rparr>"
      using assms pq None by (auto simp: check_balance_key_def result_simps split: if_splits)
    then show ?thesis using add_change_get [of t d "dec_changes ch" m u] d by (simp add: net_change_def net_mint_def)
  next
    case (Some d)
    then obtain m where "add_change t d (inc_changes ch) = Inr m" "ch' = ch\<lparr>inc_changes := m\<rparr>"
      using assms pq by (auto simp: check_balance_key_def result_simps split: if_splits)
    then show ?thesis using add_change_get [of t d "inc_changes ch" m u] diff Some by (simp add: net_change_def net_mint_def)
  qed
qed

lemma check_minted_key_net:
  assumes "check_minted_key ctx tr k t ch = Inr ch'"
  shows "net_mint ch' u = net_mint ch u + (if u = t then key_diff ctx k else 0) \<and> net_change ch' u = net_change ch u"
proof -
  obtain p q where pq: "read_vp (pre ctx) k = Inr p" "read_vp (post ctx) k = Inr q"
    using assms by (auto simp: check_minted_key_def result_simps split: if_splits)
  note diff = amount_diff_cases [OF pq]
  show ?thesis
  proof (cases "Amount_checked_sub q p")
    case None
    then obtain d where d: "Amount_checked_sub p q = Some d" "int (amount_val d) = - key_diff ctx k"
      using diff by auto
    then obtain m where "add_change t d (dec_mints ch) = Inr m" "ch' = ch\<lparr>dec_mints := m\<rparr>"
      using assms pq None by (auto simp: check_minted_key_def result_simps split: if_splits)
    then show ?thesis using add_change_get [of t d "dec_mints ch" m u] d by (simp add: net_change_def net_mint_def)
  next
    case (Some d)
    then obtain m where "add_change t d (inc_mints ch) = Inr m" "ch' = ch\<lparr>inc_mints := m\<rparr>"
      using assms pq by (auto simp: check_minted_key_def result_simps split: if_splits)
    then show ?thesis using add_change_get [of t d "inc_mints ch" m u] diff Some by (simp add: net_change_def net_mint_def)
  qed
qed

lemma balance_keys_conv: "k \<in> balance_keys u \<longleftrightarrow> (\<exists>a. is_any_token_balance_key k = Some (u, a))"
  by (auto simp: balance_keys_def)

lemma minted_not_balance: "is_any_token_balance_key (minted_balance_key u) = None"
  by (metis is_any_token_balance_key_iff not_None_eq surj_pair token_key_disjoint(2))

definition changed_balances :: "vp_ctx \<Rightarrow> Address Key list \<Rightarrow> Address \<Rightarrow> int" where
  "changed_balances ctx keys u = (\<Sum>k\<leftarrow>keys. if k \<in> balance_keys u then key_diff ctx k else 0)"

definition changed_mints :: "vp_ctx \<Rightarrow> Address Key list \<Rightarrow> Address \<Rightarrow> int" where
  "changed_mints ctx keys u = (\<Sum>k\<leftarrow>keys. if k = minted_balance_key u then key_diff ctx k else 0)"

lemma check_keys_net:
  assumes "check_keys ctx tr keys ch = Inr (Some ch')"
  shows "net_change ch' u = net_change ch u + changed_balances ctx keys u \<and>
    net_mint ch' u = net_mint ch u + changed_mints ctx keys u"
  using assms
proof (induction keys arbitrary: ch)
  case Nil
  then show ?case by (simp add: changed_balances_def changed_mints_def)
next
  case (Cons k keys)
  note sums = changed_balances_def changed_mints_def
  show ?case
  proof (cases "is_any_token_balance_key k")
    case (Some p)
    then obtain t a where k: "k = balance_key t a" "is_any_token_balance_key k = Some (t, a)"
      by (cases p) auto
    with Cons.prems obtain ch1 where ch1: "check_balance_key ctx tr k t a ch = Inr ch1"
        "check_keys ctx tr keys ch1 = Inr (Some ch')"
      by (auto simp: result_simps)
    then show ?thesis
      using Cons.IH [OF ch1(2)] check_balance_key_net [OF ch1(1), of u] by (simp add: sums k(1))
  next
    case nb: None
    then have notbal: "k \<notin> balance_keys u" by (simp add: balance_keys_conv)
    show ?thesis
    proof (cases "is_any_minted_balance_key k")
      case (Some t)
      with Cons.prems nb obtain ch1 where ch1: "check_minted_key ctx tr k t ch = Inr ch1"
          "check_keys ctx tr keys ch1 = Inr (Some ch')"
        by (auto simp: result_simps)
      then show ?thesis
        using Cons.IH [OF ch1(2)] check_minted_key_net [OF ch1(1), of u] Some notbal by (auto simp: sums)
    next
      case nm: None
      then have "k \<noteq> minted_balance_key u" by (metis is_any_minted_balance_key_iff option.distinct(1))
      moreover have "check_keys ctx tr keys ch = Inr (Some ch')"
        using Cons.prems nb nm by (auto simp: result_simps split: option.splits if_splits)
      ultimately show ?thesis using Cons.IH notbal by (simp add: sums)
    qed
  qed
qed

lemma rfold_unit_Inr: "rfold (\<lambda>_ x. f x) () xs = Inr () \<longleftrightarrow> (\<forall>x\<in>set xs. f x = Inr ())"
  by (induction xs) (auto simp: result_simps)

lemma not_changed_tokens:
  assumes "t \<notin> set (changed_tokens ch)"
  shows "net_change ch t = 0 \<and> net_mint ch t = 0"
  using assms
  by (auto simp: changed_tokens_def net_change_def net_mint_def get_change_def unwrap_or_default_def
      map_of_eq_None_iff image_iff dest!: map_of_SomeD split: option.splits)

lemma check_keys_no_parameter:
  "\<forall>k\<in>set keys. is_any_token_parameter_key k = None \<Longrightarrow> check_keys ctx tr keys ch = Inr r \<Longrightarrow> r \<noteq> None"
  by (induction keys arbitrary: ch) (auto simp: result_simps split: option.splits if_splits)

lemma key_diff_unchanged:
  "\<forall>k. pre ctx k \<noteq> post ctx k \<longrightarrow> k \<in> set keys \<Longrightarrow> k \<notin> set keys \<Longrightarrow> key_diff ctx k = 0"
  unfolding key_diff_def key_amount_def by (metis diff_self)

lemma changed_balances_total:
  assumes "distinct keys" "\<forall>k. pre ctx k \<noteq> post ctx k \<longrightarrow> k \<in> set keys" "finite (dom (pre ctx))" "finite (dom (post ctx))"
  shows "changed_balances ctx keys t = int (total_balance (post ctx) t) - int (total_balance (pre ctx) t)"
proof -
  let ?A = "dom (pre ctx) \<union> dom (post ctx) \<union> set keys" and ?B = "balance_keys t"
  have fin: "finite ?A" using assms(3,4) by simp
  have "total_balance (post ctx) t = sum (key_amount (post ctx)) (?A \<inter> ?B)"
      "total_balance (pre ctx) t = sum (key_amount (pre ctx)) (?A \<inter> ?B)"
    using fin by (auto intro!: total_balance_superset)
  then have "int (total_balance (post ctx) t) - int (total_balance (pre ctx) t) = sum (key_diff ctx) (?A \<inter> ?B)"
    by (simp add: key_diff_def sum_subtractf)
  also have "\<dots> = sum (key_diff ctx) (set keys \<inter> ?B)"
    using fin by (intro sum.mono_neutral_right) (auto intro: ccontr dest: key_diff_unchanged [OF assms(2)])
  also have "\<dots> = (\<Sum>k\<in>set keys. if k \<in> ?B then key_diff ctx k else 0)"
    by (simp add: sum.inter_restrict)
  also have "\<dots> = changed_balances ctx keys t"
    unfolding changed_balances_def using assms(1) by (simp add: sum_list_distinct_conv_sum_set)
  finally show ?thesis by simp
qed

lemma changed_mints_total:
  assumes "distinct keys" "\<forall>k. pre ctx k \<noteq> post ctx k \<longrightarrow> k \<in> set keys"
  shows "changed_mints ctx keys t = int (minted (post ctx) t) - int (minted (pre ctx) t)"
proof -
  have "changed_mints ctx keys t = (\<Sum>k\<in>set keys. if k = minted_balance_key t then key_diff ctx k else 0)"
    unfolding changed_mints_def using assms(1) by (simp add: sum_list_distinct_conv_sum_set)
  also have "\<dots> = (if minted_balance_key t \<in> set keys then key_diff ctx (minted_balance_key t) else 0)"
    by simp
  also have "\<dots> = key_diff ctx (minted_balance_key t)"
    by (simp add: key_diff_unchanged [OF assms(2)])
  finally show ?thesis by (simp add: key_diff_def)
qed

lemma validate_tx_net:
  assumes "validate_tx ctx keys = Inr ()" "\<forall>k\<in>set keys. is_any_token_parameter_key k = None"
  shows "changed_balances ctx keys t = changed_mints ctx keys t"
proof -
  obtain tr r where r: "check_keys ctx tr keys no_changes = Inr r"
      "(case r of None \<Rightarrow> Inr () | Some ch \<Rightarrow> rfold (\<lambda>_. check_token ctx ch) () (changed_tokens ch)) = Inr ()"
    using assms(1) by (auto simp: validate_tx_def result_simps)
  then obtain ch where ch: "r = Some ch" using check_keys_no_parameter [OF assms(2) r(1)] by auto
  have zero: "net_change no_changes t = 0" "net_mint no_changes t = 0"
    by (simp_all add: net_change_def net_mint_def no_changes_def)
  have "net_change ch t = net_mint ch t"
  proof (cases "t \<in> set (changed_tokens ch)")
    case True
    then have "check_token ctx ch t = Inr ()" using r(2) by (simp add: ch rfold_unit_Inr)
    then show ?thesis by (simp add: check_token_def changes_balanced_iff split: if_splits)
  qed (simp add: not_changed_tokens)
  then show ?thesis using check_keys_net [OF r(1) [unfolded ch], of t] zero by simp
qed

text \<open>
  C1: When the multitoken predicate accepts a transaction whose changed keys hold no token
  parameter, every token is conserved over the whole storage: the sum of its balances moved by
  exactly as much as its recorded supply.
\<close>

theorem multitoken_vp_conserves:
  assumes "validate_tx ctx keys = Inr ()" "distinct keys" "\<forall>k. pre ctx k \<noteq> post ctx k \<longrightarrow> k \<in> set keys"
    "\<forall>k\<in>set keys. is_any_token_parameter_key k = None" "finite (dom (pre ctx))" "finite (dom (post ctx))"
  shows "int (total_balance (post ctx) t) - int (total_balance (pre ctx) t) =
    int (minted (post ctx) t) - int (minted (pre ctx) t)"
  using validate_tx_net [OF assms(1,4), of t] changed_balances_total [OF assms(2,3,5,6), of t]
    changed_mints_total [OF assms(2,3), of t]
  by simp

section \<open>Transfers against the predicate\<close>

text \<open>The storage a transfer runs in: typed, with the parameter that makes the native token transferable set.\<close>

definition vp_storage :: "bool \<Rightarrow> storage \<Rightarrow> bool" where
  "vp_storage tr s \<longleftrightarrow> tokens_typed s \<and> s native_token_transferable_key = Some (BoolVal tr)"

lemma is_native_token_transferable_eq: "vp_storage tr s \<Longrightarrow> is_native_token_transferable s = Inr tr"
  by (simp add: vp_storage_def is_native_token_transferable_def)

lemma read_vp_typed: "tokens_typed s \<Longrightarrow> read_vp s (balance_key t a) = Inr (amount_of (bal s t a))"
  using decode_amount_cases [of s "balance_key t a"] by (auto simp: tokens_typed_def read_vp_def)

lemma check_balance_key_ok:
  assumes "tokens_typed (pre ctx)" "tokens_typed (post ctx)" "is_allowed_inc ctx tr t a" "is_allowed_dec ctx tr t a"
    "amount_val (get_change (inc_changes ch) t) + bal (post ctx) t a < 2 ^ 256"
    "amount_val (get_change (dec_changes ch) t) + bal (pre ctx) t a < 2 ^ 256"
  shows "\<exists>ch'. check_balance_key ctx tr (balance_key t a) t a ch = Inr ch'"
  using assms
  by (auto simp: check_balance_key_def read_vp_typed Amount_checked_sub_eq key_amount_lt add_change_def
      get_change_def Amount_checked_add_eq)

lemma add_change_new: "map_of m t = None \<Longrightarrow> add_change t d m = Inr (AList.update t d m)"
  using Amount_checked_add_Some [of Amount_zero d d] by (simp add: add_change_def unwrap_or_default_def)

lemma sub_keys:
  assumes "key_amount s k = key_amount s' k' + n"
  shows "Amount_checked_sub (amount_of (key_amount s k)) (amount_of (key_amount s' k')) = Some (amount_of n)"
    and "0 < n \<Longrightarrow> Amount_checked_sub (amount_of (key_amount s' k')) (amount_of (key_amount s k)) = None"
proof -
  have "n < 2 ^ 256" using key_amount_lt [of s k] assms by linarith
  then have "amount_val (amount_of n) = n" by (rule amount_val_of)
  then show "Amount_checked_sub (amount_of (key_amount s k)) (amount_of (key_amount s' k')) = Some (amount_of n)"
    unfolding checked_unat amount_val_of_key using assms by simp
  show "Amount_checked_sub (amount_of (key_amount s' k')) (amount_of (key_amount s k)) = None" if "0 < n"
    unfolding Amount_checked_sub_eq amount_val_of_key using that assms by simp
qed

lemma check_balance_inc:
  assumes "tokens_typed (pre ctx)" "tokens_typed (post ctx)" "is_allowed_inc ctx tr t a"
    "bal (post ctx) t a = bal (pre ctx) t a + n" "map_of (inc_changes ch) t = None"
  shows "check_balance_key ctx tr (balance_key t a) t a ch = Inr (ch\<lparr>inc_changes := AList.update t (amount_of n) (inc_changes ch)\<rparr>)"
  by (simp add: check_balance_key_def read_vp_typed [OF assms(1)] read_vp_typed [OF assms(2)] sub_keys(1) [OF assms(4)]
      add_change_new [OF assms(5)] assms(3))

lemma check_balance_dec:
  assumes "tokens_typed (pre ctx)" "tokens_typed (post ctx)" "is_allowed_dec ctx tr t a"
    "bal (pre ctx) t a = bal (post ctx) t a + n" "0 < n" "map_of (dec_changes ch) t = None"
  shows "check_balance_key ctx tr (balance_key t a) t a ch = Inr (ch\<lparr>dec_changes := AList.update t (amount_of n) (dec_changes ch)\<rparr>)"
  by (simp add: check_balance_key_def read_vp_typed [OF assms(1)] read_vp_typed [OF assms(2)] sub_keys(1) [OF assms(4)]
      sub_keys(2) [OF assms(4,5)] add_change_new [OF assms(6)] assms(3))

lemma balanced_pair:
  assumes "inc_changes ch = [(t, a)]" "dec_changes ch = [(t, a)]" "inc_mints ch = []" "dec_mints ch = []"
    "is_nut t \<longrightarrow> t \<in> verifiers ctx"
  shows "rfold (\<lambda>_. check_token ctx ch) () (changed_tokens ch) = Inr ()"
  using assms
  by (auto simp: changed_tokens_def check_token_def changes_balanced_iff net_change_def net_mint_def get_change_def
      rfold_unit_Inr unwrap_or_default_def)

lemma transfer_validates:
  assumes "vp_storage tr (pre ctx)" "transfer t src dest amt (pre ctx) = (Inr (), post ctx)" "src \<noteq> dest" "amt \<noteq> Amount_zero"
    "is_allowed_dec ctx tr t src" "is_allowed_inc ctx tr t dest" "is_nut t \<longrightarrow> t \<in> verifiers ctx"
    "keys = [balance_key t src, balance_key t dest] \<or> keys = [balance_key t dest, balance_key t src]"
  shows "validate_tx ctx keys = Inr ()"
proof -
  have typed: "tokens_typed (pre ctx)" using assms(1) by (simp add: vp_storage_def)
  have pos: "0 < amount_val amt" using assms(4) by (simp add: amount_eq_iff)
  have ok: "amount_val amt \<le> bal (pre ctx) t src" "bal (pre ctx) t dest + amount_val amt < 2 ^ 256" and
    post: "post ctx = (pre ctx)(balance_key t src \<mapsto> AmountVal (amount_of (bal (pre ctx) t src - amount_val amt)),
                      balance_key t dest \<mapsto> AmountVal (amount_of (bal (pre ctx) t dest + amount_val amt)))"
    using assms(2) pos by (auto simp: transfer_eq [OF typed] split: if_splits)
  have typed': "tokens_typed (post ctx)" using typed by (simp add: post tokens_typed_upd)
  have "bal (pre ctx) t src - amount_val amt < 2 ^ 256"
    using key_amount_lt [of "pre ctx" "balance_key t src"] by linarith
  then have bals: "bal (pre ctx) t src = bal (post ctx) t src + amount_val amt" "bal (post ctx) t dest = bal (pre ctx) t dest + amount_val amt"
    using ok assms(3) unfolding post by (simp_all add: key_amount_def)
  note dec = check_balance_dec [OF typed typed' assms(5) bals(1) pos]
  note inc = check_balance_inc [OF typed typed' assms(6) bals(2)]
  let ?ch = "\<lparr>inc_changes = [(t, amt)], dec_changes = [(t, amt)], inc_mints = [], dec_mints = []\<rparr>"
  have "check_keys ctx tr keys no_changes = Inr (Some ?ch)"
    using assms(8) dec inc by (auto simp: no_changes_def)
  then show ?thesis
    using balanced_pair [of ?ch t amt ctx] assms(7)
    by (simp add: validate_tx_def is_native_token_transferable_eq [OF assms(1)])
qed

text \<open>
  The predicate accepts what an honest transfer did: a successful transfer between two
  accounts that the rules for the native token allow passes, in whichever order its two balance
  keys are examined.
\<close>

theorem transfer_accepted:
  assumes "vp_storage tr (pre ctx)" "transfer t src dest amt (pre ctx) = (Inr (), post ctx)" "src \<noteq> dest" "amt \<noteq> Amount_zero"
    "is_allowed_dec ctx tr t src" "is_allowed_inc ctx tr t dest" "is_nut t \<longrightarrow> t \<in> verifiers ctx"
    "keys = [balance_key t src, balance_key t dest] \<or> keys = [balance_key t dest, balance_key t src]"
  shows "validate_tx ctx keys = Inr ()"
  using assms by (rule transfer_validates)


definition sample_pre :: storage where
  "sample_pre = [native_token_transferable_key \<mapsto> BoolVal True,
     balance_key sample_token (sample_account 1) \<mapsto> AmountVal (Amount 10)]"

definition sample_ctx :: vp_ctx where
  "sample_ctx = \<lparr>pre = sample_pre,
     post = snd (transfer sample_token (sample_account 1) (sample_account 2) (Amount 4) sample_pre),
     native_token = sample_token, verifiers = {}, tx_data = None\<rparr>"

lemma not_token_key [simp]:
  "native_token_transferable_key \<noteq> balance_key t a" "native_token_transferable_key \<noteq> minted_balance_key t"
  by (simp_all add: native_token_transferable_key_def token_keys)

lemma tokens_typed_param: "tokens_typed s \<Longrightarrow> tokens_typed (s(native_token_transferable_key \<mapsto> v))"
  unfolding tokens_typed_def amount_slot_def by (metis fun_upd_apply not_token_key)

lemma sample_pre_ok: "vp_storage True sample_pre"
proof -
  have "tokens_typed Map.empty" using supply_inv_empty by (simp add: supply_inv_def)
  then show ?thesis
    unfolding vp_storage_def sample_pre_def by (simp add: tokens_typed_upd tokens_typed_param)
qed

lemma sample_accounts [simp]: "sample_account a = sample_account b \<longleftrightarrow> a = b"
  by (simp add: sample_account_def)

lemma sample_bal: "bal sample_pre sample_token (sample_account 1) = 10" "bal sample_pre sample_token (sample_account 2) = 0"
  by (simp_all add: sample_pre_def key_amount_def amount_val_def)

lemma sample_amount [simp]: "amount_val (Amount 4) = 4" "Amount 4 \<noteq> Amount_zero"
  by (simp_all add: amount_val_def Amount_zero_def)

lemma sample_transfer:
  "transfer sample_token (sample_account 1) (sample_account 2) (Amount 4) (pre sample_ctx) = (Inr (), post sample_ctx)"
proof -
  have typed: "tokens_typed sample_pre" using sample_pre_ok by (simp add: vp_storage_def)
  have "fst (transfer sample_token (sample_account 1) (sample_account 2) (Amount 4) sample_pre) = Inr ()"
    by (simp add: transfer_eq [OF typed] sample_bal)
  then show ?thesis by (simp add: sample_ctx_def prod_eq_iff)
qed

lemma sample_allowed: "is_allowed_dec sample_ctx True t a" "is_allowed_inc sample_ctx True t a" "\<not> is_nut sample_token"
  by (simp_all add: is_allowed_dec_def is_allowed_inc_def is_nut_def sample_token_def)

theorem transfer_accepted_witness:
  "validate_tx sample_ctx
     [balance_key sample_token (sample_account 1), balance_key sample_token (sample_account 2)] = Inr ()"
  using sample_transfer sample_pre_ok sample_allowed
  by (intro transfer_accepted [where tr = True and t = sample_token and src = "sample_account 1" and
        dest = "sample_account 2" and amt = "Amount 4"])
     (simp_all add: sample_ctx_def)

theorem multitoken_vp_conserves_witness:
  "int (total_balance (post sample_ctx) sample_token) - int (total_balance (pre sample_ctx) sample_token) =
    int (minted (post sample_ctx) sample_token) - int (minted (pre sample_ctx) sample_token)"
proof (rule multitoken_vp_conserves)
  let ?keys = "[balance_key sample_token (sample_account 1), balance_key sample_token (sample_account 2)]"
  have typed: "tokens_typed sample_pre" using sample_pre_ok by (simp add: vp_storage_def)
  show "validate_tx sample_ctx ?keys = Inr ()"
    using sample_transfer sample_pre_ok sample_allowed
    by (intro transfer_validates [where tr = True and t = sample_token and src = "sample_account 1" and
          dest = "sample_account 2" and amt = "Amount 4"])
       (simp_all add: sample_ctx_def)
  show "distinct ?keys" by simp
  show "\<forall>k\<in>set ?keys. is_any_token_parameter_key k = None"
    by (simp add: is_any_token_parameter_key_def token_keys)
  show "\<forall>k. pre sample_ctx k \<noteq> post sample_ctx k \<longrightarrow> k \<in> set ?keys"
    by (auto simp: sample_ctx_def transfer_eq [OF typed] sample_bal split: if_splits)
  have "finite (dom sample_pre)" by (simp add: sample_pre_def)
  then show "finite (dom (pre sample_ctx))" "finite (dom (post sample_ctx))"
    by (simp_all add: sample_ctx_def transfer_eq [OF typed] sample_bal)
qed

section \<open>Parameter changes end the checks\<close>

lemma check_keys_parameter:
  assumes "is_any_token_parameter_key p = Some t"
  shows "check_keys ctx tr (p # keys) ch = rbind (is_valid_parameter ctx) (\<lambda>_. Inr None)"
proof -
  obtain segs where p: "p = \<lparr>segments = segs\<rparr>" by (cases p) auto
  have "balance_segments segs = None \<and> minted_segments segs = None \<and> minter_segments segs = None"
    using assms unfolding p is_any_token_parameter_key_def
    by (cases segs rule: parameter_segments.cases) (auto simp: token_key_segments)
  then show ?thesis
    using assms by (simp add: p is_any_token_balance_key_def is_any_minted_balance_key_def is_any_minter_key_def)
qed

lemma check_keys_append:
  "check_keys ctx tr (xs @ ys) ch =
     rbind (check_keys ctx tr xs ch) (\<lambda>r. case r of None \<Rightarrow> Inr None | Some ch' \<Rightarrow> check_keys ctx tr ys ch')"
proof (induction xs arbitrary: ch)
  case (Cons k xs)
  have *: "check_keys ctx tr (xs @ ys) =
      (\<lambda>ch. rbind (check_keys ctx tr xs ch) (\<lambda>r. case r of None \<Rightarrow> Inr None | Some ch' \<Rightarrow> check_keys ctx tr ys ch'))"
    using Cons.IH by (rule ext)
  show ?case by (auto simp: * rbind_assoc split: option.split)
qed simp

text \<open>
  C37: The predicate stops at the first token parameter among the changed keys. In a transaction
  that carries an accepted proposal, the keys after it are not examined at all, and the changes
  counted before it are never compared with the minted amounts: whatever the transaction did to
  the balances, it is accepted.
\<close>

theorem parameter_change_skips_checks:
  assumes "is_native_token_transferable (pre ctx) = Inr tr" "check_keys ctx tr before no_changes = Inr (Some ch)"
    "is_any_token_parameter_key p = Some t" "tx_data ctx = Some d" "is_proposal_accepted (pre ctx) d"
  shows "validate_tx ctx (before @ p # after) = Inr ()"
  using assms
  by (simp add: validate_tx_def check_keys_append check_keys_parameter is_valid_parameter_def del: check_keys.simps(2))

text \<open>A transaction of the accepted proposal 0 that sets a parameter of a token and credits 10 of it to an account.\<close>

definition parameter_ctx :: vp_ctx where
  "parameter_ctx =
     (let p = [native_token_transferable_key \<mapsto> BoolVal True, get_proposal_execution_key 0 \<mapsto> BoolVal True]
      in \<lparr>pre = p, post = p(balance_key sample_token (sample_account 1) \<mapsto> AmountVal (Amount 10)),
          native_token = sample_account 9, verifiers = {}, tx_data = Some ([0, 0, 0, 0, 0, 0, 0, 0])\<rparr>)"

theorem parameter_change_skips_checks_witness:
  "validate_tx parameter_ctx
     [\<lparr>segments = [AddressSeg MULTITOKEN, AddressSeg sample_token, StringSeg ''parameters'', StringSeg ''p'']\<rparr>,
      balance_key sample_token (sample_account 1)] = Inr () \<and>
   bal (pre parameter_ctx) sample_token (sample_account 1) = 0 \<and>
   bal (post parameter_ctx) sample_token (sample_account 1) = 10"
proof -
  have ne: "native_token_transferable_key \<noteq> get_proposal_execution_key 0"
      "get_proposal_execution_key 0 \<noteq> balance_key sample_token (sample_account 1)"
    by (simp_all add: native_token_transferable_key_def get_proposal_execution_key_def token_keys)
  have "u64_try_from_slice ([0, 0, 0, 0, 0, 0, 0, 0]) = Some 0"
    by (simp add: u64_try_from_slice_def)
  then have "is_proposal_accepted (pre parameter_ctx) ([0, 0, 0, 0, 0, 0, 0, 0])"
    by (simp add: parameter_ctx_def Let_def is_proposal_accepted_def)
  then have "validate_tx parameter_ctx
     ([] @ \<lparr>segments = [AddressSeg MULTITOKEN, AddressSeg sample_token, StringSeg ''parameters'', StringSeg ''p'']\<rparr> #
      [balance_key sample_token (sample_account 1)]) = Inr ()"
    using ne(1)
    by (intro parameter_change_skips_checks [where tr = True and ch = no_changes and t = sample_token])
       (simp_all add: parameter_ctx_def Let_def is_native_token_transferable_def is_any_token_parameter_key_def
          PARAMETERS_STORAGE_KEY_def)
  then show ?thesis using ne by (simp add: parameter_ctx_def Let_def key_amount_def amount_val_def)
qed

end
