(* ===== verification/Gas.thy ===== *)
theory Gas
  imports Prelude "HOL-Library.Multiset"
begin

text \<open>
  \<open>gas/src/lib.rs\<close>: gas in sub-units, the meters of transactions and of validity predicates,
  which share the interface \<open>GasMetering\<close>, and the gas of validity predicates run in
  parallel. A meter is updated in place by the source; an operation here returns its result
  together with the new meter.
\<close>

section \<open>Gas\<close>

datatype gas_error = TransactionGasExceededError | BlockGasExceeded | GasOverflow

datatype Gas = Gas (gas_sub: u64)

definition COMPILE_GAS_PER_BYTE :: u64 where "COMPILE_GAS_PER_BYTE = 1955"
definition PARALLEL_GAS_DIVIDER :: u64 where "PARALLEL_GAS_DIVIDER = 10"
definition WASM_CODE_VALIDATION_GAS_PER_BYTE :: u64 where "WASM_CODE_VALIDATION_GAS_PER_BYTE = 67"
definition WRAPPER_TX_VALIDATION_GAS :: u64 where "WRAPPER_TX_VALIDATION_GAS = 3245500"
definition PHYSICAL_STORAGE_LATENCY_PER_BYTE :: u64 where "PHYSICAL_STORAGE_LATENCY_PER_BYTE = 1000000"
definition STORAGE_OCCUPATION_GAS_PER_BYTE :: u64 where
  "STORAGE_OCCUPATION_GAS_PER_BYTE = 100000 + PHYSICAL_STORAGE_LATENCY_PER_BYTE"
definition NETWORK_TRANSMISSION_GAS_PER_BYTE :: u64 where "NETWORK_TRANSMISSION_GAS_PER_BYTE = 848"
definition MEMORY_ACCESS_GAS_PER_BYTE :: u64 where "MEMORY_ACCESS_GAS_PER_BYTE = 104"
definition STORAGE_ACCESS_GAS_PER_BYTE :: u64 where
  "STORAGE_ACCESS_GAS_PER_BYTE = 163 + PHYSICAL_STORAGE_LATENCY_PER_BYTE"
definition STORAGE_WRITE_GAS_PER_BYTE :: u64 where
  "STORAGE_WRITE_GAS_PER_BYTE = MEMORY_ACCESS_GAS_PER_BYTE + 69634 + STORAGE_OCCUPATION_GAS_PER_BYTE"
definition SCALE :: u64 where "SCALE = 100000000"

instantiation Gas :: linorder
begin

definition less_eq_Gas :: "Gas \<Rightarrow> Gas \<Rightarrow> bool" where
  "less_eq_Gas a b \<longleftrightarrow> gas_sub a \<le> gas_sub b"

definition less_Gas :: "Gas \<Rightarrow> Gas \<Rightarrow> bool" where
  "less_Gas a b \<longleftrightarrow> gas_sub a < gas_sub b"

instance
  by standard (auto simp: less_eq_Gas_def less_Gas_def Gas.expand)

end

definition Gas_default :: Gas where
  "Gas_default = Gas 0"

definition Gas_checked_add :: "Gas \<Rightarrow> Gas \<Rightarrow> Gas option" where
  "Gas_checked_add slf rhs = map_option Gas (checked_add (gas_sub slf) (gas_sub rhs))"

definition Gas_checked_sub :: "Gas \<Rightarrow> Gas \<Rightarrow> Gas option" where
  "Gas_checked_sub slf rhs = map_option Gas (checked_sub (gas_sub slf) (gas_sub rhs))"

definition get_whole_gas_units :: "Gas \<Rightarrow> u64" where
  "get_whole_gas_units slf =
     (let quot = gas_sub slf div SCALE
      in if gas_sub slf mod SCALE = 0 then quot else quot + 1)"

text \<open>The product panics (\<^const>\<open>None\<close>) on overflow, as overflow checks are on in release builds.\<close>

definition from_whole_units :: "u64 \<Rightarrow> Gas option" where
  "from_whole_units whole = map_option Gas (checked_mul whole SCALE)"

definition Gas_div :: "Gas \<Rightarrow> u64 \<Rightarrow> Gas" where
  "Gas_div slf rhs = Gas (gas_sub slf div rhs)"

section \<open>Meters\<close>

record TxGasMeter =
  tx_gas_overflow :: bool
  tx_gas_limit :: Gas
  transaction_gas :: Gas

record VpGasMeter =
  vp_gas_overflow :: bool
  vp_tx_gas_limit :: Gas
  initial_gas :: Gas
  current_gas :: Gas

record VpsGas =
  vps_max :: Gas
  vps_rest :: "Gas list"

definition TxGasMeter_consume :: "u64 \<Rightarrow> TxGasMeter \<Rightarrow> (gas_error + unit) \<times> TxGasMeter" where
  "TxGasMeter_consume gas slf =
     (if tx_gas_overflow slf then (Inl GasOverflow, slf)
      else
        case Gas_checked_add (transaction_gas slf) (Gas gas) of
          None \<Rightarrow> (Inl GasOverflow, slf\<lparr>tx_gas_overflow := True\<rparr>)
        | Some g \<Rightarrow>
            let slf' = slf\<lparr>transaction_gas := g\<rparr>
            in if transaction_gas slf' > tx_gas_limit slf' then (Inl TransactionGasExceededError, slf')
               else (Inr (), slf'))"

definition TxGasMeter_get_tx_consumed_gas :: "TxGasMeter \<Rightarrow> Gas" where
  "TxGasMeter_get_tx_consumed_gas slf = (if \<not> tx_gas_overflow slf then transaction_gas slf else Gas (- 1))"

definition TxGasMeter_get_gas_limit :: "TxGasMeter \<Rightarrow> Gas" where
  "TxGasMeter_get_gas_limit slf = tx_gas_limit slf"

definition TxGasMeter_new :: "Gas \<Rightarrow> TxGasMeter" where
  "TxGasMeter_new limit = \<lparr>tx_gas_overflow = False, tx_gas_limit = limit, transaction_gas = Gas_default\<rparr>"

text \<open>The meter of a wrapper transaction, whose limit is given in whole units.\<close>

definition TxGasMeter_of_limit :: "u64 \<Rightarrow> TxGasMeter option" where
  "TxGasMeter_of_limit gas_limit = map_option TxGasMeter_new (from_whole_units gas_limit)"

definition get_available_gas :: "TxGasMeter \<Rightarrow> Gas" where
  "get_available_gas slf =
     (case Gas_checked_sub (tx_gas_limit slf) (transaction_gas slf) of Some g \<Rightarrow> g | None \<Rightarrow> Gas_default)"

definition copy_consumed_gas_from :: "TxGasMeter \<Rightarrow> TxGasMeter \<Rightarrow> (gas_error + unit) \<times> TxGasMeter" where
  "copy_consumed_gas_from other slf =
     (let slf' = slf\<lparr>transaction_gas := transaction_gas other, tx_gas_overflow := tx_gas_overflow other\<rparr>
      in if transaction_gas slf' > tx_gas_limit slf' then (Inl TransactionGasExceededError, slf')
         else if tx_gas_overflow slf' then (Inl GasOverflow, slf')
         else (Inr (), slf'))"

definition VpGasMeter_consume :: "u64 \<Rightarrow> VpGasMeter \<Rightarrow> (gas_error + unit) \<times> VpGasMeter" where
  "VpGasMeter_consume gas slf =
     (if vp_gas_overflow slf then (Inl GasOverflow, slf)
      else
        case Gas_checked_add (current_gas slf) (Gas gas) of
          None \<Rightarrow> (Inl GasOverflow, slf\<lparr>vp_gas_overflow := True\<rparr>)
        | Some g \<Rightarrow>
            let slf' = slf\<lparr>current_gas := g\<rparr>
            in case Gas_checked_add (initial_gas slf') (current_gas slf') of
                 None \<Rightarrow> (Inl GasOverflow, slf')
               | Some current_total \<Rightarrow>
                   if current_total > vp_tx_gas_limit slf' then (Inl TransactionGasExceededError, slf')
                   else (Inr (), slf'))"

definition VpGasMeter_get_tx_consumed_gas :: "VpGasMeter \<Rightarrow> Gas" where
  "VpGasMeter_get_tx_consumed_gas slf = (if \<not> vp_gas_overflow slf then initial_gas slf else Gas (- 1))"

definition VpGasMeter_get_gas_limit :: "VpGasMeter \<Rightarrow> Gas" where
  "VpGasMeter_get_gas_limit slf = vp_tx_gas_limit slf"

definition new_from_tx_meter :: "TxGasMeter \<Rightarrow> VpGasMeter" where
  "new_from_tx_meter tx_gas_meter =
     \<lparr>vp_gas_overflow = False, vp_tx_gas_limit = tx_gas_limit tx_gas_meter,
      initial_gas = transaction_gas tx_gas_meter, current_gas = Gas_default\<rparr>"

text \<open>The default methods of the trait, over the \<open>consume\<close> of the meter.\<close>

definition consume_per_byte ::
  "(u64 \<Rightarrow> 'm \<Rightarrow> (gas_error + unit) \<times> 'm) \<Rightarrow> u64 \<Rightarrow> u64 \<Rightarrow> 'm \<Rightarrow> (gas_error + unit) \<times> 'm" where
  "consume_per_byte consume per_byte bytes_len slf =
     (case checked_mul bytes_len per_byte of
        None \<Rightarrow> (Inl GasOverflow, slf)
      | Some gas \<Rightarrow> consume gas slf)"

definition add_compiling_gas ::
  "(u64 \<Rightarrow> 'm \<Rightarrow> (gas_error + unit) \<times> 'm) \<Rightarrow> u64 \<Rightarrow> 'm \<Rightarrow> (gas_error + unit) \<times> 'm" where
  "add_compiling_gas consume bytes_len slf = consume_per_byte consume COMPILE_GAS_PER_BYTE bytes_len slf"

definition add_wasm_load_from_storage_gas ::
  "(u64 \<Rightarrow> 'm \<Rightarrow> (gas_error + unit) \<times> 'm) \<Rightarrow> u64 \<Rightarrow> 'm \<Rightarrow> (gas_error + unit) \<times> 'm" where
  "add_wasm_load_from_storage_gas consume bytes_len slf =
     consume_per_byte consume STORAGE_ACCESS_GAS_PER_BYTE bytes_len slf"

definition add_wasm_validation_gas ::
  "(u64 \<Rightarrow> 'm \<Rightarrow> (gas_error + unit) \<times> 'm) \<Rightarrow> u64 \<Rightarrow> 'm \<Rightarrow> (gas_error + unit) \<times> 'm" where
  "add_wasm_validation_gas consume bytes_len slf =
     consume_per_byte consume WASM_CODE_VALIDATION_GAS_PER_BYTE bytes_len slf"

definition add_wrapper_gas :: "u64 \<Rightarrow> TxGasMeter \<Rightarrow> (gas_error + unit) \<times> TxGasMeter" where
  "add_wrapper_gas bytes_len slf =
     (case TxGasMeter_consume WRAPPER_TX_VALIDATION_GAS slf of
        (Inl e, slf') \<Rightarrow> (Inl e, slf')
      | (Inr _, slf') \<Rightarrow>
          consume_per_byte TxGasMeter_consume
            (STORAGE_OCCUPATION_GAS_PER_BYTE + NETWORK_TRANSMISSION_GAS_PER_BYTE) bytes_len slf')"

section \<open>Parallel validity predicates\<close>

fun sum_gas :: "Gas \<Rightarrow> Gas list \<Rightarrow> gas_error + Gas" where
  "sum_gas acc [] = Inr acc"
| "sum_gas acc (g # gs) = rbind (ok_or (Gas_checked_add acc g) GasOverflow) (\<lambda>acc'. sum_gas acc' gs)"

definition get_current_gas :: "VpsGas \<Rightarrow> gas_error + Gas" where
  "get_current_gas slf =
     rbind (sum_gas Gas_default (vps_rest slf)) (\<lambda>s.
     let parallel_gas = Gas_div s PARALLEL_GAS_DIVIDER
     in ok_or (Gas_checked_add (vps_max slf) parallel_gas) GasOverflow)"

text \<open>\<open>check_limit\<close> reads the consumed gas and the limit of either kind of meter.\<close>

definition check_limit :: "Gas \<Rightarrow> Gas \<Rightarrow> VpsGas \<Rightarrow> gas_error + unit" where
  "check_limit consumed limit slf =
     rbind (get_current_gas slf) (\<lambda>g.
     rbind (ok_or (Gas_checked_add consumed g) GasOverflow) (\<lambda>total.
     if total > limit then Inl TransactionGasExceededError else Inr ()))"

definition VpsGas_set :: "VpGasMeter \<Rightarrow> VpsGas \<Rightarrow> (gas_error + unit) \<times> VpsGas" where
  "VpsGas_set vp_gas_meter slf =
     (let slf' =
        (if current_gas vp_gas_meter > vps_max slf
         then \<lparr>vps_max = current_gas vp_gas_meter, vps_rest = vps_rest slf @ [vps_max slf]\<rparr>
         else slf\<lparr>vps_rest := vps_rest slf @ [current_gas vp_gas_meter]\<rparr>)
      in (check_limit (VpGasMeter_get_tx_consumed_gas vp_gas_meter) (VpGasMeter_get_gas_limit vp_gas_meter) slf', slf'))"

definition VpsGas_merge :: "VpsGas \<Rightarrow> TxGasMeter \<Rightarrow> VpsGas \<Rightarrow> (gas_error + unit) \<times> VpsGas" where
  "VpsGas_merge other tx_gas_meter slf =
     (let slf1 =
        (if vps_max slf < vps_max other
         then \<lparr>vps_max = vps_max other, vps_rest = vps_rest slf @ [vps_max slf]\<rparr>
         else slf\<lparr>vps_rest := vps_rest slf @ [vps_max other]\<rparr>);
          slf' = slf1\<lparr>vps_rest := vps_rest slf1 @ vps_rest other\<rparr>
      in (check_limit (TxGasMeter_get_tx_consumed_gas tx_gas_meter) (TxGasMeter_get_gas_limit tx_gas_meter) slf', slf'))"

definition VpsGas_default :: VpsGas where
  "VpsGas_default = \<lparr>vps_max = Gas_default, vps_rest = []\<rparr>"

definition add_vps_gas :: "VpsGas \<Rightarrow> TxGasMeter \<Rightarrow> (gas_error + unit) \<times> TxGasMeter" where
  "add_vps_gas vps_gas slf =
     (case get_current_gas vps_gas of
        Inl e \<Rightarrow> (Inl e, slf)
      | Inr g \<Rightarrow> TxGasMeter_consume (gas_sub g) slf)"

section \<open>The interface of a meter\<close>

text \<open>A sequence of charges that stops at the first error, as \<open>?\<close> does.\<close>

fun run_charges :: "(u64 \<Rightarrow> 'm \<Rightarrow> (gas_error + unit) \<times> 'm) \<Rightarrow> u64 list \<Rightarrow> 'm \<Rightarrow> (gas_error + unit) \<times> 'm" where
  "run_charges consume [] m = (Inr (), m)"
| "run_charges consume (g # gs) m =
     (case consume g m of (Inl e, m') \<Rightarrow> (Inl e, m') | (Inr _, m') \<Rightarrow> run_charges consume gs m')"

text \<open>
  What a meter promises: a charge succeeds exactly when the gas used so far and the charge fit
  the limit; the gas is recorded also when the limit is exceeded, and a meter that overflowed
  stays unusable.
\<close>

locale gas_metering =
  fixes consume :: "u64 \<Rightarrow> 'm \<Rightarrow> (gas_error + unit) \<times> 'm"
    and used :: "'m \<Rightarrow> nat"
    and limit :: "'m \<Rightarrow> nat"
    and overflowed :: "'m \<Rightarrow> bool"
  assumes limit_kept: "limit (snd (consume g m)) = limit m"
    and consume_ok: "fst (consume g m) = Inr () \<longleftrightarrow> \<not> overflowed m \<and> used m + unat g \<le> limit m"
    and consume_used: "\<not> overflowed (snd (consume g m)) \<Longrightarrow>
      \<not> overflowed m \<and> used (snd (consume g m)) = used m + unat g"
    and overflow_fails: "fst (consume g m) = Inr () \<Longrightarrow> \<not> overflowed (snd (consume g m))"
begin

definition exhausted :: "'m \<Rightarrow> bool" where
  "exhausted m \<longleftrightarrow> overflowed m \<or> limit m < used m"

lemma exhausted_stays: "exhausted m \<Longrightarrow> exhausted (snd (consume g m))"
  using consume_used [of g m] limit_kept [of g m] unfolding exhausted_def by linarith

lemma exhausted_fails: "exhausted m \<Longrightarrow> fst (consume g m) \<noteq> Inr ()"
  using consume_ok [of g m] by (auto simp: exhausted_def)

lemma fails_exhausted: "fst (consume g m) \<noteq> Inr () \<Longrightarrow> exhausted (snd (consume g m))"
  using consume_ok [of g m] consume_used [of g m] limit_kept [of g m] by (auto simp: exhausted_def)

lemma ok_used: "fst (consume g m) = Inr () \<Longrightarrow> used (snd (consume g m)) = used m + unat g"
  using overflow_fails consume_used by blast

lemma charges_ok:
  "fst (run_charges consume gs m) = Inr () \<longleftrightarrow>
     gs = [] \<or> (\<not> overflowed m \<and> used m + (\<Sum>g\<leftarrow>gs. unat g) \<le> limit m)"
proof (induction gs arbitrary: m)
  case (Cons g gs)
  have "fst (run_charges consume (g # gs) m) = Inr () \<longleftrightarrow>
      fst (consume g m) = Inr () \<and> fst (run_charges consume gs (snd (consume g m))) = Inr ()"
    by (auto split: prod.split sum.split)
  then show ?case
    unfolding Cons.IH
    using consume_ok [of g m] ok_used [of g m] overflow_fails [of g m] limit_kept [of g m] by auto
qed simp

lemma per_byte_ok:
  "fst (consume_per_byte consume c n m) = Inr () \<Longrightarrow>
     used (snd (consume_per_byte consume c n m)) = used m + unat n * unat c \<and>
     used m + unat n * unat c \<le> limit m"
proof (cases "checked_mul n c")
  case (Some a)
  then have "unat a = unat n * unat c" by (simp add: checked_mul_Some_iff)
  moreover assume "fst (consume_per_byte consume c n m) = Inr ()"
  ultimately show ?thesis
    using Some consume_ok [of a m] ok_used [of a m] by (simp add: consume_per_byte_def)
qed (simp add: consume_per_byte_def)

end

definition gas_val :: "Gas \<Rightarrow> nat" where
  "gas_val g = unat (gas_sub g)"

lemma gas_val_lt: "gas_val g < 2 ^ 64"
  using unat_lt_2p [of "gas_sub g"] by (simp add: gas_val_def)

lemma gas_val_simps [simp]: "gas_val (Gas g) = unat g" "gas_val Gas_default = 0"
  by (simp_all add: gas_val_def Gas_default_def)

lemma gas_le_iff: "a \<le> b \<longleftrightarrow> gas_val a \<le> gas_val b"
  by (simp add: less_eq_Gas_def gas_val_def word_le_nat_alt)

lemma gas_less_iff: "a < b \<longleftrightarrow> gas_val a < gas_val b"
  by (simp add: less_Gas_def gas_val_def word_less_nat_alt)

lemma gas_eq_iff: "a = b \<longleftrightarrow> gas_val a = gas_val b"
  by (auto simp: gas_val_def intro: Gas.expand dest: unat_eqD)

lemma Gas_checked_add_Some [checked_unat]: "Gas_checked_add a b = Some c \<longleftrightarrow> gas_val c = gas_val a + gas_val b"
  by (cases c) (auto simp: Gas_checked_add_def gas_val_def checked_add_Some_iff)

lemma Gas_checked_add_None [checked_unat]: "Gas_checked_add a b = None \<longleftrightarrow> 2 ^ 64 \<le> gas_val a + gas_val b"
  by (auto simp: Gas_checked_add_def gas_val_def checked_add_None_iff)

interpretation tx: gas_metering TxGasMeter_consume
  "\<lambda>m. gas_val (transaction_gas m)" "\<lambda>m. gas_val (tx_gas_limit m)" tx_gas_overflow
proof
  fix g m
  show "gas_val (tx_gas_limit (snd (TxGasMeter_consume g m))) = gas_val (tx_gas_limit m)"
    by (auto simp: TxGasMeter_consume_def Let_def split: option.split)
  show "fst (TxGasMeter_consume g m) = Inr () \<longleftrightarrow>
      \<not> tx_gas_overflow m \<and> gas_val (transaction_gas m) + unat g \<le> gas_val (tx_gas_limit m)"
    using gas_val_lt [of "tx_gas_limit m"]
    by (auto simp: TxGasMeter_consume_def Let_def checked_unat gas_less_iff split: option.split)
  show "\<not> tx_gas_overflow (snd (TxGasMeter_consume g m)) \<Longrightarrow> \<not> tx_gas_overflow m \<and>
      gas_val (transaction_gas (snd (TxGasMeter_consume g m))) = gas_val (transaction_gas m) + unat g"
    by (cases "Gas_checked_add (transaction_gas m) (Gas g)")
       (auto simp: TxGasMeter_consume_def Let_def Gas_checked_add_Some [THEN iffD1] split: if_splits)
  show "fst (TxGasMeter_consume g m) = Inr () \<Longrightarrow> \<not> tx_gas_overflow (snd (TxGasMeter_consume g m))"
    by (auto simp: TxGasMeter_consume_def Let_def split: option.splits if_splits)
qed

interpretation vp: gas_metering VpGasMeter_consume
  "\<lambda>m. gas_val (initial_gas m) + gas_val (current_gas m)" "\<lambda>m. gas_val (vp_tx_gas_limit m)" vp_gas_overflow
proof
  fix g m
  show "gas_val (vp_tx_gas_limit (snd (VpGasMeter_consume g m))) = gas_val (vp_tx_gas_limit m)"
    by (auto simp: VpGasMeter_consume_def Let_def split: option.split)
  show "fst (VpGasMeter_consume g m) = Inr () \<longleftrightarrow> \<not> vp_gas_overflow m \<and>
      gas_val (initial_gas m) + gas_val (current_gas m) + unat g \<le> gas_val (vp_tx_gas_limit m)"
    using gas_val_lt [of "vp_tx_gas_limit m"]
    by (auto simp: VpGasMeter_consume_def Let_def checked_unat gas_less_iff split: option.split)
  show "\<not> vp_gas_overflow (snd (VpGasMeter_consume g m)) \<Longrightarrow> \<not> vp_gas_overflow m \<and>
      gas_val (initial_gas (snd (VpGasMeter_consume g m))) + gas_val (current_gas (snd (VpGasMeter_consume g m))) =
      gas_val (initial_gas m) + gas_val (current_gas m) + unat g"
    by (cases "Gas_checked_add (current_gas m) (Gas g)")
       (auto simp: VpGasMeter_consume_def Let_def Gas_checked_add_Some [THEN iffD1] split: if_splits option.splits)
  show "fst (VpGasMeter_consume g m) = Inr () \<Longrightarrow> \<not> vp_gas_overflow (snd (VpGasMeter_consume g m))"
    by (auto simp: VpGasMeter_consume_def Let_def split: option.splits if_splits)
qed

text \<open>
  A sequence of charges to a transaction's meter goes through exactly when their sum and the
  gas already consumed fit the limit, whatever the order of the charges.
\<close>

theorem tx_charges_within_limit:
  "fst (run_charges TxGasMeter_consume gs m) = Inr () \<longleftrightarrow>
      gs = [] \<or> (\<not> tx_gas_overflow m \<and>
        gas_val (transaction_gas m) + (\<Sum>g\<leftarrow>gs. unat g) \<le> gas_val (tx_gas_limit m))"
  using tx.charges_ok by blast

text \<open>A charge that fails leaves the meter exhausted, so that every later charge fails too.\<close>

lemma tx_charge_fails_forever:
  "fst (TxGasMeter_consume g m) \<noteq> Inr () \<Longrightarrow> fst (TxGasMeter_consume h (snd (TxGasMeter_consume g m))) \<noteq> Inr ()"
  using tx.fails_exhausted [of g m] tx.exhausted_fails by blast

text \<open>A validity predicate is charged on top of the gas of its transaction.\<close>

lemma vp_charges_within_limit:
  "fst (run_charges VpGasMeter_consume gs (new_from_tx_meter m)) = Inr () \<longleftrightarrow>
     gs = [] \<or> gas_val (transaction_gas m) + (\<Sum>g\<leftarrow>gs. unat g) \<le> gas_val (tx_gas_limit m)"
  using vp.charges_ok [of gs "new_from_tx_meter m"] by (simp add: new_from_tx_meter_def)

text \<open>
  The gas limit of a wrapper transaction comes from the transaction and is multiplied by
  the scale without a check: from 184467440738 whole units on, the product overflows and the
  node panics while it builds the meter.
\<close>

theorem wrapper_gas_limit_panics: "TxGasMeter_of_limit w = None \<longleftrightarrow> 184467440738 \<le> unat w"
  by (auto simp: TxGasMeter_of_limit_def from_whole_units_def SCALE_def checked_mul_None_iff)

lemma whole_units_roundtrip: "from_whole_units w = Some g \<Longrightarrow> get_whole_gas_units g = w"
proof -
  assume "from_whole_units w = Some g"
  then obtain s where g: "g = Gas s" "unat s = unat w * 100000000"
    by (auto simp: from_whole_units_def SCALE_def checked_mul_Some_iff)
  have u: "unat (100000000 :: u64) = 100000000" by simp
  have m: "s mod 100000000 = 0" by (rule unat_eqD) (simp only: unat_mod g(2) u mod_mult_self2_is_0 unat_0)
  have "s div 100000000 = w" by (rule unat_eqD) (simp only: unat_div g(2) u nonzero_mult_div_cancel_right numeral_neq_zero)
  then show ?thesis by (simp add: get_whole_gas_units_def SCALE_def g(1) m)
qed

section \<open>Gas of parallel validity predicates\<close>

definition vps_total :: "VpsGas \<Rightarrow> nat" where
  "vps_total g = gas_val (vps_max g) + (\<Sum>x\<leftarrow>vps_rest g. gas_val x)"

lemma sum_gas_eq:
  "sum_gas acc gs = (if gas_val acc + (\<Sum>x\<leftarrow>gs. gas_val x) < 2 ^ 64
     then Inr (Gas (of_nat (gas_val acc + (\<Sum>x\<leftarrow>gs. gas_val x)))) else Inl GasOverflow)"
proof (induction gs arbitrary: acc)
  case Nil
  then show ?case using gas_val_lt [of acc] by (simp add: gas_eq_iff unat_of_nat_lt)
next
  case (Cons g gs)
  show ?case
  proof (cases "Gas_checked_add acc g")
    case None
    then have "\<not> gas_val acc + gas_val g < 2 ^ 64" by (simp add: Gas_checked_add_None)
    then show ?thesis using None by simp
  next
    case (Some a)
    then have "gas_val a = gas_val acc + gas_val g" by (simp add: Gas_checked_add_Some)
    then show ?thesis using Some Cons.IH [of a] by (simp add: add.assoc)
  qed
qed

lemma ok_or_Gas_add:
  "ok_or (Gas_checked_add a b) e =
     (if gas_val a + gas_val b < 2 ^ 64 then Inr (Gas (of_nat (gas_val a + gas_val b))) else Inl e)"
  unfolding Gas_checked_add_def checked_add_of_nat gas_val_def by simp

lemma get_current_gas_eq:
  "get_current_gas g =
     (let m = gas_val (vps_max g); r = vps_total g - m
      in if r < 2 ^ 64 \<and> m + r div 10 < 2 ^ 64 then Inr (Gas (of_nat (m + r div 10))) else Inl GasOverflow)"
proof -
  define r where "r = vps_total g - gas_val (vps_max g)"
  have r: "r = (\<Sum>x\<leftarrow>vps_rest g. gas_val x)" by (simp add: r_def vps_total_def)
  have d: "gas_val (Gas_div (Gas (of_nat r)) PARALLEL_GAS_DIVIDER) = r div 10" if "r < 2 ^ 64"
    using that by (simp add: Gas_div_def PARALLEL_GAS_DIVIDER_def unat_div unat_of_nat_lt)
  show ?thesis
  proof (cases "r < 2 ^ 64")
    case True
    then have "ok_or (Gas_checked_add (vps_max g) (Gas_div (Gas (of_nat r)) PARALLEL_GAS_DIVIDER)) GasOverflow =
      (if gas_val (vps_max g) + r div 10 < 2 ^ 64 then Inr (Gas (of_nat (gas_val (vps_max g) + r div 10))) else Inl GasOverflow)"
      unfolding ok_or_Gas_add using d by (simp del: of_nat_add)
    then show ?thesis
      using True by (simp add: get_current_gas_def sum_gas_eq Let_def flip: r r_def)
  next
    case False
    then show ?thesis by (simp add: get_current_gas_def sum_gas_eq Let_def flip: r r_def)
  qed
qed

text \<open>When the gas \<open>m\<close> of the costliest predicate and the total \<open>t\<close> fit what a transaction has left.\<close>

definition vps_fits :: "nat \<Rightarrow> nat \<Rightarrow> nat \<Rightarrow> nat \<Rightarrow> bool" where
  "vps_fits consumed limit m t \<longleftrightarrow> t - m < 2 ^ 64 \<and> consumed + (m + (t - m) div 10) \<le> limit"

lemma check_limit_ok:
  "check_limit consumed limit g = Inr () \<longleftrightarrow>
     vps_fits (gas_val consumed) (gas_val limit) (gas_val (vps_max g)) (vps_total g)"
proof -
  define c where "c = gas_val (vps_max g) + (vps_total g - gas_val (vps_max g)) div 10"
  have l: "gas_val limit < 2 ^ 64" by (rule gas_val_lt)
  have "check_limit consumed limit g = Inr () \<longleftrightarrow>
      vps_total g - gas_val (vps_max g) < 2 ^ 64 \<and> c < 2 ^ 64 \<and> gas_val consumed + c < 2 ^ 64 \<and>
      gas_val consumed + c \<le> gas_val limit"
    unfolding check_limit_def get_current_gas_eq Let_def c_def [symmetric] ok_or_Gas_add
    by (auto simp: unat_of_nat_lt gas_less_iff simp del: of_nat_add)
  then show ?thesis using l by (auto simp: vps_fits_def c_def)
qed

lemma merge_max_total:
  "gas_val (vps_max (snd (VpsGas_merge b tx a))) = max (gas_val (vps_max a)) (gas_val (vps_max b))"
  "vps_total (snd (VpsGas_merge b tx a)) = vps_total a + vps_total b"
  by (auto simp: VpsGas_merge_def Let_def vps_total_def gas_less_iff)

lemma vps_max_le_total: "gas_val (vps_max g) \<le> vps_total g"
  by (simp add: vps_total_def)

lemma vps_fits_mono:
  assumes "vps_fits c l (max m1 m2) (t1 + t2)" "m1 \<le> t1" "m2 \<le> t2"
  shows "vps_fits c l m1 t1"
proof -
  have "t1 - m1 \<le> t1 + t2 - max m1 m2" using assms(2,3) by (auto simp: max_def)
  then have "(t1 - m1) div 10 \<le> (t1 + t2 - max m1 m2) div 10" by (rule div_le_mono)
  moreover have "m1 \<le> max m1 m2" by simp
  ultimately show ?thesis using assms(1) \<open>t1 - m1 \<le> _\<close> unfolding vps_fits_def by linarith
qed

text \<open>
  The results of the predicates are merged two by two, in an order that depends on how the work
  was split between threads. A tree stands for one such order.
\<close>

datatype vps_tree = Leaf VpsGas | Node vps_tree vps_tree

fun leaves :: "vps_tree \<Rightarrow> VpsGas list" where
  "leaves (Leaf g) = [g]"
| "leaves (Node l r) = leaves l @ leaves r"

fun merge_tree :: "TxGasMeter \<Rightarrow> vps_tree \<Rightarrow> gas_error + VpsGas" where
  "merge_tree tx (Leaf g) = Inr g"
| "merge_tree tx (Node l r) =
     rbind (merge_tree tx l) (\<lambda>a. rbind (merge_tree tx r) (\<lambda>b. state_result (VpsGas_merge b tx a)))"

definition leaves_max :: "vps_tree \<Rightarrow> nat" where
  "leaves_max t = Max ((gas_val \<circ> vps_max) ` set (leaves t))"

definition leaves_total :: "vps_tree \<Rightarrow> nat" where
  "leaves_total t = (\<Sum>g\<leftarrow>leaves t. vps_total g)"

lemma leaves_ne [simp]: "leaves t \<noteq> []"
  by (induction t) simp_all

lemma leaves_Node:
  "leaves_max (Node l r) = max (leaves_max l) (leaves_max r)"
  "leaves_total (Node l r) = leaves_total l + leaves_total r"
  by (simp_all add: leaves_max_def leaves_total_def image_Un Max_Un)

lemma leaves_max_le: "leaves_max t \<le> leaves_total t"
proof (induction t)
  case (Leaf g)
  then show ?case by (simp add: leaves_max_def leaves_total_def vps_max_le_total)
next
  case (Node l r)
  then show ?case by (simp add: leaves_Node)
qed

abbreviation tree_fits :: "TxGasMeter \<Rightarrow> vps_tree \<Rightarrow> bool" where
  "tree_fits tx t \<equiv> vps_fits (gas_val (TxGasMeter_get_tx_consumed_gas tx))
     (gas_val (TxGasMeter_get_gas_limit tx)) (leaves_max t) (leaves_total t)"

lemma merge_tree_Inr:
  "merge_tree tx t = Inr g \<Longrightarrow> gas_val (vps_max g) = leaves_max t \<and> vps_total g = leaves_total t"
proof (induction t arbitrary: g)
  case (Leaf x)
  then show ?case by (simp add: leaves_max_def leaves_total_def)
next
  case (Node l r)
  then obtain a b where ab: "merge_tree tx l = Inr a" "merge_tree tx r = Inr b" "g = snd (VpsGas_merge b tx a)"
    by (auto simp: result_simps)
  then show ?case using Node.IH by (simp add: merge_max_total leaves_Node)
qed

lemma merge_check: "fst (VpsGas_merge b tx a) =
    check_limit (TxGasMeter_get_tx_consumed_gas tx) (TxGasMeter_get_gas_limit tx) (snd (VpsGas_merge b tx a))"
  by (simp add: VpsGas_merge_def Let_def)

lemma tree_fits_ok: "tree_fits tx t \<Longrightarrow> \<exists>g. merge_tree tx t = Inr g"
proof (induction t)
  case (Node l r)
  have "tree_fits tx l"
    using Node.prems leaves_max_le [of l] leaves_max_le [of r] unfolding leaves_Node by (rule vps_fits_mono)
  then obtain a where a: "merge_tree tx l = Inr a" using Node.IH(1) by blast
  have "tree_fits tx r"
    using Node.prems leaves_max_le [of r] leaves_max_le [of l] unfolding leaves_Node
    by (intro vps_fits_mono [of _ _ "leaves_max r" "leaves_max l" "leaves_total r" "leaves_total l"])
       (simp_all add: max.commute add.commute)
  then obtain b where b: "merge_tree tx r = Inr b" using Node.IH(2) by blast
  have "fst (VpsGas_merge b tx a) = Inr ()"
    using Node.prems merge_tree_Inr [OF a] merge_tree_Inr [OF b]
    by (simp add: merge_check check_limit_ok merge_max_total leaves_Node)
  then show ?case using a b by (auto simp: state_result_def)
qed simp

lemma merge_tree_ok: "(\<exists>g. merge_tree tx (Node l r) = Inr g) \<longleftrightarrow> tree_fits tx (Node l r)"
proof
  assume "\<exists>g. merge_tree tx (Node l r) = Inr g"
  then obtain a b where ab: "merge_tree tx l = Inr a" "merge_tree tx r = Inr b" "fst (VpsGas_merge b tx a) = Inr ()"
    by (auto simp: result_simps)
  then show "tree_fits tx (Node l r)"
    using merge_tree_Inr [OF ab(1)] merge_tree_Inr [OF ab(2)]
    by (simp add: merge_check check_limit_ok merge_max_total leaves_Node)
qed (rule tree_fits_ok)

lemma leaves_mset:
  assumes "mset (leaves s) = mset (leaves t)"
  shows "leaves_max s = leaves_max t" "leaves_total s = leaves_total t"
proof -
  have "set (leaves s) = set (leaves t)" using assms by (rule mset_eq_setD)
  then show "leaves_max s = leaves_max t" by (simp add: leaves_max_def)
  show "leaves_total s = leaves_total t"
    unfolding leaves_total_def by (metis assms mset_map sum_mset_sum_list)
qed


definition sample_vps :: "u64 \<Rightarrow> VpsGas" where
  "sample_vps g = \<lparr>vps_max = Gas g, vps_rest = [Gas 0]\<rparr>"


end
