(* ===== verification/WriteLog.thy ===== *)
theory WriteLog
  imports StorageTypes Collections Gas
begin

text \<open>
  \<open>state/src/write_log.rs\<close>: the log of storage modifications of the current transaction, the
  precommit bucket and the block, with the temporary values and the events of the transaction
  and the hashes kept against replay.

  Keys are over a type of addresses \<open>'a\<close> with its text form \<open>encode\<close>; validity predicates are
  named by hashes \<open>'h\<close> of 32 bytes; the address generator \<open>'g\<close> hashes with a function of another
  crate, so a generation step is a parameter. Lengths and the gas computed from them are natural
  numbers: they are bounded by the memory of a transaction and cannot overflow 64 bits.
\<close>

section \<open>The log\<close>

type_synonym bytes = "u8 list"

datatype 'h StorageModification = Write bytes | Delete | InitAccount 'h

datatype write_log_error =
  UpdateTemporaryValue | UpdateVpOfNewAccount | DeleteVp | WriteTempAfterDelete | WriteTempAfterWrite
  | ReplayProtection

record ('a, 'h, 'g, 'ev) WriteLog =
  address_gen :: "'g option"
  block_write_log :: "('a Key, 'h StorageModification) index_map"
  tx_write_log :: "('a Key, 'h StorageModification) index_map"
  tx_temp_log :: "('a Key, bytes) index_map"
  tx_precommit_write_log :: "('a Key, 'h StorageModification) index_map"
  events :: "(string, 'ev set) index_map"
  replay_protection :: "'h set"

definition WriteLog_default :: "('a, 'h, 'g, 'ev) WriteLog" where
  "WriteLog_default =
     \<lparr>address_gen = None, block_write_log = [], tx_write_log = [], tx_temp_log = [],
      tx_precommit_write_log = [], events = [], replay_protection = {}\<rparr>"

definition HASH_LENGTH :: nat where
  "HASH_LENGTH = 32"

definition Key_len :: "('a \<Rightarrow> string) \<Rightarrow> 'a Key \<Rightarrow> nat" where
  "Key_len encode key = utf8_len (Key_to_string encode key)"

fun modification_len :: "'h StorageModification \<Rightarrow> nat" where
  "modification_len (Write value) = length value"
| "modification_len Delete = 0"
| "modification_len (InitAccount vp_code_hash) = HASH_LENGTH"

definition or_else :: "'x option \<Rightarrow> 'x option \<Rightarrow> 'x option" where
  "or_else m n = (case m of Some x \<Rightarrow> Some x | None \<Rightarrow> n)"

lemma or_else_simps [simp]: "or_else (Some x) n = Some x" "or_else None n = n"
  by (simp_all add: or_else_def)

definition wl_read :: "('a \<Rightarrow> string) \<Rightarrow> 'a Key \<Rightarrow> ('a, 'h, 'g, 'ev) WriteLog \<Rightarrow> 'h StorageModification option \<times> nat" where
  "wl_read encode key slf =
     (case or_else (or_else (map_of (tx_write_log slf) key) (map_of (tx_precommit_write_log slf) key))
        (map_of (block_write_log slf) key) of
        Some v \<Rightarrow>
          (Some v, (Key_len encode key + modification_len v) * unat MEMORY_ACCESS_GAS_PER_BYTE)
      | None \<Rightarrow> (None, Key_len encode key * unat MEMORY_ACCESS_GAS_PER_BYTE))"

definition wl_read_pre :: "('a \<Rightarrow> string) \<Rightarrow> 'a Key \<Rightarrow> ('a, 'h, 'g, 'ev) WriteLog \<Rightarrow> 'h StorageModification option \<times> nat" where
  "wl_read_pre encode key slf =
     (case map_of (block_write_log slf) key of
        Some v \<Rightarrow>
          (Some v, (Key_len encode key + modification_len v) * unat MEMORY_ACCESS_GAS_PER_BYTE)
      | None \<Rightarrow> (None, Key_len encode key * unat MEMORY_ACCESS_GAS_PER_BYTE))"

definition wl_read_temp :: "('a \<Rightarrow> string) \<Rightarrow> 'a Key \<Rightarrow> ('a, 'h, 'g, 'ev) WriteLog \<Rightarrow> bytes option \<times> nat" where
  "wl_read_temp encode key slf =
     (case map_of (tx_temp_log slf) key of
        Some value \<Rightarrow> (Some value, (Key_len encode key + length value) * unat MEMORY_ACCESS_GAS_PER_BYTE)
      | None \<Rightarrow> (None, Key_len encode key * unat MEMORY_ACCESS_GAS_PER_BYTE))"

definition wl_write ::
  "('a \<Rightarrow> string) \<Rightarrow> 'a Key \<Rightarrow> bytes \<Rightarrow> ('a, 'h, 'g, 'ev) WriteLog \<Rightarrow>
   (write_log_error + nat \<times> int) \<times> ('a, 'h, 'g, 'ev) WriteLog" where
  "wl_write encode key value slf =
     (let len = length value;
          gas = Key_len encode key + len
      in if map_of (tx_temp_log slf) key \<noteq> None then (Inl UpdateTemporaryValue, slf)
         else
           let finish = (\<lambda>size_diff.
             (Inr (gas * unat STORAGE_WRITE_GAS_PER_BYTE, size_diff),
              slf\<lparr>tx_write_log := AList.update key (Write value) (tx_write_log slf)\<rparr>))
           in case or_else (map_of (tx_write_log slf) key) (map_of (tx_precommit_write_log slf) key) of
                Some (Write prev) \<Rightarrow> finish (int len - int (length prev))
              | Some Delete \<Rightarrow> finish (int len)
              | Some (InitAccount _) \<Rightarrow> (Inl UpdateVpOfNewAccount, slf)
              | None \<Rightarrow> finish (int len))"

definition protocol_write ::
  "'a Key \<Rightarrow> bytes \<Rightarrow> ('a, 'h, 'g, 'ev) WriteLog \<Rightarrow> (write_log_error + unit) \<times> ('a, 'h, 'g, 'ev) WriteLog" where
  "protocol_write key value slf =
     (if map_of (tx_temp_log slf) key \<noteq> None then (Inl UpdateTemporaryValue, slf)
      else
        let prev = map_of (block_write_log slf) key;
            slf' = slf\<lparr>block_write_log := AList.update key (Write value) (block_write_log slf)\<rparr>
        in case prev of
             Some (InitAccount _) \<Rightarrow> (Inl UpdateVpOfNewAccount, slf')
           | _ \<Rightarrow> (Inr (), slf'))"

definition write_temp ::
  "('a \<Rightarrow> string) \<Rightarrow> 'a Key \<Rightarrow> bytes \<Rightarrow> ('a, 'h, 'g, 'ev) WriteLog \<Rightarrow>
   (write_log_error + nat \<times> int) \<times> ('a, 'h, 'g, 'ev) WriteLog" where
  "write_temp encode key value slf =
     (case or_else (map_of (tx_write_log slf) key) (map_of (tx_precommit_write_log slf) key) of
        Some (Write _) \<Rightarrow> (Inl WriteTempAfterWrite, slf)
      | Some Delete \<Rightarrow> (Inl WriteTempAfterDelete, slf)
      | Some (InitAccount _) \<Rightarrow> (Inl UpdateVpOfNewAccount, slf)
      | None \<Rightarrow>
          let len = length value;
              gas = Key_len encode key + len;
              size_diff =
                (case map_of (tx_temp_log slf) key of Some prev \<Rightarrow> int len - int (length prev) | None \<Rightarrow> int len)
          in (Inr (gas * unat MEMORY_ACCESS_GAS_PER_BYTE, size_diff),
              slf\<lparr>tx_temp_log := AList.update key value (tx_temp_log slf)\<rparr>))"

definition wl_delete ::
  "('a \<Rightarrow> string) \<Rightarrow> 'a Key \<Rightarrow> ('a, 'h, 'g, 'ev) WriteLog \<Rightarrow>
   (write_log_error + nat \<times> int) \<times> ('a, 'h, 'g, 'ev) WriteLog" where
  "wl_delete encode key slf =
     (if is_validity_predicate key \<noteq> None then (Inl DeleteVp, slf)
      else
        let finish = (\<lambda>size_diff.
          (Inr ((Key_len encode key + size_diff) * unat STORAGE_WRITE_GAS_PER_BYTE, - int size_diff),
           slf\<lparr>tx_write_log := AList.update key Delete (tx_write_log slf)\<rparr>))
        in case or_else (map_of (tx_write_log slf) key) (map_of (tx_precommit_write_log slf) key) of
             Some (Write value) \<Rightarrow> finish (length value)
           | Some Delete \<Rightarrow> finish 0
           | Some (InitAccount _) \<Rightarrow> (Inl DeleteVp, slf)
           | None \<Rightarrow> finish 0)"

definition protocol_delete ::
  "'a Key \<Rightarrow> ('a, 'h, 'g, 'ev) WriteLog \<Rightarrow> (write_log_error + unit) \<times> ('a, 'h, 'g, 'ev) WriteLog" where
  "protocol_delete key slf =
     (if is_validity_predicate key \<noteq> None then (Inl DeleteVp, slf)
      else
        let prev = map_of (block_write_log slf) key;
            slf' = slf\<lparr>block_write_log := AList.update key Delete (block_write_log slf)\<rparr>
        in case prev of
             Some (InitAccount _) \<Rightarrow> (Inl DeleteVp, slf')
           | _ \<Rightarrow> (Inr (), slf'))"

definition init_account ::
  "('a \<Rightarrow> string) \<Rightarrow> ('g \<Rightarrow> bytes \<Rightarrow> 'a \<times> 'g) \<Rightarrow> 'g \<Rightarrow> 'h \<Rightarrow> bytes \<Rightarrow> ('a, 'h, 'g, 'ev) WriteLog \<Rightarrow>
   ('a \<times> nat) \<times> ('a, 'h, 'g, 'ev) WriteLog" where
  "init_account encode generate_address storage_address_gen vp_code_hash entropy_source slf =
     (let gen = (case address_gen slf of Some g \<Rightarrow> g | None \<Rightarrow> storage_address_gen);
          (addr, gen') = generate_address gen entropy_source;
          key = validity_predicate addr;
          gas = (Key_len encode key + HASH_LENGTH) * unat STORAGE_WRITE_GAS_PER_BYTE
      in ((addr, gas),
          slf\<lparr>address_gen := Some gen',
              tx_write_log := AList.update key (InitAccount vp_code_hash) (tx_write_log slf)\<rparr>))"

text \<open>An event is filed under its type; its gas cost is computed by the events module.\<close>

definition emit_event ::
  "('ev \<Rightarrow> string) \<Rightarrow> ('ev \<Rightarrow> nat) \<Rightarrow> 'ev \<Rightarrow> ('a, 'h, 'g, 'ev) WriteLog \<Rightarrow> nat \<times> ('a, 'h, 'g, 'ev) WriteLog" where
  "emit_event kind emission_gas_cost event slf =
     (let gas_cost = emission_gas_cost event;
          event_type = kind event;
          tree = (case map_of (events slf) event_type of
                    None \<Rightarrow> AList.update event_type {} (events slf) | Some _ \<Rightarrow> events slf);
          set' = insert event (case map_of tree event_type of Some s \<Rightarrow> s | None \<Rightarrow> {})
      in (gas_cost, slf\<lparr>events := AList.update event_type set' tree\<rparr>))"

definition get_keys :: "('a, 'h, 'g, 'ev) WriteLog \<Rightarrow> 'a Key set" where
  "get_keys slf = set (map fst (tx_write_log slf))"

definition get_keys_with_precommit :: "('a, 'h, 'g, 'ev) WriteLog \<Rightarrow> 'a Key set" where
  "get_keys_with_precommit slf = set (map fst (tx_precommit_write_log slf) @ map fst (tx_write_log slf))"

definition init_account_entry :: "'a Key \<times> 'h StorageModification \<Rightarrow> 'a option" where
  "init_account_entry e =
     (case (is_validity_predicate (fst e), snd e) of (Some address, InitAccount _) \<Rightarrow> Some address | _ \<Rightarrow> None)"

definition get_partitioned_keys :: "('a, 'h, 'g, 'ev) WriteLog \<Rightarrow> 'a Key set \<times> 'a set" where
  "get_partitioned_keys slf =
     (set (map fst (filter (\<lambda>e. init_account_entry e = None) (tx_write_log slf))),
      set (List.map_filter init_account_entry (tx_write_log slf)))"

definition get_initialized_accounts :: "('a, 'h, 'g, 'ev) WriteLog \<Rightarrow> 'a list" where
  "get_initialized_accounts slf = List.map_filter init_account_entry (tx_write_log slf)"

definition take_events :: "('a, 'h, 'g, 'ev) WriteLog \<Rightarrow> 'ev set \<times> ('a, 'h, 'g, 'ev) WriteLog" where
  "take_events slf = (\<Union>(set (map snd (events slf))), slf\<lparr>events := []\<rparr>)"

definition lookup_events_with_prefix :: "string \<Rightarrow> ('a, 'h, 'g, 'ev) WriteLog \<Rightarrow> 'ev set" where
  "lookup_events_with_prefix event_type slf =
     \<Union>(set (map snd (filter (\<lambda>e. take (length event_type) (fst e) = event_type) (events slf))))"

definition get_events :: "('a, 'h, 'g, 'ev) WriteLog \<Rightarrow> 'ev set" where
  "get_events slf = \<Union>(set (map snd (events slf)))"

definition precommit_tx :: "('a, 'h, 'g, 'ev) WriteLog \<Rightarrow> ('a, 'h, 'g, 'ev) WriteLog" where
  "precommit_tx slf =
     slf\<lparr>tx_write_log := [],
         tx_precommit_write_log := im_extend (tx_precommit_write_log slf) (tx_write_log slf)\<rparr>"

definition commit_tx :: "('a, 'h, 'g, 'ev) WriteLog \<Rightarrow> ('a, 'h, 'g, 'ev) WriteLog" where
  "commit_tx slf =
     (let slf1 = precommit_tx slf
      in slf1\<lparr>tx_precommit_write_log := [],
              block_write_log := im_extend (block_write_log slf1) (tx_precommit_write_log slf1),
              tx_temp_log := [],
              events := []\<rparr>)"

definition drop_tx :: "('a, 'h, 'g, 'ev) WriteLog \<Rightarrow> ('a, 'h, 'g, 'ev) WriteLog" where
  "drop_tx slf = slf\<lparr>tx_precommit_write_log := [], tx_write_log := [], tx_temp_log := [], events := []\<rparr>"

definition drop_tx_keep_precommit :: "('a, 'h, 'g, 'ev) WriteLog \<Rightarrow> ('a, 'h, 'g, 'ev) WriteLog" where
  "drop_tx_keep_precommit slf = slf\<lparr>tx_write_log := []\<rparr>"

definition verifiers_and_changed_keys ::
  "'a set \<Rightarrow> ('a, 'h, 'g, 'ev) WriteLog \<Rightarrow> 'a set \<times> 'a Key set" where
  "verifiers_and_changed_keys verifiers_from_tx slf =
     (let changed_keys = get_keys slf;
          initialized_accounts = get_initialized_accounts slf;
          verifiers = fold (\<lambda>key verifiers.
            case fst_address key of
              Some addr \<Rightarrow>
                if addr \<notin> verifiers_from_tx \<and> addr \<notin> set initialized_accounts
                then insert addr verifiers else verifiers
            | None \<Rightarrow> verifiers) (map fst (tx_write_log slf)) verifiers_from_tx
      in (verifiers, changed_keys))"

definition insert_matches ::
  "('a \<Rightarrow> string) \<Rightarrow> 'a Key \<Rightarrow> ('a Key, 'h StorageModification) index_map \<Rightarrow>
   (string, 'h StorageModification) btree_map \<Rightarrow> (string, 'h StorageModification) btree_map" where
  "insert_matches encode pre bucket matches =
     fold (\<lambda>(key, modification) matches.
       if split_prefix key pre \<noteq> None then bt_insert (Key_to_string encode key) modification matches else matches)
       bucket matches"

definition iter_prefix_pre ::
  "('a \<Rightarrow> string) \<Rightarrow> 'a Key \<Rightarrow> ('a, 'h, 'g, 'ev) WriteLog \<Rightarrow> (string, 'h StorageModification) btree_map" where
  "iter_prefix_pre encode pre slf = insert_matches encode pre (block_write_log slf) []"

definition iter_prefix_post ::
  "('a \<Rightarrow> string) \<Rightarrow> 'a Key \<Rightarrow> ('a, 'h, 'g, 'ev) WriteLog \<Rightarrow> (string, 'h StorageModification) btree_map" where
  "iter_prefix_post encode pre slf =
     fold (insert_matches encode pre)
       [block_write_log slf, tx_precommit_write_log slf, tx_write_log slf] []"

definition has_replay_protection_entry :: "'h \<Rightarrow> ('a, 'h, 'g, 'ev) WriteLog \<Rightarrow> bool" where
  "has_replay_protection_entry hash slf \<longleftrightarrow> hash \<in> replay_protection slf"

definition write_tx_hash ::
  "'h \<Rightarrow> ('a, 'h, 'g, 'ev) WriteLog \<Rightarrow> (write_log_error + unit) \<times> ('a, 'h, 'g, 'ev) WriteLog" where
  "write_tx_hash hash slf =
     (if hash \<in> replay_protection slf then (Inl ReplayProtection, slf)
      else (Inr (), slf\<lparr>replay_protection := insert hash (replay_protection slf)\<rparr>))"

definition redundant_tx_hash ::
  "'h \<Rightarrow> ('a, 'h, 'g, 'ev) WriteLog \<Rightarrow> (write_log_error + unit) \<times> ('a, 'h, 'g, 'ev) WriteLog" where
  "redundant_tx_hash hash slf =
     (if hash \<notin> replay_protection slf then (Inl ReplayProtection, slf)
      else (Inr (), slf\<lparr>replay_protection := replay_protection slf - {hash}\<rparr>))"

section \<open>The layered view\<close>

text \<open>
  What a reader sees at a key is the newest layer that has it. The abstract state of a log is
  the committed layer and the view on top of it.
\<close>

definition wl_pending :: "('a, 'h, 'g, 'ev) WriteLog \<Rightarrow> 'a Key \<rightharpoonup> 'h StorageModification" where
  "wl_pending wl = map_of (tx_precommit_write_log wl) ++ map_of (tx_write_log wl)"

definition wl_base :: "('a, 'h, 'g, 'ev) WriteLog \<Rightarrow> 'a Key \<rightharpoonup> 'h StorageModification" where
  "wl_base wl = map_of (block_write_log wl)"

definition wl_view :: "('a, 'h, 'g, 'ev) WriteLog \<Rightarrow> 'a Key \<rightharpoonup> 'h StorageModification" where
  "wl_view wl = wl_base wl ++ wl_pending wl"

definition wl_ok :: "('a, 'h, 'g, 'ev) WriteLog \<Rightarrow> bool" where
  "wl_ok wl \<longleftrightarrow> im_ok (block_write_log wl) \<and> im_ok (tx_write_log wl) \<and> im_ok (tx_temp_log wl) \<and>
     im_ok (tx_precommit_write_log wl) \<and> im_ok (events wl)"

lemma or_else_pending:
  "or_else (map_of (tx_write_log wl) key) (map_of (tx_precommit_write_log wl) key) = wl_pending wl key"
  by (simp add: or_else_def wl_pending_def map_add_def)

lemma wl_read_view: "fst (wl_read encode key wl) = wl_view wl key"
proof -
  have "or_else (wl_pending wl key) (map_of (block_write_log wl) key) = wl_view wl key"
    by (simp add: or_else_def wl_view_def wl_base_def map_add_def)
  then show ?thesis by (simp add: wl_read_def or_else_pending split: option.split)
qed

lemma wl_read_pre_base: "fst (wl_read_pre encode key wl) = wl_base wl key"
  by (simp add: wl_read_pre_def wl_base_def split: option.split)

lemma update_pending:
  "wl_pending (wl\<lparr>tx_write_log := AList.update key m (tx_write_log wl)\<rparr>) = (wl_pending wl)(key \<mapsto> m)"
  by (auto simp: wl_pending_def update_conv' map_add_def fun_eq_iff)

lemmas wl_op_defs = wl_write_def write_temp_def wl_delete_def init_account_def emit_event_def
  precommit_tx_def drop_tx_keep_precommit_def

text \<open>The effect of the operations of a transaction on the pending layer, on every branch.\<close>

lemma wl_write_cases:
  obtains (temp) "wl_write encode key value wl = (Inl UpdateTemporaryValue, wl)" "map_of (tx_temp_log wl) key \<noteq> None"
  | (new_vp) h where "wl_write encode key value wl = (Inl UpdateVpOfNewAccount, wl)" "wl_pending wl key = Some (InitAccount h)"
  | (ok) r wl' where "wl_write encode key value wl = (Inr r, wl')" "map_of (tx_temp_log wl) key = None"
      "\<And>h. wl_pending wl key \<noteq> Some (InitAccount h)" "wl_pending wl' = (wl_pending wl)(key \<mapsto> Write value)"
      "wl' = wl\<lparr>tx_write_log := AList.update key (Write value) (tx_write_log wl)\<rparr>"
proof (cases "map_of (tx_temp_log wl) key")
  case (Some t)
  then show thesis using temp by (simp add: wl_write_def)
next
  case None
  show thesis
  proof (cases "\<exists>h. wl_pending wl key = Some (InitAccount h)")
    case True
    then show thesis using new_vp None by (auto simp: wl_write_def or_else_pending Let_def)
  next
    case False
    let ?wl = "wl\<lparr>tx_write_log := AList.update key (Write value) (tx_write_log wl)\<rparr>"
    have "\<exists>r. wl_write encode key value wl = (Inr r, ?wl)"
      using False None
      by (auto simp: wl_write_def or_else_pending Let_def split: option.split StorageModification.split)
    then show thesis using ok False None update_pending by blast
  qed
qed

lemma wl_delete_cases:
  obtains (vp) "wl_delete encode key wl = (Inl DeleteVp, wl)"
      "is_validity_predicate key \<noteq> None \<or> (\<exists>h. wl_pending wl key = Some (InitAccount h))"
  | (ok) r wl' where "wl_delete encode key wl = (Inr r, wl')" "is_validity_predicate key = None"
      "\<And>h. wl_pending wl key \<noteq> Some (InitAccount h)" "wl_pending wl' = (wl_pending wl)(key \<mapsto> Delete)"
      "wl' = wl\<lparr>tx_write_log := AList.update key Delete (tx_write_log wl)\<rparr>"
proof (cases "is_validity_predicate key \<noteq> None \<or> (\<exists>h. wl_pending wl key = Some (InitAccount h))")
  case True
  then show thesis using vp by (auto simp: wl_delete_def or_else_pending Let_def)
next
  case False
  let ?wl = "wl\<lparr>tx_write_log := AList.update key Delete (tx_write_log wl)\<rparr>"
  have "\<exists>r. wl_delete encode key wl = (Inr r, ?wl)"
    using False
    by (auto simp: wl_delete_def or_else_pending Let_def split: option.split StorageModification.split)
  then show thesis using ok False update_pending by blast
qed

text \<open>
  The operations a transaction can perform on the log, with the parameters of their
  environment fixed.
\<close>

datatype ('a, 'h, 'ev) tx_op =
  OpWrite "'a Key" bytes | OpWriteTemp "'a Key" bytes | OpDelete "'a Key" | OpInitAccount 'h bytes
  | OpEmit 'ev | OpPrecommit | OpDropKeepPrecommit

fun exec_op ::
  "('a \<Rightarrow> string) \<Rightarrow> ('g \<Rightarrow> bytes \<Rightarrow> 'a \<times> 'g) \<Rightarrow> 'g \<Rightarrow> ('ev \<Rightarrow> string) \<Rightarrow> ('ev \<Rightarrow> nat) \<Rightarrow>
   ('a, 'h, 'ev) tx_op \<Rightarrow> ('a, 'h, 'g, 'ev) WriteLog \<Rightarrow> ('a, 'h, 'g, 'ev) WriteLog" where
  "exec_op encode gen g0 kind cost (OpWrite k v) wl = snd (wl_write encode k v wl)"
| "exec_op encode gen g0 kind cost (OpWriteTemp k v) wl = snd (write_temp encode k v wl)"
| "exec_op encode gen g0 kind cost (OpDelete k) wl = snd (wl_delete encode k wl)"
| "exec_op encode gen g0 kind cost (OpInitAccount h s) wl = snd (init_account encode gen g0 h s wl)"
| "exec_op encode gen g0 kind cost (OpEmit e) wl = snd (emit_event kind cost e wl)"
| "exec_op encode gen g0 kind cost OpPrecommit wl = precommit_tx wl"
| "exec_op encode gen g0 kind cost OpDropKeepPrecommit wl = drop_tx_keep_precommit wl"

lemma exec_op_block:
  "block_write_log (exec_op encode gen g0 kind cost op wl) = block_write_log wl"
  "replay_protection (exec_op encode gen g0 kind cost op wl) = replay_protection wl"
  by (cases op; auto simp: wl_op_defs Let_def split: option.splits StorageModification.splits prod.splits)+

lemma exec_op_ok: "wl_ok wl \<Longrightarrow> wl_ok (exec_op encode gen g0 kind cost op wl)"
  by (cases op; auto simp: wl_op_defs wl_ok_def Let_def im.ok_ins im_extend_ok
      split: option.splits StorageModification.splits prod.splits)

lemma precommit_pending: "wl_ok wl \<Longrightarrow> wl_pending (precommit_tx wl) = wl_pending wl"
  by (simp add: wl_pending_def precommit_tx_def wl_ok_def im_extend_get)

lemma exec_ops_block:
  "block_write_log (fold (exec_op encode gen g0 kind cost) ops wl) = block_write_log wl"
  "replay_protection (fold (exec_op encode gen g0 kind cost) ops wl) = replay_protection wl"
  by (induction ops arbitrary: wl) (simp_all add: exec_op_block)

lemma exec_ops_ok: "wl_ok wl \<Longrightarrow> wl_ok (fold (exec_op encode gen g0 kind cost) ops wl)"
  by (induction ops arbitrary: wl) (simp_all add: exec_op_ok)



text \<open>
  C26: Committing: the block layer becomes exactly what readers saw at the end of the
  transaction, no key reads differently after the commit, and the transaction's own buckets
  are empty.
\<close>

theorem commit_tx_keeps_view:
  assumes "wl_ok wl"
  shows "wl_base (commit_tx wl) = wl_view wl \<and> wl_view (commit_tx wl) = wl_view wl \<and>
    wl_ok (commit_tx wl) \<and> get_keys_with_precommit (commit_tx wl) = {} \<and>
    tx_temp_log (commit_tx wl) = [] \<and> get_events (commit_tx wl) = {}"
proof -
  have p: "wl_ok (precommit_tx wl)" "wl_pending (precommit_tx wl) = wl_pending wl"
    using assms exec_op_ok [of wl undefined undefined undefined undefined undefined OpPrecommit]
    by (simp_all add: precommit_pending)
  have "map_of (tx_precommit_write_log (precommit_tx wl)) = wl_pending wl"
    using p(2) by (simp add: wl_pending_def precommit_tx_def)
  then have "wl_base (commit_tx wl) = wl_base wl ++ wl_pending wl"
    using p(1) by (simp add: commit_tx_def Let_def wl_base_def wl_ok_def im_extend_get) (simp add: precommit_tx_def)
  moreover have "wl_pending (commit_tx wl) = Map.empty"
    by (simp add: commit_tx_def Let_def wl_pending_def precommit_tx_def)
  ultimately show ?thesis
    using p(1) by (simp add: wl_view_def wl_ok_def commit_tx_def Let_def im_extend_ok get_keys_with_precommit_def get_events_def)
      (simp add: precommit_tx_def)
qed

definition sample_key :: "unit Key" where
  "sample_key = \<lparr>segments = [StringSeg ''k'']\<rparr>"

definition sample_log :: "(unit, nat, unit, nat) WriteLog" where
  "sample_log = WriteLog_default\<lparr>tx_write_log := [(sample_key, Write [1])]\<rparr>"

theorem commit_tx_keeps_view_witness:
  "wl_view (commit_tx sample_log) sample_key = Some (Write [1])"
proof -
  have "wl_ok sample_log" by (simp add: sample_log_def wl_ok_def WriteLog_default_def im_ok_def)
  then have "wl_view (commit_tx sample_log) = wl_view sample_log" using commit_tx_keeps_view by blast
  then show ?thesis
    by (simp add: sample_log_def WriteLog_default_def wl_view_def wl_base_def wl_pending_def)
qed

section \<open>The life of a log\<close>

text \<open>All the ways the ledger changes a log, as a transition system.\<close>

inductive wl_step ::
  "('a \<Rightarrow> string) \<Rightarrow> ('g \<Rightarrow> bytes \<Rightarrow> 'a \<times> 'g) \<Rightarrow> 'g \<Rightarrow> ('ev \<Rightarrow> string) \<Rightarrow> ('ev \<Rightarrow> nat) \<Rightarrow>
   ('a, 'h, 'g, 'ev) WriteLog \<Rightarrow> ('a, 'h, 'g, 'ev) WriteLog \<Rightarrow> bool"
  for encode gen g0 kind cost where
  tx: "wl_step encode gen g0 kind cost wl (exec_op encode gen g0 kind cost op wl)"
| protocol_write: "wl_step encode gen g0 kind cost wl (snd (protocol_write k v wl))"
| protocol_delete: "wl_step encode gen g0 kind cost wl (snd (protocol_delete k wl))"
| commit: "wl_step encode gen g0 kind cost wl (commit_tx wl)"
| drop: "wl_step encode gen g0 kind cost wl (drop_tx wl)"
| take_events: "wl_step encode gen g0 kind cost wl (snd (take_events wl))"
| write_hash: "wl_step encode gen g0 kind cost wl (snd (write_tx_hash h wl))"
| redundant_hash: "wl_step encode gen g0 kind cost wl (snd (redundant_tx_hash h wl))"

inductive wl_reachable ::
  "('a \<Rightarrow> string) \<Rightarrow> ('g \<Rightarrow> bytes \<Rightarrow> 'a \<times> 'g) \<Rightarrow> 'g \<Rightarrow> ('ev \<Rightarrow> string) \<Rightarrow> ('ev \<Rightarrow> nat) \<Rightarrow>
   ('a, 'h, 'g, 'ev) WriteLog \<Rightarrow> bool"
  for encode gen g0 kind cost where
  init: "wl_reachable encode gen g0 kind cost WriteLog_default"
| step: "wl_reachable encode gen g0 kind cost wl \<Longrightarrow> wl_step encode gen g0 kind cost wl wl' \<Longrightarrow>
    wl_reachable encode gen g0 kind cost wl'"

inductive_cases wl_stepE: "wl_step encode gen g0 kind cost wl wl'"

text \<open>A log of one bucket never deletes a validity predicate; accounts are only initialised at one.\<close>

definition bucket_inv :: "('a Key, 'h StorageModification) index_map \<Rightarrow> bool" where
  "bucket_inv b \<longleftrightarrow> im_ok b \<and> (\<forall>a. map_of b (validity_predicate a) \<noteq> Some Delete) \<and>
     (\<forall>k h. map_of b k = Some (InitAccount h) \<longrightarrow> (\<exists>a. k = validity_predicate a))"

definition wl_inv :: "('a, 'h, 'g, 'ev) WriteLog \<Rightarrow> bool" where
  "wl_inv wl \<longleftrightarrow> bucket_inv (block_write_log wl) \<and> bucket_inv (tx_precommit_write_log wl) \<and>
     bucket_inv (tx_write_log wl) \<and> im_ok (tx_temp_log wl) \<and> im_ok (events wl)"

lemma bucket_inv_Nil [simp]: "bucket_inv []"
  by (simp add: bucket_inv_def)

lemma bucket_inv_write: "bucket_inv b \<Longrightarrow> bucket_inv (AList.update k (Write v) b)"
  by (auto simp: bucket_inv_def im.ok_ins im.get_ins)

lemma bucket_inv_init: "bucket_inv b \<Longrightarrow> bucket_inv (AList.update (validity_predicate a) (InitAccount h) b)"
  by (auto simp: bucket_inv_def im.ok_ins im.get_ins)

lemma bucket_inv_delete: "bucket_inv b \<Longrightarrow> is_validity_predicate k = None \<Longrightarrow> bucket_inv (AList.update k Delete b)"
  using is_validity_predicate_iff [of k] by (auto simp: bucket_inv_def im.ok_ins im.get_ins)

lemma bucket_inv_extend:
  assumes "bucket_inv b" "bucket_inv c"
  shows "bucket_inv (im_extend b c)"
proof -
  have "map_of (im_extend b c) = map_of b ++ map_of c" using assms by (simp add: bucket_inv_def im_extend_get)
  then show ?thesis using assms by (auto simp: bucket_inv_def im_extend_ok map_add_Some_iff)
qed

lemmas bucket_inv_intros = bucket_inv_Nil bucket_inv_write bucket_inv_init bucket_inv_delete bucket_inv_extend

lemma wl_step_inv: "wl_step encode gen g0 kind cost wl wl' \<Longrightarrow> wl_inv wl \<Longrightarrow> wl_inv wl'"
proof (induction rule: wl_step.induct)
  case (tx wl op)
  then show ?case
    by (cases op) (auto simp: wl_op_defs wl_inv_def Let_def bucket_inv_intros im.ok_ins
        split: option.splits StorageModification.splits prod.splits)
next
  case (protocol_write wl k v)
  then show ?case
    by (auto simp: protocol_write_def wl_inv_def Let_def bucket_inv_intros split: option.splits StorageModification.splits)
next
  case (protocol_delete wl k)
  then show ?case
    by (auto simp: protocol_delete_def wl_inv_def Let_def bucket_inv_intros split: option.splits StorageModification.splits)
next
  case (commit wl)
  then show ?case by (simp add: commit_tx_def precommit_tx_def wl_inv_def Let_def bucket_inv_intros)
qed (auto simp: drop_tx_def take_events_def write_tx_hash_def redundant_tx_hash_def wl_inv_def)

lemma wl_reachable_inv: "wl_reachable encode gen g0 kind cost wl \<Longrightarrow> wl_inv wl"
  by (induction rule: wl_reachable.induct) (auto simp: wl_step_inv, simp add: wl_inv_def WriteLog_default_def)

text \<open>
  In every reachable log, whatever the order of transactions, commits, rollbacks and protocol
  writes, no validity predicate reads as deleted, and a new account only appears under its
  validity predicate key.
\<close>

theorem validity_predicates_never_deleted:
  assumes "wl_reachable encode gen g0 kind cost wl"
  shows "fst (wl_read encode (validity_predicate a) wl) \<noteq> Some Delete \<and>
    (fst (wl_read encode k wl) = Some (InitAccount h) \<longrightarrow> is_validity_predicate k \<noteq> None)"
proof -
  have inv: "wl_inv wl" using assms by (rule wl_reachable_inv)
  have "wl_view wl (validity_predicate a) \<noteq> Some Delete"
    using inv by (auto simp: wl_view_def wl_base_def wl_pending_def wl_inv_def bucket_inv_def map_add_Some_iff)
  moreover have "wl_view wl k = Some (InitAccount h) \<longrightarrow> (\<exists>a. k = validity_predicate a)"
    using inv by (auto simp: wl_view_def wl_base_def wl_pending_def wl_inv_def bucket_inv_def map_add_Some_iff)
  ultimately show ?thesis
    using is_validity_predicate_iff by (fastforce simp: wl_read_view)
qed

theorem validity_predicates_never_deleted_witness:
  "fst (wl_read (\<lambda>_. ''a'') (validity_predicate ()) (snd (wl_delete (\<lambda>_. ''a'') (validity_predicate ())
      (WriteLog_default :: (unit, nat, unit, nat) WriteLog)))) \<noteq> Some Delete"
proof -
  have "wl_reachable (\<lambda>_. ''a'') (\<lambda>g s. ((), g)) () (\<lambda>_. []) (\<lambda>_. 0)
      (exec_op (\<lambda>_. ''a'') (\<lambda>g s. ((), g)) () (\<lambda>_. []) (\<lambda>_. 0) (OpDelete (validity_predicate ()))
        (WriteLog_default :: (unit, nat, unit, nat) WriteLog))"
    by (rule wl_reachable.step [OF wl_reachable.init]) (rule wl_step.tx)
  from validity_predicates_never_deleted [OF this] show ?thesis by simp
qed

section \<open>Verifiers, prefixes and errors\<close>

lemma fold_verifiers:
  "fold (\<lambda>key vs. case fst_address key of
      Some addr \<Rightarrow> if addr \<notin> F \<and> addr \<notin> I then insert addr vs else vs | None \<Rightarrow> vs) ks V =
   V \<union> {a. (\<exists>k\<in>set ks. fst_address k = Some a) \<and> a \<notin> F \<and> a \<notin> I}"
  by (induction ks arbitrary: V) (auto split: option.splits)

lemma verifiers_eq:
  "verifiers_and_changed_keys vs wl =
     (vs \<union> {a. \<exists>k\<in>get_keys wl. fst_address k = Some a} - (set (get_initialized_accounts wl) - vs), get_keys wl)"
  unfolding verifiers_and_changed_keys_def Let_def fold_verifiers by (auto simp: get_keys_def)

lemma get_initialized_iff:
  fixes wl :: "('a, 'h, 'g, 'ev) WriteLog"
  assumes "im_ok (tx_write_log wl)"
  shows "a \<in> set (get_initialized_accounts wl) \<longleftrightarrow> (\<exists>h. map_of (tx_write_log wl) (validity_predicate a) = Some (InitAccount h))"
proof -
  have e: "init_account_entry x = Some a \<longleftrightarrow> (\<exists>h. x = (validity_predicate a, InitAccount h))"
    for x :: "'a Key \<times> 'h StorageModification"
    using is_validity_predicate_iff [of "fst x" a]
    by (cases x; cases "snd x"; cases "is_validity_predicate (fst x)") (auto simp: init_account_entry_def)
  have "a \<in> set (List.map_filter f xs) \<longleftrightarrow> (\<exists>x\<in>set xs. f x = Some a)"
    for f :: "'a Key \<times> 'h StorageModification \<Rightarrow> 'a option" and xs
    by (induction xs) (auto simp: List.map_filter_simps split: option.split)
  then have "a \<in> set (get_initialized_accounts wl) \<longleftrightarrow>
      (\<exists>h. (validity_predicate a, InitAccount h) \<in> set (tx_write_log wl))"
    unfolding get_initialized_accounts_def by (auto simp only: e)
  then show ?thesis using assms by (simp add: im_ok_def map_of_eq_Some_iff)
qed

text \<open>
  C28: Every account whose storage a transaction changed is asked to verify it, unless the
  transaction itself created the account; and nothing is asked but those and the verifiers the
  transaction named.
\<close>

theorem changed_accounts_verify:
  assumes "wl_ok wl"
  shows "a \<in> fst (verifiers_and_changed_keys vs wl) \<longleftrightarrow>
    a \<in> vs \<or> ((\<exists>k\<in>get_keys wl. fst_address k = Some a) \<and>
      \<not> (\<exists>h. map_of (tx_write_log wl) (validity_predicate a) = Some (InitAccount h)))"
  using assms get_initialized_iff [of wl a] by (auto simp: verifiers_eq wl_ok_def)

theorem changed_accounts_verify_witness:
  "(2 :: nat) \<in> fst (verifiers_and_changed_keys {}
     (WriteLog_default\<lparr>tx_write_log := [(\<lparr>segments = [AddressSeg 2, StringSeg ''b'']\<rparr>, Write [])]\<rparr> :: (nat, nat, unit, nat) WriteLog))"
  using changed_accounts_verify [of "WriteLog_default\<lparr>tx_write_log := [(\<lparr>segments = [AddressSeg 2, StringSeg ''b'']\<rparr>, Write [])]\<rparr> :: (nat, nat, unit, nat) WriteLog" 2 "{}"]
  by (simp add: wl_ok_def WriteLog_default_def im_ok_def get_keys_def fst_address_def validity_predicate_def)

text \<open>
  The comment on \<open>verifiers_and_changed_keys\<close> says that every address of a changed key is
  included; only the address of the first segment is.
\<close>

theorem second_address_not_verifier:
  assumes "a \<noteq> b"
  shows "fst (verifiers_and_changed_keys {}
    (WriteLog_default\<lparr>tx_write_log := [(\<lparr>segments = [AddressSeg a, AddressSeg b]\<rparr>, Write [])]\<rparr>)) = {a} \<and>
    b \<in> set (find_addresses \<lparr>segments = [AddressSeg a, AddressSeg b]\<rparr>) - {a}"
  using assms
  by (auto simp: verifiers_eq get_keys_def WriteLog_default_def fst_address_def get_initialized_accounts_def
      init_account_entry_def is_validity_predicate_def find_addresses_def iter_addresses_def List.map_filter_simps)

theorem second_address_not_verifier_witness:
  "fst (verifiers_and_changed_keys {}
    (WriteLog_default\<lparr>tx_write_log := [(\<lparr>segments = [AddressSeg (1 :: nat), AddressSeg 2]\<rparr>, Write [])]\<rparr>
      :: (nat, nat, unit, nat) WriteLog)) = {1}"
  by (rule conjunct1 [OF second_address_not_verifier]) simp

text \<open>
  A protocol write to the validity predicate of an account created in the same block reports
  an error, but it has already replaced the account's initialisation in the block log.
\<close>

theorem protocol_write_error_not_atomic:
  assumes "wl_ok wl" and "map_of (tx_temp_log wl) key = None"
    and "map_of (block_write_log wl) key = Some (InitAccount h)"
  shows "fst (protocol_write key value wl) = Inl UpdateVpOfNewAccount \<and>
    wl_base (snd (protocol_write key value wl)) key = Some (Write value)"
  using assms by (simp add: protocol_write_def Let_def wl_base_def wl_ok_def im.get_ins)

theorem protocol_write_error_not_atomic_witness:
  "wl_base (snd (protocol_write (validity_predicate ()) [7]
     (WriteLog_default\<lparr>block_write_log := [(validity_predicate (), InitAccount 1)]\<rparr> :: (unit, nat, unit, nat) WriteLog)))
     (validity_predicate ()) = Some (Write [7])"
  using protocol_write_error_not_atomic [of "WriteLog_default\<lparr>block_write_log := [(validity_predicate (), InitAccount 1)]\<rparr> :: (unit, nat, unit, nat) WriteLog"
      "validity_predicate ()" 1 "[7]"]
  by (simp add: wl_ok_def WriteLog_default_def im_ok_def)

text \<open>The prefix iterator agrees with the reads of single keys.\<close>

lemma insert_matches_get:
  assumes inj: "inj_on (Key_to_string encode) (insert key (fst ` set bucket))" and "im_ok bucket"
  shows "map_of (insert_matches encode pre bucket matches) (Key_to_string encode key) =
    (if split_prefix key pre = None then map_of matches (Key_to_string encode key)
     else (case map_of bucket key of Some m \<Rightarrow> Some m | None \<Rightarrow> map_of matches (Key_to_string encode key)))"
  using assms
proof (induction bucket arbitrary: matches)
  case Nil
  then show ?case by (simp add: insert_matches_def)
next
  case (Cons e bucket)
  obtain k m where e: "e = (k, m)" by force
  have s: "Key_to_string encode k = Key_to_string encode key \<longleftrightarrow> k = key"
    using Cons.prems(1) by (auto simp: e inj_on_def)
  have i: "inj_on (Key_to_string encode) (insert key (fst ` set bucket))"
    using Cons.prems(1) by (rule inj_on_subset) auto
  have d: "im_ok bucket" "map_of bucket k = None"
    using Cons.prems(2) by (auto simp: e im_ok_def map_of_eq_None_iff)
  let ?m = "if split_prefix k pre \<noteq> None then bt_insert (Key_to_string encode k) m matches else matches"
  have "insert_matches encode pre (e # bucket) matches = insert_matches encode pre bucket ?m"
    by (simp add: insert_matches_def e)
  then show ?case
    using Cons.IH [OF i d(1), of ?m] d(2) s by (auto simp: e map_of_bt_insert split: option.split)
qed

lemma insert_matches_ok: "bt_ok matches \<Longrightarrow> bt_ok (insert_matches encode pre bucket matches)"
  unfolding insert_matches_def
  by (induction bucket arbitrary: matches) (auto simp: bt_ok_insert)

text \<open>
  The prefix iterator over the log after a transaction yields, in the order of the keys, for
  every key under the prefix exactly the modification that a read of the key returns, provided
  that different keys have different text forms.
\<close>

theorem iter_prefix_post_agrees:
  assumes "wl_ok wl" and "inj_on (Key_to_string encode) (insert key (dom (wl_view wl)))"
    and "split_prefix key pre \<noteq> None"
  shows "bt_ok (iter_prefix_post encode pre wl) \<and>
    map_of (iter_prefix_post encode pre wl) (Key_to_string encode key) = fst (wl_read encode key wl)"
proof
  have d: "fst ` set b \<subseteq> dom (wl_view wl)"
    if "b \<in> {block_write_log wl, tx_precommit_write_log wl, tx_write_log wl}" for b
    using that by (auto simp: wl_view_def wl_base_def wl_pending_def dom_map_of_conv_image_fst)
  have i: "inj_on (Key_to_string encode) (insert key (fst ` set b))"
    if "b \<in> {block_write_log wl, tx_precommit_write_log wl, tx_write_log wl}" for b
    by (rule inj_on_subset [OF assms(2)]) (use d [OF that] in blast)
  show "bt_ok (iter_prefix_post encode pre wl)"
    by (simp add: iter_prefix_post_def insert_matches_ok)
  show "map_of (iter_prefix_post encode pre wl) (Key_to_string encode key) = fst (wl_read encode key wl)"
  proof -
    note g = insert_matches_get [OF i]
    have "map_of (insert_matches encode pre b matches) (Key_to_string encode key) =
        (case map_of b key of Some m \<Rightarrow> Some m | None \<Rightarrow> map_of matches (Key_to_string encode key))"
      if "b \<in> {block_write_log wl, tx_precommit_write_log wl, tx_write_log wl}" for b matches
      using g [OF that] that assms(1,3) by (auto simp: wl_ok_def)
    then show ?thesis
      by (simp add: iter_prefix_post_def wl_read_view wl_view_def wl_base_def wl_pending_def map_add_def
          split: option.split)
  qed
qed

theorem iter_prefix_post_agrees_witness:
  "map_of (iter_prefix_post (\<lambda>_. ''a'') sample_key sample_log) (Key_to_string (\<lambda>_. ''a'') sample_key) =
     fst (wl_read (\<lambda>_. ''a'') sample_key sample_log)"
proof -
  have d: "dom (wl_view sample_log) = {sample_key}"
    by (auto simp: sample_log_def sample_key_def WriteLog_default_def wl_view_def wl_base_def wl_pending_def split: if_splits)
  have "wl_ok sample_log" by (simp add: sample_log_def wl_ok_def WriteLog_default_def im_ok_def)
  then show ?thesis
    using iter_prefix_post_agrees [of sample_log "\<lambda>_. ''a''" sample_key sample_key] by (simp add: d split_prefix_def)
qed

lemma write_tx_hash_once:
  "fst (write_tx_hash h wl) = Inr () \<longleftrightarrow> \<not> has_replay_protection_entry h wl"
  "has_replay_protection_entry h (snd (write_tx_hash h wl))"
  "fst (redundant_tx_hash h wl) = Inr () \<longleftrightarrow> has_replay_protection_entry h wl"
  by (auto simp: write_tx_hash_def redundant_tx_hash_def has_replay_protection_entry_def)

end
