(* ===== verification/Epoched.thy ===== *)
theory Epoched
  imports TokenAmount
begin

text \<open>
  Data indexed by epochs (\<open>proof_of_stake/src/epoched.rs\<close>): the discrete structure \<open>Epoched\<close>, whose
  value holds from its epoch on until the next one, the nested structure, and \<open>EpochedDelta\<close>, whose
  value at an epoch is the sum of the deltas up to it. Each update first trims old epochs.

  An epoch is the number in its \<open>u64\<close>; an addition that leaves 64 bits panics (\<open>EpochOverflow\<close>).
  A handle is the lazy map of the data with the epochs of the last update and of the oldest data.
  \<open>PastEpochs::value(params)\<close> and \<open>FutureEpochs::value(params)\<close> are the arguments \<open>past\<close> and \<open>future\<close>.
\<close>

section \<open>The structures\<close>

type_synonym epoch = nat

datatype epoched_error = EpochOverflow | EpochedArith

record 'v epoched =
  lazy_map :: "epoch \<Rightarrow> 'v option"
  last_update :: "epoch option"
  oldest_epoch :: "epoch option"

definition epoched_open :: "'v epoched" where
  "epoched_open = \<lparr>lazy_map = Map.empty, last_update = None, oldest_epoch = None\<rparr>"

definition unchecked_add :: "epoch \<Rightarrow> nat \<Rightarrow> epoched_error + epoch" where
  "unchecked_add e n = (if e + n < 2 ^ 64 then Inr (e + n) else Inl EpochOverflow)"

definition sub_past_epochs :: "nat \<Rightarrow> epoch \<Rightarrow> epoch" where
  "sub_past_epochs past e = (if past \<le> e then e - past else 0)"

definition set_at_epoch :: "'v \<Rightarrow> epoch \<Rightarrow> nat \<Rightarrow> 'v epoched \<Rightarrow> epoched_error + 'v epoched" where
  "set_at_epoch value current_epoch offset slf =
     rbind (unchecked_add current_epoch offset) (\<lambda>e.
     Inr (slf\<lparr>lazy_map := (lazy_map slf)(e \<mapsto> value)\<rparr>))"

definition init_at_genesis :: "'v \<Rightarrow> epoch \<Rightarrow> 'v epoched \<Rightarrow> epoched_error + 'v epoched" where
  "init_at_genesis value current_epoch slf =
     set_at_epoch value current_epoch 0 (slf\<lparr>last_update := Some current_epoch, oldest_epoch := Some current_epoch\<rparr>)"

text \<open>The search for the value of an epoch or of the nearest epoch before it, down to \<open>lo\<close>.\<close>

fun get_loop :: "(epoch \<Rightarrow> 'v option) \<Rightarrow> epoch \<Rightarrow> epoch \<Rightarrow> 'v option" where
  "get_loop m lo e =
     (case m e of
        Some v \<Rightarrow> Some v
      | None \<Rightarrow> if e > 0 \<and> e > lo then get_loop m lo (e - 1) else None)"

declare get_loop.simps [simp del]

definition epoched_get :: "nat \<Rightarrow> nat \<Rightarrow> 'v epoched \<Rightarrow> epoch \<Rightarrow> epoched_error + 'v option" where
  "epoched_get past future slf e =
     (case last_update slf of
        None \<Rightarrow> Inr None
      | Some lu \<Rightarrow>
          rbind (unchecked_add lu future) (\<lambda>future_most_epoch.
          Inr (get_loop (lazy_map slf) (sub_past_epochs past lu) (min e future_most_epoch))))"

text \<open>\<open>for epoch in oldest_epoch.iter_range(diff)\<close>: remove each epoch, keeping the last value removed.\<close>

definition remove_latest :: "(epoch \<Rightarrow> 'v option) \<times> 'v option \<Rightarrow> epoch \<Rightarrow> (epoch \<Rightarrow> 'v option) \<times> 'v option" where
  "remove_latest acc e =
     (let (m, latest_value) = acc; removed = m e
      in (m(e := None), case removed of Some v \<Rightarrow> Some v | None \<Rightarrow> latest_value))"

definition touch_epochs :: "epoch \<Rightarrow> 'v epoched \<Rightarrow> 'v epoched" where
  "touch_epochs current_epoch slf =
     slf\<lparr>last_update := Some current_epoch,
         oldest_epoch := (case oldest_epoch slf of None \<Rightarrow> Some current_epoch | Some e \<Rightarrow> Some e)\<rparr>"

definition epoched_update_data :: "nat \<Rightarrow> epoch \<Rightarrow> 'v epoched \<Rightarrow> 'v epoched" where
  "epoched_update_data past current_epoch slf =
     (case (last_update slf, oldest_epoch slf) of
        (Some _, Some oldest) \<Rightarrow>
          let oldest_to_keep = sub_past_epochs past current_epoch
          in if oldest < oldest_to_keep then
               let (m, latest_value) = foldl remove_latest (lazy_map slf, None) [oldest..<oldest_to_keep]
               in (case latest_value of
                     Some v \<Rightarrow>
                       slf\<lparr>lazy_map := (if m oldest_to_keep = None then m(oldest_to_keep \<mapsto> v) else m),
                           oldest_epoch := Some oldest_to_keep,
                           last_update := Some current_epoch\<rparr>
                   | None \<Rightarrow> slf\<lparr>lazy_map := m, last_update := Some current_epoch\<rparr>)
             else touch_epochs current_epoch slf
      | _ \<Rightarrow> touch_epochs current_epoch slf)"

definition epoched_set :: "nat \<Rightarrow> 'v \<Rightarrow> epoch \<Rightarrow> nat \<Rightarrow> 'v epoched \<Rightarrow> epoched_error + 'v epoched" where
  "epoched_set past value current_epoch offset slf =
     set_at_epoch value current_epoch offset (epoched_update_data past current_epoch slf)"

text \<open>The nested structure drops the old epochs with everything below them and carries nothing over.\<close>

definition nested_init :: "epoch \<Rightarrow> 'v epoched \<Rightarrow> 'v epoched" where
  "nested_init e slf = slf\<lparr>last_update := Some e, oldest_epoch := Some e\<rparr>"

definition nested_update_data :: "nat \<Rightarrow> epoch \<Rightarrow> 'v epoched \<Rightarrow> 'v epoched" where
  "nested_update_data past current_epoch slf =
     (let slf' =
        (case (last_update slf, oldest_epoch slf) of
           (Some _, Some oldest) \<Rightarrow>
             let oldest_to_keep = sub_past_epochs past current_epoch
             in if oldest < oldest_to_keep
                then slf\<lparr>lazy_map := foldl (\<lambda>m e. m(e := None)) (lazy_map slf) [oldest..<oldest_to_keep],
                         oldest_epoch := Some oldest_to_keep\<rparr>
                else slf
         | _ \<Rightarrow> slf)
      in slf'\<lparr>last_update := Some current_epoch\<rparr>)"

section \<open>Deltas\<close>

text \<open>The data of a delta structure has a checked addition, the argument \<open>add\<close> of the operations.\<close>

definition add_some :: "('v \<Rightarrow> 'v \<Rightarrow> 'v option) \<Rightarrow> 'v option \<Rightarrow> 'v option \<Rightarrow> epoched_error + 'v option" where
  "add_some add tot delta =
     (case delta of
        None \<Rightarrow> Inr tot
      | Some d \<Rightarrow>
          (case tot of
             None \<Rightarrow> Inr (Some d)
           | Some s \<Rightarrow> rbind (ok_or (add s d) EpochedArith) (\<lambda>s'. Inr (Some s'))))"

definition get_sum :: "('v \<Rightarrow> 'v \<Rightarrow> 'v option) \<Rightarrow> nat \<Rightarrow> nat \<Rightarrow> 'v epoched \<Rightarrow> epoch \<Rightarrow> epoched_error + 'v option" where
  "get_sum add past future slf e =
     (case last_update slf of
        None \<Rightarrow> Inr None
      | Some lu \<Rightarrow>
          rbind (unchecked_add lu future) (\<lambda>future_most_epoch.
          rfold (\<lambda>tot ep. add_some add tot (lazy_map slf ep)) None
            [sub_past_epochs past lu..<Suc (min e future_most_epoch)]))"

definition remove_sum ::
    "('v \<Rightarrow> 'v \<Rightarrow> 'v option) \<Rightarrow> (epoch \<Rightarrow> 'v option) \<times> 'v option \<Rightarrow> epoch \<Rightarrow> epoched_error + (epoch \<Rightarrow> 'v option) \<times> 'v option" where
  "remove_sum add acc e =
     (let (m, tot) = acc
      in rbind (add_some add tot (m e)) (\<lambda>tot1. Inr (m(e := None), tot1)))"

definition delta_update_data ::
    "('v \<Rightarrow> 'v \<Rightarrow> 'v option) \<Rightarrow> nat \<Rightarrow> epoch \<Rightarrow> 'v epoched \<Rightarrow> epoched_error + 'v epoched" where
  "delta_update_data add past current_epoch slf =
     (case (last_update slf, oldest_epoch slf) of
        (Some _, Some oldest) \<Rightarrow>
          let oldest_to_keep = sub_past_epochs past current_epoch
          in if oldest < oldest_to_keep then
               rbind (rfold (remove_sum add) (lazy_map slf, None) [oldest..<oldest_to_keep]) (\<lambda>(m, tot).
               case tot of
                 Some s \<Rightarrow>
                   rbind
                     (case m oldest_to_keep of
                        Some d \<Rightarrow> ok_or (add d s) EpochedArith
                      | None \<Rightarrow> Inr s)
                     (\<lambda>new_oldest_epoch_data.
                       Inr (slf\<lparr>lazy_map := m(oldest_to_keep \<mapsto> new_oldest_epoch_data),
                                oldest_epoch := Some oldest_to_keep,
                                last_update := Some current_epoch\<rparr>))
               | None \<Rightarrow> Inr (slf\<lparr>lazy_map := m, last_update := Some current_epoch\<rparr>))
             else Inr (touch_epochs current_epoch slf)
      | _ \<Rightarrow> Inr (touch_epochs current_epoch slf))"

definition delta_add ::
    "('v \<Rightarrow> 'v \<Rightarrow> 'v option) \<Rightarrow> 'v \<Rightarrow> nat \<Rightarrow> 'v \<Rightarrow> epoch \<Rightarrow> nat \<Rightarrow> 'v epoched \<Rightarrow> epoched_error + 'v epoched" where
  "delta_add add zero past value current_epoch offset slf =
     rbind (delta_update_data add past current_epoch slf) (\<lambda>slf'.
     rbind (unchecked_add current_epoch offset) (\<lambda>e.
     let cur_value = (case lazy_map slf' e of Some v \<Rightarrow> v | None \<Rightarrow> zero)
     in rbind (ok_or (add cur_value value) EpochedArith) (\<lambda>new_value.
        set_at_epoch new_value current_epoch offset slf')))"

definition delta_set ::
    "('v \<Rightarrow> 'v \<Rightarrow> 'v option) \<Rightarrow> nat \<Rightarrow> 'v \<Rightarrow> epoch \<Rightarrow> nat \<Rightarrow> 'v epoched \<Rightarrow> epoched_error + 'v epoched" where
  "delta_set add past value current_epoch offset slf =
     rbind (delta_update_data add past current_epoch slf) (set_at_epoch value current_epoch offset)"

section \<open>The nearest value\<close>

text \<open>The abstract history of a discrete structure: the value of the last epoch up to the given one.\<close>

primrec nearest :: "(epoch \<Rightarrow> 'v option) \<Rightarrow> epoch \<Rightarrow> 'v option" where
  "nearest m 0 = m 0"
| "nearest m (Suc e) = (case m (Suc e) of Some v \<Rightarrow> Some v | None \<Rightarrow> nearest m e)"

lemma nearest_iff:
  "nearest m e = Some v \<longleftrightarrow> (\<exists>k\<le>e. m k = Some v \<and> (\<forall>j. k < j \<and> j \<le> e \<longrightarrow> m j = None))"
proof (induction e)
  case (Suc e)
  show ?case
  proof (cases "m (Suc e)")
    case None
    then have "(\<exists>k\<le>Suc e. m k = Some v \<and> (\<forall>j. k < j \<and> j \<le> Suc e \<longrightarrow> m j = None)) \<longleftrightarrow>
        (\<exists>k\<le>e. m k = Some v \<and> (\<forall>j. k < j \<and> j \<le> e \<longrightarrow> m j = None))"
      by (metis le_Suc_eq option.distinct(1))
    then show ?thesis using None Suc by simp
  next
    case (Some w)
    then show ?thesis by (auto, metis le_neq_implies_less option.distinct(1) option.inject order_refl)
  qed
qed auto

lemma nearest_Some_key: "m e = Some v \<Longrightarrow> nearest m e = Some v"
  by (cases e) simp_all

lemma nearest_step: "m e = None \<Longrightarrow> 0 < e \<Longrightarrow> nearest m e = nearest m (e - 1)"
  by (cases e) simp_all

lemma nearest_cong: "(\<And>k. k \<le> e \<Longrightarrow> m k = m' k) \<Longrightarrow> nearest m e = nearest m' e"
  by (induction e) (auto split: option.split)

lemma nearest_none: "(\<And>k. k \<le> e \<Longrightarrow> m k = None) \<Longrightarrow> nearest m e = None"
  by (induction e) auto

lemma nearest_skip: "a \<le> e \<Longrightarrow> (\<And>k. a < k \<Longrightarrow> k \<le> e \<Longrightarrow> m k = None) \<Longrightarrow> nearest m e = nearest m a"
proof (induction e)
  case (Suc e)
  then show ?case by (cases "a = Suc e") (auto simp: nearest_step)
qed simp

lemma get_loop_nearest:
  assumes "\<And>k. m k \<noteq> None \<Longrightarrow> lo \<le> k"
  shows "get_loop m lo e = nearest m e"
proof (induction e)
  case 0
  then show ?case by (cases "m 0") (auto simp: get_loop.simps)
next
  case (Suc e)
  show ?case
  proof (cases "m (Suc e)")
    case None
    then show ?thesis
    proof (cases "lo < Suc e")
      case False
      then have "\<And>k. k \<le> Suc e \<Longrightarrow> m k = None"
        using assms None by (metis le_antisym not_less order_trans)
      then show ?thesis using False None by (simp add: get_loop.simps [of m lo "Suc e"] nearest_none)
    qed (simp add: get_loop.simps [of m lo "Suc e"] Suc nearest_step None)
  qed (simp add: get_loop.simps nearest_Some_key)
qed

section \<open>Discrete data refines a history\<close>

text \<open>
  The data of a handle lies between the oldest epoch and the reach of the last update, and no
  data is kept before the window of past epochs.
\<close>

definition epoched_inv :: "nat \<Rightarrow> nat \<Rightarrow> 'v epoched \<Rightarrow> bool" where
  "epoched_inv past future E \<longleftrightarrow>
     (case (last_update E, oldest_epoch E) of
        (Some lu, Some old) \<Rightarrow> old \<le> lu \<and>
          (\<forall>k. lazy_map E k \<noteq> None \<longrightarrow> old \<le> k \<and> sub_past_epochs past lu \<le> k \<and> k \<le> lu + future)
      | (None, None) \<Rightarrow> \<forall>k. lazy_map E k = None
      | _ \<Rightarrow> False)"

definition updated_by :: "epoch \<Rightarrow> 'v epoched \<Rightarrow> bool" where
  "updated_by e E \<longleftrightarrow> (case last_update E of None \<Rightarrow> True | Some lu \<Rightarrow> lu \<le> e)"

lemma epoched_inv_cases:
  assumes "epoched_inv past future E"
  obtains (fresh) "last_update E = None" "oldest_epoch E = None" "\<And>k. lazy_map E k = None"
  | (live) lu old where "last_update E = Some lu" "oldest_epoch E = Some old"
      "\<And>k. lazy_map E k \<noteq> None \<Longrightarrow> old \<le> k \<and> sub_past_epochs past lu \<le> k \<and> k \<le> lu + future" "old \<le> lu"
  using assms unfolding epoched_inv_def by (cases "last_update E"; cases "oldest_epoch E") auto

lemma epoched_invI:
  assumes "last_update E = Some lu" "oldest_epoch E = Some old" "old \<le> lu"
    "\<And>k. lazy_map E k \<noteq> None \<Longrightarrow> old \<le> k \<and> sub_past_epochs past lu \<le> k \<and> k \<le> lu + future"
  shows "epoched_inv past future E"
  unfolding epoched_inv_def using assms by simp

lemma epoched_get_eq:
  assumes inv: "epoched_inv past future E" and small: "\<And>lu. last_update E = Some lu \<Longrightarrow> lu + future < 2 ^ 64"
  shows "epoched_get past future E e = Inr (nearest (lazy_map E) e)"
  using inv
proof (cases rule: epoched_inv_cases)
  case (live lu old)
  have "nearest (lazy_map E) e = nearest (lazy_map E) (min e (lu + future))"
  proof (cases "e \<le> lu + future")
    case False
    have "lazy_map E k = None" if "lu + future < k" for k using live(3) [of k] that by (cases "lazy_map E k") auto
    then show ?thesis using False nearest_skip [of "lu + future" e "lazy_map E"] by (simp add: min_def)
  qed (simp add: min_absorb1)
  moreover have "get_loop (lazy_map E) (sub_past_epochs past lu) (min e (lu + future)) = nearest (lazy_map E) (min e (lu + future))"
    using live(3) by (intro get_loop_nearest) auto
  ultimately show ?thesis using live(1) small [of lu] by (simp add: epoched_get_def unchecked_add_def)
qed (simp add: epoched_get_def nearest_none)

definition before :: "(epoch \<Rightarrow> 'v option) \<Rightarrow> epoch \<Rightarrow> 'v option" where
  "before m t = (case t of 0 \<Rightarrow> None | Suc e \<Rightarrow> nearest m e)"

lemma foldl_remove_latest:
  assumes "a \<le> b" "\<And>k. m k \<noteq> None \<Longrightarrow> a \<le> k"
  shows "foldl remove_latest (m, None) [a..<b] = (\<lambda>k. if a \<le> k \<and> k < b then None else m k, before m b)"
  using assms(1)
proof (induction b)
  case (Suc b)
  show ?case
  proof (cases "a = Suc b")
    case True
    then have "nearest m b = None" using assms(2) by (intro nearest_none) (metis not_less_eq_eq)
    then show ?thesis by (auto simp: True before_def fun_eq_iff)
  next
    case False
    then have "a \<le> b" using Suc.prems by simp
    then have "[a..<Suc b] = [a..<b] @ [b]" by simp
    then show ?thesis
      using Suc.IH [OF \<open>a \<le> b\<close>] \<open>a \<le> b\<close>
      by (cases b) (auto simp: remove_latest_def before_def fun_eq_iff split: option.split)
  qed
qed (simp add: before_def)

lemma nearest_trim:
  assumes "\<And>k. m' k = (if k < t then None else if k = t \<and> m t = None then before m t else m k)" "t \<le> e"
  shows "nearest m' e = nearest m e"
  using assms(2)
proof (induction e)
  case 0
  then show ?case using assms(1) [of 0] by (auto simp: before_def split: if_splits)
next
  case (Suc e)
  show ?case
  proof (cases "t = Suc e")
    case True
    have "nearest m' e = None" by (rule nearest_none) (simp add: assms(1) True)
    then show ?thesis using assms(1) [of t] by (auto simp: True before_def split: option.split)
  next
    case False
    then have "t \<le> e" "m' (Suc e) = m (Suc e)" using Suc.prems by (simp_all add: assms(1))
    then show ?thesis using Suc.IH by (simp split: option.split)
  qed
qed

lemma epoched_update_data_trim:
  assumes inv: "epoched_inv past future E" and live: "last_update E = Some lu" "oldest_epoch E = Some old"
    and trim: "old < sub_past_epochs past cur" and cur: "lu \<le> cur"
  shows "epoched_inv past future (epoched_update_data past cur E) \<and>
    (\<forall>e\<ge>sub_past_epochs past cur. nearest (lazy_map (epoched_update_data past cur E)) e = nearest (lazy_map E) e)"
proof -
  let ?t = "sub_past_epochs past cur" and ?m = "lazy_map E"
  let ?m1 = "\<lambda>k. if old \<le> k \<and> k < ?t then None else ?m k"
  have keys: "\<And>k. ?m k \<noteq> None \<Longrightarrow> old \<le> k \<and> sub_past_epochs past lu \<le> k \<and> k \<le> lu + future" and "old \<le> lu"
    using inv live by (auto simp: epoched_inv_def)
  have fold: "foldl remove_latest (?m, None) [old..<?t] = (?m1, before ?m ?t)"
    using trim keys by (intro foldl_remove_latest) auto
  have "?t \<le> cur" by (simp add: sub_past_epochs_def)
  have early: "?m1 k = None" if "k < ?t" for k using that keys [of k] by (cases "?m k") auto
  show ?thesis
  proof (cases "before ?m ?t")
    case None
    let ?E = "E\<lparr>lazy_map := ?m1, last_update := Some cur\<rparr>"
    have E: "epoched_update_data past cur E = ?E"
      using fold trim None by (simp add: epoched_update_data_def live Let_def)
    have bounds: "old \<le> k \<and> ?t \<le> k \<and> k \<le> cur + future" if "?m1 k \<noteq> None" for k
      using that early [of k] keys [of k] cur by (auto split: if_splits simp: not_less)
    have "epoched_inv past future ?E"
      using \<open>old \<le> lu\<close> cur live by (intro epoched_invI [of _ cur old] bounds) auto
    moreover have "nearest ?m1 e = nearest ?m e" if "?t \<le> e" for e
      by (rule nearest_trim [OF _ that]) (use early None in auto)
    ultimately show ?thesis by (simp add: E)
  next
    case (Some v)
    let ?m2 = "if ?m1 ?t = None then ?m1(?t \<mapsto> v) else ?m1"
    let ?E = "E\<lparr>lazy_map := ?m2, oldest_epoch := Some ?t, last_update := Some cur\<rparr>"
    have E: "epoched_update_data past cur E = ?E"
      using fold trim Some by (simp add: epoched_update_data_def live Let_def)
    have "?t \<le> k \<and> k \<le> cur + future" if "?m2 k \<noteq> None" for k
      using that early [of k] keys [of k] cur \<open>?t \<le> cur\<close> by (auto split: if_splits simp: not_less)
    then have "epoched_inv past future ?E" using \<open>?t \<le> cur\<close> by (simp add: epoched_inv_def)
    moreover have "nearest ?m2 e = nearest ?m e" if "?t \<le> e" for e
      by (rule nearest_trim [OF _ that]) (use early Some in auto)
    ultimately show ?thesis by (simp add: E)
  qed
qed

lemma touch_epochs_inv:
  assumes inv: "epoched_inv past future E" and upd: "updated_by cur E"
    and keep: "\<And>old. oldest_epoch E = Some old \<Longrightarrow> sub_past_epochs past cur \<le> old"
  shows "epoched_inv past future (touch_epochs cur E)"
  using inv
proof (cases rule: epoched_inv_cases)
  case (live lu old)
  have "sub_past_epochs past cur \<le> k \<and> k \<le> cur + future" if "lazy_map E k \<noteq> None" for k
    using live(3) [OF that] keep [OF live(2)] upd by (auto simp: updated_by_def live(1))
  then show ?thesis using live upd by (auto simp: epoched_inv_def touch_epochs_def updated_by_def)
qed (simp add: epoched_inv_def touch_epochs_def)

lemma touch_epochs_map [simp]: "lazy_map (touch_epochs cur E) = lazy_map E" "last_update (touch_epochs cur E) = Some cur"
  by (simp_all add: touch_epochs_def)

lemma epoched_update_data_last [simp]: "last_update (epoched_update_data past cur E) = Some cur"
  by (simp add: epoched_update_data_def Let_def split: option.split prod.split)

lemma epoched_update_data_spec:
  assumes inv: "epoched_inv past future E" and upd: "updated_by cur E"
  shows "epoched_inv past future (epoched_update_data past cur E) \<and>
    (\<forall>e\<ge>sub_past_epochs past cur. nearest (lazy_map (epoched_update_data past cur E)) e = nearest (lazy_map E) e)"
proof (cases "\<exists>lu old. last_update E = Some lu \<and> oldest_epoch E = Some old \<and> old < sub_past_epochs past cur")
  case True
  then show ?thesis using epoched_update_data_trim [OF inv] upd by (fastforce simp: updated_by_def)
next
  case False
  then have E: "epoched_update_data past cur E = touch_epochs cur E"
    by (auto simp: epoched_update_data_def Let_def split: option.split)
  have "sub_past_epochs past cur \<le> old" if "oldest_epoch E = Some old" for old
    using inv False that by (cases rule: epoched_inv_cases) (auto simp: not_less)
  then show ?thesis unfolding E using touch_epochs_inv [OF inv upd] by simp
qed

lemma epoched_set_nearest:
  assumes "epoched_inv past future E" "updated_by cur E" "cur + future < 2 ^ 64"
  obtains E' where "epoched_set past v cur future E = Inr E'" "epoched_inv past future E'" "updated_by cur E'"
    "\<And>e. nearest (lazy_map E') e =
       (if e < sub_past_epochs past cur then None else if cur + future \<le> e then Some v else nearest (lazy_map E) e)"
proof -
  let ?U = "epoched_update_data past cur E" and ?n = "cur + future"
  let ?E = "?U\<lparr>lazy_map := (lazy_map ?U)(?n \<mapsto> v)\<rparr>"
  note spec = epoched_update_data_spec [OF assms(1,2)]
  have lo: "sub_past_epochs past cur \<le> cur" by (simp add: sub_past_epochs_def)
  have keys: "lazy_map ?U k \<noteq> None \<Longrightarrow> sub_past_epochs past cur \<le> k \<and> k \<le> ?n" for k
    using spec by (auto elim!: epoched_inv_cases)
  have "epoched_set past v cur future E = Inr ?E" using assms(3) by (simp add: epoched_set_def set_at_epoch_def unchecked_add_def)
  moreover have "epoched_inv past future ?E" using spec lo by (auto elim!: epoched_inv_cases intro!: epoched_invI split: if_splits)
  moreover have "updated_by cur ?E" using spec by (auto simp: updated_by_def)
  moreover have "nearest (lazy_map ?E) e =
      (if e < sub_past_epochs past cur then None else if ?n \<le> e then Some v else nearest (lazy_map E) e)" for e
  proof -
    consider "e < sub_past_epochs past cur" | "sub_past_epochs past cur \<le> e" "?n \<le> e" | "sub_past_epochs past cur \<le> e" "e < ?n" by linarith
    then show ?thesis
    proof cases
      case 1
      then have "nearest (lazy_map ?E) e = None" using lo keys by (intro nearest_none) fastforce
      then show ?thesis using 1 by simp
    next
      case 2
      then have "nearest (lazy_map ?E) e = nearest (lazy_map ?E) ?n" using keys by (intro nearest_skip) fastforce+
      then show ?thesis using 2 by (simp add: nearest_Some_key)
    next
      case 3
      then have "nearest (lazy_map ?E) e = nearest (lazy_map ?U) e" by (intro nearest_cong) simp
      then show ?thesis using 3 spec by simp
    qed
  qed
  ultimately show thesis by (rule that)
qed



section \<open>Sums of deltas\<close>

definition oval :: "('v \<Rightarrow> int) \<Rightarrow> 'v option \<Rightarrow> int" where
  "oval val v = (case v of None \<Rightarrow> 0 | Some d \<Rightarrow> val d)"

definition sum_to :: "('v \<Rightarrow> int) \<Rightarrow> (epoch \<Rightarrow> 'v option) \<Rightarrow> epoch \<Rightarrow> int" where
  "sum_to val m e = (\<Sum>k\<le>e. oval val (m k))"

definition all_ok :: "('v \<Rightarrow> bool) \<Rightarrow> (epoch \<Rightarrow> 'v option) \<Rightarrow> bool" where
  "all_ok ok m \<longleftrightarrow> (\<forall>k. pred_option ok (m k))"

lemma oval_simps [simp]: "oval val None = 0" "oval val (Some d) = val d"
  by (simp_all add: oval_def)

lemma take_upt_min: "take n [a..<b] = [a..<min (a + n) b]"
  by (cases "a + n \<le> b") (simp_all add: take_upt min_def del: upt_Suc)

text \<open>
  The interface of the data of a delta structure: a checked addition that is exact on the integers
  the values stand for, and fails only when the sum does not fit.
\<close>

locale delta_data =
  fixes add :: "'v \<Rightarrow> 'v \<Rightarrow> 'v option" and val :: "'v \<Rightarrow> int" and ok :: "'v \<Rightarrow> bool" and fits :: "int \<Rightarrow> bool"
  assumes add_Some: "ok a \<Longrightarrow> ok b \<Longrightarrow> add a b = Some c \<Longrightarrow> ok c \<and> val c = val a + val b"
    and add_None: "ok a \<Longrightarrow> ok b \<Longrightarrow> add a b = None \<Longrightarrow> \<not> fits (val a + val b)"
begin

lemma sum_outside: "finite B \<Longrightarrow> A \<subseteq> B \<Longrightarrow> (\<And>k. k \<in> B \<Longrightarrow> k \<notin> A \<Longrightarrow> m k = None) \<Longrightarrow>
    (\<Sum>k\<in>A. oval val (m k)) = (\<Sum>k\<in>B. oval val (m k))"
  by (rule sum.mono_neutral_left) auto

lemma add_some_Inr:
  assumes "pred_option ok tot" "pred_option ok d" "add_some add tot d = Inr r"
  shows "pred_option ok r \<and> oval val r = oval val tot + oval val d \<and> (r = None \<longleftrightarrow> tot = None \<and> d = None)"
  using assms by (cases tot; cases d) (auto simp: add_some_def  result_simps dest: add_Some)

lemma add_some_Inl:
  assumes "pred_option ok tot" "pred_option ok d" "add_some add tot d = Inl x"
  shows "\<not> fits (oval val tot + oval val d)"
  using assms by (cases tot; cases d) (auto simp: add_some_def  result_simps dest: add_None)

lemma rfold_add_Inr:
  assumes "all_ok ok m" "pred_option ok tot" "rfold (\<lambda>t k. add_some add t (m k)) tot ks = Inr r"
  shows "pred_option ok r \<and> oval val r = oval val tot + (\<Sum>k\<leftarrow>ks. oval val (m k)) \<and> (r = None \<longleftrightarrow> tot = None \<and> (\<forall>k\<in>set ks. m k = None))"
  using assms(2,3)
proof (induction ks arbitrary: tot)
  case (Cons k ks)
  then obtain t where t: "add_some add tot (m k) = Inr t" "rfold (\<lambda>t k. add_some add t (m k)) t ks = Inr r"
    by (auto simp: result_simps)
  have *: "pred_option ok t \<and> oval val t = oval val tot + oval val (m k) \<and> (t = None \<longleftrightarrow> tot = None \<and> m k = None)"
    using Cons.prems(1) assms(1) t(1) by (intro add_some_Inr) (auto simp: all_ok_def)
  then show ?case using Cons.IH [OF _ t(2)] by auto
qed auto

lemma rfold_add_total:
  assumes "all_ok ok m" "pred_option ok tot" "\<forall>n\<le>length ks. fits (oval val tot + (\<Sum>k\<leftarrow>take n ks. oval val (m k)))"
  shows "\<exists>r. rfold (\<lambda>t k. add_some add t (m k)) tot ks = Inr r"
  using assms(2,3)
proof (induction ks arbitrary: tot)
  case (Cons k ks)
  have ok: "pred_option ok (m k)" using assms(1) by (simp add: all_ok_def)
  have "fits (oval val tot + oval val (m k))" using Cons.prems(2) [rule_format, of 1] by simp
  then obtain t where t: "add_some add tot (m k) = Inr t"
    using add_some_Inl [OF Cons.prems(1) ok] by (cases "add_some add tot (m k)") auto
  note t' = add_some_Inr [OF Cons.prems(1) ok t]
  have "fits (oval val t + (\<Sum>k\<leftarrow>take n ks. oval val (m k)))" if "n \<le> length ks" for n
    using Cons.prems(2) [rule_format, of "Suc n"] that t' by (simp add: add.assoc)
  then show ?case using Cons.IH [of t] t t' by (auto simp: result_simps)
qed simp

lemma remove_sum_eq: "remove_sum add (m, tot) k = rbind (add_some add tot (m k)) (\<lambda>t. Inr (m(k := None), t))"
  by (simp add: remove_sum_def)

lemma rfold_remove_sum:
  assumes "distinct ks"
  shows "rfold (remove_sum add) (m, tot) ks =
    rbind (rfold (\<lambda>t k. add_some add t (m k)) tot ks) (\<lambda>r. Inr (\<lambda>k. if k \<in> set ks then None else m k, r))"
  using assms
proof (induction ks arbitrary: m tot)
  case (Cons k ks)
  have "rfold (\<lambda>t j. add_some add t ((m(k := None)) j)) t ks = rfold (\<lambda>t j. add_some add t (m j)) t ks" for t
    using Cons.prems by (intro rfold_cong) auto
  moreover have "(\<lambda>j. if j \<in> set ks then None else (m(k := None)) j) = (\<lambda>j. if j \<in> set (k # ks) then None else m j)"
    by auto
  ultimately have "rfold (remove_sum add) (m(k := None), t) ks =
      rbind (rfold (\<lambda>t j. add_some add t (m j)) t ks) (\<lambda>r. Inr (\<lambda>j. if j \<in> set (k # ks) then None else m j, r))" for t
    using Cons.IH [of "m(k := None)" t] Cons.prems by (simp only: distinct.simps)
  then show ?case by (simp only: rfold.simps remove_sum_eq rbind_assoc rbind_simps)
qed simp

lemma sum_to_list: "(\<Sum>k\<leftarrow>[a..<b]. oval val (m k)) = (\<Sum>k\<in>{a..<b}. oval val (m k))"
  by (simp add: sum_list_distinct_conv_sum_set)

lemma sum_to_window:
  assumes "\<And>k. m k \<noteq> None \<Longrightarrow> a \<le> k" "\<And>k. m k \<noteq> None \<Longrightarrow> k \<le> b"
  shows "(\<Sum>k\<in>{a..<Suc (min e b)}. oval val (m k)) = sum_to val m e"
  unfolding sum_to_def
proof (rule sum.mono_neutral_left)
  show "\<forall>k\<in>{..e} - {a..<Suc (min e b)}. oval val (m k) = 0"
  proof
    fix k
    assume "k \<in> {..e} - {a..<Suc (min e b)}"
    then have "m k = None" using assms [of k] by (cases "m k") (auto simp: min_def split: if_splits)
    then show "oval val (m k) = 0" by simp
  qed
qed auto

lemma get_sum_Inr:
  assumes inv: "epoched_inv past future E" and ok: "all_ok ok (lazy_map E)"
    and r: "get_sum add past future E e = Inr r"
  shows "oval val r = sum_to val (lazy_map E) e \<and> (r = None \<longleftrightarrow> (\<forall>k\<le>e. lazy_map E k = None))"
  using inv
proof (cases rule: epoched_inv_cases)
  case fresh
  then show ?thesis using r by (simp add: get_sum_def  sum_to_def)
next
  case (live lu old)
  let ?m = "lazy_map E" and ?a = "sub_past_epochs past lu" and ?b = "lu + future"
  have r': "rfold (\<lambda>t k. add_some add t (?m k)) None [?a..<Suc (min e ?b)] = Inr r"
    using r by (auto simp: get_sum_def live(1) unchecked_add_def result_simps split: if_splits)
  have "(\<forall>k\<in>set [?a..<Suc (min e ?b)]. ?m k = None) \<longleftrightarrow> (\<forall>k\<le>e. ?m k = None)"
  proof (intro iffI allI impI)
    fix k assume H: "\<forall>k\<in>set [?a..<Suc (min e ?b)]. ?m k = None" and "k \<le> e"
    then have "k \<in> set [?a..<Suc (min e ?b)]" if "?m k \<noteq> None"
      using live(3) [OF that] by (simp add: less_Suc_eq_le del: upt_Suc)
    then show "?m k = None" using H by (cases "?m k") (auto simp del: upt_Suc)
  qed (auto simp: less_Suc_eq_le)
  moreover have "(\<Sum>k\<in>{?a..<Suc (min e ?b)}. oval val (?m k)) = sum_to val ?m e"
    using live(3) by (intro sum_to_window) auto
  ultimately show ?thesis
    using rfold_add_Inr [OF ok _ r'] by (simp add: sum_to_list del: upt_Suc sum.op_ivl_Suc)
qed

lemma get_sum_total:
  assumes inv: "epoched_inv past future E" and ok: "all_ok ok (lazy_map E)"
    and small: "\<And>lu. last_update E = Some lu \<Longrightarrow> lu + future < 2 ^ 64"
    and fit: "fits 0" "\<forall>k\<le>e. fits (sum_to val (lazy_map E) k)"
  shows "\<exists>r. get_sum add past future E e = Inr r"
  using inv
proof (cases rule: epoched_inv_cases)
  case (live lu old)
  let ?m = "lazy_map E" and ?a = "sub_past_epochs past lu" and ?b = "lu + future"
  have "fits (\<Sum>k\<leftarrow>take n [?a..<Suc (min e ?b)]. oval val (?m k))" for n
  proof -
    let ?c = "min (?a + n) (Suc (min e ?b))"
    have "take n [?a..<Suc (min e ?b)] = [?a..<?c]" by (rule take_upt_min)
    moreover have "fits (\<Sum>k\<in>{?a..<?c}. oval val (?m k))"
    proof (cases "?a < ?c")
      case True
      then obtain c where c: "?c = Suc c" by (cases ?c) auto
      have "(\<Sum>k\<in>{?a..<Suc c}. oval val (?m k)) = sum_to val ?m c"
        unfolding sum_to_def
      proof (rule sum_outside)
        fix k assume "k \<in> {..c}" "k \<notin> {?a..<Suc c}"
        then show "?m k = None" using live(3) [of k] by (cases "?m k") auto
      qed auto
      moreover have "c \<le> e" using c by linarith
      ultimately show ?thesis using fit(2) by (simp add: c)
    next
      case False
      then have "{?a..<?c} = {}" by auto
      then show ?thesis using fit(1) by (simp only: sum.empty)
    qed
    ultimately show ?thesis by (simp add: sum_to_list)
  qed
  then have "\<exists>r. rfold (\<lambda>t k. add_some add t (?m k)) None [?a..<Suc (min e ?b)] = Inr r"
    by (intro rfold_add_total [OF ok]) simp_all
  then show ?thesis using small [OF live(1)] by (auto simp: get_sum_def live(1) unchecked_add_def)
qed (simp add: get_sum_def)

lemma sum_to_trim:
  assumes "\<And>k. k < t \<Longrightarrow> m' k = None" "oval val (m' t) = sum_to val m t" "\<And>k. t < k \<Longrightarrow> m' k = m k" "t \<le> e"
  shows "sum_to val m' e = sum_to val m e"
  using assms(4)
proof (induction e rule: dec_induct)
  case base
  have "sum_to val m' t = (\<Sum>k<t. oval val (m' k)) + oval val (m' t)" by (simp add: sum_to_def lessThan_Suc_atMost [symmetric])
  then show ?case using assms(1,2) by simp
next
  case (step e)
  then show ?case using assms(3) [of "Suc e"] by (simp add: sum_to_def)
qed

lemma sum_to_lessThan: "sum_to val m t = (\<Sum>k<t. oval val (m k)) + oval val (m t)"
  by (simp add: sum_to_def lessThan_Suc_atMost [symmetric])

lemma delta_trim:
  assumes inv: "epoched_inv past future E" and ok: "all_ok ok (lazy_map E)"
    and live: "last_update E = Some lu" "oldest_epoch E = Some old"
    and trim: "old < sub_past_epochs past cur" and cur: "lu \<le> cur"
    and upd: "delta_update_data add past cur E = Inr E'"
  shows "epoched_inv past future E' \<and> all_ok ok (lazy_map E') \<and> last_update E' = Some cur \<and>
    (\<forall>e\<ge>sub_past_epochs past cur. sum_to val (lazy_map E') e = sum_to val (lazy_map E) e)"
proof -
  let ?t = "sub_past_epochs past cur" and ?m = "lazy_map E"
  let ?m1 = "\<lambda>k. if old \<le> k \<and> k < ?t then None else ?m k"
  have keys: "\<And>k. ?m k \<noteq> None \<Longrightarrow> old \<le> k \<and> k \<le> lu + future" and "old \<le> lu"
    using inv live by (auto simp: epoched_inv_def)
  have "?t \<le> cur" by (simp add: sub_past_epochs_def)
  obtain r where r: "rfold (\<lambda>t k. add_some add t (?m k)) None [old..<?t] = Inr r"
    "(case r of
        Some s \<Rightarrow> rbind (case ?m ?t of Some d \<Rightarrow> ok_or (add d s) EpochedArith | None \<Rightarrow> Inr s)
          (\<lambda>v. Inr (E\<lparr>lazy_map := ?m1(?t \<mapsto> v), oldest_epoch := Some ?t, last_update := Some cur\<rparr>))
      | None \<Rightarrow> Inr (E\<lparr>lazy_map := ?m1, last_update := Some cur\<rparr>)) = Inr E'"
    using upd trim
    by (auto simp: delta_update_data_def live Let_def rfold_remove_sum rbind_assoc result_simps)
  have "oval val r = (\<Sum>k\<in>{old..<?t}. oval val (?m k))" "pred_option ok r" and rnone: "r = None \<longleftrightarrow> (\<forall>k\<in>{old..<?t}. ?m k = None)"
    using rfold_add_Inr [OF ok _ r(1)] by (simp_all add: sum_to_list )
  moreover have "(\<Sum>k\<in>{old..<?t}. oval val (?m k)) = (\<Sum>k<?t. oval val (?m k))"
  proof (rule sum_outside)
    fix k assume "k \<in> {..<?t}" "k \<notin> {old..<?t}"
    then show "?m k = None" using keys [of k] by (cases "?m k") auto
  qed auto
  ultimately have rsum: "oval val r = (\<Sum>k<?t. oval val (?m k))" and rok: "pred_option ok r" by simp_all
  have early: "?m1 k = None" if "k < ?t" for k using that keys [of k] by (cases "?m k") auto
  have ok1: "all_ok ok ?m1" using ok by (simp add: all_ok_def)
  show ?thesis
  proof (cases r)
    case None
    then have E': "E' = E\<lparr>lazy_map := ?m1, last_update := Some cur\<rparr>" using r(2) by simp
    have bounds: "old \<le> k \<and> ?t \<le> k \<and> k \<le> cur + future" if "?m1 k \<noteq> None" for k
      using that early [of k] keys [of k] cur by (auto split: if_splits simp: not_less)
    have "epoched_inv past future E'"
      using \<open>old \<le> lu\<close> cur live unfolding E' by (intro epoched_invI [of _ cur old] bounds) auto
    moreover have "sum_to val ?m1 e = sum_to val ?m e" if "?t \<le> e" for e
      using that early rsum None by (intro sum_to_trim [where t = ?t]) (auto simp: sum_to_lessThan )
    ultimately show ?thesis using ok1 by (simp add: E')
  next
    case (Some s)
    obtain v where v: "(case ?m ?t of Some d \<Rightarrow> ok_or (add d s) EpochedArith | None \<Rightarrow> Inr s) = Inr v"
      and E': "E' = E\<lparr>lazy_map := ?m1(?t \<mapsto> v), oldest_epoch := Some ?t, last_update := Some cur\<rparr>"
      using r(2) by (auto simp: Some result_simps)
    have sok: "ok s" using rok by (simp add: Some)
    have vv: "ok v \<and> val v = oval val (?m ?t) + val s"
    proof (cases "?m ?t")
      case None
      then show ?thesis using v sok by simp
    next
      case (Some d)
      then have "ok d" using ok by (auto simp: all_ok_def pred_option_def dest: spec [of _ ?t])
      moreover have "add d s = Some v" using v Some by (simp add: ok_or_Inr_iff)
      ultimately show ?thesis using add_Some [of d s v] sok Some by simp
    qed
    have bounds: "?t \<le> k \<and> ?t \<le> k \<and> k \<le> cur + future" if "(?m1(?t \<mapsto> v)) k \<noteq> None" for k
      using that early [of k] keys [of k] cur \<open>?t \<le> cur\<close> by (auto split: if_splits simp: not_less)
    have "epoched_inv past future E'"
      using \<open>?t \<le> cur\<close> unfolding E' by (intro epoched_invI [of _ cur ?t] bounds) auto
    moreover have "sum_to val (?m1(?t \<mapsto> v)) e = sum_to val ?m e" if "?t \<le> e" for e
      using that early rsum Some vv by (intro sum_to_trim [where t = ?t]) (auto simp: sum_to_lessThan )
    moreover have "all_ok ok (?m1(?t \<mapsto> v))" using ok1 vv by (simp add: all_ok_def)
    ultimately show ?thesis by (simp add: E')
  qed
qed

lemma delta_update_data_spec:
  assumes inv: "epoched_inv past future E" and ok: "all_ok ok (lazy_map E)" and upd: "updated_by cur E"
    and E': "delta_update_data add past cur E = Inr E'"
  shows "epoched_inv past future E' \<and> all_ok ok (lazy_map E') \<and> last_update E' = Some cur \<and>
    (\<forall>e\<ge>sub_past_epochs past cur. sum_to val (lazy_map E') e = sum_to val (lazy_map E) e)"
proof (cases "\<exists>lu old. last_update E = Some lu \<and> oldest_epoch E = Some old \<and> old < sub_past_epochs past cur")
  case True
  then obtain lu old where "last_update E = Some lu" "oldest_epoch E = Some old" "old < sub_past_epochs past cur"
    by blast
  then show ?thesis using delta_trim [OF inv ok, of lu old cur E'] upd E' by (simp add: updated_by_def)
next
  case False
  then have t: "E' = touch_epochs cur E"
    using E' by (auto simp: delta_update_data_def Let_def split: option.splits)
  have "sub_past_epochs past cur \<le> old" if "oldest_epoch E = Some old" for old
    using inv False that by (cases rule: epoched_inv_cases) (auto simp: not_less)
  then show ?thesis unfolding t using touch_epochs_inv [OF inv upd] ok by simp
qed

lemma sum_to_upd:
  "sum_to val (m(n \<mapsto> v)) e = sum_to val m e + (if n \<le> e then val v - oval val (m n) else 0)"
proof -
  have "(\<Sum>k\<le>e. oval val ((m(n \<mapsto> v)) k)) = (\<Sum>k\<le>e. oval val (m k) + (if k = n then val v - oval val (m n) else 0))"
    by (intro sum.cong) auto
  then show ?thesis by (simp add: sum_to_def sum.distrib)
qed

lemma delta_add_spec:
  assumes inv: "epoched_inv past future E" and ok: "all_ok ok (lazy_map E)" "ok v" "ok zero" "val zero = 0"
    and upd: "updated_by cur E" and off: "offset \<le> future"
    and E': "delta_add add zero past v cur offset E = Inr E'"
  shows "epoched_inv past future E' \<and> all_ok ok (lazy_map E') \<and> last_update E' = Some cur \<and>
    (\<forall>e\<ge>sub_past_epochs past cur.
      sum_to val (lazy_map E') e = sum_to val (lazy_map E) e + (if cur + offset \<le> e then val v else 0))"
proof -
  obtain U where U: "delta_update_data add past cur E = Inr U" and
    rest: "rbind (unchecked_add cur offset) (\<lambda>e. let cur_value = (case lazy_map U e of Some v \<Rightarrow> v | None \<Rightarrow> zero)
        in rbind (ok_or (add cur_value v) EpochedArith) (\<lambda>w. set_at_epoch w cur offset U)) = Inr E'"
    using E' by (auto simp: delta_add_def result_simps)
  note spec = delta_update_data_spec [OF inv ok(1) upd U]
  define c where "c = (case lazy_map U (cur + offset) of Some v \<Rightarrow> v | None \<Rightarrow> zero)"
  obtain w where w: "add c v = Some w" and E'_eq: "E' = U\<lparr>lazy_map := (lazy_map U)(cur + offset \<mapsto> w)\<rparr>"
    using rest by (auto simp: unchecked_add_def set_at_epoch_def Let_def result_simps c_def split: if_splits)
  have "pred_option ok (lazy_map U (cur + offset))" using spec by (simp add: all_ok_def)
  then have "ok c" and c: "val c = oval val (lazy_map U (cur + offset))"
    using ok(3,4) by (auto simp: c_def split: option.split)
  then have wv: "ok w" "val w = val c + val v" using add_Some [OF _ ok(2) w] by simp_all
  obtain old where old: "oldest_epoch U = Some old" "old \<le> cur" and
    keys: "\<And>k. lazy_map U k \<noteq> None \<Longrightarrow> old \<le> k \<and> sub_past_epochs past cur \<le> k \<and> k \<le> cur + future"
    using spec by (auto elim: epoched_inv_cases)
  have "sub_past_epochs past cur \<le> cur" by (simp add: sub_past_epochs_def)
  then have "epoched_inv past future E'"
    using keys old off spec unfolding E'_eq by (intro epoched_invI [of _ cur old]) (auto split: if_splits)
  moreover have "all_ok ok (lazy_map E')" using spec wv by (simp add: E'_eq all_ok_def)
  ultimately show ?thesis
    using spec c wv by (simp add: E'_eq sum_to_upd)
qed

lemma delta_update_data_total:
  assumes inv: "epoched_inv past future E" and ok: "all_ok ok (lazy_map E)"
    and fit: "fits 0" "\<forall>k. fits (sum_to val (lazy_map E) k)"
  shows "\<exists>E'. delta_update_data add past cur E = Inr E'"
proof (cases "\<exists>lu old. last_update E = Some lu \<and> oldest_epoch E = Some old \<and> old < sub_past_epochs past cur")
  case True
  then obtain lu old where live: "last_update E = Some lu" "oldest_epoch E = Some old" and
    trim: "old < sub_past_epochs past cur" by blast
  let ?t = "sub_past_epochs past cur" and ?m = "lazy_map E"
  have keys: "\<And>k. ?m k \<noteq> None \<Longrightarrow> old \<le> k" using inv live by (auto simp: epoched_inv_def)
  have pre: "(\<Sum>k\<in>{old..<Suc c}. oval val (?m k)) = sum_to val ?m c" for c
    unfolding sum_to_def
  proof (rule sum_outside)
    fix k assume "k \<in> {..c}" "k \<notin> {old..<Suc c}"
    then show "?m k = None" using keys [of k] by (cases "?m k") auto
  qed auto
  have "fits (\<Sum>k\<leftarrow>take n [old..<?t]. oval val (?m k))" for n
  proof (cases "min (old + n) ?t")
    case 0
    then show ?thesis using trim fit(1) by (simp add: take_upt_min)
  next
    case (Suc c)
    then show ?thesis using pre [of c] fit(2) by (simp add: take_upt_min sum_to_list del: upt_Suc sum.op_ivl_Suc)
  qed
  then obtain r where r: "rfold (\<lambda>t k. add_some add t (?m k)) None [old..<?t] = Inr r"
    using rfold_add_total [OF ok, of None "[old..<?t]"] by auto
  note rv = rfold_add_Inr [OF ok _ r, simplified]
  have addok: "\<exists>v. add d u = Some v" if "?m ?t = Some d" "r = Some u" for d u
  proof -
    have "ok d" "ok u" using ok that rv by (auto simp: all_ok_def pred_option_def)
    moreover have "val u + val d = sum_to val ?m ?t"
      using pre [of ?t] trim that rv by (simp add: sum_to_list)
    ultimately show ?thesis using add_None [of d u] fit(2) by (cases "add d u") (auto simp: add.commute)
  qed
  have upd: "delta_update_data add past cur E = (case r of
      Some u \<Rightarrow> rbind (case ?m ?t of Some d \<Rightarrow> ok_or (add d u) EpochedArith | None \<Rightarrow> Inr u)
        (\<lambda>v. Inr (E\<lparr>lazy_map := (\<lambda>k. if old \<le> k \<and> k < ?t then None else ?m k)(?t \<mapsto> v),
          oldest_epoch := Some ?t, last_update := Some cur\<rparr>))
    | None \<Rightarrow> Inr (E\<lparr>lazy_map := (\<lambda>k. if old \<le> k \<and> k < ?t then None else ?m k), last_update := Some cur\<rparr>))"
    using r trim by (simp add: delta_update_data_def live Let_def rfold_remove_sum)
  show ?thesis
  proof (cases r; cases "?m ?t")
    fix u d assume "r = Some u" "?m ?t = Some d"
    then show ?thesis using addok [of d u] upd by auto
  qed (use upd in auto)
next
  case False
  then show ?thesis by (auto simp: delta_update_data_def Let_def split: option.split)
qed

lemma sum_to_early:
  assumes "epoched_inv past future E" "last_update E = Some lu" "k < sub_past_epochs past lu"
  shows "sum_to val (lazy_map E) k = 0"
proof -
  have "lazy_map E j = None" if "j \<le> k" for j
    using assms that by (cases "lazy_map E j") (auto simp: epoched_inv_def split: option.splits)
  then show ?thesis by (simp add: sum_to_def)
qed

lemma delta_add_refines_sum:
  assumes inv: "epoched_inv past future E" and ok: "all_ok ok (lazy_map E)" "ok v" "ok zero" "val zero = 0"
    and upd: "updated_by cur E" and off: "offset \<le> future" and small: "cur + future < 2 ^ 64"
    and fit: "fits 0" "\<forall>k. fits (sum_to val (lazy_map E) k)" "\<forall>k\<ge>cur + offset. fits (sum_to val (lazy_map E) k + val v)"
      "fits (oval val (lazy_map E (cur + offset)) + val v)"
    and e: "sub_past_epochs past cur \<le> e"
  shows "\<exists>E' r. delta_add add zero past v cur offset E = Inr E' \<and> epoched_inv past future E' \<and>
    get_sum add past future E' e = Inr r \<and>
    oval val r = sum_to val (lazy_map E) e + (if cur + offset \<le> e then val v else 0)"
proof -
  let ?n = "cur + offset" and ?t = "sub_past_epochs past cur"
  obtain U where U: "delta_update_data add past cur E = Inr U"
    using delta_update_data_total [OF inv ok(1) fit(1,2)] by blast
  note spec = delta_update_data_spec [OF inv ok(1) upd U]
  have le: "?t \<le> cur" by (simp add: sub_past_epochs_def)
  have at: "oval val (lazy_map U ?n) = (if ?n = ?t then sum_to val (lazy_map E) ?t else oval val (lazy_map E ?n))"
  proof (cases ?n)
    case 0
    then have "sum_to val (lazy_map U) 0 = sum_to val (lazy_map E) 0" using spec le by auto
    then show ?thesis using 0 le by (simp add: sum_to_def)
  next
    case (Suc c)
    have "sum_to val m ?n = sum_to val m c + oval val (m ?n)" for m by (simp add: sum_to_def Suc)
    moreover have "sum_to val (lazy_map U) ?n = sum_to val (lazy_map E) ?n" using spec le by simp
    moreover have "sum_to val (lazy_map U) c = (if ?n = ?t then 0 else sum_to val (lazy_map E) c)"
      using spec le sum_to_early [of past future U cur c] Suc by (cases "?n = ?t") auto
    ultimately show ?thesis by (simp split: if_splits)
  qed
  define c where "c = (case lazy_map U ?n of Some v \<Rightarrow> v | None \<Rightarrow> zero)"
  have "pred_option ok (lazy_map U ?n)" using spec by (simp add: all_ok_def)
  then have c: "ok c" "val c = oval val (lazy_map U ?n)" using ok(3,4) by (auto simp: c_def split: option.split)
  have "fits (val c + val v)" using c at fit(3,4) by auto
  then obtain w where w: "add c v = Some w" using add_None [OF c(1) ok(2)] by (cases "add c v") auto
  define E' where "E' = U\<lparr>lazy_map := (lazy_map U)(?n \<mapsto> w)\<rparr>"
  have run: "delta_add add zero past v cur offset E = Inr E'"
    using U small off w by (simp add: delta_add_def unchecked_add_def set_at_epoch_def Let_def c_def [symmetric] E'_def)
  note spec' = delta_add_spec [OF inv ok upd off run]
  have "fits (sum_to val (lazy_map E') k)" for k
    using spec' fit sum_to_early [of past future E' cur k] by (cases "?t \<le> k") (auto simp: not_le)
  then obtain r where r: "get_sum add past future E' e = Inr r"
    using get_sum_total [of past future E' e] spec' small fit(1) by auto
  then show ?thesis using run spec' get_sum_Inr [of past future E' e r] e by auto
qed

end

text \<open>The stakes of validators are sums of changes, the bonds of a delegator sums of amounts.\<close>

interpretation change_delta: delta_data I256_checked_add i256_val I256_inv "\<lambda>z. \<bar>z\<bar> < 2 ^ 255"
proof
  fix a b c assume "I256_inv a" "I256_inv b"
  then show "I256_checked_add a b = Some c \<Longrightarrow> I256_inv c \<and> i256_val c = i256_val a + i256_val b"
    "I256_checked_add a b = None \<Longrightarrow> \<not> \<bar>i256_val a + i256_val b\<bar> < 2 ^ 255"
    by (simp_all add: I256_checked_add_eq i256_checked_Some) (simp add: i256_checked_def split: if_splits)
qed

interpretation amount_delta: delta_data Amount_checked_add "\<lambda>a. int (amount_val a)" "\<lambda>_. True" "\<lambda>z. z < 2 ^ 256"
proof
  fix a b c
  show "Amount_checked_add a b = Some c \<Longrightarrow> True \<and> int (amount_val c) = int (amount_val a) + int (amount_val b)"
    by (simp add: Amount_checked_add_Some)
  show "Amount_checked_add a b = None \<Longrightarrow> \<not> int (amount_val a) + int (amount_val b) < 2 ^ 256"
    by (simp add: Amount_checked_add_eq split: if_splits)
qed



end
