(* ===== verification/PosParams.thy ===== *)
theory PosParams
  imports Epoched
begin

text \<open>
  The parameters of proof of stake (\<open>proof_of_stake/src/parameters.rs\<close>), their validation, the offsets
  between epochs derived from them (there and in \<open>epoched.rs\<close>) and the voting power of a stake
  (\<open>types/mod.rs\<close>). A \<open>u64\<close> parameter is its number; sums of offsets that leave 64 bits panic (\<^const>\<open>None\<close>).
\<close>

section \<open>Parameters\<close>

record PosParams =
  max_validator_slots :: nat
  pipeline_len :: nat
  unbonding_len :: nat
  tm_votes_per_token :: Dec
  block_proposer_reward :: Dec
  block_vote_reward :: Dec
  max_inflation_rate :: Dec
  target_staked_ratio :: Dec
  duplicate_vote_min_slash_rate :: Dec
  light_client_attack_min_slash_rate :: Dec
  cubic_slashing_window_length :: nat
  validator_stake_threshold :: Amount
  liveness_window_check :: nat
  liveness_threshold :: Dec
  rewards_gain_p :: Dec
  rewards_gain_d :: Dec
  max_proposal_period :: nat

datatype ValidationError =
  TotalVotingPowerTooLarge Uint | VotesPerTokenGreaterThanOne Dec | LivenessThresholdGreaterThanOne Dec
  | PipelineLenTooShort nat | UnbondingLenTooShort nat nat

definition TOKENS_PER_NAM :: nat where
  "TOKENS_PER_NAM = 1000000"

definition MAX_TOTAL_VOTING_POWER :: nat where
  "MAX_TOTAL_VOTING_POWER = (2 ^ 63 - 1) div 8"

definition TOKEN_MAX_AMOUNT :: nat where
  "TOKEN_MAX_AMOUNT = (2 ^ 64 - 1) div TOKENS_PER_NAM"

definition Dec_mul_u64 :: "Dec \<Rightarrow> nat \<Rightarrow> Dec option" where
  "Dec_mul_u64 d n = do { m \<leftarrow> Dec_from_u64 (of_nat n); Dec_checked_mul d m }"

definition i64_try_from_Uint :: "Uint \<Rightarrow> nat option" where
  "i64_try_from_Uint u = (if unat u < 2 ^ 63 then Some (unat u) else None)"

text \<open>\<open>validate\<close> lists the faults of the parameters; its \<open>expect\<close> calls are the \<^const>\<open>None\<close> results.\<close>

definition validate_pos_params :: "PosParams \<Rightarrow> ValidationError list option" where
  "validate_pos_params slf =
     do {
       d1 \<leftarrow> Dec_mul_u64 (tm_votes_per_token slf) TOKEN_MAX_AMOUNT;
       d2 \<leftarrow> Dec_mul_u64 d1 (max_validator_slots slf);
       max_total_voting_power \<leftarrow> Dec_to_uint d2;
       one \<leftarrow> Dec_one;
       Some
        ((if pipeline_len slf < 2 then [PipelineLenTooShort (pipeline_len slf)] else []) @
         (if pipeline_len slf \<ge> unbonding_len slf
          then [UnbondingLenTooShort (unbonding_len slf) (pipeline_len slf)] else []) @
         (case i64_try_from_Uint max_total_voting_power of
            Some p \<Rightarrow> if p > MAX_TOTAL_VOTING_POWER then [TotalVotingPowerTooLarge max_total_voting_power] else []
          | None \<Rightarrow> [TotalVotingPowerTooLarge max_total_voting_power]) @
         (if tm_votes_per_token slf > one then [VotesPerTokenGreaterThanOne (tm_votes_per_token slf)] else []) @
         (if liveness_threshold slf > one then [LivenessThresholdGreaterThanOne (liveness_threshold slf)] else []))
     }"

section \<open>Offsets\<close>

definition u64_add :: "nat \<Rightarrow> nat \<Rightarrow> nat option" where
  "u64_add a b = (if a + b < 2 ^ 64 then Some (a + b) else None)"

definition withdrawable_epoch_offset :: "PosParams \<Rightarrow> nat option" where
  "withdrawable_epoch_offset slf =
     do { n \<leftarrow> u64_add (pipeline_len slf) (unbonding_len slf); u64_add n (cubic_slashing_window_length slf) }"

definition slash_processing_epoch_offset :: "PosParams \<Rightarrow> nat option" where
  "slash_processing_epoch_offset slf =
     do { n \<leftarrow> u64_add (unbonding_len slf) (cubic_slashing_window_length slf); u64_add n 1 }"

definition cubic_slash_epoch_window :: "PosParams \<Rightarrow> epoch \<Rightarrow> (epoch \<times> epoch) option" where
  "cubic_slash_epoch_window slf infraction_epoch =
     do {
       e \<leftarrow> u64_add infraction_epoch (cubic_slashing_window_length slf);
       Some (infraction_epoch - cubic_slashing_window_length slf, e)
     }"

definition redelegation_end_epoch_from_start :: "PosParams \<Rightarrow> epoch \<Rightarrow> epoch option" where
  "redelegation_end_epoch_from_start slf e = u64_add e (pipeline_len slf)"

definition redelegation_start_epoch_from_end :: "PosParams \<Rightarrow> epoch \<Rightarrow> epoch option" where
  "redelegation_start_epoch_from_end slf e = (if pipeline_len slf \<le> e then Some (e - pipeline_len slf) else None)"

definition in_redelegation_slashing_window :: "PosParams \<Rightarrow> epoch \<Rightarrow> epoch \<Rightarrow> epoch \<Rightarrow> bool option" where
  "in_redelegation_slashing_window slf infraction_epoch redel_start redel_end =
     do {
       n \<leftarrow> slash_processing_epoch_offset slf;
       processing_epoch \<leftarrow> u64_add infraction_epoch n;
       Some (redel_start < processing_epoch \<and> infraction_epoch < redel_end)
     }"

definition DEFAULT_NUM_PAST_EPOCHS :: nat where
  "DEFAULT_NUM_PAST_EPOCHS = 2"

datatype EpochOffset =
  OffsetZero | OffsetDefaultNumPastEpochs | OffsetPipelineLen | OffsetUnbondingLen
  | OffsetPipelinePlusUnbondingLen | OffsetSlashProcessingLen | OffsetSlashProcessingLenPlus
  | OffsetMaxU64 | OffsetMaxProposalPeriod | OffsetMaxProposalPeriodPlus
  | OffsetMaxProposalPeriodOrSlashProcessingLen | OffsetMaxProposalPeriodOrSlashProcessingLenPlus

fun offset_value :: "PosParams \<Rightarrow> EpochOffset \<Rightarrow> nat option" where
  "offset_value params OffsetZero = Some 0"
| "offset_value params OffsetDefaultNumPastEpochs = Some DEFAULT_NUM_PAST_EPOCHS"
| "offset_value params OffsetPipelineLen = Some (pipeline_len params)"
| "offset_value params OffsetUnbondingLen = Some (unbonding_len params)"
| "offset_value params OffsetPipelinePlusUnbondingLen = u64_add (pipeline_len params) (unbonding_len params)"
| "offset_value params OffsetSlashProcessingLen = slash_processing_epoch_offset params"
| "offset_value params OffsetSlashProcessingLenPlus =
     do { n \<leftarrow> slash_processing_epoch_offset params; u64_add n DEFAULT_NUM_PAST_EPOCHS }"
| "offset_value params OffsetMaxU64 = Some (2 ^ 64 - 1)"
| "offset_value params OffsetMaxProposalPeriod = Some (max_proposal_period params)"
| "offset_value params OffsetMaxProposalPeriodPlus = u64_add (max_proposal_period params) DEFAULT_NUM_PAST_EPOCHS"
| "offset_value params OffsetMaxProposalPeriodOrSlashProcessingLen =
     do { n \<leftarrow> slash_processing_epoch_offset params; Some (max n (max_proposal_period params)) }"
| "offset_value params OffsetMaxProposalPeriodOrSlashProcessingLenPlus =
     do { n \<leftarrow> slash_processing_epoch_offset params;
          u64_add (max n (max_proposal_period params)) DEFAULT_NUM_PAST_EPOCHS }"

section \<open>Slash types and voting power\<close>

datatype SlashType = DuplicateVote | LightClientAttack

fun get_slash_rate :: "PosParams \<Rightarrow> SlashType \<Rightarrow> Dec" where
  "get_slash_rate params DuplicateVote = duplicate_vote_min_slash_rate params"
| "get_slash_rate params LightClientAttack = light_client_attack_min_slash_rate params"

definition into_tm_voting_power :: "Dec \<Rightarrow> Amount \<Rightarrow> int option" where
  "into_tm_voting_power votes_per_token tokens =
     do {
       prod \<leftarrow> result_ok (Amount_mul_floor tokens votes_per_token);
       c \<leftarrow> Amount_change prod;
       res \<leftarrow> i128_try_from_I256 c;
       if - (2 ^ 63) \<le> sint res \<and> sint res < 2 ^ 63 then Some (sint res) else None
     }"

section \<open>The offsets fit together\<close>

lemma u64_add_Some [simp]: "u64_add a b = Some c \<longleftrightarrow> c = a + b \<and> a + b < 2 ^ 64"
  by (auto simp: u64_add_def)

lemma offsets_eq:
  "withdrawable_epoch_offset p = Some w \<Longrightarrow> w = pipeline_len p + unbonding_len p + cubic_slashing_window_length p"
  "slash_processing_epoch_offset p = Some s \<Longrightarrow> s = unbonding_len p + cubic_slashing_window_length p + 1"
  by (auto simp: withdrawable_epoch_offset_def slash_processing_epoch_offset_def bind_eq_Some_conv)


definition default_pos_params :: PosParams where
  "default_pos_params =
     \<lparr>max_validator_slots = 100, pipeline_len = 2, unbonding_len = 21,
      tm_votes_per_token = the Dec_one,
      block_proposer_reward = the (Dec_new 125 3), block_vote_reward = the (Dec_new 1 1),
      max_inflation_rate = the (Dec_new 1 1), target_staked_ratio = the (Dec_new 6667 4),
      duplicate_vote_min_slash_rate = the (Dec_new 1 3), light_client_attack_min_slash_rate = the (Dec_new 1 3),
      cubic_slashing_window_length = 1, validator_stake_threshold = the (Amount_native_whole 1),
      liveness_window_check = 10000, liveness_threshold = the (Dec_new 9 1),
      rewards_gain_p = the (Dec_new 25 2), rewards_gain_d = the (Dec_new 25 2), max_proposal_period = 27\<rparr>"


section \<open>Valid parameters\<close>

definition pos_params_inv :: "PosParams \<Rightarrow> bool" where
  "pos_params_inv p \<longleftrightarrow>
     max_validator_slots p < 2 ^ 64 \<and> Dec_inv (tm_votes_per_token p) \<and> Dec_inv (liveness_threshold p)"

lemma Dec_mul_u64_eq:
  assumes "Dec_inv d" "n < 2 ^ 64"
  shows "Dec_mul_u64 d n =
    (if \<bar>dec_val d * (int n * 10 ^ 12)\<bar> < 2 ^ 255 then Some (dec_of (dec_val d * int n)) else None)"
proof -
  have n: "unat (of_nat n :: u64) = n" using assms(2) by (simp add: unat_of_nat_lt)
  have small: "\<bar>int n * 10 ^ 12\<bar> < 2 ^ 255"
  proof -
    have "int n < 2 ^ 64" using assms(2) by simp
    then show ?thesis by simp
  qed
  have "tdiv (dec_val d * (int n * 10 ^ 12)) (10 ^ 12) = dec_val d * int n"
  proof -
    have "\<bar>dec_val d * (int n * 10 ^ 12)\<bar> = \<bar>dec_val d * int n\<bar> * 10 ^ 12" by (simp add: abs_mult)
    then show ?thesis by (simp add: tdiv_def abs_mult sgn_mult) (simp add: mult_sgn_abs flip: mult.assoc sgn_mult abs_mult)
  qed
  then show ?thesis
    using assms(1) small by (simp add: Dec_mul_u64_def Dec_from_u64_eq n Dec_checked_mul_eq Dec_inv_of dec_val_of)
qed

lemma Dec_mul_u64_Some:
  assumes "Dec_inv d" "n < 2 ^ 64" "Dec_mul_u64 d n = Some e"
  shows "Dec_inv e" "dec_val e = dec_val d * int n"
proof -
  have "\<bar>dec_val d * int n\<bar> \<le> \<bar>dec_val d * int n\<bar> * 10 ^ 12" by simp
  also have "\<dots> = \<bar>dec_val d * (int n * 10 ^ 12)\<bar>" by (simp add: abs_mult)
  also have "\<dots> < 2 ^ 255" using assms Dec_mul_u64_eq by (metis option.simps(3))
  finally have b: "\<bar>dec_val d * int n\<bar> < 2 ^ 255" .
  have "e = dec_of (dec_val d * int n)" using assms Dec_mul_u64_eq by (metis option.inject option.simps(3))
  then show "Dec_inv e" "dec_val e = dec_val d * int n" using b Dec_inv_of dec_val_of by blast+
qed

lemma validated_votes:
  assumes "pos_params_inv p" "validate_pos_params p = Some []" "0 < max_validator_slots p"
  shows "0 \<le> dec_val (tm_votes_per_token p)" "dec_val (tm_votes_per_token p) \<le> 10 ^ 12"
    "nat (dec_val (tm_votes_per_token p)) * TOKEN_MAX_AMOUNT * max_validator_slots p div 10 ^ 12 \<le> MAX_TOTAL_VOTING_POWER"
proof -
  let ?t = "dec_val (tm_votes_per_token p)" and ?m = "max_validator_slots p"
  from assms(2) obtain d1 d2 u one where
    d: "Dec_mul_u64 (tm_votes_per_token p) TOKEN_MAX_AMOUNT = Some d1" "Dec_mul_u64 d1 ?m = Some d2"
      "Dec_to_uint d2 = Some u" "Dec_one = Some one" and
    u: "(case i64_try_from_Uint u of Some q \<Rightarrow> if q > MAX_TOTAL_VOTING_POWER then [TotalVotingPowerTooLarge u] else []
      | None \<Rightarrow> [TotalVotingPowerTooLarge u]) = []" and
    one: "\<not> tm_votes_per_token p > one"
    by (auto simp: validate_pos_params_def bind_eq_Some_conv split: if_splits)
  have inv: "Dec_inv (tm_votes_per_token p)" "?m < 2 ^ 64" using assms(1) by (auto simp: pos_params_inv_def)
  have "Some one = Some (dec_of (10 ^ 12))" by (rule trans [OF d(4) [symmetric] Dec_constants(1)])
  then have "one = dec_of (10 ^ 12)" by (simp only: option.inject)
  then show t1: "?t \<le> 10 ^ 12" using one inv by (simp add: Dec_less_val Dec_inv_of dec_val_of)
  have tm: "TOKEN_MAX_AMOUNT < 2 ^ 64" by (simp add: TOKEN_MAX_AMOUNT_def TOKENS_PER_NAM_def)
  note d1 = Dec_mul_u64_Some [OF inv(1) tm d(1)]
  note d2 = Dec_mul_u64_Some [OF d1(1) inv(2) d(2), unfolded d1(2)]
  have "\<not> ?t * int TOKEN_MAX_AMOUNT * int ?m < 0" and
    u': "u = of_nat (nat (?t * int TOKEN_MAX_AMOUNT * int ?m) div 10 ^ 12)"
    using d(3) unfolding Dec_to_uint_eq [OF d2(1)] d2(2) by (auto split: if_splits)
  then show t0: "0 \<le> ?t"
    using assms(3) by (simp add: not_less zero_le_mult_iff TOKEN_MAX_AMOUNT_def TOKENS_PER_NAM_def)
  have n: "nat (?t * int TOKEN_MAX_AMOUNT * int ?m) = nat ?t * TOKEN_MAX_AMOUNT * ?m"
    using t0 by (simp add: nat_mult_distrib)
  have "nat ?t * TOKEN_MAX_AMOUNT * ?m < 2 ^ 256"
  proof -
    have "int (nat ?t * TOKEN_MAX_AMOUNT * ?m) < int (2 ^ 255)"
      using d2(1) t0 unfolding Dec_inv_val d2(2) by (simp add: abs_mult)
    then have "nat ?t * TOKEN_MAX_AMOUNT * ?m < 2 ^ 255" by (simp only: of_nat_less_iff)
    then show ?thesis by (rule less_trans) simp
  qed
  then have "nat ?t * TOKEN_MAX_AMOUNT * ?m div 10 ^ 12 < 2 ^ LENGTH(256)"
    by (simp add: le_less_trans [OF div_le_dividend])
  then have "unat u = nat ?t * TOKEN_MAX_AMOUNT * ?m div 10 ^ 12"
    unfolding u' n by (rule unat_of_nat_lt)
  then show "nat ?t * TOKEN_MAX_AMOUNT * ?m div 10 ^ 12 \<le> MAX_TOTAL_VOTING_POWER"
    using u by (auto simp: i64_try_from_Uint_def split: if_splits)
qed

lemma sint_of_nat_small: "n < 2 ^ 127 \<Longrightarrow> sint (of_nat n :: i128) = int n"
  using unat_of_nat_lt [of n, where 'a = 128] by (simp add: sint_unat)

lemma i128_try_from_I256_small: "n < 2 ^ 127 \<Longrightarrow> i128_try_from_I256 (i256_of (int n)) = Some (of_nat n)"
  using i128_round_trip [of "of_nat n"] by (simp add: I256_from_i128_eq sint_of_nat_small)

lemma into_tm_voting_power_eq:
  assumes "Dec_inv d" "0 \<le> dec_val d" "amount_val a * nat (dec_val d) < 2 ^ 127"
  shows "into_tm_voting_power d a =
    (let v = amount_val a * nat (dec_val d) div 10 ^ 12 in if v < 2 ^ 63 then Some (int v) else None)"
proof -
  define v where "v = amount_val a * nat (dec_val d) div 10 ^ 12"
  have v: "v < 2 ^ 127" unfolding v_def using assms(3) by (rule le_less_trans [OF div_le_dividend])
  have "amount_val (amount_of v) = v" using v by (intro amount_val_of) simp
  moreover have "Amount_mul_floor a d = Inr (amount_of v)"
    using assms unfolding v_def Amount_mul_floor_eq [OF assms(1)] by simp
  moreover have "i256_checked (int v) = Some (i256_of (int v))" using v by (simp add: i256_checked_def)
  moreover have "i128_try_from_I256 (i256_of (int v)) = Some (of_nat v)" using v by (rule i128_try_from_I256_small)
  moreover have "sint (of_nat v :: i128) = int v" using v by (rule sint_of_nat_small)
  ultimately show ?thesis
    unfolding Let_def v_def [symmetric] by (simp add: into_tm_voting_power_def Amount_change_eq)
qed

lemma sum_div_le: "(\<Sum>x\<leftarrow>xs. f x div (c :: nat)) \<le> (\<Sum>x\<leftarrow>xs. f x) div c"
proof (induction xs)
  case (Cons x xs)
  have "f x div c + (\<Sum>x\<leftarrow>xs. f x) div c \<le> (f x + (\<Sum>x\<leftarrow>xs. f x)) div c" by (simp add: div_add1_eq [of "f x"])
  then show ?case using Cons.IH by simp
qed simp

text \<open>
  With valid parameters, the voting powers of at most \<open>max_validator_slots\<close> validators whose
  stakes are at most \<open>TOKEN_MAX_AMOUNT\<close> units are all defined and their sum stays below the limit
  of Tendermint.
\<close>

theorem validated_total_voting_power:
  assumes "pos_params_inv p" "validate_pos_params p = Some []" "length stakes \<le> max_validator_slots p"
    "\<forall>a\<in>set stakes. amount_val a \<le> TOKEN_MAX_AMOUNT"
  shows "\<exists>ps. map (into_tm_voting_power (tm_votes_per_token p)) stakes = map Some ps \<and>
    list_all (\<lambda>x. 0 \<le> x) ps \<and> sum_list ps \<le> int MAX_TOTAL_VOTING_POWER"
proof (cases "stakes = []")
  case False
  let ?t = "nat (dec_val (tm_votes_per_token p))" and ?pw = "\<lambda>a. amount_val a * nat (dec_val (tm_votes_per_token p)) div 10 ^ 12"
  have m: "0 < max_validator_slots p" using False assms(3) by (cases stakes) auto
  note v = validated_votes [OF assms(1,2) m]
  have inv: "Dec_inv (tm_votes_per_token p)" using assms(1) by (simp add: pos_params_inv_def)
  have t: "?t \<le> 10 ^ 12" using v(2) by simp
  have fits: "amount_val a * ?t \<le> TOKEN_MAX_AMOUNT * 10 ^ 12" if "a \<in> set stakes" for a
    using assms(4) t that by (intro mult_le_mono) auto
  have power: "into_tm_voting_power (tm_votes_per_token p) a = Some (int (?pw a))" if "a \<in> set stakes" for a
  proof -
    have lim: "TOKEN_MAX_AMOUNT * 10 ^ 12 < 2 ^ 127" "TOKEN_MAX_AMOUNT * 10 ^ 12 div 10 ^ 12 < 2 ^ 63"
      by (simp_all add: TOKEN_MAX_AMOUNT_def TOKENS_PER_NAM_def)
    have "?pw a < 2 ^ 63" using div_le_mono [OF fits [OF that]] lim(2) by (rule le_less_trans)
    moreover have "amount_val a * ?t < 2 ^ 127" using fits [OF that] lim(1) by (rule le_less_trans)
    ultimately show ?thesis using into_tm_voting_power_eq [OF inv v(1)] by (simp add: Let_def)
  qed
  have "(\<Sum>a\<leftarrow>stakes. ?pw a) \<le> (\<Sum>a\<leftarrow>stakes. amount_val a * ?t) div 10 ^ 12" by (rule sum_div_le)
  also have "(\<Sum>a\<leftarrow>stakes. amount_val a * ?t) \<le> (\<Sum>a\<leftarrow>stakes. TOKEN_MAX_AMOUNT * ?t)"
    using assms(4) by (intro sum_list_mono) simp
  then have "(\<Sum>a\<leftarrow>stakes. amount_val a * ?t) div 10 ^ 12 \<le> (?t * TOKEN_MAX_AMOUNT * max_validator_slots p) div 10 ^ 12"
    using assms(3) by (intro div_le_mono) (simp add: sum_list_triv mult.commute order_trans [OF _ mult_le_mono1])
  finally have "(\<Sum>a\<leftarrow>stakes. ?pw a) \<le> MAX_TOTAL_VOTING_POWER" using v(3) by (rule order_trans)
  moreover have "sum_list (map (\<lambda>a. int (?pw a)) stakes) = int (\<Sum>a\<leftarrow>stakes. ?pw a)"
    by (simp add: o_def flip: sum_list_of_nat)
  ultimately show ?thesis
    using power by (intro exI [of _ "map (\<lambda>a. int (?pw a)) stakes"]) (auto simp: list_all_iff)
qed (auto intro: exI [of _ "[]"])

lemma default_pos_params_valid:
  "pos_params_inv default_pos_params" "validate_pos_params default_pos_params = Some []"
proof -
  have one: "the Dec_one = dec_of (10 ^ 12)" unfolding Dec_constants(1) by (rule option.sel)
  have lt: "the (Dec_new 9 1) = dec_of (9 * 10 ^ 11)" by (simp add: Dec_new_eq)
  show "pos_params_inv default_pos_params"
    by (simp add: pos_params_inv_def default_pos_params_def Dec_inv_of lt one del: of_int_power)
  have m1: "Dec_mul_u64 (dec_of (10 ^ 12)) TOKEN_MAX_AMOUNT = Some (dec_of (10 ^ 12 * 18446744073709))"
    by (simp add: Dec_mul_u64_eq Dec_inv_of dec_val_of TOKEN_MAX_AMOUNT_def TOKENS_PER_NAM_def)
  have m2: "Dec_mul_u64 (dec_of (10 ^ 12 * 18446744073709)) 100 = Some (dec_of (10 ^ 12 * 1844674407370900))"
    by (simp add: Dec_mul_u64_eq Dec_inv_of dec_val_of)
  have u: "Dec_to_uint (dec_of (10 ^ 12 * 1844674407370900)) = Some 1844674407370900"
    by (simp add: Dec_to_uint_eq Dec_inv_of dec_val_of)
  show "validate_pos_params default_pos_params = Some []"
    unfolding validate_pos_params_def default_pos_params_def Dec_constants(1)
    by (simp only: PosParams.select_convs option.sel m1 m2 u lt Option.bind.simps)
       (simp add: i64_try_from_Uint_def MAX_TOTAL_VOTING_POWER_def Dec_less_val Dec_inv_of dec_val_of)
qed

theorem validated_total_voting_power_witness:
  "\<exists>ps. map (into_tm_voting_power (tm_votes_per_token default_pos_params)) [amount_of 5, amount_of 7] = map Some ps \<and>
    list_all (\<lambda>x. 0 \<le> x) ps \<and> sum_list ps \<le> int MAX_TOTAL_VOTING_POWER"
  using default_pos_params_valid
  by (intro validated_total_voting_power)
     (simp_all add: default_pos_params_def TOKEN_MAX_AMOUNT_def TOKENS_PER_NAM_def)

text \<open>
  The bound that the validation checks does not cover the stakes it means to: it counts whole
  tokens, while the votes are per fundamental unit. With the default parameters, which are valid,
  the voting power of a stake of \<open>2^63\<close> units, within the 64 bits assumed for amounts, panics, and
  a single stake of \<open>2^62\<close> units exceeds the limit of Tendermint.
\<close>

theorem valid_params_exceed_voting_power:
  "validate_pos_params default_pos_params = Some [] \<and>
   into_tm_voting_power (tm_votes_per_token default_pos_params) (amount_of (2 ^ 63)) = None \<and>
   (\<exists>p. into_tm_voting_power (tm_votes_per_token default_pos_params) (amount_of (2 ^ 62)) = Some p \<and>
      int MAX_TOTAL_VOTING_POWER < p)"
proof -
  have one: "tm_votes_per_token default_pos_params = dec_of (10 ^ 12)"
    unfolding default_pos_params_def PosParams.select_convs Dec_constants(1) by (rule option.sel)
  show ?thesis
    unfolding one using default_pos_params_valid(2)
    by (simp add: into_tm_voting_power_eq Dec_inv_of dec_val_of MAX_TOTAL_VOTING_POWER_def)
qed

end
