(* ===== verification/PosState.thy ===== *)
theory PosState
  imports PosParams Collections Addresses "HOL-Library.Product_Lexorder"
begin

text \<open>
  The storage of proof of stake (\<open>proof_of_stake/src/storage.rs\<close>, \<open>types/mod.rs\<close> and
  \<open>types/rev_order.rs\<close>): one field per handle of the source, with the reads and writes of stakes,
  states and totals. A function that returns \<open>Result\<close> or may panic returns \<open>pos_error + _\<close>.
\<close>

section \<open>Keys of the validator sets\<close>

type_synonym position = nat

definition Position_next :: "position \<Rightarrow> position" where
  "Position_next p = (p + 1) mod 2 ^ 64"

text \<open>
  The keys of a storage map are visited in the order of their text. An amount is written with a fixed
  width, so its order is that of the number; the text of a \<open>ReverseOrdTokenAmount\<close> is that of the
  inverted amount. The inversion panics above the largest signed amount, which no stake exceeds:
  a stake is the absolute value of a sum of changes.
\<close>

datatype ReverseOrdTokenAmount = ReverseOrdTokenAmount (rev_amount: Amount)

definition invert :: "Amount \<Rightarrow> Amount option" where
  "invert amount = Amount_checked_sub Amount_max_signed amount"

instantiation ReverseOrdTokenAmount :: linorder
begin

definition less_eq_ReverseOrdTokenAmount :: "ReverseOrdTokenAmount \<Rightarrow> ReverseOrdTokenAmount \<Rightarrow> bool" where
  "less_eq_ReverseOrdTokenAmount a b \<longleftrightarrow> rev_amount b \<le> rev_amount a"

definition less_ReverseOrdTokenAmount :: "ReverseOrdTokenAmount \<Rightarrow> ReverseOrdTokenAmount \<Rightarrow> bool" where
  "less_ReverseOrdTokenAmount a b \<longleftrightarrow> rev_amount b < rev_amount a"

instance
  by standard
     (auto simp: less_eq_ReverseOrdTokenAmount_def less_ReverseOrdTokenAmount_def intro: ReverseOrdTokenAmount.expand)

end

lemma invert_order:
  assumes "invert a = Some a'" "invert b = Some b'"
  shows "ReverseOrdTokenAmount a \<le> ReverseOrdTokenAmount b \<longleftrightarrow> a' \<le> b'"
  using assms by (auto simp: invert_def checked_unat less_eq_ReverseOrdTokenAmount_def amount_le_iff)

type_synonym 'k position_map = "('k \<times> position, Address) btree_map"

section \<open>The state\<close>

datatype ValidatorState = Consensus | BelowCapacity | BelowThreshold | Inactive | Jailed

text \<open>A public key of either scheme, with the bytes of the key.\<close>

datatype PublicKey = Ed25519 "u8 list" | Secp256k1 "u8 list"

datatype pos_error =
  PosArith | PosEpoched epoched_error | PositionMissing | NoConsensusValidator | NoBelowCapacityValidator
  | OffsetPanic | VotingPowerPanic | ConsensusKeyMissing | ChangePanic
  | TransferFailed | SourceMustNotBeAValidator | NotAValidator | ValidatorIsFrozen | UnbondAmountGreaterThanBond
  | NoUnbondFound | DelegationTargetMissing | NewAmountMissing
  | IsChainedRedelegation | RedelegationSrcEqDest | DelegatorIsValidator
  | NotJailed epoch | NotEligible epoch epoch | AlreadyInactive epoch | ValidatorIsJailed epoch
  | NotInactive epoch | NoStateFound epoch | StateMissing | ConsensusStakeMissing | SlashedAmountMissing

record pos_state =
  consensus_validator_sets :: "Amount position_map epoched"
  below_capacity_validator_sets :: "ReverseOrdTokenAmount position_map epoched"
  validator_set_positions :: "(Address \<Rightarrow> position option) epoched"
  validator_addresses :: "Address set epoched"
  validator_consensus_keys :: "Address \<Rightarrow> PublicKey epoched"
  validator_states :: "Address \<Rightarrow> ValidatorState epoched"
  validator_deltas :: "Address \<Rightarrow> Change epoched"
  total_deltas :: "Change epoched"
  total_active_deltas :: "Change epoched"

definition epoched_result :: "epoched_error + 'a \<Rightarrow> pos_error + 'a" where
  "epoched_result r = (case r of Inl e \<Rightarrow> Inl (PosEpoched e) | Inr a \<Rightarrow> Inr a)"

definition offset_of :: "PosParams \<Rightarrow> EpochOffset \<Rightarrow> pos_error + nat" where
  "offset_of params k = ok_or (offset_value params k) OffsetPanic"

definition epoch_plus :: "epoch \<Rightarrow> nat \<Rightarrow> pos_error + epoch" where
  "epoch_plus e n = (if e + n < 2 ^ 64 then Inr (e + n) else Inl PosArith)"

text \<open>The map of a nested structure at an epoch, and the write of that map.\<close>

definition nested_at :: "'v \<Rightarrow> 'v epoched \<Rightarrow> epoch \<Rightarrow> 'v" where
  "nested_at none slf e = (case lazy_map slf e of None \<Rightarrow> none | Some m \<Rightarrow> m)"

definition nested_put :: "epoch \<Rightarrow> 'v \<Rightarrow> 'v epoched \<Rightarrow> 'v epoched" where
  "nested_put e m slf = slf\<lparr>lazy_map := (lazy_map slf)(e \<mapsto> m)\<rparr>"

definition consensus_at :: "pos_state \<Rightarrow> epoch \<Rightarrow> Amount position_map" where
  "consensus_at s e = nested_at [] (consensus_validator_sets s) e"

definition below_capacity_at :: "pos_state \<Rightarrow> epoch \<Rightarrow> ReverseOrdTokenAmount position_map" where
  "below_capacity_at s e = nested_at [] (below_capacity_validator_sets s) e"

definition positions_at :: "pos_state \<Rightarrow> epoch \<Rightarrow> Address \<Rightarrow> position option" where
  "positions_at s e = nested_at Map.empty (validator_set_positions s) e"

definition put_consensus :: "epoch \<Rightarrow> Amount position_map \<Rightarrow> pos_state \<Rightarrow> pos_state" where
  "put_consensus e m s = s\<lparr>consensus_validator_sets := nested_put e m (consensus_validator_sets s)\<rparr>"

definition put_below_capacity :: "epoch \<Rightarrow> ReverseOrdTokenAmount position_map \<Rightarrow> pos_state \<Rightarrow> pos_state" where
  "put_below_capacity e m s = s\<lparr>below_capacity_validator_sets := nested_put e m (below_capacity_validator_sets s)\<rparr>"

definition put_positions :: "epoch \<Rightarrow> (Address \<Rightarrow> position option) \<Rightarrow> pos_state \<Rightarrow> pos_state" where
  "put_positions e m s = s\<lparr>validator_set_positions := nested_put e m (validator_set_positions s)\<rparr>"

section \<open>Validator states\<close>

definition get_validator_state :: "PosParams \<Rightarrow> Address \<Rightarrow> epoch \<Rightarrow> pos_state \<Rightarrow> pos_error + ValidatorState option" where
  "get_validator_state params v e s =
     rbind (offset_of params OffsetMaxProposalPeriodPlus) (\<lambda>past.
     epoched_result (epoched_get past (pipeline_len params) (validator_states s v) e))"

definition set_validator_state ::
    "PosParams \<Rightarrow> Address \<Rightarrow> ValidatorState \<Rightarrow> epoch \<Rightarrow> nat \<Rightarrow> pos_state \<Rightarrow> pos_error + pos_state" where
  "set_validator_state params v st current_epoch offset s =
     rbind (offset_of params OffsetMaxProposalPeriodPlus) (\<lambda>past.
     rbind (epoched_result (epoched_set past st current_epoch offset (validator_states s v))) (\<lambda>h.
     Inr (s\<lparr>validator_states := (validator_states s)(v := h)\<rparr>)))"

section \<open>Stakes\<close>

definition stake_of_sum :: "Change option \<Rightarrow> Amount" where
  "stake_of_sum r = (case r of None \<Rightarrow> Amount_zero | Some c \<Rightarrow> Amount_from_change c)"

definition read_validator_stake :: "PosParams \<Rightarrow> Address \<Rightarrow> epoch \<Rightarrow> pos_state \<Rightarrow> pos_error + Amount" where
  "read_validator_stake params v e s =
     rbind (offset_of params OffsetMaxProposalPeriodOrSlashProcessingLenPlus) (\<lambda>past.
     rbind (epoched_result (get_sum I256_checked_add past (pipeline_len params) (validator_deltas s v) e)) (\<lambda>r.
     Inr (stake_of_sum r)))"

definition read_total_stake :: "PosParams \<Rightarrow> epoch \<Rightarrow> pos_state \<Rightarrow> pos_error + Amount" where
  "read_total_stake params e s =
     rbind (offset_of params OffsetMaxProposalPeriodOrSlashProcessingLenPlus) (\<lambda>past.
     rbind (epoched_result (get_sum I256_checked_add past (pipeline_len params) (total_deltas s) e)) (\<lambda>r.
     Inr (stake_of_sum r)))"

definition read_total_active_stake :: "PosParams \<Rightarrow> epoch \<Rightarrow> pos_state \<Rightarrow> pos_error + Amount" where
  "read_total_active_stake params e s =
     rbind (offset_of params OffsetMaxProposalPeriodOrSlashProcessingLenPlus) (\<lambda>past.
     rbind (epoched_result (get_sum I256_checked_add past (pipeline_len params) (total_active_deltas s) e)) (\<lambda>r.
     Inr (stake_of_sum r)))"

text \<open>The update shared by the stake of a validator and the totals: read the delta, add, and set.\<close>

definition update_delta :: "PosParams \<Rightarrow> Change \<Rightarrow> epoch \<Rightarrow> nat \<Rightarrow> Change epoched \<Rightarrow> pos_error + Change epoched" where
  "update_delta params delta current_epoch offset h =
     rbind (offset_of params OffsetMaxProposalPeriodOrSlashProcessingLenPlus) (\<lambda>past.
     rbind (epoch_plus current_epoch offset) (\<lambda>offset_epoch.
     let val = (case lazy_map h offset_epoch of None \<Rightarrow> I256_zero | Some c \<Rightarrow> c)
     in rbind (ok_or (I256_checked_add val delta) PosArith) (\<lambda>c.
        epoched_result (delta_set I256_checked_add past c current_epoch offset h))))"

definition update_validator_deltas ::
    "PosParams \<Rightarrow> Address \<Rightarrow> Change \<Rightarrow> epoch \<Rightarrow> nat option \<Rightarrow> pos_state \<Rightarrow> pos_error + pos_state" where
  "update_validator_deltas params v delta current_epoch offset_opt s =
     (let offset = (case offset_opt of None \<Rightarrow> pipeline_len params | Some n \<Rightarrow> n)
      in rbind (update_delta params delta current_epoch offset (validator_deltas s v)) (\<lambda>h.
         Inr (s\<lparr>validator_deltas := (validator_deltas s)(v := h)\<rparr>)))"

definition update_total_deltas ::
    "PosParams \<Rightarrow> Change \<Rightarrow> epoch \<Rightarrow> nat option \<Rightarrow> bool \<Rightarrow> pos_state \<Rightarrow> pos_error + pos_state" where
  "update_total_deltas params delta current_epoch offset_opt update_active_voting_power s =
     (let offset = (case offset_opt of None \<Rightarrow> pipeline_len params | Some n \<Rightarrow> n)
      in rbind (update_delta params delta current_epoch offset (total_deltas s)) (\<lambda>h.
         let s1 = s\<lparr>total_deltas := h\<rparr>
         in if update_active_voting_power then
              rbind (update_delta params delta current_epoch offset (total_active_deltas s1)) (\<lambda>h2.
              Inr (s1\<lparr>total_active_deltas := h2\<rparr>))
            else Inr s1))"

definition get_num_consensus_validators :: "epoch \<Rightarrow> pos_state \<Rightarrow> nat" where
  "get_num_consensus_validators e s = length (consensus_at s e)"

end
