(* ===== verification/ValidatorSets.thy ===== *)
theory ValidatorSets
  imports PosState
begin

text \<open>
  The validator sets of an epoch (\<open>proof_of_stake/src/validator_set_update.rs\<close>): the consensus set, whose
  keys ascend with the stake, the below-capacity set, whose keys descend, and the position of each
  validator among those of equal stake. The main result is that an update of a stake keeps the
  consensus set the largest stakes above the threshold.
\<close>

section \<open>Positions\<close>

text \<open>The entries \<open>set.at(&amount)\<close> of one stake, in the order of their positions.\<close>

definition at_amount :: "'k position_map \<Rightarrow> 'k \<Rightarrow> (position \<times> Address) list" where
  "at_amount m k = map (\<lambda>((_, p), v). (p, v)) (filter (\<lambda>e. fst (fst e) = k) m)"

definition find_first_position :: "(position \<times> Address) list \<Rightarrow> position option" where
  "find_first_position h = (case h of [] \<Rightarrow> None | (p, _) # _ \<Rightarrow> Some p)"

definition find_last_position :: "(position \<times> Address) list \<Rightarrow> position option" where
  "find_last_position h = (if h = [] then None else Some (fst (last h)))"

definition find_next_position :: "(position \<times> Address) list \<Rightarrow> position" where
  "find_next_position h = (if h = [] then 0 else Position_next (fst (last h)))"

definition get_min_consensus_validator_amount :: "Amount position_map \<Rightarrow> Amount" where
  "get_min_consensus_validator_amount m = (case m of [] \<Rightarrow> Amount_zero | ((a, _), _) # _ \<Rightarrow> a)"

definition get_max_below_capacity_validator_amount :: "ReverseOrdTokenAmount position_map \<Rightarrow> Amount option" where
  "get_max_below_capacity_validator_amount m = (case m of [] \<Rightarrow> None | ((a, _), _) # _ \<Rightarrow> Some (rev_amount a))"

text \<open>\<open>insert_validator_into_set\<close> on a handle of the consensus set and on one of the below-capacity set.\<close>

definition insert_validator_into_consensus :: "epoch \<Rightarrow> Amount \<Rightarrow> Address \<Rightarrow> pos_state \<Rightarrow> pos_state" where
  "insert_validator_into_consensus e amount v s =
     (let next_position = find_next_position (at_amount (consensus_at s e) amount)
      in put_positions e ((positions_at s e)(v \<mapsto> next_position))
           (put_consensus e (bt_insert (amount, next_position) v (consensus_at s e)) s))"

definition insert_validator_into_below_capacity :: "epoch \<Rightarrow> Amount \<Rightarrow> Address \<Rightarrow> pos_state \<Rightarrow> pos_state" where
  "insert_validator_into_below_capacity e amount v s =
     (let k = ReverseOrdTokenAmount amount; next_position = find_next_position (at_amount (below_capacity_at s e) k)
      in put_positions e ((positions_at s e)(v \<mapsto> next_position))
           (put_below_capacity e (bt_insert (k, next_position) v (below_capacity_at s e)) s))"

definition read_validator_set_position :: "epoch \<Rightarrow> Address \<Rightarrow> pos_state \<Rightarrow> position option" where
  "read_validator_set_position e v s = positions_at s e v"

section \<open>Promotion and demotion\<close>

text \<open>Remove the first below-capacity validator of the given stake and insert it into the consensus set.\<close>

definition promote_below_capacity ::
    "PosParams \<Rightarrow> Amount \<Rightarrow> epoch \<Rightarrow> nat \<Rightarrow> epoch \<Rightarrow> pos_state \<Rightarrow> pos_error + pos_state" where
  "promote_below_capacity params amount current_epoch offset e s =
     (let k = ReverseOrdTokenAmount amount; m = below_capacity_at s e
      in rbind (ok_or (find_first_position (at_amount m k)) NoBelowCapacityValidator) (\<lambda>p.
         rbind (ok_or (map_of m (k, p)) NoBelowCapacityValidator) (\<lambda>promoted.
         set_validator_state params promoted Consensus current_epoch offset
           (insert_validator_into_consensus e amount promoted
             (put_below_capacity e (bt_remove (k, p) m) s)))))"

definition insert_into_consensus_and_demote_to_below_cap ::
    "PosParams \<Rightarrow> Address \<Rightarrow> Amount \<Rightarrow> Amount \<Rightarrow> epoch \<Rightarrow> nat \<Rightarrow> epoch \<Rightarrow> pos_state \<Rightarrow> pos_error + pos_state" where
  "insert_into_consensus_and_demote_to_below_cap params v tokens_post min_consensus_amount current_epoch offset e s =
     (let m = consensus_at s e
      in rbind (ok_or (find_last_position (at_amount m min_consensus_amount)) NoConsensusValidator) (\<lambda>p.
         rbind (ok_or (map_of m (min_consensus_amount, p)) NoConsensusValidator) (\<lambda>removed.
         rbind (set_validator_state params removed BelowCapacity current_epoch offset
                  (insert_validator_into_below_capacity e min_consensus_amount removed
                    (put_consensus e (bt_remove (min_consensus_amount, p) m) s))) (\<lambda>s2.
         set_validator_state params v Consensus current_epoch offset
           (insert_validator_into_consensus e tokens_post v s2)))))"

definition promote_next_below_capacity_validator_to_consensus ::
    "PosParams \<Rightarrow> epoch \<Rightarrow> nat \<Rightarrow> pos_state \<Rightarrow> pos_error + pos_state" where
  "promote_next_below_capacity_validator_to_consensus params current_epoch offset s =
     rbind (epoch_plus current_epoch offset) (\<lambda>e.
     case get_max_below_capacity_validator_amount (below_capacity_at s e) of
       Some amount \<Rightarrow> promote_below_capacity params amount current_epoch offset e s
     | None \<Rightarrow> Inr s)"

definition remove_position :: "epoch \<Rightarrow> Address \<Rightarrow> pos_state \<Rightarrow> pos_state" where
  "remove_position e v s = put_positions e ((positions_at s e)(v := None)) s"

definition remove_consensus_validator :: "PosParams \<Rightarrow> epoch \<Rightarrow> Address \<Rightarrow> pos_state \<Rightarrow> pos_error + pos_state" where
  "remove_consensus_validator params e v s =
     rbind (read_validator_stake params v e s) (\<lambda>stake.
     rbind (ok_or (positions_at s e v) PositionMissing) (\<lambda>p.
     Inr (remove_position e v (put_consensus e (bt_remove (stake, p) (consensus_at s e)) s))))"

definition remove_below_capacity_validator :: "PosParams \<Rightarrow> epoch \<Rightarrow> Address \<Rightarrow> pos_state \<Rightarrow> pos_error + pos_state" where
  "remove_below_capacity_validator params e v s =
     rbind (read_validator_stake params v e s) (\<lambda>stake.
     rbind (ok_or (positions_at s e v) PositionMissing) (\<lambda>p.
     Inr (remove_position e v
       (put_below_capacity e (bt_remove (ReverseOrdTokenAmount stake, p) (below_capacity_at s e)) s))))"

section \<open>Updates\<close>

text \<open>The branch of \<open>update_validator_set\<close> for a validator of the consensus set.\<close>

definition update_consensus_validator ::
    "PosParams \<Rightarrow> Address \<Rightarrow> Amount \<Rightarrow> Amount \<Rightarrow> position \<Rightarrow> epoch \<Rightarrow> nat \<Rightarrow> epoch \<Rightarrow> pos_state \<Rightarrow> pos_error + pos_state" where
  "update_consensus_validator params v tokens_pre tokens_post p current_epoch offset e s =
     (let s1 = put_consensus e (bt_remove (tokens_pre, p) (consensus_at s e)) s;
          max_below = get_max_below_capacity_validator_amount (below_capacity_at s1 e);
          max_below_capacity_validator_amount = (case max_below of None \<Rightarrow> Amount_zero | Some a \<Rightarrow> a)
      in if tokens_post < validator_stake_threshold params then
           rbind (set_validator_state params v BelowThreshold current_epoch offset s1) (\<lambda>s2.
           let s3 = remove_position e v s2
           in case get_max_below_capacity_validator_amount (below_capacity_at s3 e) of
                Some max_bc_amount \<Rightarrow> promote_below_capacity params max_bc_amount current_epoch offset e s3
              | None \<Rightarrow> Inr s3)
         else if tokens_post < max_below_capacity_validator_amount then
           rbind (promote_below_capacity params max_below_capacity_validator_amount current_epoch offset e s1) (\<lambda>s2.
           set_validator_state params v BelowCapacity current_epoch offset
             (insert_validator_into_below_capacity e tokens_post v s2))
         else Inr (insert_validator_into_consensus e tokens_post v s1))"

definition update_below_capacity_validator ::
    "PosParams \<Rightarrow> Address \<Rightarrow> Amount \<Rightarrow> Amount \<Rightarrow> position \<Rightarrow> epoch \<Rightarrow> nat \<Rightarrow> epoch \<Rightarrow> pos_state \<Rightarrow> pos_error + pos_state" where
  "update_below_capacity_validator params v tokens_pre tokens_post p current_epoch offset e s =
     (let s1 = put_below_capacity e (bt_remove (ReverseOrdTokenAmount tokens_pre, p) (below_capacity_at s e)) s;
          min_consensus_validator_amount = get_min_consensus_validator_amount (consensus_at s1 e)
      in if tokens_post > min_consensus_validator_amount then
           insert_into_consensus_and_demote_to_below_cap params v tokens_post min_consensus_validator_amount
             current_epoch offset e s1
         else if tokens_post \<ge> validator_stake_threshold params then
           set_validator_state params v BelowCapacity current_epoch offset
             (insert_validator_into_below_capacity e tokens_post v s1)
         else
           rbind (set_validator_state params v BelowThreshold current_epoch offset s1) (\<lambda>s2.
           Inr (remove_position e v s2)))"

text \<open>The branch for a validator with no position; a new validator goes the same way.\<close>

definition insert_by_stake ::
    "PosParams \<Rightarrow> Address \<Rightarrow> Amount \<Rightarrow> epoch \<Rightarrow> nat \<Rightarrow> epoch \<Rightarrow> pos_state \<Rightarrow> pos_error + pos_state" where
  "insert_by_stake params v stake current_epoch offset e s =
     (if get_num_consensus_validators e s < max_validator_slots params then
        set_validator_state params v Consensus current_epoch offset (insert_validator_into_consensus e stake v s)
      else
        let min_consensus_validator_amount = get_min_consensus_validator_amount (consensus_at s e)
        in if stake > min_consensus_validator_amount then
             insert_into_consensus_and_demote_to_below_cap params v stake min_consensus_validator_amount
               current_epoch offset e s
           else
             set_validator_state params v BelowCapacity current_epoch offset
               (insert_validator_into_below_capacity e stake v s))"

definition update_validator_set ::
    "PosParams \<Rightarrow> Address \<Rightarrow> Change \<Rightarrow> epoch \<Rightarrow> nat option \<Rightarrow> pos_state \<Rightarrow> pos_error + pos_state" where
  "update_validator_set params v token_change current_epoch offset_opt s =
     (if I256_is_zero token_change then Inr s
      else
        let offset = (case offset_opt of None \<Rightarrow> pipeline_len params | Some n \<Rightarrow> n)
        in rbind (epoch_plus current_epoch offset) (\<lambda>e.
           rbind (read_validator_stake params v e s) (\<lambda>tokens_pre.
           rbind (ok_or (do { c \<leftarrow> Amount_change tokens_pre; I256_checked_add c token_change }) PosArith) (\<lambda>c.
           let tokens_post = Amount_from_change c
           in if tokens_pre < validator_stake_threshold params \<and> tokens_post < validator_stake_threshold params then Inr s
              else
                case read_validator_set_position e v s of
                  Some p \<Rightarrow>
                    if map_of (consensus_at s e) (tokens_pre, p) = Some v then
                      update_consensus_validator params v tokens_pre tokens_post p current_epoch offset e s
                    else update_below_capacity_validator params v tokens_pre tokens_post p current_epoch offset e s
                | None \<Rightarrow> insert_by_stake params v tokens_post current_epoch offset e s))))"

definition insert_validator_into_validator_set ::
    "PosParams \<Rightarrow> Address \<Rightarrow> Amount \<Rightarrow> epoch \<Rightarrow> nat \<Rightarrow> pos_state \<Rightarrow> pos_error + pos_state" where
  "insert_validator_into_validator_set params v stake current_epoch offset s =
     rbind (epoch_plus current_epoch offset) (\<lambda>e.
     if stake < validator_stake_threshold params then set_validator_state params v BelowThreshold current_epoch offset s
     else insert_by_stake params v stake current_epoch offset e s)"

text \<open>Copy the sets, the positions and the known validators of the epoch before the target, and drop old epochs.\<close>

definition copy_validator_sets_and_positions ::
    "PosParams \<Rightarrow> epoch \<Rightarrow> epoch \<Rightarrow> pos_state \<Rightarrow> pos_error + pos_state" where
  "copy_validator_sets_and_positions params current_epoch target_epoch s =
     (if target_epoch = 0 then Inl PosArith
      else
        let prev = target_epoch - 1;
            s1 = put_consensus target_epoch (bt_extend (consensus_at s target_epoch) (consensus_at s prev)) s;
            s2 = put_below_capacity target_epoch (bt_extend (below_capacity_at s1 target_epoch) (below_capacity_at s1 prev)) s1
        in rbind (offset_of params OffsetMaxProposalPeriodPlus) (\<lambda>past.
           let s3 = s2\<lparr>consensus_validator_sets := nested_update_data past current_epoch (consensus_validator_sets s2),
                       below_capacity_validator_sets :=
                         nested_update_data DEFAULT_NUM_PAST_EPOCHS current_epoch (below_capacity_validator_sets s2)\<rparr>;
               s4 = put_positions target_epoch (positions_at s3 target_epoch ++ positions_at s3 prev) s3;
               s5 = s4\<lparr>validator_set_positions :=
                         nested_update_data DEFAULT_NUM_PAST_EPOCHS current_epoch (validator_set_positions s4)\<rparr>;
               known = nested_at {} (validator_addresses s5)
           in Inr (s5\<lparr>validator_addresses :=
                nested_update_data DEFAULT_NUM_PAST_EPOCHS current_epoch
                  (nested_put target_epoch (known target_epoch \<union> known prev) (validator_addresses s5))\<rparr>)))"

section \<open>Views of the state\<close>

text \<open>
  The validators of a position map, and the state of a validator at an epoch as \<^const>\<open>epoched_get\<close>
  reads it.
\<close>

abbreviation members :: "'k position_map \<Rightarrow> Address set" where
  "members m \<equiv> snd ` set m"

definition vstate :: "pos_state \<Rightarrow> epoch \<Rightarrow> Address \<Rightarrow> ValidatorState option" where
  "vstate s e v = nearest (lazy_map (validator_states s v)) e"

lemma nested_at_put: "nested_at d (nested_put e m E) e' = (if e' = e then m else nested_at d E e')"
  by (simp add: nested_at_def nested_put_def)

lemma put_views [simp]:
  "consensus_at (put_consensus e m s) e' = (if e' = e then m else consensus_at s e')"
  "consensus_at (put_below_capacity e b s) e' = consensus_at s e'"
  "consensus_at (put_positions e q s) e' = consensus_at s e'"
  "below_capacity_at (put_consensus e m s) e' = below_capacity_at s e'"
  "below_capacity_at (put_below_capacity e b s) e' = (if e' = e then b else below_capacity_at s e')"
  "below_capacity_at (put_positions e q s) e' = below_capacity_at s e'"
  "positions_at (put_consensus e m s) e' = positions_at s e'"
  "positions_at (put_below_capacity e b s) e' = positions_at s e'"
  "positions_at (put_positions e q s) e' = (if e' = e then q else positions_at s e')"
  "vstate (put_consensus e m s) = vstate s" "vstate (put_below_capacity e b s) = vstate s"
  "vstate (put_positions e q s) = vstate s"
  by (simp_all add: consensus_at_def below_capacity_at_def positions_at_def put_consensus_def put_below_capacity_def
      put_positions_def nested_at_put vstate_def fun_eq_iff)

text \<open>What the operations on the sets of an epoch leave alone.\<close>

definition only_sets_at :: "epoch \<Rightarrow> pos_state \<Rightarrow> pos_state \<Rightarrow> bool" where
  "only_sets_at e s s' \<longleftrightarrow>
     validator_deltas s' = validator_deltas s \<and> total_deltas s' = total_deltas s \<and>
     total_active_deltas s' = total_active_deltas s \<and> validator_addresses s' = validator_addresses s \<and>
     (\<forall>e'. e' \<noteq> e \<longrightarrow> consensus_at s' e' = consensus_at s e' \<and> below_capacity_at s' e' = below_capacity_at s e' \<and>
        positions_at s' e' = positions_at s e')"

lemma only_sets_at_refl [simp]: "only_sets_at e s s"
  by (simp add: only_sets_at_def)

lemma only_sets_at_trans: "only_sets_at e s s' \<Longrightarrow> only_sets_at e s' s'' \<Longrightarrow> only_sets_at e s s''"
  by (simp add: only_sets_at_def)

lemma only_sets_at_put [simp]:
  "only_sets_at e s (put_consensus e m s') \<longleftrightarrow> only_sets_at e s s'"
  "only_sets_at e s (put_below_capacity e b s') \<longleftrightarrow> only_sets_at e s s'"
  "only_sets_at e s (put_positions e q s') \<longleftrightarrow> only_sets_at e s s'"
  by (auto simp: only_sets_at_def) (simp_all add: put_consensus_def put_below_capacity_def put_positions_def)

lemma set_validator_state_spec:
  assumes "offset_of params OffsetMaxProposalPeriodPlus = Inr past" "cur + offset < 2 ^ 64"
  obtains s' where "set_validator_state params v st cur offset s = Inr s'"
    "consensus_at s' = consensus_at s" "below_capacity_at s' = below_capacity_at s" "positions_at s' = positions_at s"
    "vstate s' (cur + offset) = (vstate s (cur + offset))(v \<mapsto> st)" "\<And>e. only_sets_at e s s'"
proof -
  let ?E = "epoched_update_data past cur (validator_states s v)"
  let ?h = "?E\<lparr>lazy_map := (lazy_map ?E)(cur + offset \<mapsto> st)\<rparr>"
  let ?s = "s\<lparr>validator_states := (validator_states s)(v := ?h)\<rparr>"
  have "set_validator_state params v st cur offset s = Inr ?s"
    using assms by (simp add: set_validator_state_def epoched_set_def set_at_epoch_def unchecked_add_def epoched_result_def)
  moreover have "consensus_at ?s = consensus_at s" "below_capacity_at ?s = below_capacity_at s" "positions_at ?s = positions_at s"
    by (simp_all add: fun_eq_iff consensus_at_def below_capacity_at_def positions_at_def)
  moreover have "vstate ?s (cur + offset) = (vstate s (cur + offset))(v \<mapsto> st)"
    by (auto simp: fun_eq_iff vstate_def nearest_Some_key)
  moreover have "only_sets_at e s ?s" for e
    by (simp add: only_sets_at_def consensus_at_def below_capacity_at_def positions_at_def)
  ultimately show thesis using that by blast
qed

section \<open>Position maps\<close>

text \<open>
  Every entry of a position map is keyed by the stake of its validator, under the encoding of the
  map, and by the position recorded for it.
\<close>

definition pm_ok :: "(Amount \<Rightarrow> 'k::linorder) \<Rightarrow> (Address \<Rightarrow> Amount) \<Rightarrow> (Address \<Rightarrow> position option) \<Rightarrow> 'k position_map \<Rightarrow> bool" where
  "pm_ok enc st pos m \<longleftrightarrow> bt_ok m \<and> (\<forall>k p v. ((k, p), v) \<in> set m \<longrightarrow> k = enc (st v) \<and> pos v = Some p)"

definition room :: "'k position_map \<Rightarrow> bool" where
  "room m \<longleftrightarrow> (\<forall>k p v. ((k, p), v) \<in> set m \<longrightarrow> p + 1 < 2 ^ 64)"

lemma pm_member: "pm_ok enc st pos m \<Longrightarrow> v \<in> members m \<Longrightarrow> \<exists>p. pos v = Some p \<and> ((enc (st v), p), v) \<in> set m"
  by (force simp: pm_ok_def)

lemma pm_key:
  assumes "pm_ok enc st pos m" "x \<in> set m"
  shows "x = ((enc (st (snd x)), the (pos (snd x))), snd x)"
proof -
  obtain k p v where "x = ((k, p), v)" by (metis prod.collapse)
  then show ?thesis using assms by (auto simp: pm_ok_def)
qed

lemma pm_lookup: "pm_ok enc st pos m \<Longrightarrow> map_of m (k, p) = Some v \<longleftrightarrow> ((k, p), v) \<in> set m"
  by (simp add: pm_ok_def bt_ok_distinct)

lemma pm_upd: "pm_ok enc st pos m \<Longrightarrow> v \<notin> members m \<Longrightarrow> pm_ok enc (st(v := x)) (pos(v := y)) m"
  by (force simp: pm_ok_def)

lemma pm_upd_pos: "pm_ok enc st pos m \<Longrightarrow> v \<notin> members m \<Longrightarrow> pm_ok enc st (pos(v := y)) m"
  using pm_upd [of enc st pos m v "st v" y] by simp

lemma pm_upd_st: "pm_ok enc st pos m \<Longrightarrow> v \<notin> members m \<Longrightarrow> pm_ok enc (st(v := x)) pos m"
  using pm_upd [of enc st pos m v x "pos v"] by simp

lemma pm_length: "pm_ok enc st pos m \<Longrightarrow> length m = card (members m)"
proof -
  assume ok: "pm_ok enc st pos m"
  have "inj_on snd (set m)" by (rule inj_onI) (metis pm_key [OF ok])
  moreover have "distinct m" using ok by (auto simp: pm_ok_def distinct_map dest: bt_ok_distinct)
  ultimately show ?thesis by (simp add: card_image distinct_card)
qed

lemma pm_remove:
  assumes "pm_ok enc st pos m" "((enc (st v), p), v) \<in> set m"
  shows "pm_ok enc st pos (bt_remove (enc (st v), p) m)" "members (bt_remove (enc (st v), p) m) = members m - {v}"
    "v \<notin> members (bt_remove (enc (st v), p) m)" "room m \<Longrightarrow> room (bt_remove (enc (st v), p) m)"
proof -
  let ?m = "bt_remove (enc (st v), p) m"
  have ok: "bt_ok m" and pos: "pos v = Some p" using assms by (auto simp: pm_ok_def)
  have set: "x \<in> set ?m \<longleftrightarrow> x \<in> set m \<and> fst x \<noteq> (enc (st v), p)" for x by (auto simp: bt_remove_def)
  have uniq: "x = ((enc (st v), p), v)" if "x \<in> set m" "fst x = (enc (st v), p)" for x
    using that assms(2) bt_ok_distinct [OF ok] by (metis eq_key_imp_eq_value prod.collapse)
  have key: "fst x = (enc (st v), p)" if "x \<in> set m" "snd x = v" for x
  proof -
    have "fst x = (enc (st (snd x)), the (pos (snd x)))"
      by (rule arg_cong [OF pm_key [OF assms(1) that(1)], of fst, simplified])
    then show ?thesis using that(2) pos by simp
  qed
  show "pm_ok enc st pos ?m" using assms(1) set bt.ok_rem [OF ok] by (auto simp: pm_ok_def)
  show mem: "members ?m = members m - {v}"
  proof (intro set_eqI iffI)
    fix w assume "w \<in> members ?m"
    then obtain x where "x \<in> set m" "fst x \<noteq> (enc (st v), p)" "w = snd x" using set by blast
    then show "w \<in> members m - {v}" using key by blast
  next
    fix w assume "w \<in> members m - {v}"
    then obtain x where x: "x \<in> set m" "w = snd x" "w \<noteq> v" by blast
    then have "fst x \<noteq> (enc (st v), p)" using uniq by fastforce
    then show "w \<in> members ?m" using x set by blast
  qed
  show "v \<notin> members ?m" unfolding mem by simp
  show "room m \<Longrightarrow> room ?m" by (auto simp: room_def set)
qed

lemma at_amount_set: "(p, v) \<in> set (at_amount m k) \<longleftrightarrow> ((k, p), v) \<in> set m"
  by (force simp: at_amount_def)

lemma at_amount_sorted: "bt_ok m \<Longrightarrow> sorted_wrt (<) (map fst (at_amount m k))"
proof -
  assume "bt_ok m"
  then have "sorted_wrt (\<lambda>x y. fst x < fst y) (filter (\<lambda>e. fst (fst e) = k) m)"
    by (simp add: bt_ok_def sorted_wrt_map sorted_wrt_filter)
  then have "sorted_wrt (\<lambda>x y. snd (fst x) < snd (fst y)) (filter (\<lambda>e. fst (fst e) = k) m)"
    by (rule sorted_wrt_mono_rel [rotated]) (auto simp: less_prod_def)
  moreover have "map fst (at_amount m k) = map (\<lambda>x. snd (fst x)) (filter (\<lambda>e. fst (fst e) = k) m)"
    by (auto simp: at_amount_def)
  ultimately show ?thesis by (simp add: sorted_wrt_map)
qed

lemma sorted_last_max: "sorted_wrt (<) (map fst h) \<Longrightarrow> x \<in> set h \<Longrightarrow> fst x \<le> fst (last h :: nat \<times> 'b)"
  by (induction h) (auto split: if_splits intro: less_imp_le)

lemma at_amount_last:
  assumes "at_amount m k \<noteq> []"
  shows "((k, fst (last (at_amount m k))), snd (last (at_amount m k))) \<in> set m"
  by (rule iffD1 [OF at_amount_set]) (use last_in_set [OF assms] in simp)

lemma next_position_fresh:
  assumes "bt_ok m" "room m"
  shows "((k, find_next_position (at_amount m k)), v) \<notin> set m"
proof
  let ?h = "at_amount m k"
  assume "((k, find_next_position ?h), v) \<in> set m"
  then have mem: "(find_next_position ?h, v) \<in> set ?h" by (simp add: at_amount_set)
  then have ne: "?h \<noteq> []" by auto
  then have "fst (last ?h) + 1 < 2 ^ 64" using assms(2) at_amount_last [of m k] unfolding room_def by blast
  then have "find_next_position ?h = fst (last ?h) + 1" using ne by (simp add: find_next_position_def Position_next_def)
  then show False using sorted_last_max [OF at_amount_sorted [OF assms(1)] mem] by simp
qed

lemma set_bt_insert_fresh: "bt_ok m \<Longrightarrow> k \<notin> fst ` set m \<Longrightarrow> set (bt_insert k v m) = insert (k, v) (set m)"
proof -
  assume ok: "bt_ok m" and k: "k \<notin> fst ` set m"
  have "(j, w) \<in> set (bt_insert k v m) \<longleftrightarrow> (j, w) \<in> insert (k, v) (set m)" for j w
    using bt.in_entries [OF bt_ok_insert [OF ok], of j w k v] bt.in_entries [OF ok, of j w] k
    by (auto simp: map_of_bt_insert split: if_splits) force+
  then show ?thesis by auto
qed

lemma pm_insert:
  assumes ok: "pm_ok enc st pos m" and v: "v \<notin> members m" and room: "room m"
  defines "n \<equiv> find_next_position (at_amount m (enc (st v)))"
  shows "pm_ok enc st (pos(v \<mapsto> n)) (bt_insert (enc (st v), n) v m)"
    "members (bt_insert (enc (st v), n) v m) = insert v (members m)"
proof -
  have bt: "bt_ok m" using ok by (simp add: pm_ok_def)
  have "(enc (st v), n) \<notin> fst ` set m" using next_position_fresh [OF bt room] unfolding n_def by force
  then have set: "set (bt_insert (enc (st v), n) v m) = insert ((enc (st v), n), v) (set m)"
    by (rule set_bt_insert_fresh [OF bt])
  then show "members (bt_insert (enc (st v), n) v m) = insert v (members m)" by simp
  have "w \<noteq> v" if "((k, p), w) \<in> set m" for k p w using v that by force
  then show "pm_ok enc st (pos(v \<mapsto> n)) (bt_insert (enc (st v), n) v m)"
    using ok bt_ok_insert [OF bt] unfolding pm_ok_def set by auto
qed

lemma pm_first:
  assumes "pm_ok enc st pos (((k, p), v) # m)"
  shows "find_first_position (at_amount (((k, p), v) # m) k) = Some p" "k = enc (st v)"
    "\<And>w. w \<in> members (((k, p), v) # m) \<Longrightarrow> k \<le> enc (st w)"
proof -
  show "find_first_position (at_amount (((k, p), v) # m) k) = Some p"
    by (simp add: find_first_position_def at_amount_def)
  show k: "k = enc (st v)" using assms by (simp add: pm_ok_def)
  fix w assume "w \<in> members (((k, p), v) # m)"
  then obtain q where "((enc (st w), q), w) \<in> set (((k, p), v) # m)" using pm_member [OF assms] by blast
  moreover have "(k, p) \<le> x" if "x \<in> fst ` set (((k, p), v) # m)" for x
    using assms that unfolding pm_ok_def bt_ok_def by (auto intro: less_imp_le)
  ultimately have "(k, p) \<le> (enc (st w), q)" by force
  then show "k \<le> enc (st w)" by (auto simp: less_eq_prod_def)
qed

lemma pm_last:
  assumes "pm_ok enc st pos m" "v \<in> members m"
  obtains p w where "find_last_position (at_amount m (enc (st v))) = Some p" "map_of m (enc (st v), p) = Some w"
    "((enc (st v), p), w) \<in> set m"
proof -
  let ?h = "at_amount m (enc (st v))"
  obtain q where "((enc (st v), q), v) \<in> set m" using pm_member [OF assms] by blast
  then have ne: "?h \<noteq> []" using at_amount_set [of q v m] by force
  from at_amount_last [OF this] show thesis
    using that ne pm_lookup [OF assms(1)] by (auto simp: find_last_position_def)
qed

section \<open>Steps on the sets of an epoch\<close>

abbreviation consensus_members :: "pos_state \<Rightarrow> epoch \<Rightarrow> Address set" where
  "consensus_members s e \<equiv> members (consensus_at s e)"

abbreviation below_capacity_members :: "pos_state \<Rightarrow> epoch \<Rightarrow> Address set" where
  "below_capacity_members s e \<equiv> members (below_capacity_at s e)"

definition sets_wf :: "(Address \<Rightarrow> Amount) \<Rightarrow> pos_state \<Rightarrow> epoch \<Rightarrow> bool" where
  "sets_wf st s e \<longleftrightarrow>
     pm_ok (\<lambda>a. a) st (positions_at s e) (consensus_at s e) \<and>
     pm_ok ReverseOrdTokenAmount st (positions_at s e) (below_capacity_at s e) \<and>
     consensus_members s e \<inter> below_capacity_members s e = {}"

lemma sets_wf_upd:
  "sets_wf st s e \<Longrightarrow> v \<notin> consensus_members s e \<Longrightarrow> v \<notin> below_capacity_members s e \<Longrightarrow> sets_wf (st(v := x)) s e"
  by (simp add: sets_wf_def pm_upd_st)

lemma sets_wf_views:
  "consensus_at s' e = consensus_at s e \<Longrightarrow> below_capacity_at s' e = below_capacity_at s e \<Longrightarrow>
   positions_at s' e = positions_at s e \<Longrightarrow> sets_wf st s' e \<longleftrightarrow> sets_wf st s e"
  by (simp add: sets_wf_def)

lemma remove_position_wf:
  assumes "sets_wf st s e" "v \<notin> consensus_members s e" "v \<notin> below_capacity_members s e"
  shows "sets_wf st (remove_position e v s) e"
  using assms by (simp add: sets_wf_def remove_position_def pm_upd_pos)

lemma remove_position_views [simp]:
  "consensus_at (remove_position e v s) = consensus_at s" "below_capacity_at (remove_position e v s) = below_capacity_at s"
  "positions_at (remove_position e v s) e = (positions_at s e)(v := None)" "vstate (remove_position e v s) = vstate s"
  "only_sets_at e s0 (remove_position e v s) \<longleftrightarrow> only_sets_at e s0 s"
  by (simp_all add: remove_position_def fun_eq_iff)

lemma remove_consensus_wf:
  assumes "sets_wf st s e" "map_of (consensus_at s e) (st v, p) = Some v"
  defines "s' \<equiv> put_consensus e (bt_remove (st v, p) (consensus_at s e)) s"
  shows "sets_wf st s' e" "consensus_members s' e = consensus_members s e - {v}"
    "room (consensus_at s e) \<Longrightarrow> room (consensus_at s' e)"
proof -
  have ok: "pm_ok (\<lambda>a. a) st (positions_at s e) (consensus_at s e)" using assms(1) by (simp add: sets_wf_def)
  then have "((st v, p), v) \<in> set (consensus_at s e)" using pm_lookup assms(2) by blast
  note rem = pm_remove [OF ok this]
  show "consensus_members s' e = consensus_members s e - {v}" using rem(2) by (simp add: s'_def)
  then show "sets_wf st s' e" using rem(1) assms(1) by (auto simp: s'_def sets_wf_def)
  show "room (consensus_at s e) \<Longrightarrow> room (consensus_at s' e)" using rem(4) by (simp add: s'_def)
qed

lemma remove_below_capacity_wf:
  assumes "sets_wf st s e" "((ReverseOrdTokenAmount (st v), p), v) \<in> set (below_capacity_at s e)"
  defines "s' \<equiv> put_below_capacity e (bt_remove (ReverseOrdTokenAmount (st v), p) (below_capacity_at s e)) s"
  shows "sets_wf st s' e" "below_capacity_members s' e = below_capacity_members s e - {v}"
    "room (below_capacity_at s e) \<Longrightarrow> room (below_capacity_at s' e)"
proof -
  have ok: "pm_ok ReverseOrdTokenAmount st (positions_at s e) (below_capacity_at s e)" using assms(1) by (simp add: sets_wf_def)
  note rem = pm_remove [OF ok assms(2)]
  show "below_capacity_members s' e = below_capacity_members s e - {v}" using rem(2) by (simp add: s'_def)
  then show "sets_wf st s' e" using rem(1) assms(1) by (auto simp: s'_def sets_wf_def)
  show "room (below_capacity_at s e) \<Longrightarrow> room (below_capacity_at s' e)" using rem(4) by (simp add: s'_def)
qed

lemma insert_consensus_wf:
  assumes "sets_wf st s e" "v \<notin> consensus_members s e" "v \<notin> below_capacity_members s e" "room (consensus_at s e)"
  defines "s' \<equiv> insert_validator_into_consensus e (st v) v s"
  shows "sets_wf st s' e" "consensus_members s' e = insert v (consensus_members s e)"
    "below_capacity_at s' e = below_capacity_at s e" "dom (positions_at s' e) = insert v (dom (positions_at s e))"
    "vstate s' = vstate s" "only_sets_at e s s'"
proof -
  have ok: "pm_ok (\<lambda>a. a) st (positions_at s e) (consensus_at s e)" using assms(1) by (simp add: sets_wf_def)
  note ins = pm_insert [OF ok assms(2,4)]
  show mem: "consensus_members s' e = insert v (consensus_members s e)" and "below_capacity_at s' e = below_capacity_at s e"
    "dom (positions_at s' e) = insert v (dom (positions_at s e))" "vstate s' = vstate s" "only_sets_at e s s'"
    using ins(2) by (simp_all add: s'_def insert_validator_into_consensus_def Let_def)
  show "sets_wf st s' e"
    using assms(1,3) ins mem
    by (auto simp: s'_def insert_validator_into_consensus_def Let_def sets_wf_def intro: pm_upd_pos)
qed

lemma insert_below_capacity_wf:
  assumes "sets_wf st s e" "v \<notin> consensus_members s e" "v \<notin> below_capacity_members s e" "room (below_capacity_at s e)"
  defines "s' \<equiv> insert_validator_into_below_capacity e (st v) v s"
  shows "sets_wf st s' e" "below_capacity_members s' e = insert v (below_capacity_members s e)"
    "consensus_at s' e = consensus_at s e" "dom (positions_at s' e) = insert v (dom (positions_at s e))"
    "vstate s' = vstate s" "only_sets_at e s s'"
proof -
  have ok: "pm_ok ReverseOrdTokenAmount st (positions_at s e) (below_capacity_at s e)" using assms(1) by (simp add: sets_wf_def)
  note ins = pm_insert [OF ok assms(3,4)]
  show mem: "below_capacity_members s' e = insert v (below_capacity_members s e)" and "consensus_at s' e = consensus_at s e"
    "dom (positions_at s' e) = insert v (dom (positions_at s e))" "vstate s' = vstate s" "only_sets_at e s s'"
    using ins(2) by (simp_all add: s'_def insert_validator_into_below_capacity_def Let_def)
  show "sets_wf st s' e"
    using assms(1,2) ins mem
    by (auto simp: s'_def insert_validator_into_below_capacity_def Let_def sets_wf_def intro: pm_upd_pos)
qed

text \<open>
  The setting of an update: the offset of the validator states is defined and the target epoch
  fits 64 bits.
\<close>

definition set_target :: "PosParams \<Rightarrow> epoch \<Rightarrow> nat \<Rightarrow> epoch \<Rightarrow> bool" where
  "set_target params cur offset e \<longleftrightarrow>
     offset_value params OffsetMaxProposalPeriodPlus \<noteq> None \<and> e = cur + offset \<and> e < 2 ^ 64"

lemma set_state_step:
  assumes "set_target params cur offset e"
  obtains s' where "set_validator_state params v x cur offset s = Inr s'"
    "consensus_at s' = consensus_at s" "below_capacity_at s' = below_capacity_at s" "positions_at s' = positions_at s"
    "vstate s' e = (vstate s e)(v \<mapsto> x)" "only_sets_at e s s'"
proof -
  obtain past where "offset_value params OffsetMaxProposalPeriodPlus = Some past"
    using assms unfolding set_target_def by blast
  then have "offset_of params OffsetMaxProposalPeriodPlus = Inr past" by (simp only: offset_of_def ok_or_simps)
  moreover have "cur + offset < 2 ^ 64" "e = cur + offset" using assms by (auto simp: set_target_def)
  ultimately show thesis using that by (metis set_validator_state_spec)
qed

lemma promote_wf:
  assumes wf: "sets_wf st s e" and tgt: "set_target params cur offset e" and room: "room (consensus_at s e)"
    and amount: "get_max_below_capacity_validator_amount (below_capacity_at s e) = Some amount"
  obtains s' w where "promote_below_capacity params amount cur offset e s = Inr s'"
    "w \<in> below_capacity_members s e" "amount = st w" "\<And>b. b \<in> below_capacity_members s e \<Longrightarrow> st b \<le> st w"
    "sets_wf st s' e" "consensus_members s' e = insert w (consensus_members s e)"
    "below_capacity_members s' e = below_capacity_members s e - {w}"
    "room (below_capacity_at s e) \<Longrightarrow> room (below_capacity_at s' e)"
    "dom (positions_at s' e) = insert w (dom (positions_at s e))"
    "vstate s' e = (vstate s e)(w \<mapsto> Consensus)" "only_sets_at e s s'"
proof -
  let ?m = "below_capacity_at s e"
  obtain k p w m where m: "?m = ((k, p), w) # m" "rev_amount k = amount"
    using amount by (auto simp: get_max_below_capacity_validator_amount_def split: list.splits)
  have ok: "pm_ok ReverseOrdTokenAmount st (positions_at s e) (((k, p), w) # m)" using wf by (simp add: sets_wf_def m(1))
  note first = pm_first [OF ok]
  have k: "k = ReverseOrdTokenAmount amount" and a: "amount = st w" using first(2) m(2) by auto
  have mem: "((ReverseOrdTokenAmount (st w), p), w) \<in> set ?m" "w \<in> below_capacity_members s e" using m k a by auto
  note rem = remove_below_capacity_wf [OF wf mem(1)]
  let ?s1 = "put_below_capacity e (bt_remove (ReverseOrdTokenAmount (st w), p) ?m) s"
  have "w \<notin> consensus_members ?s1 e" "w \<notin> below_capacity_members ?s1 e" "room (consensus_at ?s1 e)"
    using wf rem(2) mem(2) room by (auto simp: sets_wf_def)
  note ins = insert_consensus_wf [OF rem(1) this]
  let ?s2 = "insert_validator_into_consensus e (st w) w ?s1"
  obtain s' where s': "set_validator_state params w Consensus cur offset ?s2 = Inr s'"
    "consensus_at s' = consensus_at ?s2" "below_capacity_at s' = below_capacity_at ?s2" "positions_at s' = positions_at ?s2"
    "vstate s' e = (vstate ?s2 e)(w \<mapsto> Consensus)" "only_sets_at e ?s2 s'"
    by (rule set_state_step [OF tgt])
  have "promote_below_capacity params amount cur offset e s = Inr s'"
    using first(1) s'(1) by (simp add: promote_below_capacity_def m(1) k a)
  moreover have "st b \<le> st w" if "b \<in> below_capacity_members s e" for b
    using first(3) [of b] that by (simp add: m(1) k a less_eq_ReverseOrdTokenAmount_def)
  moreover have "only_sets_at e s ?s1" by simp
  then have "only_sets_at e s s'" by (rule only_sets_at_trans [OF only_sets_at_trans [OF _ ins(6)] s'(6)])
  moreover have "sets_wf st s' e" using ins(1) sets_wf_views s'(2-4) by metis
  ultimately show thesis using that mem(2) a ins rem s' by simp
qed

lemma demote_wf:
  assumes wf: "sets_wf st s e" and tgt: "set_target params cur offset e"
    and room: "room (consensus_at s e)" "room (below_capacity_at s e)"
    and v: "v \<notin> consensus_members s e" "v \<notin> below_capacity_members s e"
    and ne: "consensus_at s e \<noteq> []"
  defines "amount \<equiv> get_min_consensus_validator_amount (consensus_at s e)"
  obtains s' w where
    "insert_into_consensus_and_demote_to_below_cap params v (st v) amount cur offset e s = Inr s'"
    "w \<in> consensus_members s e" "amount = st w" "\<And>c. c \<in> consensus_members s e \<Longrightarrow> st w \<le> st c"
    "sets_wf st s' e" "consensus_members s' e = insert v (consensus_members s e - {w})"
    "below_capacity_members s' e = insert w (below_capacity_members s e)"
    "dom (positions_at s' e) = {v, w} \<union> dom (positions_at s e)"
    "vstate s' e = (vstate s e)(w \<mapsto> BelowCapacity, v \<mapsto> Consensus)" "only_sets_at e s s'"
proof -
  let ?m = "consensus_at s e"
  obtain k p0 w0 m where m: "?m = ((k, p0), w0) # m" using ne by (metis list.exhaust prod.collapse)
  have ok: "pm_ok (\<lambda>a. a) st (positions_at s e) ?m" using wf by (simp add: sets_wf_def)
  note first = pm_first [OF ok [unfolded m]]
  have a: "amount = st w0" using first(2) by (simp add: amount_def m get_min_consensus_validator_amount_def)
  have "w0 \<in> members ?m" by (simp add: m)
  then obtain p w where p: "find_last_position (at_amount ?m amount) = Some p" "map_of ?m (amount, p) = Some w"
    "((amount, p), w) \<in> set ?m" unfolding a by (rule pm_last [OF ok])
  then have w: "w \<in> members ?m" "amount = st w" using ok by (force simp: pm_ok_def)+
  have min: "st w \<le> st c" if "c \<in> consensus_members s e" for c
    using first(3) [of c] first(2) that a w(2) by (simp add: m)
  have vw: "v \<noteq> w" using v(1) w(1) by blast
  note rem = remove_consensus_wf [OF wf p(2) [unfolded w(2)]]
  let ?s1 = "put_consensus e (bt_remove (st w, p) ?m) s"
  have w1: "w \<notin> consensus_members ?s1 e" "w \<notin> below_capacity_members ?s1 e" "room (below_capacity_at ?s1 e)"
    using wf rem(2) w(1) room by (auto simp: sets_wf_def)
  note ins = insert_below_capacity_wf [OF rem(1) w1]
  let ?s2 = "insert_validator_into_below_capacity e (st w) w ?s1"
  obtain s3 where s3: "set_validator_state params w BelowCapacity cur offset ?s2 = Inr s3"
    "consensus_at s3 = consensus_at ?s2" "below_capacity_at s3 = below_capacity_at ?s2" "positions_at s3 = positions_at ?s2"
    "vstate s3 e = (vstate ?s2 e)(w \<mapsto> BelowCapacity)" "only_sets_at e ?s2 s3"
    by (rule set_state_step [OF tgt])
  have wf3: "sets_wf st s3 e" using ins(1) sets_wf_views s3(2-4) by metis
  have "v \<notin> consensus_members s3 e" "v \<notin> below_capacity_members s3 e" "room (consensus_at s3 e)"
    using v vw rem(2,3) ins(2,3) room(1) by (auto simp: s3)
  note ins2 = insert_consensus_wf [OF wf3 this]
  let ?s4 = "insert_validator_into_consensus e (st v) v s3"
  obtain s' where s': "set_validator_state params v Consensus cur offset ?s4 = Inr s'"
    "consensus_at s' = consensus_at ?s4" "below_capacity_at s' = below_capacity_at ?s4" "positions_at s' = positions_at ?s4"
    "vstate s' e = (vstate ?s4 e)(v \<mapsto> Consensus)" "only_sets_at e ?s4 s'"
    by (rule set_state_step [OF tgt])
  show thesis
  proof (rule that [of s' w])
    show "insert_into_consensus_and_demote_to_below_cap params v (st v) amount cur offset e s = Inr s'"
      using p(1,2) s3(1) s'(1) by (simp add: insert_into_consensus_and_demote_to_below_cap_def w(2))
    show "sets_wf st s' e" using ins2(1) sets_wf_views s'(2-4) by metis
    have "only_sets_at e s ?s1" by simp
    then show "only_sets_at e s s'" by (meson only_sets_at_trans ins(6) s3(6) ins2(6) s'(6))
    show "consensus_members s' e = insert v (consensus_members s e - {w})"
      unfolding s'(2) ins2(2) s3(2) ins(3) rem(2) ..
    show "below_capacity_members s' e = insert w (below_capacity_members s e)"
      unfolding s'(3) ins2(3) s3(3) ins(2) by simp
    show "dom (positions_at s' e) = {v, w} \<union> dom (positions_at s e)"
      unfolding s'(4) ins2(4) s3(4) ins(4) by simp
    show "vstate s' e = (vstate s e)(w \<mapsto> BelowCapacity, v \<mapsto> Consensus)"
      unfolding s'(5) ins2(5) s3(5) ins(5) by simp
  qed (fact w min)+
qed

section \<open>The invariant of the sets\<close>

text \<open>
  The sets as the protocol promises them, over the stakes at the epoch: the members of both sets are
  the validators with a stake of at least the threshold; the consensus set holds the largest stakes
  among them and is full whenever somebody is left out. The states of the validators and the
  recorded positions agree with the sets.
\<close>

definition best_stakes :: "Amount \<Rightarrow> nat \<Rightarrow> (Address \<Rightarrow> Amount) \<Rightarrow> Address set \<Rightarrow> Address set \<Rightarrow> bool" where
  "best_stakes threshold slots st C B \<longleftrightarrow>
     C \<inter> B = {} \<and> (\<forall>v\<in>C \<union> B. threshold \<le> st v) \<and> card C \<le> slots \<and> (B \<noteq> {} \<longrightarrow> card C = slots) \<and>
     (\<forall>c\<in>C. \<forall>b\<in>B. st b \<le> st c)"

definition vsets_inv :: "PosParams \<Rightarrow> (Address \<Rightarrow> Amount) \<Rightarrow> pos_state \<Rightarrow> epoch \<Rightarrow> bool" where
  "vsets_inv params st s e \<longleftrightarrow>
     sets_wf st s e \<and>
     best_stakes (validator_stake_threshold params) (max_validator_slots params) st
       (consensus_members s e) (below_capacity_members s e) \<and>
     dom (positions_at s e) = consensus_members s e \<union> below_capacity_members s e \<and>
     consensus_members s e = {v. vstate s e v = Some Consensus} \<and>
     below_capacity_members s e = {v. vstate s e v = Some BelowCapacity} \<and>
     (\<forall>v. vstate s e v = Some BelowThreshold \<longrightarrow> st v < validator_stake_threshold params)"

lemma best_stakes_upd:
  "v \<notin> C \<Longrightarrow> v \<notin> B \<Longrightarrow> best_stakes t n (st(v := x)) C B \<longleftrightarrow> best_stakes t n st C B"
  by (auto simp: best_stakes_def)

lemma best_stakes_insert_free:
  "best_stakes t n st C B \<Longrightarrow> finite C \<Longrightarrow> card C < n \<Longrightarrow> t \<le> st v \<Longrightarrow> best_stakes t n st (insert v C) B"
  by (cases "B = {}"; cases "v \<in> C") (simp_all add: best_stakes_def insert_absorb)

lemma best_stakes_insert_below:
  "best_stakes t n st C B \<Longrightarrow> card C = n \<Longrightarrow> v \<notin> C \<Longrightarrow> t \<le> st v \<Longrightarrow> (\<And>c. c \<in> C \<Longrightarrow> st v \<le> st c) \<Longrightarrow>
   best_stakes t n st C (insert v B)"
  by (auto simp: best_stakes_def)

lemma best_stakes_swap:
  assumes "best_stakes t n st C B" "finite C" "card C = n" "w \<in> C" "v \<notin> C" "v \<notin> B" "t \<le> st v" "st w \<le> st v"
    "\<And>c. c \<in> C \<Longrightarrow> st w \<le> st c"
  shows "best_stakes t n st (insert v (C - {w})) (insert w B)"
proof -
  have "card (insert v (C - {w})) = n" using card_Suc_Diff1 [OF assms(2,4)] assms(2,3,5) by simp
  moreover have "st b \<le> st v" if "b \<in> B" for b
  proof -
    have "st b \<le> st w" using assms(1,4) that unfolding best_stakes_def by blast
    then show ?thesis using assms(8) by (rule order_trans)
  qed
  ultimately show ?thesis using assms(1,4-9) unfolding best_stakes_def by (intro conjI) (blast | simp)+
qed

lemma best_stakes_remove_consensus:
  assumes "best_stakes t n st C B" "finite C" "v \<in> C" "B = {}"
  shows "best_stakes t n st (C - {v}) B"
  using assms card_Diff1_le [of C v] by (auto simp: best_stakes_def)

lemma best_stakes_promote:
  assumes "best_stakes t n st C B" "finite C" "v \<in> C" "w \<in> B" "\<And>b. b \<in> B \<Longrightarrow> st b \<le> st w"
  shows "best_stakes t n st (insert w (C - {v})) (B - {w})" "card (insert w (C - {v})) = n"
proof -
  have "w \<notin> C" "card C = n" using assms(1,4) by (auto simp: best_stakes_def)
  then show "card (insert w (C - {v})) = n" using card_Suc_Diff1 [OF assms(2,3)] assms(2) by simp
  then show "best_stakes t n st (insert w (C - {v})) (B - {w})"
    using assms(1,4,5) unfolding best_stakes_def by (intro conjI) (blast | simp)+
qed

lemma best_stakes_remove_below: "best_stakes t n st C B \<Longrightarrow> best_stakes t n st C (B - {v})"
  by (auto simp: best_stakes_def)

lemma max_below_None: "get_max_below_capacity_validator_amount m = None \<longleftrightarrow> m = []"
  by (auto simp: get_max_below_capacity_validator_amount_def split: list.split)

lemma vsets_invI:
  assumes "sets_wf st s e" "best_stakes (validator_stake_threshold params) (max_validator_slots params) st C B"
    "consensus_members s e = C" "below_capacity_members s e = B" "dom (positions_at s e) = C \<union> B" "vstate s e = f"
    "C = {v. f v = Some Consensus}" "B = {v. f v = Some BelowCapacity}"
    "\<And>v. f v = Some BelowThreshold \<Longrightarrow> st v < validator_stake_threshold params"
  shows "vsets_inv params st s e"
  using assms by (simp add: vsets_inv_def)

lemma vsets_invD:
  assumes "vsets_inv params st s e"
  shows "sets_wf st s e"
    "best_stakes (validator_stake_threshold params) (max_validator_slots params) st (consensus_members s e) (below_capacity_members s e)"
    "consensus_members s e = {v. vstate s e v = Some Consensus}"
    "below_capacity_members s e = {v. vstate s e v = Some BelowCapacity}"
    "dom (positions_at s e) = consensus_members s e \<union> below_capacity_members s e"
    "\<And>v. vstate s e v = Some BelowThreshold \<Longrightarrow> st v < validator_stake_threshold params"
proof -
  note inv = assms [unfolded vsets_inv_def]
  show "sets_wf st s e" using inv by (elim conjE)
  show "best_stakes (validator_stake_threshold params) (max_validator_slots params) st (consensus_members s e) (below_capacity_members s e)"
    using inv by (elim conjE)
  show "consensus_members s e = {v. vstate s e v = Some Consensus}" using inv by (elim conjE)
  show "below_capacity_members s e = {v. vstate s e v = Some BelowCapacity}" using inv by (elim conjE)
  show "dom (positions_at s e) = consensus_members s e \<union> below_capacity_members s e" using inv by (elim conjE)
  show "st v < validator_stake_threshold params" if "vstate s e v = Some BelowThreshold" for v
    using inv that by (elim conjE) simp
qed

lemma consensus_removed:
  assumes inv: "vsets_inv params st s e" and p: "map_of (consensus_at s e) (st v, p) = Some v"
  defines "s1 \<equiv> put_consensus e (bt_remove (st v, p) (consensus_at s e)) s"
  shows "v \<in> consensus_members s e" "v \<notin> below_capacity_members s e" "sets_wf (st(v := x)) s1 e"
    "consensus_members s1 e = consensus_members s e - {v}" "v \<notin> consensus_members s1 e"
    "room (consensus_at s e) \<Longrightarrow> room (consensus_at s1 e)"
    "below_capacity_at s1 = below_capacity_at s" "positions_at s1 = positions_at s" "vstate s1 = vstate s" "only_sets_at e s s1"
proof -
  note rem = remove_consensus_wf [OF vsets_invD(1) [OF inv] p]
  show vC: "v \<in> consensus_members s e" using p by (metis image_eqI map_of_SomeD snd_conv)
  then show vB: "v \<notin> below_capacity_members s e" using vsets_invD(1) [OF inv] by (auto simp: sets_wf_def)
  show "sets_wf (st(v := x)) s1 e"
    unfolding s1_def using rem(2) vB by (intro sets_wf_upd [OF rem(1)]) auto
qed (use remove_consensus_wf [OF vsets_invD(1) [OF inv] p] in \<open>auto simp: s1_def fun_eq_iff\<close>)

lemma consensus_to_threshold:
  assumes inv: "vsets_inv params st s e" and tgt: "set_target params cur offset e" and room: "room (consensus_at s e)"
    and p: "map_of (consensus_at s e) (st v, p) = Some v" and x: "x < validator_stake_threshold params"
  shows "\<exists>s'. update_consensus_validator params v (st v) x p cur offset e s = Inr s' \<and>
    vsets_inv params (st(v := x)) s' e \<and> only_sets_at e s s'"
proof -
  let ?C = "consensus_members s e" and ?B = "below_capacity_members s e" and ?st = "st(v := x)"
  let ?s1 = "put_consensus e (bt_remove (st v, p) (consensus_at s e)) s" and ?t = "validator_stake_threshold params"
  note inv' = vsets_invD [OF inv] and s1 = consensus_removed [OF inv p] and wf1 = consensus_removed(3) [OF inv p, of x]
  obtain s2 where s2: "set_validator_state params v BelowThreshold cur offset ?s1 = Inr s2"
    "consensus_at s2 = consensus_at ?s1" "below_capacity_at s2 = below_capacity_at ?s1" "positions_at s2 = positions_at ?s1"
    "vstate s2 e = (vstate ?s1 e)(v \<mapsto> BelowThreshold)" "only_sets_at e ?s1 s2"
    by (rule set_state_step [OF tgt])
  let ?s3 = "remove_position e v s2"
  have "sets_wf ?st s2 e" using wf1 sets_wf_views s2(2-4) by metis
  then have wf3: "sets_wf ?st ?s3 e" using s1(2,5) by (intro remove_position_wf) (simp_all add: s2)
  have fr3: "only_sets_at e s ?s3" using only_sets_at_trans [OF s1(10) s2(6)] by simp
  show ?thesis
  proof (cases "get_max_below_capacity_validator_amount (below_capacity_at s e)")
    case None
    then have B: "?B = {}" by (simp add: max_below_None)
    have "vsets_inv params ?st ?s3 e"
    proof (rule vsets_invI [OF wf3, where f = "(vstate s e)(v \<mapsto> BelowThreshold)"])
      show "best_stakes ?t (max_validator_slots params) ?st (?C - {v}) {}"
        using best_stakes_remove_consensus [OF inv'(2) _ s1(1) B] B by (simp add: best_stakes_upd)
    qed (use inv'(3-6) B x s1 in \<open>auto simp: s2\<close>)
    then show ?thesis using x None fr3 s2 by (simp add: update_consensus_validator_def)
  next
    case (Some a)
    have "get_max_below_capacity_validator_amount (below_capacity_at ?s3 e) = Some a" using Some by (simp add: s2)
    then obtain s' w where s': "promote_below_capacity params a cur offset e ?s3 = Inr s'"
      "w \<in> below_capacity_members ?s3 e" "\<And>b. b \<in> below_capacity_members ?s3 e \<Longrightarrow> ?st b \<le> ?st w"
      "sets_wf ?st s' e" "consensus_members s' e = insert w (consensus_members ?s3 e)"
      "below_capacity_members s' e = below_capacity_members ?s3 e - {w}"
      "dom (positions_at s' e) = insert w (dom (positions_at ?s3 e))"
      "vstate s' e = (vstate ?s3 e)(w \<mapsto> Consensus)" "only_sets_at e ?s3 s'"
      using s1(6) [OF room] by (elim promote_wf [OF wf3 tgt, rotated]) (simp_all add: s2)
    have w: "w \<in> ?B" "w \<noteq> v" using s'(2) s1(2) by (auto simp: s2)
    have max: "st b \<le> st w" if "b \<in> ?B" for b using s'(3) [of b] that w(2) s1(2) by (cases "b = v") (simp_all add: s2)
    have "vsets_inv params ?st s' e"
    proof (rule vsets_invI [OF s'(4), where f = "(vstate s e)(v \<mapsto> BelowThreshold, w \<mapsto> Consensus)"])
      show "best_stakes ?t (max_validator_slots params) ?st (insert w (?C - {v})) (?B - {w})"
        using best_stakes_promote(1) [OF inv'(2) _ s1(1) w(1) max] s1(2) w(2) by (simp add: best_stakes_upd)
    qed (use inv'(3-6) w x s1 s'(5-8) in \<open>auto simp: s2 split: if_splits\<close>)
    then show ?thesis
      using x Some only_sets_at_trans [OF fr3 s'(9)] s2 s'(1) by (simp add: update_consensus_validator_def)
  qed
qed

lemma consensus_to_below_capacity:
  assumes inv: "vsets_inv params st s e" and tgt: "set_target params cur offset e"
    and room: "room (consensus_at s e)" "room (below_capacity_at s e)"
    and p: "map_of (consensus_at s e) (st v, p) = Some v" and x: "\<not> x < validator_stake_threshold params"
    and a: "get_max_below_capacity_validator_amount (below_capacity_at s e) = Some a" "x < a"
  shows "\<exists>s'. update_consensus_validator params v (st v) x p cur offset e s = Inr s' \<and>
    vsets_inv params (st(v := x)) s' e \<and> only_sets_at e s s'"
proof -
  let ?C = "consensus_members s e" and ?B = "below_capacity_members s e" and ?st = "st(v := x)"
  let ?s1 = "put_consensus e (bt_remove (st v, p) (consensus_at s e)) s" and ?t = "validator_stake_threshold params"
  note inv' = vsets_invD [OF inv] and s1 = consensus_removed [OF inv p] and wf1 = consensus_removed(3) [OF inv p, of x]
  have "get_max_below_capacity_validator_amount (below_capacity_at ?s1 e) = Some a" using a by simp
  then obtain s2 w where s2: "promote_below_capacity params a cur offset e ?s1 = Inr s2"
    "w \<in> below_capacity_members ?s1 e" "a = ?st w" "\<And>b. b \<in> below_capacity_members ?s1 e \<Longrightarrow> ?st b \<le> ?st w"
    "sets_wf ?st s2 e" "consensus_members s2 e = insert w (consensus_members ?s1 e)"
    "below_capacity_members s2 e = below_capacity_members ?s1 e - {w}" "room (below_capacity_at s2 e)"
    "dom (positions_at s2 e) = insert w (dom (positions_at ?s1 e))"
    "vstate s2 e = (vstate ?s1 e)(w \<mapsto> Consensus)" "only_sets_at e ?s1 s2"
    using s1(6) [OF room(1)] room(2) by (elim promote_wf [OF wf1 tgt, rotated]) simp_all
  have w: "w \<in> ?B" "w \<noteq> v" using s2(2) s1(2) by auto
  have max: "st b \<le> st w" if "b \<in> ?B" for b using s2(4) [of b] that w(2) s1(2) by (cases "b = v") simp_all
  have "v \<notin> consensus_members s2 e" "v \<notin> below_capacity_members s2 e" using s1(2,5) s2(6,7) w(2) by auto
  note ins = insert_below_capacity_wf [OF s2(5) this s2(8)]
  let ?s3 = "insert_validator_into_below_capacity e (?st v) v s2"
  obtain s' where s': "set_validator_state params v BelowCapacity cur offset ?s3 = Inr s'"
    "consensus_at s' = consensus_at ?s3" "below_capacity_at s' = below_capacity_at ?s3" "positions_at s' = positions_at ?s3"
    "vstate s' e = (vstate ?s3 e)(v \<mapsto> BelowCapacity)" "only_sets_at e ?s3 s'"
    by (rule set_state_step [OF tgt])
  have bs: "best_stakes ?t (max_validator_slots params) ?st (insert w (?C - {v})) (?B - {w})"
    using best_stakes_promote(1) [OF inv'(2) _ s1(1) w(1) max] s1(2) w(2) by (simp add: best_stakes_upd)
  have le: "?st v \<le> ?st c" if "c \<in> insert w (?C - {v})" for c
  proof -
    have "x < st w" using a(2) s2(3) w(2) by simp
    moreover have "st w \<le> st c" using that inv'(2) w(1) unfolding best_stakes_def by blast
    moreover have "c \<noteq> v" using that w(2) by blast
    ultimately show ?thesis by simp
  qed
  have "vsets_inv params ?st s' e"
  proof (rule vsets_invI [where f = "(vstate s e)(w \<mapsto> Consensus, v \<mapsto> BelowCapacity)"])
    show "sets_wf ?st s' e" using ins(1) sets_wf_views s'(2-4) by metis
    show "best_stakes ?t (max_validator_slots params) ?st (insert w (?C - {v})) (insert v (?B - {w}))"
      using best_stakes_promote(2) [OF inv'(2) _ s1(1) w(1) max] w(2) x
      by (intro best_stakes_insert_below [OF bs]) (simp_all add: le [simplified])
  qed (use inv'(3-6) w s1 s2(6,7,9,10) ins in \<open>auto simp: s' split: if_splits\<close>)
  moreover have "only_sets_at e s s'" by (meson only_sets_at_trans s1(10) s2(11) ins(6) s'(6))
  ultimately show ?thesis using x a s2(1) s'(1) by (simp add: update_consensus_validator_def)
qed

lemma consensus_stays:
  assumes inv: "vsets_inv params st s e" and room: "room (consensus_at s e)"
    and p: "map_of (consensus_at s e) (st v, p) = Some v" and x: "\<not> x < validator_stake_threshold params"
    and a: "\<And>a. get_max_below_capacity_validator_amount (below_capacity_at s e) = Some a \<Longrightarrow> \<not> x < a"
  shows "\<exists>s'. update_consensus_validator params v (st v) x p cur offset e s = Inr s' \<and>
    vsets_inv params (st(v := x)) s' e \<and> only_sets_at e s s'"
proof -
  let ?C = "consensus_members s e" and ?B = "below_capacity_members s e" and ?st = "st(v := x)"
  let ?s1 = "put_consensus e (bt_remove (st v, p) (consensus_at s e)) s" and ?t = "validator_stake_threshold params"
  note inv' = vsets_invD [OF inv] and s1 = consensus_removed [OF inv p] and wf1 = consensus_removed(3) [OF inv p, of x]
  have "v \<notin> below_capacity_members ?s1 e" using s1(2) by simp
  note ins = insert_consensus_wf [OF wf1 s1(5) this s1(6) [OF room]]
  let ?s2 = "insert_validator_into_consensus e (?st v) v ?s1"
  have le: "st b \<le> x" if b: "b \<in> ?B" for b
  proof -
    obtain k q w m where m: "below_capacity_at s e = ((k, q), w) # m"
      using b by (cases "below_capacity_at s e") auto
    have "pm_ok ReverseOrdTokenAmount st (positions_at s e) (((k, q), w) # m)"
      using inv'(1) by (simp add: sets_wf_def m)
    then have "k \<le> ReverseOrdTokenAmount (st b)" using b pm_first(3) by (metis m)
    moreover have "\<not> x < rev_amount k" using a by (simp add: get_max_below_capacity_validator_amount_def m)
    ultimately show ?thesis by (simp add: less_eq_ReverseOrdTokenAmount_def)
  qed
  have "vsets_inv params ?st ?s2 e"
  proof (rule vsets_invI [OF ins(1), where f = "vstate s e" and C = ?C and B = ?B])
    show "best_stakes ?t (max_validator_slots params) ?st ?C ?B"
      using inv'(2) x le s1(1,2) unfolding best_stakes_def by (auto split: if_splits)
  qed (use inv'(3-6) s1 ins(2-5) in \<open>auto split: if_splits\<close>)
  moreover have "only_sets_at e s ?s2" by (rule only_sets_at_trans [OF s1(10) ins(6)])
  moreover have "update_consensus_validator params v (st v) x p cur offset e s = Inr ?s2"
    using x a unfolding update_consensus_validator_def Let_def s1(7)
    by (cases "get_max_below_capacity_validator_amount (below_capacity_at s e)") (auto simp: amount_less_iff)
  ultimately show ?thesis by blast
qed

lemma update_consensus_validator_inv:
  assumes "vsets_inv params st s e" "set_target params cur offset e"
    "room (consensus_at s e)" "room (below_capacity_at s e)" "map_of (consensus_at s e) (st v, p) = Some v"
  shows "\<exists>s'. update_consensus_validator params v (st v) x p cur offset e s = Inr s' \<and>
    vsets_inv params (st(v := x)) s' e \<and> only_sets_at e s s'"
  using consensus_to_threshold [OF assms(1-3,5), of x] consensus_to_below_capacity [OF assms, of x]
    consensus_stays [OF assms(1,3,5), of x cur offset] by blast

text \<open>The invariant with one validator taken out: nothing is said of its state and its position.\<close>

definition vsets_inv_but :: "Address \<Rightarrow> PosParams \<Rightarrow> (Address \<Rightarrow> Amount) \<Rightarrow> pos_state \<Rightarrow> epoch \<Rightarrow> bool" where
  "vsets_inv_but v params st s e \<longleftrightarrow>
     sets_wf st s e \<and>
     best_stakes (validator_stake_threshold params) (max_validator_slots params) st
       (consensus_members s e) (below_capacity_members s e) \<and>
     v \<notin> consensus_members s e \<and> v \<notin> below_capacity_members s e \<and>
     dom (positions_at s e) - {v} = consensus_members s e \<union> below_capacity_members s e \<and>
     consensus_members s e = {w. w \<noteq> v \<and> vstate s e w = Some Consensus} \<and>
     below_capacity_members s e = {w. w \<noteq> v \<and> vstate s e w = Some BelowCapacity} \<and>
     (\<forall>w. w \<noteq> v \<longrightarrow> vstate s e w = Some BelowThreshold \<longrightarrow> st w < validator_stake_threshold params)"

lemma vsets_inv_butD:
  assumes "vsets_inv_but v params st s e"
  shows "sets_wf st s e"
    "best_stakes (validator_stake_threshold params) (max_validator_slots params) st (consensus_members s e) (below_capacity_members s e)"
    "v \<notin> consensus_members s e" "v \<notin> below_capacity_members s e"
    "dom (positions_at s e) - {v} = consensus_members s e \<union> below_capacity_members s e"
    "consensus_members s e = {w. w \<noteq> v \<and> vstate s e w = Some Consensus}"
    "below_capacity_members s e = {w. w \<noteq> v \<and> vstate s e w = Some BelowCapacity}"
    "\<And>w. w \<noteq> v \<Longrightarrow> vstate s e w = Some BelowThreshold \<Longrightarrow> st w < validator_stake_threshold params"
proof -
  note inv = assms [unfolded vsets_inv_but_def]
  show "sets_wf st s e" using inv by (elim conjE)
  show "best_stakes (validator_stake_threshold params) (max_validator_slots params) st (consensus_members s e) (below_capacity_members s e)"
    using inv by (elim conjE)
  show "v \<notin> consensus_members s e" using inv by (elim conjE)
  show "v \<notin> below_capacity_members s e" using inv by (elim conjE)
  show "dom (positions_at s e) - {v} = consensus_members s e \<union> below_capacity_members s e" using inv by (elim conjE)
  show "consensus_members s e = {w. w \<noteq> v \<and> vstate s e w = Some Consensus}" using inv by (elim conjE)
  show "below_capacity_members s e = {w. w \<noteq> v \<and> vstate s e w = Some BelowCapacity}" using inv by (elim conjE)
  show "st w < validator_stake_threshold params" if "w \<noteq> v" "vstate s e w = Some BelowThreshold" for w
    using inv that by (elim conjE) simp
qed

lemma vsets_inv_but_upd:
  assumes "vsets_inv_but v params st s e"
  shows "vsets_inv_but v params (st(v := x)) s e"
  using vsets_inv_butD [OF assms] unfolding vsets_inv_but_def
  by (intro conjI) (simp_all add: sets_wf_upd best_stakes_upd)

lemma but_settle:
  assumes but: "vsets_inv_but v params st s e" and tgt: "set_target params cur offset e"
    and x: "x = BelowThreshold \<and> st v < validator_stake_threshold params \<or> x = Jailed \<or> x = Inactive"
  shows "\<exists>s'. rbind (set_validator_state params v x cur offset s) (\<lambda>s2. Inr (remove_position e v s2)) = Inr s' \<and>
    vsets_inv params st s' e \<and> only_sets_at e s s'"
proof -
  note b = vsets_inv_butD [OF but]
  obtain s2 where s2: "set_validator_state params v x cur offset s = Inr s2"
    "consensus_at s2 = consensus_at s" "below_capacity_at s2 = below_capacity_at s" "positions_at s2 = positions_at s"
    "vstate s2 e = (vstate s e)(v \<mapsto> x)" "only_sets_at e s s2"
    by (rule set_state_step [OF tgt])
  have "sets_wf st s2 e" using b(1) sets_wf_views s2(2-4) by metis
  then have "sets_wf st (remove_position e v s2) e" using b(3,4) by (intro remove_position_wf) (simp_all add: s2)
  then have "vsets_inv params st (remove_position e v s2) e"
    by (rule vsets_invI [OF _ b(2), where f = "(vstate s e)(v \<mapsto> x)"]) (use b x in \<open>auto simp: s2 split: if_splits\<close>)
  then show ?thesis using s2(1,6) by simp
qed

lemma but_consensus:
  assumes but: "vsets_inv_but v params st s e" and tgt: "set_target params cur offset e" and room: "room (consensus_at s e)"
    and free: "card (consensus_members s e) < max_validator_slots params" "validator_stake_threshold params \<le> st v"
  shows "\<exists>s'. set_validator_state params v Consensus cur offset (insert_validator_into_consensus e (st v) v s) = Inr s' \<and>
    vsets_inv params st s' e \<and> only_sets_at e s s'"
proof -
  note b = vsets_inv_butD [OF but]
  let ?s1 = "insert_validator_into_consensus e (st v) v s"
  note ins = insert_consensus_wf [OF b(1,3,4) room]
  obtain s' where s': "set_validator_state params v Consensus cur offset ?s1 = Inr s'"
    "consensus_at s' = consensus_at ?s1" "below_capacity_at s' = below_capacity_at ?s1" "positions_at s' = positions_at ?s1"
    "vstate s' e = (vstate ?s1 e)(v \<mapsto> Consensus)" "only_sets_at e ?s1 s'"
    by (rule set_state_step [OF tgt])
  have "sets_wf st s' e" using ins(1) sets_wf_views s'(2-4) by metis
  then have "vsets_inv params st s' e"
  proof (rule vsets_invI [where f = "(vstate s e)(v \<mapsto> Consensus)"])
    show "best_stakes (validator_stake_threshold params) (max_validator_slots params) st
        (insert v (consensus_members s e)) (below_capacity_members s e)"
      using free by (intro best_stakes_insert_free [OF b(2)]) simp_all
  qed (use b ins(2-5) in \<open>auto simp: s' split: if_splits\<close>)
  then show ?thesis using s'(1) only_sets_at_trans [OF ins(6) s'(6)] by blast
qed

lemma but_below_capacity:
  assumes but: "vsets_inv_but v params st s e" and tgt: "set_target params cur offset e" and room: "room (below_capacity_at s e)"
    and full: "card (consensus_members s e) = max_validator_slots params" "validator_stake_threshold params \<le> st v"
    and min: "\<And>c. c \<in> consensus_members s e \<Longrightarrow> st v \<le> st c"
  shows "\<exists>s'. set_validator_state params v BelowCapacity cur offset (insert_validator_into_below_capacity e (st v) v s) = Inr s' \<and>
    vsets_inv params st s' e \<and> only_sets_at e s s'"
proof -
  note b = vsets_inv_butD [OF but]
  let ?s1 = "insert_validator_into_below_capacity e (st v) v s"
  note ins = insert_below_capacity_wf [OF b(1,3,4) room]
  obtain s' where s': "set_validator_state params v BelowCapacity cur offset ?s1 = Inr s'"
    "consensus_at s' = consensus_at ?s1" "below_capacity_at s' = below_capacity_at ?s1" "positions_at s' = positions_at ?s1"
    "vstate s' e = (vstate ?s1 e)(v \<mapsto> BelowCapacity)" "only_sets_at e ?s1 s'"
    by (rule set_state_step [OF tgt])
  have "sets_wf st s' e" using ins(1) sets_wf_views s'(2-4) by metis
  then have "vsets_inv params st s' e"
  proof (rule vsets_invI [where f = "(vstate s e)(v \<mapsto> BelowCapacity)"])
    show "best_stakes (validator_stake_threshold params) (max_validator_slots params) st
        (consensus_members s e) (insert v (below_capacity_members s e))"
      using full min b(3) by (intro best_stakes_insert_below [OF b(2)])
  qed (use b ins(2-5) in \<open>auto simp: s' split: if_splits\<close>)
  then show ?thesis using s'(1) only_sets_at_trans [OF ins(6) s'(6)] by blast
qed

lemma but_demote:
  assumes but: "vsets_inv_but v params st s e" and tgt: "set_target params cur offset e"
    and room: "room (consensus_at s e)" "room (below_capacity_at s e)"
    and full: "card (consensus_members s e) = max_validator_slots params" "0 < max_validator_slots params"
      "validator_stake_threshold params \<le> st v"
    and min: "get_min_consensus_validator_amount (consensus_at s e) < st v"
  shows "\<exists>s'. insert_into_consensus_and_demote_to_below_cap params v (st v)
      (get_min_consensus_validator_amount (consensus_at s e)) cur offset e s = Inr s' \<and>
    vsets_inv params st s' e \<and> only_sets_at e s s'"
proof -
  note b = vsets_inv_butD [OF but]
  have ne: "consensus_at s e \<noteq> []" using full by auto
  obtain s' w where s': "insert_into_consensus_and_demote_to_below_cap params v (st v)
      (get_min_consensus_validator_amount (consensus_at s e)) cur offset e s = Inr s'"
    "w \<in> consensus_members s e" "get_min_consensus_validator_amount (consensus_at s e) = st w"
    "\<And>c. c \<in> consensus_members s e \<Longrightarrow> st w \<le> st c"
    "sets_wf st s' e" "consensus_members s' e = insert v (consensus_members s e - {w})"
    "below_capacity_members s' e = insert w (below_capacity_members s e)"
    "dom (positions_at s' e) = {v, w} \<union> dom (positions_at s e)"
    "vstate s' e = (vstate s e)(w \<mapsto> BelowCapacity, v \<mapsto> Consensus)" "only_sets_at e s s'"
    by (rule demote_wf [OF b(1) tgt room b(3,4) ne]) blast
  have "vsets_inv params st s' e"
  proof (rule vsets_invI [OF s'(5), where f = "(vstate s e)(w \<mapsto> BelowCapacity, v \<mapsto> Consensus)"])
    show "best_stakes (validator_stake_threshold params) (max_validator_slots params) st
        (insert v (consensus_members s e - {w})) (insert w (below_capacity_members s e))"
      using s'(2-4) b(3,4) full min by (intro best_stakes_swap [OF b(2)]) simp_all
  qed (use b s'(2,6-9) in \<open>auto split: if_splits\<close>)
  then show ?thesis using s'(1,10) by blast
qed

lemma min_consensus_le:
  assumes "sets_wf st s e" "\<not> get_min_consensus_validator_amount (consensus_at s e) < x" "c \<in> consensus_members s e"
  shows "x \<le> st c"
proof -
  obtain k q w m where m: "consensus_at s e = ((k, q), w) # m" using assms(3) by (cases "consensus_at s e") auto
  have "pm_ok (\<lambda>a. a) st (positions_at s e) (((k, q), w) # m)" using assms(1) by (simp add: sets_wf_def m)
  then have "k \<le> st c" using assms(3) pm_first(3) by (metis m)
  moreover have "x \<le> k" using assms(2) by (simp add: get_min_consensus_validator_amount_def m)
  ultimately show ?thesis by simp
qed

lemma update_below_capacity_validator_inv:
  assumes inv: "vsets_inv params st s e" and tgt: "set_target params cur offset e"
    and room: "room (consensus_at s e)" "room (below_capacity_at s e)" and slots: "0 < max_validator_slots params"
    and p: "((ReverseOrdTokenAmount (st v), p), v) \<in> set (below_capacity_at s e)"
  shows "\<exists>s'. update_below_capacity_validator params v (st v) x p cur offset e s = Inr s' \<and>
    vsets_inv params (st(v := x)) s' e \<and> only_sets_at e s s'"
proof -
  let ?s1 = "put_below_capacity e (bt_remove (ReverseOrdTokenAmount (st v), p) (below_capacity_at s e)) s"
  let ?st = "st(v := x)" and ?t = "validator_stake_threshold params" and ?min = "get_min_consensus_validator_amount (consensus_at s e)"
  note inv' = vsets_invD [OF inv]
  note rem = remove_below_capacity_wf [OF inv'(1) p]
  have vB: "v \<in> below_capacity_members s e" using p by force
  then have vC: "v \<notin> consensus_members s e" using inv'(1) by (auto simp: sets_wf_def)
  have full: "card (consensus_members ?s1 e) = max_validator_slots params"
    using vB inv'(2) by (auto simp: best_stakes_def)
  have bs: "best_stakes ?t (max_validator_slots params) st (consensus_members ?s1 e) (below_capacity_members ?s1 e)"
    using best_stakes_remove_below [OF inv'(2), of v] unfolding rem(2) by simp
  have "vsets_inv_but v params st ?s1 e"
    unfolding vsets_inv_but_def using rem(2) vB vC inv'(3-6) by (intro conjI rem(1) bs) auto
  then have but: "vsets_inv_but v params ?st ?s1 e" by (rule vsets_inv_but_upd)
  have room1: "room (consensus_at ?s1 e)" "room (below_capacity_at ?s1 e)" using rem(3) room by simp_all
  have fr: "only_sets_at e s s'" if "only_sets_at e ?s1 s'" for s' using only_sets_at_trans [OF _ that, of s] by simp
  have tmin: "?t \<le> ?min"
  proof -
    have "consensus_at s e \<noteq> []" using full slots by auto
    then obtain k q w m where m: "consensus_at s e = ((k, q), w) # m" by (metis list.exhaust prod.collapse)
    then have "k = st w" using inv'(1) by (simp add: sets_wf_def pm_ok_def)
    moreover have "?t \<le> st w" using inv'(2) by (simp add: best_stakes_def m)
    ultimately show ?thesis by (simp add: m get_min_consensus_validator_amount_def)
  qed
  consider (up) "?min < x" | (stay) "\<not> ?min < x" "?t \<le> x" | (down) "\<not> ?min < x" "\<not> ?t \<le> x" by blast
  then show ?thesis
  proof cases
    case up
    then have "?t \<le> x" using tmin by simp
    then show ?thesis
      using but_demote [OF but tgt room1 full slots] up fr by (auto simp: update_below_capacity_validator_def)
  next
    case stay
    have "?st v \<le> ?st c" if "c \<in> consensus_members ?s1 e" for c
      using min_consensus_le [OF inv'(1) stay(1), of c] that vC by (cases "c = v") simp_all
    then show ?thesis
      using but_below_capacity [OF but tgt room1(2) full] stay fr by (auto simp: update_below_capacity_validator_def)
  next
    case down
    then show ?thesis
      using but_settle [OF but tgt, of BelowThreshold] fr
      by (auto simp: update_below_capacity_validator_def Let_def not_le)
  qed
qed

lemma insert_by_stake_inv:
  assumes but: "vsets_inv_but v params st s e" and tgt: "set_target params cur offset e"
    and room: "room (consensus_at s e)" "room (below_capacity_at s e)" and slots: "0 < max_validator_slots params"
    and x: "validator_stake_threshold params \<le> st v"
  shows "\<exists>s'. insert_by_stake params v (st v) cur offset e s = Inr s' \<and> vsets_inv params st s' e \<and> only_sets_at e s s'"
proof -
  note b = vsets_inv_butD [OF but]
  have len: "get_num_consensus_validators e s = card (consensus_members s e)"
    using b(1) pm_length unfolding get_num_consensus_validators_def sets_wf_def by blast
  show ?thesis
  proof (cases "card (consensus_members s e) < max_validator_slots params")
    case True
    then show ?thesis using but_consensus [OF but tgt room(1)] x by (simp add: insert_by_stake_def len)
  next
    case False
    then have full: "card (consensus_members s e) = max_validator_slots params"
      using b(2) by (simp add: best_stakes_def)
    show ?thesis
      using but_demote [OF but tgt room full slots x]
        but_below_capacity [OF but tgt room(2) full x min_consensus_le [OF b(1)]] False
      by (cases "get_min_consensus_validator_amount (consensus_at s e) < st v") (simp_all add: insert_by_stake_def len)
  qed
qed

section \<open>The updates keep the invariant\<close>

lemma vsets_inv_but_of:
  assumes "vsets_inv params st s e" "vstate s e v \<notin> {Some Consensus, Some BelowCapacity}"
  shows "vsets_inv_but v params st s e"
  using vsets_invD [OF assms(1)] assms(2) unfolding vsets_inv_but_def by (intro conjI) auto

lemma position_in_sets:
  assumes "vsets_inv params st s e" "positions_at s e v = Some p" "map_of (consensus_at s e) (st v, p) \<noteq> Some v"
  shows "((ReverseOrdTokenAmount (st v), p), v) \<in> set (below_capacity_at s e)"
proof -
  note inv = vsets_invD [OF assms(1)]
  have c: "pm_ok (\<lambda>a. a) st (positions_at s e) (consensus_at s e)"
    and b: "pm_ok ReverseOrdTokenAmount st (positions_at s e) (below_capacity_at s e)" using inv(1) by (simp_all add: sets_wf_def)
  have "v \<notin> consensus_members s e" using pm_member [OF c, of v] pm_lookup [OF c] assms(2,3) by auto
  moreover have "v \<in> dom (positions_at s e)" using assms(2) by blast
  ultimately have "v \<in> below_capacity_members s e" using inv(5) by blast
  then show ?thesis using pm_member [OF b] assms(2) by fastforce
qed

text \<open>The stake after a change, \<open>Amount::from_change(tokens_pre.change() + token_change)\<close>.\<close>

definition stake_plus :: "Amount \<Rightarrow> Change \<Rightarrow> Amount" where
  "stake_plus a c = amount_of (nat (int (amount_val a) + i256_val c))"

lemma stake_plus_eq:
  assumes "I256_inv c" "amount_val a < 2 ^ 255" "0 \<le> int (amount_val a) + i256_val c" "int (amount_val a) + i256_val c < 2 ^ 255"
  shows "\<exists>d. Option.bind (Amount_change a) (\<lambda>x. I256_checked_add x c) = Some d \<and> Amount_from_change d = stake_plus a c"
proof -
  let ?z = "int (amount_val a) + i256_val c"
  have a: "Amount_change a = Some (i256_of (int (amount_val a)))" using assms(2) by (simp add: Amount_change_eq i256_checked_def)
  have ia: "I256_inv (i256_of (int (amount_val a)))" "i256_val (i256_of (int (amount_val a))) = int (amount_val a)"
    using assms(2) by (simp_all add: I256_inv_of i256_val_of)
  have d: "I256_checked_add (i256_of (int (amount_val a))) c = Some (i256_of ?z)"
    using assms by (simp add: I256_checked_add_eq ia i256_checked_def)
  have "int (amount_val (Amount_from_change (i256_of ?z))) = ?z"
    using Amount_from_change_val [of "i256_of ?z"] assms(3,4) by (simp add: I256_inv_of i256_val_of)
  then have "Amount_from_change (i256_of ?z) = stake_plus a c"
    unfolding stake_plus_def by (metis amount_of_val nat_int)
  then show ?thesis using a d by simp
qed

lemma update_validator_set_step:
  assumes stake: "read_validator_stake params v (cur + offset) s = Inr (st v)" "amount_val (st v) < 2 ^ 255"
    and change: "I256_inv c" "0 \<le> int (amount_val (st v)) + i256_val c" "int (amount_val (st v)) + i256_val c < 2 ^ 255"
    and tgt: "set_target params cur offset (cur + offset)"
  defines "e \<equiv> cur + offset" and "x \<equiv> stake_plus (st v) c" and "t \<equiv> validator_stake_threshold params"
  shows "update_validator_set params v c cur (Some offset) s =
    (if i256_val c = 0 \<or> st v < t \<and> x < t then Inr s
     else case positions_at s e v of
        Some p \<Rightarrow>
          if map_of (consensus_at s e) (st v, p) = Some v
          then update_consensus_validator params v (st v) x p cur offset e s
          else update_below_capacity_validator params v (st v) x p cur offset e s
      | None \<Rightarrow> insert_by_stake params v x cur offset e s)"
proof -
  obtain d where d: "Option.bind (Amount_change (st v)) (\<lambda>x. I256_checked_add x c) = Some d" "Amount_from_change d = x"
    using stake_plus_eq [OF change(1) stake(2) change(2,3)] unfolding x_def by blast
  have e: "epoch_plus cur offset = Inr e" using tgt by (simp add: set_target_def epoch_plus_def e_def)
  show ?thesis
    by (cases "positions_at s e v")
       (simp_all add: update_validator_set_def I256_is_zero_val e stake(1) [folded e_def] d read_validator_set_position_def Let_def t_def)
qed

text \<open>
  C7: An update of the stake of a validator that is neither jailed nor inactive keeps the validator
  sets of the target epoch what they promise to be, for the new stake: the sets hold exactly the
  validators at or above the threshold, the consensus set holds the largest stakes and is full
  before anybody is left below capacity, and every state and position agrees. The update never
  fails, and changes nothing but the sets of that epoch and validator states.
\<close>

theorem update_validator_set_keeps_best:
  assumes inv: "vsets_inv params st s (cur + offset)"
    and stake: "read_validator_stake params v (cur + offset) s = Inr (st v)" "amount_val (st v) < 2 ^ 255"
    and change: "I256_inv c" "0 \<le> int (amount_val (st v)) + i256_val c" "int (amount_val (st v)) + i256_val c < 2 ^ 255"
    and state: "vstate s (cur + offset) v \<in> {Some Consensus, Some BelowCapacity, Some BelowThreshold}"
    and tgt: "set_target params cur offset (cur + offset)" and slots: "0 < max_validator_slots params"
    and room: "room (consensus_at s (cur + offset))" "room (below_capacity_at s (cur + offset))"
  shows "\<exists>s'. update_validator_set params v c cur (Some offset) s = Inr s' \<and>
    vsets_inv params (st(v := stake_plus (st v) c)) s' (cur + offset) \<and> only_sets_at (cur + offset) s s'"
proof -
  let ?e = "cur + offset" and ?x = "stake_plus (st v) c" and ?t = "validator_stake_threshold params"
  note inv' = vsets_invD [OF inv]
  note step = update_validator_set_step [of params v cur offset s st, OF stake change tgt]
  have out: "vsets_inv_but v params (st(v := ?x)) s ?e" "st v < ?t" if "v \<notin> consensus_members s ?e" "v \<notin> below_capacity_members s ?e"
    using that state inv'(3,4,6) by (auto intro!: vsets_inv_but_upd vsets_inv_but_of [OF inv])
  consider (zero) "i256_val c = 0" | (below) "i256_val c \<noteq> 0" "st v < ?t" "?x < ?t"
    | (position) p where "i256_val c \<noteq> 0" "\<not> (st v < ?t \<and> ?x < ?t)" "positions_at s ?e v = Some p"
    | (none) "i256_val c \<noteq> 0" "\<not> (st v < ?t \<and> ?x < ?t)" "positions_at s ?e v = None" by fastforce
  then show ?thesis
  proof cases
    case zero
    then show ?thesis using inv step by (simp add: stake_plus_def)
  next
    case below
    have v: "v \<notin> consensus_members s ?e" "v \<notin> below_capacity_members s ?e"
      using below(2) inv'(2) by (auto simp: best_stakes_def not_less [symmetric])
    have "vsets_inv params (st(v := ?x)) s ?e"
      by (rule vsets_invI [where f = "vstate s ?e", OF sets_wf_upd [OF inv'(1) v]])
         (use inv'(2-6) v below(3) in \<open>simp_all add: best_stakes_upd\<close>)
    then show ?thesis using step below by simp
  next
    case (position p)
    then have nz: "(i256_val c = 0 \<or> st v < ?t \<and> ?x < ?t) = False" by blast
    show ?thesis
      using step [unfolded nz if_False position(3)] update_consensus_validator_inv [OF inv tgt room, of v p ?x]
        update_below_capacity_validator_inv [OF inv tgt room slots position_in_sets [OF inv position(3)], of ?x]
      by (cases "map_of (consensus_at s ?e) (st v, p) = Some v") simp_all
  next
    case none
    then have "v \<notin> consensus_members s ?e" "v \<notin> below_capacity_members s ?e" using inv'(5) by auto
    note o = out [OF this]
    then have "?t \<le> (st(v := ?x)) v" using none(2) by simp
    moreover have nz: "(i256_val c = 0 \<or> st v < ?t \<and> ?x < ?t) = False" using none(1,2) by blast
    ultimately show ?thesis using step [unfolded nz if_False none(3)] insert_by_stake_inv [OF o(1) tgt room slots] by simp
  qed
qed

definition empty_pos_state :: pos_state where
  "empty_pos_state =
     \<lparr>consensus_validator_sets = epoched_open, below_capacity_validator_sets = epoched_open,
      validator_set_positions = epoched_open, validator_addresses = epoched_open,
      validator_consensus_keys = (\<lambda>_. epoched_open),
      validator_states = (\<lambda>_. epoched_open), validator_deltas = (\<lambda>_. epoched_open),
      total_deltas = epoched_open, total_active_deltas = epoched_open\<rparr>"

definition sample_validator :: Address where
  "sample_validator = Established (replicate 20 0)"

definition sample_pos_state :: pos_state where
  "sample_pos_state = empty_pos_state\<lparr>validator_states :=
     (\<lambda>_. epoched_open)(sample_validator := epoched_open\<lparr>lazy_map := [3 \<mapsto> BelowThreshold]\<rparr>)\<rparr>"

lemma nearest_empty [simp]: "nearest Map.empty e = None"
  by (induction e) simp_all

lemma sample_views:
  "consensus_at sample_pos_state e = []" "below_capacity_at sample_pos_state e = []" "positions_at sample_pos_state e = Map.empty"
  "vstate sample_pos_state 5 = [sample_validator \<mapsto> BelowThreshold]"
  by (simp_all add: sample_pos_state_def empty_pos_state_def consensus_at_def below_capacity_at_def positions_at_def
      nested_at_def epoched_open_def vstate_def fun_eq_iff eval_nat_numeral)

lemma default_threshold: "validator_stake_threshold default_pos_params = amount_of 1000000"
  by (simp add: default_pos_params_def Amount_native_whole_def NATIVE_SCALE_def checked_mul_def amount_of_def)

theorem update_validator_set_keeps_best_witness:
  "\<exists>s'. update_validator_set default_pos_params sample_validator (i256_of 2000000) 3 (Some 2) sample_pos_state = Inr s' \<and>
    vsets_inv default_pos_params ((\<lambda>_. Amount_zero)(sample_validator := stake_plus Amount_zero (i256_of 2000000))) s' (3 + 2) \<and>
    only_sets_at (3 + 2) sample_pos_state s'"
proof -
  let ?p = default_pos_params and ?s = sample_pos_state
  have "vsets_inv ?p (\<lambda>_. Amount_zero) ?s (3 + 2)"
    by (simp add: vsets_inv_def sets_wf_def pm_ok_def best_stakes_def sample_views default_threshold amount_less_iff)
  moreover have "read_validator_stake ?p sample_validator (3 + 2) ?s = Inr Amount_zero"
    by (simp add: read_validator_stake_def offset_of_def slash_processing_epoch_offset_def default_pos_params_def u64_add_def
        DEFAULT_NUM_PAST_EPOCHS_def sample_pos_state_def empty_pos_state_def epoched_open_def get_sum_def
        epoched_result_def stake_of_sum_def)
  moreover have "set_target ?p 3 2 (3 + 2)"
    by (simp add: set_target_def default_pos_params_def u64_add_def DEFAULT_NUM_PAST_EPOCHS_def)
  moreover have "0 < max_validator_slots ?p" by (simp add: default_pos_params_def)
  ultimately show ?thesis
    using update_validator_set_keeps_best [of ?p "\<lambda>_. Amount_zero" ?s 3 2 sample_validator "i256_of 2000000"]
    by (simp add: I256_inv_of i256_val_of sample_views room_def)
qed

section \<open>New validators, removals and new epochs\<close>

lemma insert_validator_into_validator_set_inv:
  assumes inv: "vsets_inv params st s (cur + offset)" and tgt: "set_target params cur offset (cur + offset)"
    and state: "vstate s (cur + offset) v \<notin> {Some Consensus, Some BelowCapacity}" "positions_at s (cur + offset) v = None"
    and room: "room (consensus_at s (cur + offset))" "room (below_capacity_at s (cur + offset))"
    and slots: "0 < max_validator_slots params"
  shows "\<exists>s'. insert_validator_into_validator_set params v x cur offset s = Inr s' \<and>
    vsets_inv params (st(v := x)) s' (cur + offset) \<and> only_sets_at (cur + offset) s s'"
proof -
  let ?e = "cur + offset" and ?t = "validator_stake_threshold params"
  have but: "vsets_inv_but v params (st(v := x)) s ?e" by (rule vsets_inv_but_upd [OF vsets_inv_but_of [OF inv state(1)]])
  note b = vsets_inv_butD [OF but]
  have e: "epoch_plus cur offset = Inr ?e" using tgt by (simp add: set_target_def epoch_plus_def)
  show ?thesis
  proof (cases "x < ?t")
    case True
    obtain s' where s': "set_validator_state params v BelowThreshold cur offset s = Inr s'"
      "consensus_at s' = consensus_at s" "below_capacity_at s' = below_capacity_at s" "positions_at s' = positions_at s"
      "vstate s' ?e = (vstate s ?e)(v \<mapsto> BelowThreshold)" "only_sets_at ?e s s'"
      by (rule set_state_step [OF tgt])
    have "sets_wf (st(v := x)) s' ?e" using b(1) sets_wf_views s'(2-4) by metis
    moreover have "dom (positions_at s' ?e) = consensus_members s ?e \<union> below_capacity_members s ?e"
      using b(5) state(2) by (auto simp: s')
    ultimately have "vsets_inv params (st(v := x)) s' ?e"
      using b(6-8) True by (intro vsets_invI [OF _ b(2), where f = "(vstate s ?e)(v \<mapsto> BelowThreshold)"])
        (auto simp: s' split: if_splits)
    then show ?thesis using s'(1,6) True by (simp add: insert_validator_into_validator_set_def e)
  next
    case False
    then show ?thesis
      using insert_by_stake_inv [OF but tgt room slots] by (simp add: insert_validator_into_validator_set_def e)
  qed
qed

lemma foldl_clear: "b \<le> e \<Longrightarrow> foldl (\<lambda>m k. m(k := None)) f [a..<b] e = f e"
  by (induction b) auto

lemma nested_update_data_at:
  "sub_past_epochs past cur \<le> e \<Longrightarrow> nested_at d (nested_update_data past cur E) e = nested_at d E e"
  by (simp add: nested_at_def nested_update_data_def Let_def foldl_clear split: option.split)

lemma nested_update_data_kept:
  "cur \<le> e \<Longrightarrow> nested_at d (nested_update_data past cur E) e = nested_at d E e"
  by (rule nested_update_data_at) (auto simp: sub_past_epochs_def)

lemma bt_extend_Nil: "bt_ok m \<Longrightarrow> bt_extend [] m = m"
proof (induction m rule: rev_induct)
  case (snoc x m)
  have last: "bt_insert (fst x) (snd x) m = m @ [x]" if "\<forall>y\<in>set m. fst y < fst x" for m
    using that
  proof (induction m)
    case (Cons y m)
    then have "\<not> fst x < fst y" "fst x \<noteq> fst y" by auto
    then show ?case using Cons by (cases y) auto
  qed simp
  have "bt_ok m" "\<forall>y\<in>set m. fst y < fst x" using snoc.prems by (auto simp: bt_ok_def sorted_wrt_append)
  then show ?case using snoc.IH last [of m] by (simp add: bt_extend_def case_prod_unfold)
qed (simp add: bt_extend_def)

lemma copy_views:
  assumes "0 < e" "offset_value params OffsetMaxProposalPeriodPlus \<noteq> None"
  obtains s' where "copy_validator_sets_and_positions params cur e s = Inr s'" "vstate s' = vstate s"
    "\<And>k. cur \<le> k \<Longrightarrow> consensus_at s' k =
       (if k = e then bt_extend (consensus_at s e) (consensus_at s (e - 1)) else consensus_at s k)"
    "\<And>k. cur \<le> k \<Longrightarrow> below_capacity_at s' k =
       (if k = e then bt_extend (below_capacity_at s e) (below_capacity_at s (e - 1)) else below_capacity_at s k)"
    "\<And>k. cur \<le> k \<Longrightarrow> positions_at s' k =
       (if k = e then positions_at s e ++ positions_at s (e - 1) else positions_at s k)"
proof -
  obtain past where past: "offset_of params OffsetMaxProposalPeriodPlus = Inr past"
    using assms(2) by (metis offset_of_def ok_or_simps(2) option.exhaust)
  obtain s' where s': "copy_validator_sets_and_positions params cur e s = Inr s'"
    using assms(1) by (simp add: copy_validator_sets_and_positions_def past Let_def)
  note def = s' [unfolded copy_validator_sets_and_positions_def past Let_def rbind_simps if_not_P [OF less_imp_neq [OF assms(1), symmetric]] sum.inject]
  show thesis
  proof (rule that [OF s'])
    show "vstate s' = vstate s"
      using def by (auto simp: vstate_def fun_eq_iff put_consensus_def put_below_capacity_def put_positions_def)
  qed (use def assms(1) in \<open>auto simp: consensus_at_def below_capacity_at_def positions_at_def put_consensus_def
      put_below_capacity_def put_positions_def nested_at_put nested_update_data_kept\<close>)
qed



end
