(* ===== verification/CometUpdates.thy ===== *)
theory CometUpdates
  imports ValidatorSets
begin

text \<open>
  The updates of the validator set that are sent to CometBFT before an epoch
  (\<open>validator_set_update_comet\<close> in \<open>proof_of_stake/src/validator_set_update.rs\<close>), and the set that
  CometBFT holds after it has applied them.
\<close>

section \<open>The updates\<close>

datatype ValidatorSetUpdate = ConsensusUpdate PublicKey int | DeactivatedUpdate PublicKey

definition get_consensus_key :: "PosParams \<Rightarrow> Address \<Rightarrow> epoch \<Rightarrow> pos_state \<Rightarrow> pos_error + PublicKey option" where
  "get_consensus_key params v e s =
     epoched_result (epoched_get DEFAULT_NUM_PAST_EPOCHS (pipeline_len params) (validator_consensus_keys s v) e)"

definition tm_power_of_stake :: "PosParams \<Rightarrow> Amount \<Rightarrow> pos_error + int" where
  "tm_power_of_stake params stake = ok_or (into_tm_voting_power (tm_votes_per_token params) stake) VotingPowerPanic"

definition tm_power_at :: "PosParams \<Rightarrow> Address \<Rightarrow> epoch \<Rightarrow> pos_state \<Rightarrow> pos_error + int" where
  "tm_power_at params v e s = rbind (read_validator_stake params v e s) (tm_power_of_stake params)"

text \<open>The voting powers are computed lazily in the source: a power is bound where it is first used.\<close>

definition new_consensus_updates ::
    "PosParams \<Rightarrow> epoch \<Rightarrow> epoch \<Rightarrow> pos_state \<Rightarrow> Amount \<Rightarrow> Address \<Rightarrow> pos_error + ValidatorSetUpdate list" where
  "new_consensus_updates params current_epoch next_epoch s new_stake v =
     (let prev_tm_voting_power = tm_power_at params v current_epoch s;
          new_tm_voting_power = tm_power_of_stake params new_stake
      in rbind
          (if Amount_is_zero (validator_stake_threshold params)
           then rbind prev_tm_voting_power (\<lambda>p. if p = 0 then rbind new_tm_voting_power (\<lambda>n. Inr (n = 0)) else Inr False)
           else Inr False) (\<lambda>skip.
         if skip then Inr []
         else
           rbind (rbind (get_consensus_key params v next_epoch s) (\<lambda>k. ok_or k ConsensusKeyMissing)) (\<lambda>new_consensus_key.
           rbind (get_consensus_key params v current_epoch s) (\<lambda>prev_consensus_key.
           rbind (get_validator_state params v current_epoch s) (\<lambda>prev_state.
           if prev_state \<noteq> Some Consensus then
             rbind new_tm_voting_power (\<lambda>n. Inr [ConsensusUpdate new_consensus_key n])
           else if prev_consensus_key \<noteq> Some new_consensus_key then
             rbind new_tm_voting_power (\<lambda>n.
             rbind (ok_or prev_consensus_key ConsensusKeyMissing) (\<lambda>k.
             Inr [ConsensusUpdate new_consensus_key n, DeactivatedUpdate k]))
           else
             rbind prev_tm_voting_power (\<lambda>p.
             rbind new_tm_voting_power (\<lambda>n.
             if p = n then Inr [] else Inr [ConsensusUpdate new_consensus_key n])))))))"

definition prev_consensus_updates ::
    "PosParams \<Rightarrow> epoch \<Rightarrow> epoch \<Rightarrow> pos_state \<Rightarrow> Address \<Rightarrow> pos_error + ValidatorSetUpdate list" where
  "prev_consensus_updates params current_epoch next_epoch s v =
     rbind (get_validator_state params v next_epoch s) (\<lambda>new_state.
     rbind (rbind (get_consensus_key params v current_epoch s) (\<lambda>k. ok_or k ConsensusKeyMissing)) (\<lambda>prev_consensus_key.
     if new_state = Some Consensus then Inr []
     else
       rbind
         (if Amount_is_zero (validator_stake_threshold params)
          then rbind (tm_power_at params v current_epoch s) (\<lambda>p. Inr (p = 0)) else Inr False) (\<lambda>skip.
       if skip then Inr []
       else
         rbind (rbind (get_consensus_key params v next_epoch s) (\<lambda>k. ok_or k ConsensusKeyMissing)) (\<lambda>_.
         Inr [DeactivatedUpdate prev_consensus_key]))))"

definition collect_updates :: "('x \<Rightarrow> pos_error + 'u list) \<Rightarrow> 'x list \<Rightarrow> pos_error + 'u list" where
  "collect_updates f xs = rfold (\<lambda>us x. rbind (f x) (\<lambda>vs. Inr (us @ vs))) [] xs"

definition validator_set_update_comet :: "PosParams \<Rightarrow> epoch \<Rightarrow> pos_state \<Rightarrow> pos_error + ValidatorSetUpdate list" where
  "validator_set_update_comet params current_epoch s =
     rbind (epoch_plus current_epoch 1) (\<lambda>next_epoch.
     rbind (collect_updates (\<lambda>((new_stake, _), v). new_consensus_updates params current_epoch next_epoch s new_stake v)
              (consensus_at s next_epoch)) (\<lambda>us.
     rbind (collect_updates (\<lambda>(_, v). prev_consensus_updates params current_epoch next_epoch s v)
              (consensus_at s current_epoch)) (\<lambda>vs.
     Inr (us @ vs))))"

section \<open>The set of CometBFT\<close>

text \<open>
  CometBFT keeps a map from keys to positive powers. An update with power zero removes its key. It
  rejects a list of updates with two updates of one key, and one that removes an absent key.
\<close>

type_synonym comet_set = "PublicKey \<Rightarrow> int option"

fun update_key :: "ValidatorSetUpdate \<Rightarrow> PublicKey" where
  "update_key (ConsensusUpdate k _) = k"
| "update_key (DeactivatedUpdate k) = k"

fun update_power :: "ValidatorSetUpdate \<Rightarrow> int" where
  "update_power (ConsensusUpdate _ n) = n"
| "update_power (DeactivatedUpdate _) = 0"

definition comet_apply_one :: "comet_set \<Rightarrow> ValidatorSetUpdate \<Rightarrow> comet_set" where
  "comet_apply_one m u = m(update_key u := (if update_power u = 0 then None else Some (update_power u)))"

definition comet_apply :: "comet_set \<Rightarrow> ValidatorSetUpdate list \<Rightarrow> comet_set option" where
  "comet_apply m us =
     (if distinct (map update_key us) \<and> list_all (\<lambda>u. 0 \<le> update_power u) us \<and>
         list_all (\<lambda>u. update_power u = 0 \<longrightarrow> m (update_key u) \<noteq> None) us
      then Some (foldl comet_apply_one m us) else None)"

definition comet_of :: "(Address \<Rightarrow> PublicKey) \<Rightarrow> (Address \<Rightarrow> int) \<Rightarrow> Address list \<Rightarrow> comet_set" where
  "comet_of key pw vs = map_of (map (\<lambda>v. (key v, pw v)) vs)"

lemma comet_of_Some: "inj_on key (set vs) \<Longrightarrow> v \<in> set vs \<Longrightarrow> comet_of key pw vs (key v) = Some (pw v)"
  by (induction vs) (auto simp: comet_of_def inj_on_def)

lemma comet_of_None: "k \<notin> key ` set vs \<Longrightarrow> comet_of key pw vs k = None"
  by (auto simp: comet_of_def map_of_eq_None_iff image_iff)

lemma comet_apply_other: "k \<notin> update_key ` set us \<Longrightarrow> foldl comet_apply_one m us k = m k"
  by (induction us arbitrary: m) (auto simp: comet_apply_one_def)

lemma comet_apply_key:
  "distinct (map update_key us) \<Longrightarrow> u \<in> set us \<Longrightarrow>
   foldl comet_apply_one m us (update_key u) = (if update_power u = 0 then None else Some (update_power u))"
proof (induction us arbitrary: m)
  case (Cons w us)
  show ?case
  proof (cases "u = w")
    case True
    then have "update_key u \<notin> update_key ` set us" using Cons.prems(1) by simp
    then have "foldl comet_apply_one (comet_apply_one m w) us (update_key u) = comet_apply_one m w (update_key u)"
      by (rule comet_apply_other)
    then show ?thesis using True by (simp add: comet_apply_one_def [of m w])
  qed (use Cons in simp)
qed simp

lemma distinct_concat_keys:
  assumes "distinct xs" "\<And>x. x \<in> set xs \<Longrightarrow> distinct (map h (f x))"
    "\<And>x y. x \<in> set xs \<Longrightarrow> y \<in> set xs \<Longrightarrow> x \<noteq> y \<Longrightarrow> h ` set (f x) \<inter> h ` set (f y) = {}"
  shows "distinct (map h (concat (map f xs)))"
  using assms
proof (induction xs)
  case (Cons x xs)
  have "h ` set (f x) \<inter> h ` set (f y) = {}" if "y \<in> set xs" for y
    using Cons.prems(1) that by (intro Cons.prems(3)) auto
  then have "h ` set (f x) \<inter> h ` set (concat (map f xs)) = {}" by auto
  then show ?case using Cons by simp
qed simp

lemma collect_updates_eq:
  assumes "\<And>x. x \<in> set xs \<Longrightarrow> F x = Inr (f x)"
  shows "collect_updates F xs = Inr (concat (map f xs))"
proof -
  have "rfold (\<lambda>us x. rbind (F x) (\<lambda>vs. Inr (us @ vs))) acc xs = Inr (acc @ concat (map f xs))" for acc
    using assms by (induction xs arbitrary: acc) simp_all
  then show ?thesis by (simp add: collect_updates_def)
qed

section \<open>The updates bring CometBFT to the next set\<close>

text \<open>
  What the updates are when the reads succeed: for the members \<open>N\<close> of the next set and those \<open>C\<close> of
  the current one, with their keys and powers at both epochs.
\<close>

definition updates_new ::
    "Address set \<Rightarrow> (Address \<Rightarrow> PublicKey) \<Rightarrow> (Address \<Rightarrow> PublicKey) \<Rightarrow> (Address \<Rightarrow> int) \<Rightarrow> (Address \<Rightarrow> int) \<Rightarrow>
     Address \<Rightarrow> ValidatorSetUpdate list" where
  "updates_new C kc kn pc pn v =
     (if v \<notin> C then [ConsensusUpdate (kn v) (pn v)]
      else if kc v \<noteq> kn v then [ConsensusUpdate (kn v) (pn v), DeactivatedUpdate (kc v)]
      else if pc v = pn v then [] else [ConsensusUpdate (kn v) (pn v)])"

definition updates_prev :: "Address set \<Rightarrow> (Address \<Rightarrow> PublicKey) \<Rightarrow> Address \<Rightarrow> ValidatorSetUpdate list" where
  "updates_prev N kc v = (if v \<in> N then [] else [DeactivatedUpdate (kc v)])"

definition updates_of ::
    "Address list \<Rightarrow> Address list \<Rightarrow> (Address \<Rightarrow> PublicKey) \<Rightarrow> (Address \<Rightarrow> PublicKey) \<Rightarrow> (Address \<Rightarrow> int) \<Rightarrow>
     (Address \<Rightarrow> int) \<Rightarrow> ValidatorSetUpdate list" where
  "updates_of cs ns kc kn pc pn =
     concat (map (updates_new (set cs) kc kn pc pn) ns) @ concat (map (updates_prev (set ns) kc) cs)"

text \<open>No two validators share a key, at one epoch or across both.\<close>

definition keys_distinct :: "Address list \<Rightarrow> Address list \<Rightarrow> (Address \<Rightarrow> PublicKey) \<Rightarrow> (Address \<Rightarrow> PublicKey) \<Rightarrow> bool" where
  "keys_distinct cs ns kc kn \<longleftrightarrow>
     distinct cs \<and> distinct ns \<and> inj_on kc (set cs) \<and> inj_on kn (set ns) \<and>
     (\<forall>v\<in>set cs. \<forall>w\<in>set ns. kc v = kn w \<longrightarrow> v = w)"

lemma keys_distinctD:
  assumes "keys_distinct cs ns kc kn"
  shows "inj_on kc (set cs)" "inj_on kn (set ns)"
proof -
  show "inj_on kc (set cs)" using assms unfolding keys_distinct_def by (elim conjE)
  show "inj_on kn (set ns)" using assms unfolding keys_distinct_def by (elim conjE)
qed

definition owns :: "Address list \<Rightarrow> Address list \<Rightarrow> (Address \<Rightarrow> PublicKey) \<Rightarrow> (Address \<Rightarrow> PublicKey) \<Rightarrow> Address \<Rightarrow> PublicKey \<Rightarrow> bool" where
  "owns cs ns kc kn v k \<longleftrightarrow> v \<in> set cs \<and> k = kc v \<or> v \<in> set ns \<and> k = kn v"

lemma owns_unique: "keys_distinct cs ns kc kn \<Longrightarrow> owns cs ns kc kn v k \<Longrightarrow> owns cs ns kc kn w k \<Longrightarrow> v = w"
  unfolding keys_distinct_def owns_def inj_on_def by metis

lemma updates_owned:
  "v \<in> set ns \<Longrightarrow> u \<in> set (updates_new (set cs) kc kn pc pn v) \<Longrightarrow> owns cs ns kc kn v (update_key u)"
  "v \<in> set cs \<Longrightarrow> u \<in> set (updates_prev (set ns) kc v) \<Longrightarrow> owns cs ns kc kn v (update_key u)"
  by (auto simp: updates_new_def updates_prev_def owns_def split: if_splits)

lemma set_updates_of:
  "u \<in> set (updates_of cs ns kc kn pc pn) \<longleftrightarrow>
     (\<exists>v\<in>set ns. u \<in> set (updates_new (set cs) kc kn pc pn v)) \<or> (\<exists>v\<in>set cs. u \<in> set (updates_prev (set ns) kc v))"
  by (auto simp: updates_of_def)

lemma in_set_not_Nil: "x \<in> set xs \<Longrightarrow> xs \<noteq> []"
  by auto

lemma update_key_owner:
  assumes "k \<in> update_key ` set (updates_of cs ns kc kn pc pn)"
  obtains v where "owns cs ns kc kn v k" "updates_new (set cs) kc kn pc pn v \<noteq> [] \<or> updates_prev (set ns) kc v \<noteq> []"
proof -
  obtain u where u: "u \<in> set (updates_of cs ns kc kn pc pn)" "k = update_key u" using assms by blast
  then consider v where "v \<in> set ns" "u \<in> set (updates_new (set cs) kc kn pc pn v)"
    | v where "v \<in> set cs" "u \<in> set (updates_prev (set ns) kc v)" unfolding set_updates_of by blast
  then show thesis
  proof cases
    case (1 v)
    then show thesis using that [of v] updates_owned(1) [OF 1] u(2) by (auto dest: in_set_not_Nil)
  next
    case (2 v)
    then show thesis using that [of v] updates_owned(2) [OF 2] u(2) by (auto dest: in_set_not_Nil)
  qed
qed

lemma updates_of_distinct:
  assumes keys: "keys_distinct cs ns kc kn"
  shows "distinct (map update_key (updates_of cs ns kc kn pc pn))"
proof -
  let ?f = "updates_new (set cs) kc kn pc pn" and ?g = "updates_prev (set ns) kc"
  have one: "distinct (map update_key (?f v))" "distinct (map update_key (?g v))" for v
    by (auto simp: updates_new_def updates_prev_def)
  have f: "update_key ` set (?f v) \<inter> update_key ` set (?f w) = {}" if "v \<in> set ns" "w \<in> set ns" "v \<noteq> w" for v w
    using updates_owned(1) [OF that(1)] updates_owned(1) [OF that(2)] owns_unique [OF keys, of v _ w] that(3) by fastforce
  have g: "update_key ` set (?g v) \<inter> update_key ` set (?g w) = {}" if "v \<in> set cs" "w \<in> set cs" "v \<noteq> w" for v w
    using updates_owned(2) [OF that(1)] updates_owned(2) [OF that(2)] owns_unique [OF keys, of v _ w] that(3) by fastforce
  have fg: "update_key ` set (?f v) \<inter> update_key ` set (?g w) = {}" if "v \<in> set ns" "w \<in> set cs" for v w
  proof (cases "v = w")
    case False
    then show ?thesis
      using updates_owned(1) [OF that(1)] updates_owned(2) [OF that(2)] owns_unique [OF keys, of v _ w] by fastforce
  qed (use that in \<open>simp add: updates_prev_def\<close>)
  have "distinct cs" "distinct ns" using keys by (simp_all add: keys_distinct_def)
  then have "distinct (map update_key (concat (map ?f ns)))" "distinct (map update_key (concat (map ?g cs)))"
    using one f g by (simp_all add: distinct_concat_keys del: map_concat)
  then show ?thesis using fg unfolding updates_of_def by (auto simp del: map_concat)
qed

lemma updates_of_fine:
  assumes "keys_distinct cs ns kc kn" "\<forall>v\<in>set ns. 0 < pn v" "u \<in> set (updates_of cs ns kc kn pc pn)"
  shows "0 \<le> update_power u \<and> (update_power u = 0 \<longrightarrow> comet_of kc pc cs (update_key u) \<noteq> None)"
proof -
  have c: "comet_of kc pc cs (kc v) \<noteq> None" if "v \<in> set cs" for v
    using comet_of_Some [of kc cs v pc] that assms(1) by (simp add: keys_distinct_def)
  from assms(3) consider v where "v \<in> set ns" "u \<in> set (updates_new (set cs) kc kn pc pn v)"
    | v where "v \<in> set cs" "u \<in> set (updates_prev (set ns) kc v)" unfolding set_updates_of by blast
  then show ?thesis
  proof cases
    case (1 v)
    then have "0 < pn v" using assms(2) by blast
    then show ?thesis using 1(2) c [of v] by (auto simp: updates_new_def split: if_splits)
  next
    case (2 v)
    then show ?thesis using c [of v] by (auto simp: updates_prev_def split: if_splits)
  qed
qed

lemma comet_apply_updates:
  assumes keys: "keys_distinct cs ns kc kn" and pos: "\<forall>v\<in>set ns. 0 < pn v"
  shows "comet_apply (comet_of kc pc cs) (updates_of cs ns kc kn pc pn) = Some (comet_of kn pn ns)"
proof -
  let ?us = "updates_of cs ns kc kn pc pn" and ?f = "updates_new (set cs) kc kn pc pn" and ?g = "updates_prev (set ns) kc"
  note dist = updates_of_distinct [OF keys, of pc pn]
  note inj = keys_distinctD [OF keys]
  have "foldl comet_apply_one (comet_of kc pc cs) ?us k = comet_of kn pn ns k" for k
  proof (cases "k \<in> kn ` set ns")
    case True
    then obtain v where v: "v \<in> set ns" "k = kn v" by blast
    note nxt = comet_of_Some [OF inj(2) v(1), of pn]
    show ?thesis
    proof (cases "ConsensusUpdate (kn v) (pn v) \<in> set ?us")
      case True
      have "pn v \<noteq> 0" using pos v(1) by fastforce
      then show ?thesis using comet_apply_key [OF dist True] nxt v by simp
    next
      case False
      then have c: "v \<in> set cs" "kc v = kn v" "pc v = pn v"
        using v(1) unfolding set_updates_of by (auto simp: updates_new_def split: if_splits)
      have "owns cs ns kc kn v k" using v by (simp add: owns_def)
      then have w: "w = v" if "owns cs ns kc kn w k" for w using owns_unique [OF keys] that by blast
      have e: "?f v = []" "?g v = []" using c v by (simp_all add: updates_new_def updates_prev_def)
      have "k \<notin> update_key ` set ?us"
      proof
        assume "k \<in> update_key ` set ?us"
        then show False by (rule update_key_owner) (use w e in blast)
      qed
      then show ?thesis using comet_of_Some [OF inj(1) c(1), of pc] nxt c v by (simp add: comet_apply_other)
    qed
  next
    case False
    show ?thesis
    proof (cases "k \<in> kc ` set cs")
      case True
      then obtain v where v: "v \<in> set cs" "k = kc v" by blast
      have "DeactivatedUpdate k \<in> set (if v \<in> set ns then ?f v else ?g v)"
        using False v by (auto simp: updates_new_def updates_prev_def)
      then have "DeactivatedUpdate k \<in> set ?us"
        using v(1) unfolding set_updates_of by (cases "v \<in> set ns") (simp_all, blast+)
      then show ?thesis using comet_apply_key [OF dist, of "DeactivatedUpdate k"] comet_of_None [OF False] by simp
    next
      case none: False
      have "\<not> owns cs ns kc kn v k" for v using False none by (auto simp: owns_def)
      then have "k \<notin> update_key ` set ?us" by (metis update_key_owner)
      then show ?thesis using comet_of_None [OF False] comet_of_None [OF none] by (simp add: comet_apply_other)
    qed
  qed
  then have "foldl comet_apply_one (comet_of kc pc cs) ?us = comet_of kn pn ns" by (rule ext)
  moreover have "list_all (\<lambda>u. 0 \<le> update_power u) ?us"
    "list_all (\<lambda>u. update_power u = 0 \<longrightarrow> comet_of kc pc cs (update_key u) \<noteq> None) ?us"
    using updates_of_fine [OF keys pos] unfolding list_all_iff by blast+
  ultimately show ?thesis using dist by (simp only: comet_apply_def simp_thms if_True)
qed

text \<open>
  What an epoch shows to the updates: the keys and states of the validators can be read, exactly the
  members of the consensus set have the state \<open>Consensus\<close>, and their stakes have the given powers.
\<close>

definition comet_view :: "PosParams \<Rightarrow> pos_state \<Rightarrow> epoch \<Rightarrow> Address set \<Rightarrow> (Address \<Rightarrow> PublicKey) \<Rightarrow> (Address \<Rightarrow> int) \<Rightarrow> bool" where
  "comet_view params s e V key pw \<longleftrightarrow>
     distinct (map snd (consensus_at s e)) \<and>
     (\<forall>v\<in>V. get_consensus_key params v e s = Inr (Some (key v)) \<and> tm_power_at params v e s = Inr (pw v) \<and>
        (\<exists>x. get_validator_state params v e s = Inr x \<and> (x = Some Consensus \<longleftrightarrow> v \<in> consensus_members s e))) \<and>
     (\<forall>a p v. ((a, p), v) \<in> set (consensus_at s e) \<longrightarrow> tm_power_of_stake params a = Inr (pw v))"

lemma comet_viewD:
  assumes "comet_view params s e V key pw" "v \<in> V"
  obtains x where "get_consensus_key params v e s = Inr (Some (key v))" "tm_power_at params v e s = Inr (pw v)"
    "get_validator_state params v e s = Inr x" "x = Some Consensus \<longleftrightarrow> v \<in> consensus_members s e"
  using assms unfolding comet_view_def by blast

lemma new_consensus_updates_eq:
  assumes "comet_view params s cur V kc pc" "comet_view params s e V kn pn" "v \<in> V" "((a, p), v) \<in> set (consensus_at s e)" "0 < pn v"
  shows "new_consensus_updates params cur e s a v = Inr (updates_new (consensus_members s cur) kc kn pc pn v)"
proof -
  obtain x where c: "get_consensus_key params v cur s = Inr (Some (kc v))" "tm_power_at params v cur s = Inr (pc v)"
    "get_validator_state params v cur s = Inr x" "x = Some Consensus \<longleftrightarrow> v \<in> consensus_members s cur"
    using comet_viewD [OF assms(1,3)] .
  have n: "get_consensus_key params v e s = Inr (Some (kn v))" using comet_viewD [OF assms(2,3)] by blast
  have "tm_power_of_stake params a = Inr (pn v)" using assms(2,4) unfolding comet_view_def by blast
  then show ?thesis
    using assms(5) c(4) by (simp add: new_consensus_updates_def updates_new_def Let_def c(1-3) n)
qed

lemma prev_consensus_updates_eq:
  assumes "comet_view params s cur V kc pc" "comet_view params s e V kn pn" "v \<in> V" "pc v \<noteq> 0"
  shows "prev_consensus_updates params cur e s v = Inr (updates_prev (consensus_members s e) kc v)"
proof -
  obtain x where n: "get_consensus_key params v e s = Inr (Some (kn v))" "tm_power_at params v e s = Inr (pn v)"
    "get_validator_state params v e s = Inr x" "x = Some Consensus \<longleftrightarrow> v \<in> consensus_members s e"
    using comet_viewD [OF assms(2,3)] .
  have "get_consensus_key params v cur s = Inr (Some (kc v))" "tm_power_at params v cur s = Inr (pc v)"
    using comet_viewD [OF assms(1,3)] by blast+
  then show ?thesis using assms(4) n by (simp add: prev_consensus_updates_def updates_prev_def)
qed


definition sample_comet_state :: pos_state where
  "sample_comet_state = empty_pos_state
     \<lparr>consensus_validator_sets := epoched_open\<lparr>lazy_map := [3 \<mapsto> [((amount_of 2000000, 0), sample_validator)]]\<rparr>,
      validator_consensus_keys := (\<lambda>_. \<lparr>lazy_map = [2 \<mapsto> Ed25519 [1, 2]], last_update = Some 2, oldest_epoch = Some 2\<rparr>),
      validator_states := (\<lambda>_. \<lparr>lazy_map = [2 \<mapsto> BelowThreshold, 3 \<mapsto> Consensus], last_update = Some 2, oldest_epoch = Some 2\<rparr>),
      validator_deltas := (\<lambda>_. \<lparr>lazy_map = [3 \<mapsto> i256_of 2000000], last_update = Some 2, oldest_epoch = Some 2\<rparr>)\<rparr>"

lemma sample_comet_consensus:
  "consensus_at sample_comet_state 2 = []"
  "consensus_at sample_comet_state 3 = [((amount_of 2000000, 0), sample_validator)]"
  by (simp_all add: sample_comet_state_def empty_pos_state_def consensus_at_def nested_at_def epoched_open_def)

lemma sample_comet_reads:
  "get_consensus_key default_pos_params v 2 sample_comet_state = Inr (Some (Ed25519 [1, 2]))"
  "get_consensus_key default_pos_params v 3 sample_comet_state = Inr (Some (Ed25519 [1, 2]))"
  "get_validator_state default_pos_params v 2 sample_comet_state = Inr (Some BelowThreshold)"
  "get_validator_state default_pos_params v 3 sample_comet_state = Inr (Some Consensus)"
  by (simp_all add: get_consensus_key_def get_validator_state_def offset_of_def sample_comet_state_def epoched_get_def
      unchecked_add_def sub_past_epochs_def DEFAULT_NUM_PAST_EPOCHS_def default_pos_params_def u64_add_def
      epoched_result_def get_loop.simps)

lemma sample_comet_powers:
  "tm_power_of_stake default_pos_params (amount_of 2000000) = Inr 2000000"
  "tm_power_at default_pos_params v 2 sample_comet_state = Inr 0"
  "tm_power_at default_pos_params v 3 sample_comet_state = Inr 2000000"
proof -
  have one: "tm_votes_per_token default_pos_params = dec_of (10 ^ 12)"
    unfolding default_pos_params_def PosParams.select_convs Dec_constants(1) by (rule option.sel)
  have pw: "tm_power_of_stake default_pos_params a = Inr (int (amount_val a))" if "amount_val a \<le> 2000000" for a
    using that unfolding tm_power_of_stake_def one by (subst into_tm_voting_power_eq) (auto simp: Dec_inv_of dec_val_of)
  show "tm_power_of_stake default_pos_params (amount_of 2000000) = Inr 2000000" by (simp add: pw)
  have "read_validator_stake default_pos_params v 2 sample_comet_state = Inr Amount_zero"
    "read_validator_stake default_pos_params v 3 sample_comet_state = Inr (Amount_from_change (i256_of 2000000))"
    by (simp_all add: read_validator_stake_def offset_of_def slash_processing_epoch_offset_def default_pos_params_def
        u64_add_def DEFAULT_NUM_PAST_EPOCHS_def sample_comet_state_def get_sum_def sub_past_epochs_def unchecked_add_def
        add_some_def epoched_result_def stake_of_sum_def upt_conv_Cons del: upt_Suc)
  moreover have "amount_val (Amount_from_change (i256_of 2000000)) = 2000000"
    using Amount_from_change_val [of "i256_of 2000000"] by (simp add: I256_inv_of i256_val_of)
  ultimately show "tm_power_at default_pos_params v 2 sample_comet_state = Inr 0"
    "tm_power_at default_pos_params v 3 sample_comet_state = Inr 2000000"
    by (simp_all add: tm_power_at_def pw)
qed


end
