(* ===== verification/GovernanceTally.thy ===== *)
theory GovernanceTally
  imports TokenAmount Collections Addresses
begin

text \<open>
  The tally of governance proposals (\<open>governance/src/utils.rs\<close>, \<open>governance/src/storage/vote.rs\<close>): the
  votes of validators and delegators, the voting power on each side, the rules by which a proposal
  passes, and the window in which validators may vote.
\<close>

section \<open>Votes\<close>

datatype ProposalVote = Yay | Nay | Abstain

fun is_same_side :: "ProposalVote \<Rightarrow> ProposalVote \<Rightarrow> bool" where
  "is_same_side Yay Yay = True"
| "is_same_side Nay Nay = True"
| "is_same_side Abstain Abstain = True"
| "is_same_side _ _ = False"

datatype TallyType = TwoThirds | OneHalfOverOneThird | LessOneHalfOverOneThirdNay

datatype 'p ProposalType = DefaultProposal | DefaultWithWasm "u8 list" | PGFSteward 'p | PGFPayment 'p

fun TallyType_from :: "'p ProposalType \<Rightarrow> bool \<Rightarrow> TallyType" where
  "TallyType_from DefaultProposal _ = TwoThirds"
| "TallyType_from (DefaultWithWasm _) _ = TwoThirds"
| "TallyType_from (PGFSteward _) _ = OneHalfOverOneThird"
| "TallyType_from (PGFPayment _) True = LessOneHalfOverOneThirdNay"
| "TallyType_from (PGFPayment _) False = OneHalfOverOneThird"

datatype TallyResult = Passed | Rejected

definition amount_plus :: "Amount \<Rightarrow> Amount \<Rightarrow> arith_error + Amount" where
  "amount_plus a b = ok_or (Amount_checked_add a b) ArithError"

definition amount_minus :: "Amount \<Rightarrow> Amount \<Rightarrow> arith_error + Amount" where
  "amount_minus a b = ok_or (Amount_checked_sub a b) ArithError"

definition get_total_voted_power :: "Amount \<Rightarrow> Amount \<Rightarrow> Amount \<Rightarrow> arith_error + Amount" where
  "get_total_voted_power yay nay abstain = rbind (amount_plus yay nay) (\<lambda>s. amount_plus s abstain)"

definition share_ceil :: "Amount \<Rightarrow> Dec option \<Rightarrow> arith_error + Amount" where
  "share_ceil a d = rbind (ok_or d ArithError) (Amount_mul_ceil a)"

definition TallyResult_new :: "TallyType \<Rightarrow> Amount \<Rightarrow> Amount \<Rightarrow> Amount \<Rightarrow> Amount \<Rightarrow> arith_error + TallyResult" where
  "TallyResult_new tally_type yay nay abstain total_voting_power =
     rbind
      (case tally_type of
         TwoThirds \<Rightarrow>
           rbind (get_total_voted_power yay nay abstain) (\<lambda>voted.
           rbind (share_ceil total_voting_power Dec_two_thirds) (\<lambda>t.
           rbind (amount_plus nay yay) (\<lambda>ny.
           rbind (share_ceil ny Dec_two_thirds) (\<lambda>t2.
           Inr (voted \<ge> t \<and> yay \<ge> t2)))))
       | OneHalfOverOneThird \<Rightarrow>
           rbind (get_total_voted_power yay nay abstain) (\<lambda>voted.
           rbind (share_ceil total_voting_power Dec_one_third) (\<lambda>t.
           Inr (voted \<ge> t \<and> yay > nay)))
       | LessOneHalfOverOneThirdNay \<Rightarrow>
           rbind (get_total_voted_power yay nay abstain) (\<lambda>voted.
           rbind (share_ceil total_voting_power Dec_one_third) (\<lambda>t.
           Inr (voted < t \<or> yay > nay))))
      (\<lambda>passed. Inr (if passed then Passed else Rejected))"

record ProposalResult =
  pr_result :: TallyResult
  pr_tally_type :: TallyType
  pr_total_voting_power :: Amount
  pr_total_yay_power :: Amount
  pr_total_nay_power :: Amount
  pr_total_abstain_power :: Amount

definition two_thirds_nay_over_two_thirds_total :: "ProposalResult \<Rightarrow> bool" where
  "two_thirds_nay_over_two_thirds_total slf =
     (case
        rbind (share_ceil (pr_total_voting_power slf) Dec_two_thirds) (\<lambda>two_thirds_power.
        rbind (get_total_voted_power (pr_total_yay_power slf) (pr_total_nay_power slf) (pr_total_abstain_power slf)) (\<lambda>voted.
        rbind (amount_plus (pr_total_yay_power slf) (pr_total_nay_power slf)) (\<lambda>yn.
        rbind (share_ceil yn Dec_two_thirds) (\<lambda>t.
        Inr (voted \<ge> two_thirds_power \<and> pr_total_nay_power slf \<ge> t)))))
      of Inl _ \<Rightarrow> False | Inr b \<Rightarrow> b)"

record ProposalVotes =
  validators_vote :: "(Address, ProposalVote) index_map"
  validator_voting_power :: "(Address, Amount) index_map"
  delegators_vote :: "(Address, ProposalVote) index_map"
  delegator_voting_power :: "(Address, (Address, Amount) index_map) index_map"

definition add_validator :: "Address \<Rightarrow> Amount \<Rightarrow> ProposalVote \<Rightarrow> ProposalVotes \<Rightarrow> ProposalVotes" where
  "add_validator address voting_power vote slf =
     (case map_of (validators_vote slf) address of
        None \<Rightarrow> slf\<lparr>validators_vote := AList.update address vote (validators_vote slf),
                    validator_voting_power := AList.update address voting_power (validator_voting_power slf)\<rparr>
      | Some _ \<Rightarrow> slf\<lparr>validators_vote := AList.update address vote (validators_vote slf)\<rparr>)"

definition add_delegator :: "Address \<Rightarrow> Address \<Rightarrow> Amount \<Rightarrow> ProposalVote \<Rightarrow> ProposalVotes \<Rightarrow> ProposalVotes" where
  "add_delegator address validator_address voting_power vote slf =
     (let old = (case map_of (delegator_voting_power slf) address of None \<Rightarrow> [] | Some m \<Rightarrow> m)
      in slf\<lparr>delegator_voting_power :=
               AList.update address (AList.update validator_address voting_power old) (delegator_voting_power slf),
             delegators_vote := AList.update address vote (delegators_vote slf)\<rparr>)"

section \<open>The tally\<close>

text \<open>The three counters of the source, one for each vote.\<close>

type_synonym tally = "ProposalVote \<Rightarrow> Amount"

definition tally_add :: "ProposalVote \<Rightarrow> Amount \<Rightarrow> tally \<Rightarrow> arith_error + tally" where
  "tally_add vote vote_power t = rbind (amount_plus (t vote) vote_power) (\<lambda>p. Inr (t(vote := p)))"

definition tally_sub :: "ProposalVote \<Rightarrow> Amount \<Rightarrow> tally \<Rightarrow> arith_error + tally" where
  "tally_sub vote vote_power t = rbind (amount_minus (t vote) vote_power) (\<lambda>p. Inr (t(vote := p)))"

definition validator_step :: "ProposalVotes \<Rightarrow> tally \<Rightarrow> Address \<times> Amount \<Rightarrow> arith_error + tally" where
  "validator_step votes t entry =
     (case map_of (validators_vote votes) (fst entry) of
        Some vote \<Rightarrow> tally_add vote (snd entry) t
      | None \<Rightarrow> Inr t)"

definition delegation_step :: "ProposalVotes \<Rightarrow> ProposalVote \<Rightarrow> tally \<Rightarrow> Address \<times> Amount \<Rightarrow> arith_error + tally" where
  "delegation_step votes delegator_vote t entry =
     (case map_of (validators_vote votes) (fst entry) of
        Some validator_vote \<Rightarrow>
          if is_same_side validator_vote delegator_vote then Inr t
          else rbind (tally_add delegator_vote (snd entry) t) (tally_sub validator_vote (snd entry))
      | None \<Rightarrow> tally_add delegator_vote (snd entry) t)"

definition delegator_step ::
    "ProposalVotes \<Rightarrow> tally \<Rightarrow> Address \<times> (Address, Amount) index_map \<Rightarrow> arith_error + tally" where
  "delegator_step votes t entry =
     (case map_of (delegators_vote votes) (fst entry) of
        Some vote \<Rightarrow> rfold (delegation_step votes vote) t (snd entry)
      | None \<Rightarrow> Inr t)"

definition compute_proposal_result :: "ProposalVotes \<Rightarrow> Amount \<Rightarrow> TallyType \<Rightarrow> arith_error + ProposalResult" where
  "compute_proposal_result votes total_voting_power tally_type =
     rbind (rfold (validator_step votes) (\<lambda>_. Amount_zero) (validator_voting_power votes)) (\<lambda>t1.
     rbind (rfold (delegator_step votes) t1 (delegator_voting_power votes)) (\<lambda>t2.
     rbind (TallyResult_new tally_type (t2 Yay) (t2 Nay) (t2 Abstain) total_voting_power) (\<lambda>result.
     Inr \<lparr>pr_result = result, pr_tally_type = tally_type, pr_total_voting_power = total_voting_power,
          pr_total_yay_power = t2 Yay, pr_total_nay_power = t2 Nay, pr_total_abstain_power = t2 Abstain\<rparr>)))"

definition is_valid_validator_voting_period :: "nat \<Rightarrow> nat \<Rightarrow> nat \<Rightarrow> bool" where
  "is_valid_validator_voting_period current_epoch voting_start_epoch voting_end_epoch =
     (if voting_start_epoch \<ge> voting_end_epoch then False
      else
        (if current_epoch * 3 < 2 ^ 64 \<and> voting_end_epoch * 2 < 2 ^ 64 \<and> voting_start_epoch + voting_end_epoch * 2 < 2 ^ 64
         then current_epoch \<ge> voting_start_epoch \<and> current_epoch * 3 \<le> voting_start_epoch + voting_end_epoch * 2
         else False))"

section \<open>What the tally counts\<close>

text \<open>The delegations of the delegators who voted: their vote, the validator and the power.\<close>

definition voted_delegations :: "ProposalVotes \<Rightarrow> (ProposalVote \<times> Address \<times> Amount) list" where
  "voted_delegations votes =
     concat (map (\<lambda>(delegator, ds). case map_of (delegators_vote votes) delegator of
                     None \<Rightarrow> [] | Some vote \<Rightarrow> map (\<lambda>(validator, p). (vote, validator, p)) ds)
                 (delegator_voting_power votes))"

text \<open>The power that delegators who voted themselves have with a validator.\<close>

definition overriding_power :: "ProposalVotes \<Rightarrow> Address \<Rightarrow> nat" where
  "overriding_power votes v = (\<Sum>(_, validator, p) \<leftarrow> voted_delegations votes. if validator = v then amount_val p else 0)"

text \<open>
  The reference count: a validator's vote counts for the power of those who did not vote
  themselves, and every delegation of a voting delegator counts for the delegator's own vote.
\<close>

definition counted_power :: "ProposalVotes \<Rightarrow> ProposalVote \<Rightarrow> nat" where
  "counted_power votes x =
     (\<Sum>(v, p) \<leftarrow> validator_voting_power votes.
        if map_of (validators_vote votes) v = Some x then amount_val p - overriding_power votes v else 0)
   + (\<Sum>(vote, _, p) \<leftarrow> voted_delegations votes. if vote = x then amount_val p else 0)"

definition votes_wf :: "ProposalVotes \<Rightarrow> bool" where
  "votes_wf votes \<longleftrightarrow> im_ok (validator_voting_power votes)
     \<and> fst ` set (validator_voting_power votes) = fst ` set (validators_vote votes)
     \<and> list_all (\<lambda>(v, p). overriding_power votes v \<le> amount_val p) (validator_voting_power votes)"

definition total_recorded :: "ProposalVotes \<Rightarrow> nat" where
  "total_recorded votes =
     (\<Sum>(_, p) \<leftarrow> validator_voting_power votes. amount_val p) + (\<Sum>(_, _, p) \<leftarrow> voted_delegations votes. amount_val p)"

lemma is_same_side_eq: "is_same_side a b \<longleftrightarrow> a = b"
  by (cases a; cases b) simp_all

lemma tally_add_ok:
  assumes "amount_val (t x) + amount_val p < 2 ^ 256"
  shows "tally_add x p t = Inr (t(x := amount_of (amount_val (t x) + amount_val p)))"
  using assms by (simp add: tally_add_def amount_plus_def Amount_checked_add_eq)

lemma tally_sub_ok:
  assumes "amount_val p \<le> amount_val (t x)"
  shows "tally_sub x p t = Inr (t(x := amount_of (amount_val (t x) - amount_val p)))"
  using assms by (simp add: tally_sub_def amount_minus_def Amount_checked_sub_eq)

definition flat_step :: "ProposalVotes \<Rightarrow> tally \<Rightarrow> ProposalVote \<times> Address \<times> Amount \<Rightarrow> arith_error + tally" where
  "flat_step votes t d = delegation_step votes (fst d) t (snd d)"

lemma rfold_delegations: "rfold (delegation_step votes vote) t ds = rfold (flat_step votes) t (map (Pair vote) ds)"
  by (induction ds arbitrary: t) (auto simp: flat_step_def rbind_def split: sum.splits)

lemma rfold_delegators:
  "rfold (delegator_step votes) t dps =
     rfold (flat_step votes) t
       (concat (map (\<lambda>(delegator, ds). case map_of (delegators_vote votes) delegator of
                     None \<Rightarrow> [] | Some vote \<Rightarrow> map (\<lambda>(validator, p). (vote, validator, p)) ds) dps))"
proof (induction dps arbitrary: t)
  case (Cons d dps)
  show ?case
  proof (cases "map_of (delegators_vote votes) (fst d)")
    case None
    then have "delegator_step votes t d = Inr t" for t by (simp add: delegator_step_def)
    with None show ?thesis by (simp add: Cons.IH split_def)
  next
    case (Some vote)
    then have "delegator_step votes t d = rfold (flat_step votes) t (map (Pair vote) (snd d))" for t
      by (simp add: delegator_step_def rfold_delegations)
    with Some show ?thesis by (simp add: Cons.IH rfold_append split_def)
  qed
qed simp

lemma rfold_validators:
  assumes "\<forall>x. amount_val (t x) + (\<Sum>(_, p) \<leftarrow> ps. amount_val p) < 2 ^ 256"
  shows "\<exists>t'. rfold (validator_step votes) t ps = Inr t' \<and>
     (\<forall>x. amount_val (t' x) = amount_val (t x) +
        (\<Sum>(v, p) \<leftarrow> ps. if map_of (validators_vote votes) v = Some x then amount_val p else 0))"
  using assms
proof (induction ps arbitrary: t)
  case (Cons e ps)
  obtain v p where e: "e = (v, p)" by (cases e)
  show ?case
  proof (cases "map_of (validators_vote votes) v")
    case None
    have "\<forall>x. amount_val (t x) + (\<Sum>(_, p) \<leftarrow> ps. amount_val p) < 2 ^ 256"
    proof
      fix x
      show "amount_val (t x) + (\<Sum>(_, p) \<leftarrow> ps. amount_val p) < 2 ^ 256"
        using Cons.prems [rule_format, of x] unfolding e by simp
    qed
    from Cons.IH [OF this] show ?thesis by (simp add: e validator_step_def None)
  next
    case (Some vote)
    let ?t = "t(vote := amount_of (amount_val (t vote) + amount_val p))"
    have lt: "amount_val (t vote) + amount_val p < 2 ^ 256"
      using Cons.prems [rule_format, of vote] unfolding e by simp
    have "\<forall>x. amount_val (?t x) + (\<Sum>(_, p) \<leftarrow> ps. amount_val p) < 2 ^ 256"
    proof
      fix x
      show "amount_val (?t x) + (\<Sum>(_, p) \<leftarrow> ps. amount_val p) < 2 ^ 256"
        using Cons.prems [rule_format, of x] amount_val_of [OF lt] unfolding e by (cases "x = vote") simp_all
    qed
    from Cons.IH [OF this] obtain t' where t': "rfold (validator_step votes) ?t ps = Inr t'"
      and val: "\<And>x. amount_val (t' x) = amount_val (?t x) +
        (\<Sum>(v, p) \<leftarrow> ps. if map_of (validators_vote votes) v = Some x then amount_val p else 0)" by blast
    have "rfold (validator_step votes) t (e # ps) = Inr t'"
      using t' by (simp add: e validator_step_def Some tally_add_ok [of t vote p, OF lt])
    moreover have "amount_val (t' x) = amount_val (t x) +
        (\<Sum>(v, p) \<leftarrow> e # ps. if map_of (validators_vote votes) v = Some x then amount_val p else 0)" for x
      using val [of x] amount_val_of [OF lt] by (cases "x = vote") (simp_all add: e Some)
    ultimately show ?thesis by blast
  qed
qed simp

definition overridden :: "ProposalVotes \<Rightarrow> (ProposalVote \<times> Address \<times> Amount) list \<Rightarrow> ProposalVote \<Rightarrow> nat" where
  "overridden votes ds x = (\<Sum>(_, v, p) \<leftarrow> ds. if map_of (validators_vote votes) v = Some x then amount_val p else 0)"

definition delegated :: "(ProposalVote \<times> Address \<times> Amount) list \<Rightarrow> ProposalVote \<Rightarrow> nat" where
  "delegated ds x = (\<Sum>(vote, _, p) \<leftarrow> ds. if vote = x then amount_val p else 0)"

definition delegated_total :: "(ProposalVote \<times> Address \<times> Amount) list \<Rightarrow> nat" where
  "delegated_total ds = (\<Sum>(_, _, p) \<leftarrow> ds. amount_val p)"

lemma flat_step_ok:
  assumes room: "\<And>x. amount_val (t x) + amount_val p < 2 ^ 256"
    and covered: "\<And>x. map_of (validators_vote votes) v = Some x \<Longrightarrow> amount_val p \<le> amount_val (t x)"
  obtains t' where "flat_step votes t (vote, v, p) = Inr t'"
    and "\<And>x. amount_val (t' x) + (if map_of (validators_vote votes) v = Some x then amount_val p else 0)
            = amount_val (t x) + (if vote = x then amount_val p else 0)"
proof (cases "map_of (validators_vote votes) v")
  case None
  show ?thesis
    by (rule that [of "t(vote := amount_of (amount_val (t vote) + amount_val p))"])
       (simp_all add: flat_step_def delegation_step_def None tally_add_ok [of t vote p, OF room] amount_val_of [OF room])
next
  case (Some vv)
  show ?thesis
  proof (cases "vv = vote")
    case True
    then show ?thesis
      by (intro that [of t]) (simp_all add: flat_step_def delegation_step_def Some is_same_side_eq)
  next
    case False
    let ?t = "t(vote := amount_of (amount_val (t vote) + amount_val p))"
    have sub: "tally_sub vv p ?t = Inr (?t(vv := amount_of (amount_val (?t vv) - amount_val p)))"
      by (rule tally_sub_ok) (use covered [OF Some] False in simp)
    show ?thesis
    proof (rule that)
      show "flat_step votes t (vote, v, p) = Inr (?t(vv := amount_of (amount_val (?t vv) - amount_val p)))"
        using False sub by (simp add: flat_step_def delegation_step_def Some is_same_side_eq tally_add_ok [of t vote p, OF room])
      show "amount_val ((?t(vv := amount_of (amount_val (?t vv) - amount_val p))) x)
            + (if map_of (validators_vote votes) v = Some x then amount_val p else 0)
            = amount_val (t x) + (if vote = x then amount_val p else 0)" for x
        using False covered [OF Some] by (cases "x = vv"; cases "x = vote") (simp_all add: Some amount_val_of [OF room])
    qed
  qed
qed

lemma rfold_flat:
  assumes "\<And>x. overridden votes ds x \<le> amount_val (t x)"
    and "\<And>x. amount_val (t x) + delegated_total ds < 2 ^ 256"
  shows "\<exists>t'. rfold (flat_step votes) t ds = Inr t' \<and>
     (\<forall>x. amount_val (t' x) + overridden votes ds x = amount_val (t x) + delegated ds x)"
  using assms
proof (induction ds arbitrary: t)
  case Nil
  then show ?case by (simp add: overridden_def delegated_def)
next
  case (Cons d ds)
  obtain vote v p where d: "d = (vote, v, p)" by (cases d)
  let ?o = "\<lambda>x. if map_of (validators_vote votes) v = Some x then amount_val p else 0"
  have ov: "overridden votes (d # ds) x = ?o x + overridden votes ds x" for x by (simp add: overridden_def d)
  have dl: "delegated (d # ds) x = (if vote = x then amount_val p else 0) + delegated ds x" for x
    by (simp add: delegated_def d)
  have tot: "delegated_total (d # ds) = amount_val p + delegated_total ds" by (simp add: delegated_total_def d)
  have room: "amount_val (t x) + amount_val p < 2 ^ 256" for x using Cons.prems(2) [of x] unfolding tot by linarith
  have cov: "amount_val p \<le> amount_val (t x)" if "map_of (validators_vote votes) v = Some x" for x
    using Cons.prems(1) [of x] that unfolding ov by simp
  obtain t1 where t1: "flat_step votes t (vote, v, p) = Inr t1"
    and val: "\<And>x. amount_val (t1 x) + ?o x = amount_val (t x) + (if vote = x then amount_val p else 0)"
    by (rule flat_step_ok [OF room cov]) blast+
  have "overridden votes ds x \<le> amount_val (t1 x)" for x
    using Cons.prems(1) [of x] val [of x] unfolding ov by linarith
  moreover have "amount_val (t1 x) + delegated_total ds < 2 ^ 256" for x
  proof -
    have "amount_val (t1 x) \<le> amount_val (t x) + amount_val p" using val [of x] by (auto split: if_splits)
    then show ?thesis using Cons.prems(2) [of x] unfolding tot by linarith
  qed
  ultimately obtain t' where t': "rfold (flat_step votes) t1 ds = Inr t'"
    and val': "\<And>x. amount_val (t' x) + overridden votes ds x = amount_val (t1 x) + delegated ds x"
    using Cons.IH [of t1] by blast
  have "rfold (flat_step votes) t (d # ds) = Inr t'" by (simp add: d t1 t')
  moreover have "amount_val (t' x) + overridden votes (d # ds) x = amount_val (t x) + delegated (d # ds) x" for x
    unfolding ov dl using val [of x] val' [of x] by linarith
  ultimately show ?case by blast
qed

lemma sum_list_exchange:
  assumes "distinct (map fst ps)" "fst ` set ps = A"
  shows "(\<Sum>(v, p) \<leftarrow> ps. if Q v then (\<Sum>d \<leftarrow> ds. if key d = v then w d else 0) else 0)
       = (\<Sum>d \<leftarrow> ds. if key d \<in> A \<and> Q (key d) then w d else (0 :: nat))"
proof (induction ds)
  case Nil
  then show ?case by (auto simp: split_def)
next
  case (Cons d ds)
  have one: "(\<Sum>(v, p) \<leftarrow> ps. if Q v \<and> key d = v then w d else 0) = (if key d \<in> A \<and> Q (key d) then w d else 0)"
    using assms
  proof (induction ps arbitrary: A)
    case (Cons e ps)
    from Cons.prems have "fst e \<notin> fst ` set ps" by simp
    with Cons.IH [of "fst ` set ps"] Cons.prems show ?case by (cases e) auto
  qed simp
  have "(\<Sum>(v, p) \<leftarrow> ps. if Q v then (\<Sum>d \<leftarrow> d # ds. if key d = v then w d else 0) else 0)
      = (\<Sum>(v, p) \<leftarrow> ps. (if Q v \<and> key d = v then w d else 0) + (if Q v then (\<Sum>d \<leftarrow> ds. if key d = v then w d else 0) else 0))"
    by (rule arg_cong [where f = sum_list], rule map_cong) auto
  also have "\<dots> = (\<Sum>(v, p) \<leftarrow> ps. if Q v \<and> key d = v then w d else 0)
      + (\<Sum>(v, p) \<leftarrow> ps. if Q v then (\<Sum>d \<leftarrow> ds. if key d = v then w d else 0) else 0)"
    by (simp add: split_def sum_list_addf)
  finally show ?case unfolding one Cons.IH by simp
qed

lemma overridden_by_validator:
  assumes "votes_wf votes"
  shows "overridden votes (voted_delegations votes) x =
    (\<Sum>(v, p) \<leftarrow> validator_voting_power votes.
        if map_of (validators_vote votes) v = Some x then overriding_power votes v else 0)"
proof -
  let ?ds = "voted_delegations votes"
  have dis: "distinct (map fst (validator_voting_power votes))"
    and dom: "fst ` set (validator_voting_power votes) = fst ` set (validators_vote votes)"
    using assms unfolding votes_wf_def im_ok_def by blast+
  have key: "(fst (snd d) \<in> fst ` set (validators_vote votes) \<and> map_of (validators_vote votes) (fst (snd d)) = Some x)
      \<longleftrightarrow> map_of (validators_vote votes) (fst (snd d)) = Some x" for d :: "ProposalVote \<times> Address \<times> Amount"
    by (auto dest: map_of_SomeD simp: image_iff intro: rev_bexI)
  show ?thesis
    unfolding overridden_def overriding_power_def split_def
    using sum_list_exchange [OF dis dom, where Q = "\<lambda>v. map_of (validators_vote votes) v = Some x" and
        key = "\<lambda>d. fst (snd d)" and w = "\<lambda>d. amount_val (snd (snd d))" and ds = ?ds]
    unfolding key split_def by (rule sym)
qed

lemma tally_counts:
  assumes wf: "votes_wf votes" and room: "total_recorded votes < 2 ^ 256"
  obtains t1 t2 where "rfold (validator_step votes) (\<lambda>_. Amount_zero) (validator_voting_power votes) = Inr t1"
    and "rfold (delegator_step votes) t1 (delegator_voting_power votes) = Inr t2"
    and "\<And>x. amount_val (t2 x) = counted_power votes x"
proof -
  let ?ds = "voted_delegations votes"
  let ?ps = "validator_voting_power votes"
  let ?side = "\<lambda>x. \<Sum>(v, p) \<leftarrow> ?ps. if map_of (validators_vote votes) v = Some x then amount_val p else 0"
  have tot: "total_recorded votes = (\<Sum>(_, p) \<leftarrow> ?ps. amount_val p) + delegated_total ?ds"
    by (simp add: total_recorded_def delegated_total_def)
  have room1: "\<forall>x. amount_val Amount_zero + (\<Sum>(_, p) \<leftarrow> ?ps. amount_val p) < 2 ^ 256"
    using room unfolding tot amount_val_zero by linarith
  obtain t1 where t1: "rfold (validator_step votes) (\<lambda>_. Amount_zero) ?ps = Inr t1" and v1: "\<And>x. amount_val (t1 x) = ?side x"
    using rfold_validators [of "\<lambda>_. Amount_zero", OF room1, of votes] by auto
  have le: "?side x \<le> (\<Sum>(_, p) \<leftarrow> ?ps. amount_val p)" for x
    unfolding split_def by (rule sum_list_mono) simp
  have ov: "(\<Sum>(v, p) \<leftarrow> ?ps. if map_of (validators_vote votes) v = Some x then amount_val p - overriding_power votes v else 0)
      + overridden votes ?ds x = ?side x" for x
  proof -
    have "list_all (\<lambda>(v, p). overriding_power votes v \<le> amount_val p) ?ps"
      using wf unfolding votes_wf_def by blast
    then show ?thesis
      unfolding overridden_by_validator [OF wf] split_def list_all_iff sum_list_addf [symmetric]
      by (intro arg_cong [where f = sum_list] map_cong) auto
  qed
  have p1: "overridden votes ?ds x \<le> amount_val (t1 x)" for x using ov [of x] unfolding v1 by linarith
  have p2: "amount_val (t1 x) + delegated_total ?ds < 2 ^ 256" for x
    using room le [of x] unfolding tot v1 by linarith
  obtain t2 where t2: "rfold (flat_step votes) t1 ?ds = Inr t2"
    and v2: "\<And>x. amount_val (t2 x) + overridden votes ?ds x = amount_val (t1 x) + delegated ?ds x"
    using rfold_flat [OF p1 p2] by blast
  show thesis
  proof (rule that [OF t1])
    show "rfold (delegator_step votes) t1 (delegator_voting_power votes) = Inr t2"
      unfolding rfold_delegators t2 [unfolded voted_delegations_def] ..
    show "amount_val (t2 x) = counted_power votes x" for x
      using v2 [of x] ov [of x] unfolding v1 counted_power_def delegated_def by linarith
  qed
qed

section \<open>When a proposal passes\<close>

text \<open>
  The thresholds of the source are the decimals 0.333333333333 and 0.666666666666, not the
  fractions themselves.
\<close>

fun tally_passes :: "TallyType \<Rightarrow> nat \<Rightarrow> nat \<Rightarrow> nat \<Rightarrow> nat \<Rightarrow> bool" where
  "tally_passes TwoThirds yay nay abstain tot \<longleftrightarrow>
     666666666666 * tot \<le> 10 ^ 12 * (yay + nay + abstain) \<and> 666666666666 * (yay + nay) \<le> 10 ^ 12 * yay"
| "tally_passes OneHalfOverOneThird yay nay abstain tot \<longleftrightarrow>
     333333333333 * tot \<le> 10 ^ 12 * (yay + nay + abstain) \<and> nay < yay"
| "tally_passes LessOneHalfOverOneThirdNay yay nay abstain tot \<longleftrightarrow>
     10 ^ 12 * (yay + nay + abstain) < 333333333333 * tot \<or> nay < yay"

lemma amount_plus_ok:
  assumes "amount_val a + amount_val b < 2 ^ 256"
  shows "amount_plus a b = Inr (amount_of (amount_val a + amount_val b))"
  using assms by (simp add: amount_plus_def Amount_checked_add_eq)

lemma get_total_voted_power_ok:
  assumes "amount_val y + amount_val n + amount_val a < 2 ^ 256"
  shows "get_total_voted_power y n a = Inr (amount_of (amount_val y + amount_val n + amount_val a))"
proof -
  have yn: "amount_val y + amount_val n < 2 ^ 256" using assms by linarith
  show ?thesis
    using assms by (simp add: get_total_voted_power_def amount_plus_ok [OF yn] amount_plus_ok amount_val_of [OF yn])
qed

lemma share_ceil_le_iff:
  assumes "0 \<le> k" "k \<le> 10 ^ 12" and bound: "amount_val a * 10 ^ 12 < 2 ^ 256"
  obtains c where "share_ceil a (Some (dec_of k)) = Inr c"
    and "\<And>b. c \<le> b \<longleftrightarrow> nat k * amount_val a \<le> 10 ^ 12 * amount_val b"
proof -
  have k: "\<bar>k\<bar> < 2 ^ 255" using assms(1,2) by simp
  have "amount_val a * nat k \<le> amount_val a * 10 ^ 12" using assms(2) by (intro mult_left_mono) simp_all
  then have fits: "amount_val a * nat k < 2 ^ 256" using bound by linarith
  let ?c = "div_ceil (amount_val a * nat k) (10 ^ 12)"
  have "?c \<le> amount_val a * nat k" by (simp add: div_ceil_le_iff)
  then have c: "?c < 2 ^ 256" using fits by linarith
  show thesis
  proof (rule that)
    show "share_ceil a (Some (dec_of k)) = Inr (amount_of ?c)"
      using fits assms(1) by (simp add: share_ceil_def Amount_mul_ceil_eq [OF Dec_inv_of [OF k]] dec_val_of [OF k])
    show "amount_of ?c \<le> b \<longleftrightarrow> nat k * amount_val a \<le> 10 ^ 12 * amount_val b" for b
      unfolding amount_le_iff amount_val_of [OF c] by (simp add: div_ceil_le_iff mult.commute)
  qed
qed

lemma TallyResult_new_exact:
  assumes total: "amount_val tot * 10 ^ 12 < 2 ^ 256"
    and voted: "(amount_val y + amount_val n + amount_val a) * 10 ^ 12 < 2 ^ 256"
  shows "TallyResult_new tt y n a tot = Inr
    (if tally_passes tt (amount_val y) (amount_val n) (amount_val a) (amount_val tot) then Passed else Rejected)"
proof -
  have v: "amount_val y + amount_val n + amount_val a < 2 ^ 256" and yn: "amount_val n + amount_val y < 2 ^ 256"
    and yn12: "amount_val (amount_of (amount_val n + amount_val y)) * 10 ^ 12 < 2 ^ 256"
    using voted by simp_all
  obtain c2 where c2: "share_ceil tot (Some (dec_of 666666666666)) = Inr c2"
    and c2le: "\<And>b. c2 \<le> b \<longleftrightarrow> nat 666666666666 * amount_val tot \<le> 10 ^ 12 * amount_val b"
    by (rule share_ceil_le_iff [OF _ _ total, of 666666666666]) simp_all
  obtain c1 where c1: "share_ceil tot (Some (dec_of 333333333333)) = Inr c1"
    and c1le: "\<And>b. c1 \<le> b \<longleftrightarrow> nat 333333333333 * amount_val tot \<le> 10 ^ 12 * amount_val b"
    by (rule share_ceil_le_iff [OF _ _ total, of 333333333333]) simp_all
  obtain cy where cy: "share_ceil (amount_of (amount_val n + amount_val y)) (Some (dec_of 666666666666)) = Inr cy"
    and cyle: "\<And>b. cy \<le> b \<longleftrightarrow> nat 666666666666 * (amount_val n + amount_val y) \<le> 10 ^ 12 * amount_val b"
    by (rule share_ceil_le_iff [OF _ _ yn12, of 666666666666]) (simp_all add: amount_val_of [OF yn])
  define V where "V = amount_of (amount_val y + amount_val n + amount_val a)"
  have av: "amount_val V = amount_val y + amount_val n + amount_val a" unfolding V_def by (rule amount_val_of [OF v])
  have s2: "c2 \<le> V \<longleftrightarrow> 666666666666 * amount_val tot \<le> 10 ^ 12 * (amount_val y + amount_val n + amount_val a)"
    using c2le [of V] by (simp add: av)
  have s1: "c1 \<le> V \<longleftrightarrow> 333333333333 * amount_val tot \<le> 10 ^ 12 * (amount_val y + amount_val n + amount_val a)"
    using c1le [of V] by (simp add: av)
  have l1: "V < c1 \<longleftrightarrow> 10 ^ 12 * (amount_val y + amount_val n + amount_val a) < 333333333333 * amount_val tot"
    using s1 by (simp only: amount_less_iff amount_le_iff flip: not_le)
  have sy: "cy \<le> y \<longleftrightarrow> 666666666666 * (amount_val y + amount_val n) \<le> 10 ^ 12 * amount_val y"
    using cyle [of y] by (simp add: add.commute)
  show ?thesis
    by (cases tt)
       (simp_all only: TallyResult_new_def get_total_voted_power_ok [OF v] V_def [symmetric] Dec_constants c1 c2 cy
         amount_plus_ok [OF yn] s2 s1 l1 sy amount_less_iff [of n y] TallyType.case rbind_simps tally_passes.simps)
qed

lemma sides_le_total: "counted_power votes Yay + counted_power votes Nay + counted_power votes Abstain \<le> total_recorded votes"
proof -
  let ?ps = "validator_voting_power votes"
  let ?own = "\<lambda>x e. if map_of (validators_vote votes) (fst e) = Some x then amount_val (snd e) - overriding_power votes (fst e) else 0"
  let ?del = "\<lambda>x d. if fst d = x then amount_val (snd (snd d)) else 0"
  have c: "counted_power votes x = (\<Sum>e \<leftarrow> ?ps. ?own x e) + (\<Sum>d \<leftarrow> voted_delegations votes. ?del x d)" for x
    by (simp add: counted_power_def split_def)
  have "(\<Sum>e \<leftarrow> ?ps. ?own Yay e) + (\<Sum>e \<leftarrow> ?ps. ?own Nay e) + (\<Sum>e \<leftarrow> ?ps. ?own Abstain e)
      = (\<Sum>e \<leftarrow> ?ps. ?own Yay e + ?own Nay e + ?own Abstain e)"
    by (simp only: sum_list_addf)
  also have "\<dots> \<le> (\<Sum>e \<leftarrow> ?ps. amount_val (snd e))" by (rule sum_list_mono) auto
  finally have 1: "(\<Sum>e \<leftarrow> ?ps. ?own Yay e) + (\<Sum>e \<leftarrow> ?ps. ?own Nay e) + (\<Sum>e \<leftarrow> ?ps. ?own Abstain e)
    \<le> (\<Sum>e \<leftarrow> ?ps. amount_val (snd e))" .
  have "(\<Sum>d \<leftarrow> ds. ?del Yay d) + (\<Sum>d \<leftarrow> ds. ?del Nay d) + (\<Sum>d \<leftarrow> ds. ?del Abstain d)
      = (\<Sum>d \<leftarrow> ds. ?del Yay d + ?del Nay d + ?del Abstain d)" for ds :: "(ProposalVote \<times> Address \<times> Amount) list"
    by (simp only: sum_list_addf)
  also have "\<dots> ds \<le> (\<Sum>d \<leftarrow> ds. amount_val (snd (snd d)))" for ds :: "(ProposalVote \<times> Address \<times> Amount) list"
    by (rule sum_list_mono) auto
  finally have 2: "(\<Sum>d \<leftarrow> ds. ?del Yay d) + (\<Sum>d \<leftarrow> ds. ?del Nay d) + (\<Sum>d \<leftarrow> ds. ?del Abstain d)
    \<le> (\<Sum>d \<leftarrow> ds. amount_val (snd (snd d)))" for ds :: "(ProposalVote \<times> Address \<times> Amount) list" .
  show ?thesis
    unfolding c total_recorded_def split_def using 1 2 [of "voted_delegations votes"] by linarith
qed

text \<open>
  C6: The tally of a proposal succeeds and is the reference count: every validator's vote counts
  for the power of the bonds whose owner did not vote, every voting delegator's bonds count for
  the delegator's own vote wherever they are bonded, so no power counts twice; the proposal
  passes exactly when the thresholds of its type are met by these counts. It holds for votes in which every
  voting validator has a recorded power that covers its delegators' bonds, and powers below
  2^256 / 10^12.
\<close>

theorem proposal_tally_counts_once:
  assumes wf: "votes_wf votes"
    and voted: "total_recorded votes * 10 ^ 12 < 2 ^ 256"
    and tot: "amount_val total_voting_power * 10 ^ 12 < 2 ^ 256"
  shows "\<exists>r. compute_proposal_result votes total_voting_power tally_type = Inr r \<and>
    amount_val (pr_total_yay_power r) = counted_power votes Yay \<and>
    amount_val (pr_total_nay_power r) = counted_power votes Nay \<and>
    amount_val (pr_total_abstain_power r) = counted_power votes Abstain \<and>
    (pr_result r = Passed \<longleftrightarrow>
       tally_passes tally_type (counted_power votes Yay) (counted_power votes Nay) (counted_power votes Abstain)
         (amount_val total_voting_power))"
proof -
  have room: "total_recorded votes < 2 ^ 256" using voted by simp
  obtain t1 t2 where t: "rfold (validator_step votes) (\<lambda>_. Amount_zero) (validator_voting_power votes) = Inr t1"
      "rfold (delegator_step votes) t1 (delegator_voting_power votes) = Inr t2"
    and val: "\<And>x. amount_val (t2 x) = counted_power votes x"
    by (rule tally_counts [OF wf room]) blast
  have "(counted_power votes Yay + counted_power votes Nay + counted_power votes Abstain) * 10 ^ 12
      \<le> total_recorded votes * 10 ^ 12" by (rule mult_right_mono [OF sides_le_total]) simp
  then have "(amount_val (t2 Yay) + amount_val (t2 Nay) + amount_val (t2 Abstain)) * 10 ^ 12 < 2 ^ 256"
    unfolding val using voted by linarith
  from TallyResult_new_exact [OF tot this, of tally_type] show ?thesis
    by (simp add: compute_proposal_result_def t val)
qed

definition sample_voter :: "u8 \<Rightarrow> Address" where
  "sample_voter n = Established (replicate 20 n)"

lemma sample_voter_eq [simp]: "sample_voter m = sample_voter n \<longleftrightarrow> m = n"
  by (simp add: sample_voter_def)

definition sample_votes :: ProposalVotes where
  "sample_votes =
     add_delegator (sample_voter 3) (sample_voter 1) (amount_of 40) Nay
      (add_delegator (sample_voter 3) (sample_voter 9) (amount_of 5) Nay
        (add_validator (sample_voter 2) (amount_of 50) Abstain
          (add_validator (sample_voter 1) (amount_of 100) Yay
             \<lparr>validators_vote = [], validator_voting_power = [], delegators_vote = [], delegator_voting_power = []\<rparr>)))"

lemma sample_votes_eq: "sample_votes =
  \<lparr>validators_vote = [(sample_voter 1, Yay), (sample_voter 2, Abstain)],
   validator_voting_power = [(sample_voter 1, amount_of 100), (sample_voter 2, amount_of 50)],
   delegators_vote = [(sample_voter 3, Nay)],
   delegator_voting_power = [(sample_voter 3, [(sample_voter 9, amount_of 5), (sample_voter 1, amount_of 40)])]\<rparr>"
  by (simp add: sample_votes_def add_validator_def add_delegator_def)

lemma sample_votes_counts:
  "voted_delegations sample_votes = [(Nay, sample_voter 9, amount_of 5), (Nay, sample_voter 1, amount_of 40)]"
  "counted_power sample_votes Yay = 60" "counted_power sample_votes Nay = 45" "counted_power sample_votes Abstain = 50"
  "total_recorded sample_votes = 195" "votes_wf sample_votes"
proof -
  show v: "voted_delegations sample_votes = [(Nay, sample_voter 9, amount_of 5), (Nay, sample_voter 1, amount_of 40)]"
    by (simp add: voted_delegations_def sample_votes_eq)
  have o: "overriding_power sample_votes (sample_voter n) = (if n = 9 then 5 else 0) + (if n = 1 then 40 else 0)" for n
    by (simp add: overriding_power_def v)
  show "counted_power sample_votes Yay = 60" "counted_power sample_votes Nay = 45" "counted_power sample_votes Abstain = 50"
    by (simp_all add: counted_power_def v o) (simp_all add: sample_votes_eq o [unfolded sample_votes_eq])
  show "total_recorded sample_votes = 195" by (simp add: total_recorded_def v) (simp add: sample_votes_eq)
  show "votes_wf sample_votes"
    by (simp add: votes_wf_def im_ok_def) (simp add: sample_votes_eq o [unfolded sample_votes_eq])
qed

theorem proposal_tally_counts_once_witness:
  "\<exists>r. compute_proposal_result sample_votes (amount_of 195) OneHalfOverOneThird = Inr r \<and>
    amount_val (pr_total_yay_power r) = 60 \<and> amount_val (pr_total_nay_power r) = 45 \<and>
    amount_val (pr_total_abstain_power r) = 50 \<and> pr_result r = Passed"
  using proposal_tally_counts_once [of sample_votes "amount_of 195" OneHalfOverOneThird]
  by (simp add: sample_votes_counts)

text \<open>The maps that \<open>add_validator\<close> builds keep a power for exactly the validators that voted.\<close>

lemma add_validator_domain:
  assumes "im_ok (validator_voting_power votes)"
    and "fst ` set (validator_voting_power votes) = fst ` set (validators_vote votes)"
  shows "im_ok (validator_voting_power (add_validator v p x votes))"
    and "fst ` set (validator_voting_power (add_validator v p x votes)) = fst ` set (validators_vote (add_validator v p x votes))"
  using assms
  by (auto simp: add_validator_def im_ok_def distinct_update dom_update insert_absorb dest: map_of_SomeD
      split: option.split intro: rev_image_eqI)

text \<open>A proposal can not pass by two thirds and be voted down by two thirds, unless nobody took a side.\<close>

lemma two_thirds_exclusive:
  assumes "tally_passes TwoThirds yay nay abstain tot" and "666666666666 * (yay + nay) \<le> 10 ^ 12 * nay"
  shows "yay + nay = 0"
  using assms by simp

lemma two_thirds_nay_exact:
  assumes tot: "amount_val (pr_total_voting_power r) * 10 ^ 12 < 2 ^ 256"
    and voted: "(amount_val (pr_total_yay_power r) + amount_val (pr_total_nay_power r)
                 + amount_val (pr_total_abstain_power r)) * 10 ^ 12 < 2 ^ 256"
  shows "two_thirds_nay_over_two_thirds_total r \<longleftrightarrow>
    tally_passes TwoThirds (amount_val (pr_total_nay_power r)) (amount_val (pr_total_yay_power r))
      (amount_val (pr_total_abstain_power r)) (amount_val (pr_total_voting_power r))"
proof -
  let ?y = "amount_val (pr_total_yay_power r)" and ?n = "amount_val (pr_total_nay_power r)"
  let ?a = "amount_val (pr_total_abstain_power r)"
  have v: "?y + ?n + ?a < 2 ^ 256" and yn: "?y + ?n < 2 ^ 256"
    and yn12: "amount_val (amount_of (?y + ?n)) * 10 ^ 12 < 2 ^ 256" using voted by simp_all
  obtain c2 where c2: "share_ceil (pr_total_voting_power r) (Some (dec_of 666666666666)) = Inr c2"
    and c2le: "\<And>b. c2 \<le> b \<longleftrightarrow> nat 666666666666 * amount_val (pr_total_voting_power r) \<le> 10 ^ 12 * amount_val b"
    by (rule share_ceil_le_iff [OF _ _ tot, of 666666666666]) simp_all
  obtain cy where cy: "share_ceil (amount_of (?y + ?n)) (Some (dec_of 666666666666)) = Inr cy"
    and cyle: "\<And>b. cy \<le> b \<longleftrightarrow> nat 666666666666 * (?y + ?n) \<le> 10 ^ 12 * amount_val b"
    by (rule share_ceil_le_iff [OF _ _ yn12, of 666666666666]) (simp_all add: amount_val_of [OF yn])
  have "c2 \<le> amount_of (?y + ?n + ?a) \<longleftrightarrow> 666666666666 * amount_val (pr_total_voting_power r) \<le> 10 ^ 12 * (?n + ?y + ?a)"
    using c2le [of "amount_of (?y + ?n + ?a)"] unfolding amount_val_of [OF v] by (simp add: add.commute)
  moreover have "cy \<le> pr_total_nay_power r \<longleftrightarrow> 666666666666 * (?n + ?y) \<le> 10 ^ 12 * ?n"
    using cyle by (simp add: add.commute)
  ultimately show ?thesis
    by (simp only: two_thirds_nay_over_two_thirds_total_def get_total_voted_power_ok [OF v] Dec_constants c2 cy
        amount_plus_ok [OF yn] rbind_simps sum.case tally_passes.simps)
qed

text \<open>The window of validators is the first two thirds of the voting period.\<close>

lemma validator_voting_window:
  assumes "3 * current < 2 ^ 64" "start + 2 * stop < 2 ^ 64"
  shows "is_valid_validator_voting_period current start stop \<longleftrightarrow>
    start < stop \<and> start \<le> current \<and> 3 * (current - start) \<le> 2 * (stop - start)"
  using assms by (auto simp: is_valid_validator_voting_period_def mult.commute)


end
