(* ===== verification/PosSlashing.thy ===== *)
theory PosSlashing
  imports PosState
begin

text \<open>
  How much of a bond is left after slashing (\<open>proof_of_stake/src/slashing.rs\<close> and
  \<open>fold_and_slash_redelegated_bonds\<close> of \<open>lib.rs\<close>). The slashes that storage holds for each validator are the
  argument \<open>validator_slashes\<close>. Maps keyed by an address are association lists: only sums are taken
  over them, so the order in which the source visits addresses does not matter.
\<close>

section \<open>Slashes\<close>

record Slash =
  slash_epoch :: epoch
  slash_block_height :: nat
  slash_type :: SlashType
  slash_rate :: Dec

record ResultSlashing =
  rs_sum :: Amount
  rs_epoch_map :: "(epoch, Amount) btree_map"

definition ResultSlashing_default :: ResultSlashing where
  "ResultSlashing_default = \<lparr>rs_sum = Amount_zero, rs_epoch_map = []\<rparr>"

record FoldRedelegatedBondsResult =
  total_redelegated :: Amount
  total_after_slashing :: Amount

type_synonym redelegated_map = "(Address \<times> epoch, Amount) index_map"

definition plus_amount :: "Amount \<Rightarrow> Amount \<Rightarrow> pos_error + Amount" where
  "plus_amount a b = ok_or (Amount_checked_add a b) PosArith"

definition minus_amount :: "Amount \<Rightarrow> Amount \<Rightarrow> pos_error + Amount" where
  "minus_amount a b = ok_or (Amount_checked_sub a b) PosArith"

definition sub_or_default :: "Amount \<Rightarrow> Amount \<Rightarrow> Amount" where
  "sub_or_default a b = (case Amount_checked_sub a b of None \<Rightarrow> Amount_zero | Some c \<Rightarrow> c)"

definition arith_result :: "arith_error + 'a \<Rightarrow> pos_error + 'a" where
  "arith_result r = (case r of Inl _ \<Rightarrow> Inl PosArith | Inr a \<Rightarrow> Inr a)"

fun rfilter :: "('a \<Rightarrow> 'e + bool) \<Rightarrow> 'a list \<Rightarrow> 'e + 'a list" where
  "rfilter f [] = Inr []"
| "rfilter f (x # xs) = rbind (f x) (\<lambda>b. rbind (rfilter f xs) (\<lambda>ys. Inr (if b then x # ys else ys)))"

text \<open>\<open>epoch.unchecked_add(params.slash_processing_epoch_offset()) <= limit\<close>\<close>

definition processed_by :: "PosParams \<Rightarrow> epoch \<Rightarrow> epoch \<Rightarrow> pos_error + bool" where
  "processed_by params e limit =
     rbind (ok_or (slash_processing_epoch_offset params) OffsetPanic) (\<lambda>n.
     rbind (epoched_result (unchecked_add e n)) (\<lambda>p. Inr (p \<le> limit)))"

definition compute_slashable_amount ::
    "PosParams \<Rightarrow> Slash \<Rightarrow> Amount \<Rightarrow> (epoch, Amount) btree_map \<Rightarrow> pos_error + Amount" where
  "compute_slashable_amount params slash amount computed_slashes =
     rbind (rfold (\<lambda>acc (e, amnt). rbind (processed_by params e (slash_epoch slash)) (\<lambda>b.
              Inr (if b then sub_or_default acc amnt else acc))) amount computed_slashes) (\<lambda>updated_amount.
     arith_result (Amount_mul_ceil updated_amount (slash_rate slash)))"

definition slash_step ::
    "PosParams \<Rightarrow> Amount \<Rightarrow> Amount \<times> (epoch, Amount) btree_map \<Rightarrow> Slash \<Rightarrow> pos_error + Amount \<times> (epoch, Amount) btree_map" where
  "slash_step params amount acc slash =
     (let (final_amount, computed_slashes) = acc
      in rbind (compute_slashable_amount params slash amount computed_slashes) (\<lambda>slashed_amount.
         Inr (sub_or_default final_amount slashed_amount,
              bt_insert (slash_epoch slash) slashed_amount computed_slashes)))"

definition apply_list_slashes :: "PosParams \<Rightarrow> Slash list \<Rightarrow> Amount \<Rightarrow> pos_error + Amount" where
  "apply_list_slashes params slashes amount =
     rbind (rfold (slash_step params amount) (amount, []) slashes) (\<lambda>(final_amount, _). Inr final_amount)"

definition find_slashes_in_range ::
    "(Address \<Rightarrow> Slash list) \<Rightarrow> epoch \<Rightarrow> epoch option \<Rightarrow> Address \<Rightarrow> pos_error + (epoch, Dec) btree_map" where
  "find_slashes_in_range validator_slashes start stop validator =
     rfold (\<lambda>slashes slash.
        if start \<le> slash_epoch slash \<and> (case stop of None \<Rightarrow> True | Some e \<Rightarrow> slash_epoch slash < e)
        then
          let cur_rate = (case map_of slashes (slash_epoch slash) of None \<Rightarrow> Dec_zero | Some r \<Rightarrow> r)
          in rbind (ok_or (Dec_checked_add cur_rate (slash_rate slash)) PosArith) (\<lambda>new_rate.
             rbind (ok_or Dec_one PosArith) (\<lambda>one.
             Inr (bt_insert (slash_epoch slash) (min new_rate one) slashes)))
        else Inr slashes)
      [] (validator_slashes validator)"

section \<open>Slashing by rates per epoch\<close>

text \<open>
  \<open>get_slashed_amount\<close> keeps the slashed amounts that are not yet deducted. Those processed before the
  infraction at hand are deducted and removed.
\<close>

definition deduct_processed ::
    "PosParams \<Rightarrow> epoch \<Rightarrow> Amount \<Rightarrow> (epoch \<times> Amount) list \<Rightarrow> pos_error + Amount \<times> (epoch \<times> Amount) list" where
  "deduct_processed params infraction_epoch updated_amount computed_amounts =
     rfold (\<lambda>(upd, kept) (e, a).
        rbind (ok_or (slash_processing_epoch_offset params) OffsetPanic) (\<lambda>n.
        rbind (epoch_plus e n) (\<lambda>p.
        Inr (if p \<le> infraction_epoch then (sub_or_default upd a, kept) else (upd, kept @ [(e, a)])))))
      (updated_amount, []) computed_amounts"

definition slashed_amount_step ::
    "PosParams \<Rightarrow> Amount \<times> (epoch \<times> Amount) list \<Rightarrow> epoch \<times> Dec \<Rightarrow> pos_error + Amount \<times> (epoch \<times> Amount) list" where
  "slashed_amount_step params acc entry =
     (let (updated_amount, computed_amounts) = acc; (infraction_epoch, rate) = entry
      in rbind (deduct_processed params infraction_epoch updated_amount computed_amounts) (\<lambda>(updated_amount, computed_amounts).
         rbind (arith_result (Amount_mul_ceil updated_amount rate)) (\<lambda>a.
         Inr (updated_amount, computed_amounts @ [(infraction_epoch, a)]))))"

definition get_slashed_amount :: "PosParams \<Rightarrow> Amount \<Rightarrow> (epoch, Dec) btree_map \<Rightarrow> pos_error + Amount" where
  "get_slashed_amount params amount slashes =
     rbind (rfold (slashed_amount_step params) (amount, []) slashes) (\<lambda>(updated_amount, computed_amounts).
     rbind (ok_or (Amount_sum (map snd computed_amounts)) PosArith) (\<lambda>total_computed_amounts.
     Inr (sub_or_default updated_amount total_computed_amounts)))"

section \<open>Redelegated and other unbonds\<close>

definition in_redelegation_window :: "PosParams \<Rightarrow> epoch \<Rightarrow> epoch \<Rightarrow> pos_error + bool" where
  "in_redelegation_window params redel_end e =
     rbind (ok_or (redelegation_start_epoch_from_end params redel_end) OffsetPanic) (\<lambda>redel_start.
     ok_or (in_redelegation_slashing_window params e redel_start redel_end) OffsetPanic)"

definition redelegation_slashes ::
    "PosParams \<Rightarrow> epoch \<Rightarrow> epoch \<Rightarrow> (epoch \<Rightarrow> pos_error + bool) \<Rightarrow> Slash list \<Rightarrow> pos_error + Slash list" where
  "redelegation_slashes params start_epoch bond_start slash_epoch_filter slashes =
     rfilter (\<lambda>slash.
        rbind (in_redelegation_window params start_epoch (slash_epoch slash)) (\<lambda>w.
        if w \<and> bond_start \<le> slash_epoch slash then slash_epoch_filter (slash_epoch slash) else Inr False)) slashes"

definition fold_redelegated_step ::
    "(Address \<Rightarrow> Slash list) \<Rightarrow> PosParams \<Rightarrow> epoch \<Rightarrow> Slash list \<Rightarrow> (epoch \<Rightarrow> pos_error + bool) \<Rightarrow>
     FoldRedelegatedBondsResult \<Rightarrow> (Address \<times> epoch) \<times> Amount \<Rightarrow> pos_error + FoldRedelegatedBondsResult" where
  "fold_redelegated_step validator_slashes params start_epoch list_slashes slash_epoch_filter result entry =
     (let ((src_validator, bond_start), change) = entry
      in rbind (redelegation_slashes params start_epoch bond_start slash_epoch_filter (validator_slashes src_validator)) (\<lambda>ss.
         let merged = sort_key slash_epoch (ss @ list_slashes)
         in rbind (plus_amount (total_redelegated result) change) (\<lambda>t.
            rbind (apply_list_slashes params merged change) (\<lambda>a.
            rbind (plus_amount (total_after_slashing result) a) (\<lambda>u.
            Inr \<lparr>total_redelegated = t, total_after_slashing = u\<rparr>)))))"

definition fold_and_slash_redelegated_bonds ::
    "(Address \<Rightarrow> Slash list) \<Rightarrow> PosParams \<Rightarrow> redelegated_map \<Rightarrow> epoch \<Rightarrow> Slash list \<Rightarrow> (epoch \<Rightarrow> pos_error + bool) \<Rightarrow>
     pos_error + FoldRedelegatedBondsResult" where
  "fold_and_slash_redelegated_bonds validator_slashes params redelegated_unbonds start_epoch list_slashes slash_epoch_filter =
     rfold (fold_redelegated_step validator_slashes params start_epoch list_slashes slash_epoch_filter)
       \<lparr>total_redelegated = Amount_zero, total_after_slashing = Amount_zero\<rparr> redelegated_unbonds"

definition compute_bond_at_epoch ::
    "(Address \<Rightarrow> Slash list) \<Rightarrow> PosParams \<Rightarrow> Address \<Rightarrow> epoch \<Rightarrow> epoch \<Rightarrow> Amount \<Rightarrow> redelegated_map option \<Rightarrow> pos_error + Amount" where
  "compute_bond_at_epoch validator_slashes params validator e start amount redelegated_bonds =
     rbind (rfilter (\<lambda>slash. if start \<le> slash_epoch slash then processed_by params (slash_epoch slash) e else Inr False)
              (validator_slashes validator)) (\<lambda>list_slashes.
     rbind (case redelegated_bonds of
              Some m \<Rightarrow> fold_and_slash_redelegated_bonds validator_slashes params m start list_slashes
                          (\<lambda>se. processed_by params se e)
            | None \<Rightarrow> Inr \<lparr>total_redelegated = Amount_zero, total_after_slashing = Amount_zero\<rparr>) (\<lambda>result_fold.
     rbind (minus_amount amount (total_redelegated result_fold)) (\<lambda>total_not_redelegated.
     rbind (apply_list_slashes params list_slashes total_not_redelegated) (\<lambda>after_not_redelegated.
     plus_amount after_not_redelegated (total_after_slashing result_fold)))))"

definition compute_slash_bond_at_epoch ::
    "(Address \<Rightarrow> Slash list) \<Rightarrow> PosParams \<Rightarrow> Address \<Rightarrow> epoch \<Rightarrow> epoch \<Rightarrow> epoch \<Rightarrow> Amount \<Rightarrow> redelegated_map option \<Rightarrow> Dec \<Rightarrow>
     pos_error + Amount" where
  "compute_slash_bond_at_epoch validator_slashes params validator e infraction_epoch bond_start bond_amount redelegated_bonds rate =
     rbind (compute_bond_at_epoch validator_slashes params validator infraction_epoch bond_start bond_amount redelegated_bonds) (\<lambda>b.
     rbind (arith_result (Amount_mul_ceil b rate)) (\<lambda>amount_due.
     rbind (compute_bond_at_epoch validator_slashes params validator e bond_start bond_amount redelegated_bonds) (\<lambda>slashable_amount.
     Inr (min amount_due slashable_amount))))"

text \<open>
  The unbonds of one unbonding by the start of their bond, and the withdrawable unbonds by start
  and withdrawal epoch, each with the redelegated part of it.
\<close>

definition result_add :: "epoch \<Rightarrow> Amount \<Rightarrow> ResultSlashing \<Rightarrow> pos_error + ResultSlashing" where
  "result_add start_epoch amount_after_slashing result_slashing =
     rbind (plus_amount (rs_sum result_slashing) amount_after_slashing) (\<lambda>t.
     Inr \<lparr>rs_sum = t, rs_epoch_map = bt_insert start_epoch amount_after_slashing (rs_epoch_map result_slashing)\<rparr>)"

definition unbond_slash_step ::
    "(Address \<Rightarrow> Slash list) \<Rightarrow> PosParams \<Rightarrow> (epoch, redelegated_map) btree_map \<Rightarrow> Slash list \<Rightarrow>
     ResultSlashing \<Rightarrow> epoch \<times> Amount \<Rightarrow> pos_error + ResultSlashing" where
  "unbond_slash_step validator_slashes params redelegated_unbonds slashes result_slashing entry =
     (let (start_epoch, amount) = entry;
          list_slashes = filter (\<lambda>slash. slash_epoch slash \<ge> start_epoch) slashes
      in rbind (case map_of redelegated_unbonds start_epoch of
                  Some m \<Rightarrow> fold_and_slash_redelegated_bonds validator_slashes params m start_epoch list_slashes (\<lambda>_. Inr True)
                | None \<Rightarrow> Inr \<lparr>total_redelegated = Amount_zero, total_after_slashing = Amount_zero\<rparr>) (\<lambda>result_fold.
         rbind (apply_list_slashes params list_slashes (sub_or_default amount (total_redelegated result_fold))) (\<lambda>after_not_redelegated.
         rbind (plus_amount after_not_redelegated (total_after_slashing result_fold)) (\<lambda>amount_after_slashing.
         result_add start_epoch amount_after_slashing result_slashing))))"

definition compute_amount_after_slashing_unbond ::
    "(Address \<Rightarrow> Slash list) \<Rightarrow> PosParams \<Rightarrow> (epoch, Amount) btree_map \<Rightarrow> (epoch, redelegated_map) btree_map \<Rightarrow> Slash list \<Rightarrow>
     pos_error + ResultSlashing" where
  "compute_amount_after_slashing_unbond validator_slashes params unbonds redelegated_unbonds slashes =
     rfold (unbond_slash_step validator_slashes params redelegated_unbonds slashes) ResultSlashing_default unbonds"

definition withdraw_slash_step ::
    "(Address \<Rightarrow> Slash list) \<Rightarrow> PosParams \<Rightarrow> Slash list \<Rightarrow>
     ResultSlashing \<Rightarrow> (epoch \<times> epoch) \<times> Amount \<times> redelegated_map \<Rightarrow> pos_error + ResultSlashing" where
  "withdraw_slash_step validator_slashes params slashes result_slashing entry =
     (let ((start_epoch, withdraw_epoch), amount, redelegated_unbonds) = entry
      in rbind (if unbonding_len params + cubic_slashing_window_length params \<le> withdraw_epoch
                then Inr (withdraw_epoch - unbonding_len params - cubic_slashing_window_length params)
                else Inl PosArith) (\<lambda>end_epoch.
         let list_slashes = filter (\<lambda>slash. start_epoch \<le> slash_epoch slash \<and> end_epoch > slash_epoch slash) slashes
         in rbind (fold_and_slash_redelegated_bonds validator_slashes params redelegated_unbonds start_epoch list_slashes
                     (\<lambda>_. Inr True)) (\<lambda>result_fold.
            rbind (minus_amount amount (total_redelegated result_fold)) (\<lambda>total_not_redelegated.
            rbind (apply_list_slashes params list_slashes total_not_redelegated) (\<lambda>after_not_redelegated.
            rbind (plus_amount after_not_redelegated (total_after_slashing result_fold)) (\<lambda>amount_after_slashing.
            result_add start_epoch amount_after_slashing result_slashing))))))"

definition compute_amount_after_slashing_withdraw ::
    "(Address \<Rightarrow> Slash list) \<Rightarrow> PosParams \<Rightarrow> (epoch \<times> epoch, Amount \<times> redelegated_map) btree_map \<Rightarrow> Slash list \<Rightarrow>
     pos_error + ResultSlashing" where
  "compute_amount_after_slashing_withdraw validator_slashes params unbonds_and_redelegated_unbonds slashes =
     rfold (withdraw_slash_step validator_slashes params slashes) ResultSlashing_default unbonds_and_redelegated_unbonds"

section \<open>The reference calculation\<close>

text \<open>
  A slash takes its share, rounded up, of what the slashes processed before its infraction have left;
  what is left in the end is the amount without all of these shares.
\<close>

fun slash_shares :: "nat \<Rightarrow> nat \<Rightarrow> (epoch \<times> nat) list \<Rightarrow> (epoch \<times> nat) list \<Rightarrow> (epoch \<times> nat) list" where
  "slash_shares off amount shares [] = shares"
| "slash_shares off amount shares ((e, rate) # slashes) =
     slash_shares off amount
       (shares @ [(e, div_ceil ((amount - (\<Sum>(e', a) \<leftarrow> shares. if e' + off \<le> e then a else 0)) * rate) (10 ^ 12))]) slashes"

definition amount_left :: "nat \<Rightarrow> nat \<Rightarrow> (epoch \<times> nat) list \<Rightarrow> nat" where
  "amount_left off amount slashes = amount - sum_list (map snd (slash_shares off amount [] slashes))"

definition valid_rate :: "Dec \<Rightarrow> bool" where
  "valid_rate r \<longleftrightarrow> Dec_inv r \<and> 0 \<le> dec_val r \<and> dec_val r \<le> 10 ^ 12"

definition slash_entry :: "Slash \<Rightarrow> epoch \<times> nat" where
  "slash_entry slash = (slash_epoch slash, nat (dec_val (slash_rate slash)))"

text \<open>The slashes of a list are valid when their rates are and their processing epochs exist.\<close>

definition slashes_ok :: "nat \<Rightarrow> Slash list \<Rightarrow> bool" where
  "slashes_ok off slashes \<longleftrightarrow> list_all (\<lambda>slash. valid_rate (slash_rate slash) \<and> slash_epoch slash + off < 2 ^ 64) slashes"

lemma sub_or_default_val [simp]: "amount_val (sub_or_default a b) = amount_val a - amount_val b"
  by (simp add: sub_or_default_def Amount_checked_sub_eq)

lemma mul_ceil_rate:
  assumes "valid_rate r" "amount_val a * 10 ^ 12 < 2 ^ 256"
  shows "\<exists>c. Amount_mul_ceil a r = Inr c \<and> amount_val c = div_ceil (amount_val a * nat (dec_val r)) (10 ^ 12)
    \<and> amount_val c \<le> amount_val a"
proof -
  have r: "Dec_inv r" "0 \<le> dec_val r" "dec_val r \<le> 10 ^ 12" using assms(1) unfolding valid_rate_def by blast+
  have le: "amount_val a * nat (dec_val r) \<le> amount_val a * 10 ^ 12" using r(3) by (intro mult_left_mono) simp_all
  then have fits: "amount_val a * nat (dec_val r) < 2 ^ 256" using assms(2) by linarith
  have c: "div_ceil (amount_val a * nat (dec_val r)) (10 ^ 12) \<le> amount_val a" using le by (simp add: div_ceil_le_iff)
  then have "div_ceil (amount_val a * nat (dec_val r)) (10 ^ 12) < 2 ^ 256" using amount_val_lt [of a] by linarith
  then show ?thesis using c fits r by (simp add: Amount_mul_ceil_eq)
qed

lemma processed_by_eq:
  assumes "slash_processing_epoch_offset params = Some off" "e + off < 2 ^ 64"
  shows "processed_by params e limit = Inr (e + off \<le> limit)"
  using assms by (simp add: processed_by_def unchecked_add_def epoched_result_def)

text \<open>The sum of the shares that are processed by an epoch.\<close>

definition shares_by :: "nat \<Rightarrow> epoch \<Rightarrow> (epoch \<times> Amount) list \<Rightarrow> nat" where
  "shares_by off limit shares = (\<Sum>(e, a) \<leftarrow> shares. if e + off \<le> limit then amount_val a else 0)"

lemma fold_processed:
  assumes off: "slash_processing_epoch_offset params = Some off" and "\<forall>e\<in>fst ` set shares. e + off < 2 ^ 64"
  shows "\<exists>u. rfold (\<lambda>acc (e, amnt). rbind (processed_by params e limit) (\<lambda>b.
              Inr (if b then sub_or_default acc amnt else acc))) amount shares = Inr u
     \<and> amount_val u = amount_val amount - shares_by off limit shares"
  using assms(2)
proof (induction shares arbitrary: amount)
  case (Cons s shares)
  obtain e a where s: "s = (e, a)" by (cases s)
  have p: "processed_by params e limit = Inr (e + off \<le> limit)"
    using Cons.prems by (intro processed_by_eq [OF off]) (simp add: s)
  have "\<forall>e\<in>fst ` set shares. e + off < 2 ^ 64" using Cons.prems by simp
  from Cons.IH [OF this] show ?case by (simp add: s p shares_by_def) (metis sub_or_default_val diff_diff_left)
qed (simp add: shares_by_def)

lemma compute_slashable_amount_eq:
  assumes "slash_processing_epoch_offset params = Some off" "\<forall>e\<in>fst ` set shares. e + off < 2 ^ 64"
    and "valid_rate (slash_rate slash)" "amount_val amount * 10 ^ 12 < 2 ^ 256"
  shows "\<exists>c. compute_slashable_amount params slash amount shares = Inr c \<and>
    amount_val c = div_ceil ((amount_val amount - shares_by off (slash_epoch slash) shares) * nat (dec_val (slash_rate slash))) (10 ^ 12)
    \<and> amount_val c \<le> amount_val amount"
proof -
  obtain u where u: "rfold (\<lambda>acc (e, amnt). rbind (processed_by params e (slash_epoch slash)) (\<lambda>b.
              Inr (if b then sub_or_default acc amnt else acc))) amount shares = Inr u"
    and val: "amount_val u = amount_val amount - shares_by off (slash_epoch slash) shares"
    using fold_processed [OF assms(1,2)] by blast
  have "amount_val u * 10 ^ 12 \<le> amount_val amount * 10 ^ 12" by (intro mult_right_mono) (simp_all add: val)
  then have "amount_val u * 10 ^ 12 < 2 ^ 256" using assms(4) by linarith
  from mul_ceil_rate [OF assms(3) this] obtain c where "Amount_mul_ceil u (slash_rate slash) = Inr c"
    "amount_val c = div_ceil (amount_val u * nat (dec_val (slash_rate slash))) (10 ^ 12)" "amount_val c \<le> amount_val u" by blast
  then show ?thesis using val by (auto simp: compute_slashable_amount_def u arith_result_def)
qed

definition shares_total :: "(epoch \<times> Amount) list \<Rightarrow> nat" where
  "shares_total shares = (\<Sum>(e, a) \<leftarrow> shares. amount_val a)"

lemma shares_total_simps [simp]:
  "shares_total [] = 0" "shares_total ((e, a) # shares) = amount_val a + shares_total shares"
  "shares_total (xs @ ys) = shares_total xs + shares_total ys"
  by (simp_all add: shares_total_def)

lemma shares_total_vals: "sum_list (map snd (map (apsnd amount_val) shares)) = shares_total shares"
  by (induction shares) auto

lemma shares_by_val:
  "shares_by off limit shares = (\<Sum>(e, a) \<leftarrow> map (apsnd amount_val) shares. if e + off \<le> limit then a else 0)"
  by (induction shares) (auto simp: shares_by_def)

lemma slash_step_eq:
  assumes "slash_processing_epoch_offset params = Some off" "\<forall>e\<in>fst ` set shares. e + off < 2 ^ 64"
    and "valid_rate (slash_rate slash)" "amount_val amount * 10 ^ 12 < 2 ^ 256"
  obtains a where "slash_step params amount (final, shares) slash =
      Inr (sub_or_default final a, bt_insert (slash_epoch slash) a shares)"
    and "amount_val a = div_ceil ((amount_val amount - shares_by off (slash_epoch slash) shares) * nat (dec_val (slash_rate slash))) (10 ^ 12)"
    and "amount_val a \<le> amount_val amount"
proof -
  obtain c where c: "compute_slashable_amount params slash amount shares = Inr c" and v: "amount_val c = div_ceil ((amount_val amount - shares_by off (slash_epoch slash) shares) * nat (dec_val (slash_rate slash))) (10 ^ 12)"
    "amount_val c \<le> amount_val amount" using compute_slashable_amount_eq [OF assms] by blast
  show thesis by (rule that [of c]) (use c v in \<open>simp_all add: slash_step_def\<close>)
qed

lemma slashes_okD:
  assumes "slashes_ok off (slash # slashes)"
  shows "valid_rate (slash_rate slash)" "slash_epoch slash + off < 2 ^ 64" "slashes_ok off slashes"
  using assms by (simp_all add: slashes_ok_def)

lemma rfold_slash_step_le:
  assumes off: "slash_processing_epoch_offset params = Some off" and bound: "amount_val amount * 10 ^ 12 < 2 ^ 256"
    and "slashes_ok off slashes" "\<forall>e\<in>fst ` set shares. e + off < 2 ^ 64"
  shows "\<exists>final' shares'. rfold (slash_step params amount) (final, shares) slashes = Inr (final', shares') \<and>
    amount_val final' \<le> amount_val final"
  using assms(3,4)
proof (induction slashes arbitrary: final shares)
  case (Cons slash slashes)
  note ok = slashes_okD [OF Cons.prems(1)]
  obtain a where a: "slash_step params amount (final, shares) slash =
      Inr (sub_or_default final a, bt_insert (slash_epoch slash) a shares)"
    by (rule slash_step_eq [OF off Cons.prems(2) ok(1) bound]) blast
  have keys: "\<forall>e\<in>fst ` set (bt_insert (slash_epoch slash) a shares). e + off < 2 ^ 64"
    using Cons.prems(2) ok(2) by (simp add: set_bt_insert)
  obtain final' shares' where "rfold (slash_step params amount) (sub_or_default final a, bt_insert (slash_epoch slash) a shares) slashes
      = Inr (final', shares')" "amount_val final' \<le> amount_val (sub_or_default final a)"
    using Cons.IH [OF ok(3) keys] by blast
  then show ?case using a by simp
qed simp

text \<open>Slashing succeeds and never adds to an amount.\<close>

lemma apply_list_slashes_le:
  assumes "slash_processing_epoch_offset params = Some off" "amount_val amount * 10 ^ 12 < 2 ^ 256" "slashes_ok off slashes"
  shows "\<exists>a. apply_list_slashes params slashes amount = Inr a \<and> amount_val a \<le> amount_val amount"
  using rfold_slash_step_le [OF assms, of "[]" amount] by (auto simp: apply_list_slashes_def)

lemma rfold_slash_step_shares:
  assumes off: "slash_processing_epoch_offset params = Some off" and bound: "amount_val amount * 10 ^ 12 < 2 ^ 256"
    and "slashes_ok off slashes" "\<forall>e\<in>fst ` set shares. e + off < 2 ^ 64"
    and "sorted_wrt (<) (map fst shares @ map slash_epoch slashes)"
    and "amount_val final = amount_val amount - shares_total shares"
  shows "\<exists>final' shares'. rfold (slash_step params amount) (final, shares) slashes = Inr (final', shares') \<and>
    map (apsnd amount_val) shares' = slash_shares off (amount_val amount) (map (apsnd amount_val) shares) (map slash_entry slashes) \<and>
    amount_val final' = amount_val amount - shares_total shares'"
  using assms(3-6)
proof (induction slashes arbitrary: final shares)
  case (Cons slash slashes)
  note ok = slashes_okD [OF Cons.prems(1)]
  let ?e = "slash_epoch slash"
  obtain a where a: "slash_step params amount (final, shares) slash = Inr (sub_or_default final a, bt_insert ?e a shares)"
    and val: "amount_val a = div_ceil ((amount_val amount - shares_by off ?e shares) * nat (dec_val (slash_rate slash))) (10 ^ 12)"
    by (rule slash_step_eq [OF off Cons.prems(2) ok(1) bound]) blast
  have ins: "bt_insert ?e a shares = shares @ [(?e, a)]"
    using Cons.prems(3) by (intro bt_insert_last) (auto simp: sorted_wrt_append)
  have keys: "\<forall>e\<in>fst ` set (shares @ [(?e, a)]). e + off < 2 ^ 64" using Cons.prems(2) ok(2) by simp
  have sorted: "sorted_wrt (<) (map fst (shares @ [(?e, a)]) @ map slash_epoch slashes)" using Cons.prems(3) by simp
  have fin: "amount_val (sub_or_default final a) = amount_val amount - shares_total (shares @ [(?e, a)])"
    using Cons.prems(4) by (simp add: comp_def)
  obtain final' shares' where r: "rfold (slash_step params amount) (sub_or_default final a, shares @ [(?e, a)]) slashes = Inr (final', shares')"
    and sh: "map (apsnd amount_val) shares' =
      slash_shares off (amount_val amount) (map (apsnd amount_val) (shares @ [(?e, a)])) (map slash_entry slashes)"
    and fv: "amount_val final' = amount_val amount - shares_total shares'"
    using Cons.IH [OF ok(3) keys sorted fin] by blast
  have "slash_shares off (amount_val amount) (map (apsnd amount_val) shares) (map slash_entry (slash # slashes)) =
      slash_shares off (amount_val amount) (map (apsnd amount_val) (shares @ [(?e, a)])) (map slash_entry slashes)"
    by (simp add: slash_entry_def val shares_by_val)
  then show ?case using a r sh fv by (simp add: ins)
qed simp

lemma apply_list_slashes_reference:
  assumes "slash_processing_epoch_offset params = Some off" "amount_val amount * 10 ^ 12 < 2 ^ 256"
    and "slashes_ok off slashes" "sorted_wrt (<) (map slash_epoch slashes)"
  shows "\<exists>a. apply_list_slashes params slashes amount = Inr a \<and>
    amount_val a = amount_left off (amount_val amount) (map slash_entry slashes)"
proof -
  obtain f shares where "rfold (slash_step params amount) (amount, []) slashes = Inr (f, shares)"
    "map (apsnd amount_val) shares = slash_shares off (amount_val amount) [] (map slash_entry slashes)"
    "amount_val f = amount_val amount - shares_total shares"
    using rfold_slash_step_shares [OF assms(1-3), of "[]" amount] assms(4) by auto
  then show ?thesis
    by (simp add: apply_list_slashes_def amount_left_def shares_total_vals [of shares, symmetric] del: map_map)
qed

section \<open>Slashing by rates per epoch follows the reference\<close>

definition kept_after :: "nat \<Rightarrow> epoch \<Rightarrow> (epoch \<times> Amount) list \<Rightarrow> (epoch \<times> Amount) list" where
  "kept_after off limit shares = filter (\<lambda>(e, a). \<not> e + off \<le> limit) shares"

lemma deduct_processed_eq:
  assumes off: "slash_processing_epoch_offset params = Some off" and "\<forall>e\<in>fst ` set shares. e + off < 2 ^ 64"
  shows "\<exists>u. deduct_processed params limit amount shares = Inr (u, kept_after off limit shares) \<and>
    amount_val u = amount_val amount - shares_by off limit shares"
proof -
  have "\<exists>u. rfold (\<lambda>(upd, kept) (e, a).
        rbind (ok_or (slash_processing_epoch_offset params) OffsetPanic) (\<lambda>n.
        rbind (epoch_plus e n) (\<lambda>p.
        Inr (if p \<le> limit then (sub_or_default upd a, kept) else (upd, kept @ [(e, a)])))))
      (amount, ks) shares = Inr (u, ks @ kept_after off limit shares) \<and>
    amount_val u = amount_val amount - shares_by off limit shares" for ks
    using assms(2)
  proof (induction shares arbitrary: amount ks)
    case (Cons s shares)
    obtain e a where s: "s = (e, a)" by (cases s)
    have "epoch_plus e off = Inr (e + off)" using Cons.prems by (simp add: s epoch_plus_def)
    moreover have "\<forall>e\<in>fst ` set shares. e + off < 2 ^ 64" using Cons.prems by simp
    note Cons.IH [OF this, of "sub_or_default amount a" ks] Cons.IH [OF this, of amount "ks @ [(e, a)]"]
    ultimately show ?case using off by (cases "e + off \<le> limit") (auto simp: s shares_by_def kept_after_def)
  qed (simp add: shares_by_def kept_after_def)
  from this [of "[]"] show ?thesis by (simp add: deduct_processed_def)
qed

lemma shares_by_later:
  assumes "limit \<le> limit'"
  shows "shares_by off limit shares + shares_by off limit' (kept_after off limit shares) = shares_by off limit' shares"
    and "kept_after off limit' (kept_after off limit shares) = kept_after off limit' shares"
  using assms by (induction shares) (auto simp: shares_by_def kept_after_def)

lemma shares_by_kept:
  "shares_by off limit shares + shares_total (kept_after off limit shares) =
     shares_total shares"
  by (induction shares) (auto simp: shares_by_def kept_after_def)

lemma slashed_amount_step_eq:
  assumes off: "slash_processing_epoch_offset params = Some off" "0 < off" and bound: "amount_val amount * 10 ^ 12 < 2 ^ 256"
    and rate: "valid_rate rate" and keys: "\<forall>e\<in>fst ` set shares. e + off < 2 ^ 64" and limit: "limit \<le> e"
    and upd: "amount_val upd = amount_val amount - shares_by off limit shares"
  obtains u a where "slashed_amount_step params (upd, kept_after off limit shares) (e, rate) =
      Inr (u, kept_after off e (shares @ [(e, a)]))"
    and "amount_val u = amount_val amount - shares_by off e (shares @ [(e, a)])"
    and "amount_val a = div_ceil ((amount_val amount - shares_by off e shares) * nat (dec_val rate)) (10 ^ 12)"
    and "amount_val a \<le> amount_val amount"
proof -
  have "\<forall>e\<in>fst ` set (kept_after off limit shares). e + off < 2 ^ 64" using keys by (auto simp: kept_after_def)
  then obtain u where u: "deduct_processed params e upd (kept_after off limit shares) = Inr (u, kept_after off e shares)"
    and "amount_val u = amount_val upd - shares_by off e (kept_after off limit shares)"
    using deduct_processed_eq [OF off(1)] shares_by_later(2) [OF limit] by metis
  then have uv: "amount_val u = amount_val amount - shares_by off e shares"
    using shares_by_later(1) [OF limit, of off shares] upd by simp
  have "amount_val u * 10 ^ 12 \<le> amount_val amount * 10 ^ 12" by (intro mult_right_mono) (simp_all add: uv)
  then have "amount_val u * 10 ^ 12 < 2 ^ 256" using bound by linarith
  from mul_ceil_rate [OF rate this] obtain a where a: "Amount_mul_ceil u rate = Inr a"
    "amount_val a = div_ceil (amount_val u * nat (dec_val rate)) (10 ^ 12)" "amount_val a \<le> amount_val u" by blast
  show thesis
    by (rule that [of u a]) (use u uv a off(2) in \<open>simp_all add: slashed_amount_step_def arith_result_def kept_after_def shares_by_def\<close>)
qed

definition rate_entry :: "Slash \<Rightarrow> epoch \<times> Dec" where
  "rate_entry slash = (slash_epoch slash, slash_rate slash)"

lemma rfold_slashed_amount_step:
  assumes off: "slash_processing_epoch_offset params = Some off" "0 < off" and bound: "amount_val amount * 10 ^ 12 < 2 ^ 256"
    and "slashes_ok off slashes" "\<forall>e\<in>fst ` set shares. e + off < 2 ^ 64" "\<forall>a\<in>snd ` set shares. amount_val a \<le> amount_val amount"
    and "sorted_wrt (<) (map slash_epoch slashes)" "\<forall>slash\<in>set slashes. limit \<le> slash_epoch slash"
    and "amount_val upd = amount_val amount - shares_by off limit shares"
  shows "\<exists>u limit' shares'. rfold (slashed_amount_step params) (upd, kept_after off limit shares) (map rate_entry slashes) =
      Inr (u, kept_after off limit' shares') \<and> amount_val u = amount_val amount - shares_by off limit' shares' \<and>
    map (apsnd amount_val) shares' = slash_shares off (amount_val amount) (map (apsnd amount_val) shares) (map slash_entry slashes) \<and>
    (\<forall>a\<in>snd ` set shares'. amount_val a \<le> amount_val amount) \<and> length shares' = length shares + length slashes"
  using assms(4-9)
proof (induction slashes arbitrary: upd limit shares)
  case (Cons slash slashes)
  note ok = slashes_okD [OF Cons.prems(1)]
  let ?e = "slash_epoch slash"
  have le: "limit \<le> ?e" using Cons.prems(5) by simp
  obtain u a where step: "slashed_amount_step params (upd, kept_after off limit shares) (?e, slash_rate slash) =
      Inr (u, kept_after off ?e (shares @ [(?e, a)]))"
    and u: "amount_val u = amount_val amount - shares_by off ?e (shares @ [(?e, a)])"
    and a: "amount_val a = div_ceil ((amount_val amount - shares_by off ?e shares) * nat (dec_val (slash_rate slash))) (10 ^ 12)"
      "amount_val a \<le> amount_val amount"
    by (rule slashed_amount_step_eq [OF off bound ok(1) Cons.prems(2) le Cons.prems(6)]) blast
  have p: "\<forall>e\<in>fst ` set (shares @ [(?e, a)]). e + off < 2 ^ 64" "\<forall>b\<in>snd ` set (shares @ [(?e, a)]). amount_val b \<le> amount_val amount"
    "sorted_wrt (<) (map slash_epoch slashes)" "\<forall>slash\<in>set slashes. ?e \<le> slash_epoch slash"
    using Cons.prems(2-4) ok(2) a(2) by (auto simp: image_Un less_imp_le)
  have sh: "slash_shares off (amount_val amount) (map (apsnd amount_val) shares) (map slash_entry (slash # slashes)) =
      slash_shares off (amount_val amount) (map (apsnd amount_val) (shares @ [(?e, a)])) (map slash_entry slashes)"
    by (simp add: slash_entry_def a(1) shares_by_val)
  have "rfold (slashed_amount_step params) (upd, kept_after off limit shares) (map rate_entry (slash # slashes)) =
      rfold (slashed_amount_step params) (u, kept_after off ?e (shares @ [(?e, a)])) (map rate_entry slashes)"
    by (simp add: rate_entry_def step)
  then show ?case using Cons.IH [OF ok(3) p u] unfolding sh by auto
qed auto

lemma shares_total_bound:
  "\<forall>a\<in>snd ` set shares. amount_val a \<le> n \<Longrightarrow> shares_total shares \<le> length shares * n"
  by (induction shares) auto

lemma Amount_sum_total:
  assumes "shares_total shares < 2 ^ 256"
  obtains t where "Amount_sum (map snd shares) = Some t" "amount_val t = shares_total shares"
proof -
  have "sum_list (map amount_val (map snd shares)) = shares_total shares" by (induction shares) auto
  then show thesis using assms by (intro that [of "amount_of (shares_total shares)"]) (simp_all only: Amount_sum_val amount_val_of)
qed

lemma get_slashed_amount_reference:
  assumes off: "slash_processing_epoch_offset params = Some off" and bound: "amount_val amount * 10 ^ 12 < 2 ^ 256"
    and ok: "slashes_ok off slashes" "sorted_wrt (<) (map slash_epoch slashes)" and few: "length slashes \<le> 10 ^ 12"
  shows "\<exists>a. get_slashed_amount params amount (map rate_entry slashes) = Inr a \<and>
    amount_val a = amount_left off (amount_val amount) (map slash_entry slashes)"
proof -
  have pos: "0 < off" using offsets_eq(2) [OF off] by simp
  obtain u limit shares where f: "rfold (slashed_amount_step params) (amount, []) (map rate_entry slashes) = Inr (u, kept_after off limit shares)"
    and u: "amount_val u = amount_val amount - shares_by off limit shares"
    and sh: "map (apsnd amount_val) shares = slash_shares off (amount_val amount) [] (map slash_entry slashes)"
    and le: "\<forall>a\<in>snd ` set shares. amount_val a \<le> amount_val amount" and len: "length shares = length slashes"
    using rfold_slashed_amount_step [OF off pos bound ok(1), of "[]" 0 amount] ok(2)
    by (auto simp: kept_after_def shares_by_def)
  have "shares_total shares \<le> length shares * amount_val amount" using le by (rule shares_total_bound)
  also have "\<dots> \<le> 10 ^ 12 * amount_val amount" using few len by (intro mult_right_mono) simp_all
  finally have tot: "shares_total shares < 2 ^ 256" using bound by simp
  have split: "shares_by off limit shares + shares_total (kept_after off limit shares) = shares_total shares"
    by (rule shares_by_kept)
  then have "shares_total (kept_after off limit shares) < 2 ^ 256" using tot by linarith
  then obtain t where t: "Amount_sum (map snd (kept_after off limit shares)) = Some t"
    "amount_val t = shares_total (kept_after off limit shares)" by (rule Amount_sum_total)
  have "amount_left off (amount_val amount) (map slash_entry slashes) = amount_val amount - shares_total shares"
    unfolding amount_left_def sh [symmetric] shares_total_vals ..
  then show ?thesis using split by (simp add: get_slashed_amount_def f t u)
qed

text \<open>
  C23: The two calculations of what slashing leaves of an amount agree: the list of slashes applied one
  by one, and the map from epochs to rates used for bonds. Both give the amount without the
  shares of the reference, for slashes of strictly increasing epochs.
\<close>

theorem slashed_amounts_agree:
  assumes "slash_processing_epoch_offset params = Some off" "amount_val amount * 10 ^ 12 < 2 ^ 256"
    and "slashes_ok off slashes" "sorted_wrt (<) (map slash_epoch slashes)" "length slashes \<le> 10 ^ 12"
  shows "\<exists>a. apply_list_slashes params slashes amount = Inr a \<and> get_slashed_amount params amount (map rate_entry slashes) = Inr a \<and>
    amount_val a = amount_left off (amount_val amount) (map slash_entry slashes)"
proof -
  obtain a where a: "apply_list_slashes params slashes amount = Inr a"
    "amount_val a = amount_left off (amount_val amount) (map slash_entry slashes)"
    using apply_list_slashes_reference [OF assms(1-4)] by blast
  obtain b where b: "get_slashed_amount params amount (map rate_entry slashes) = Inr b"
    "amount_val b = amount_left off (amount_val amount) (map slash_entry slashes)"
    using get_slashed_amount_reference [OF assms] by blast
  have "b = a" using a(2) b(2) by (simp add: amount_eq_iff)
  then show ?thesis using a b by blast
qed

definition sample_slash :: "epoch \<Rightarrow> int \<Rightarrow> Slash" where
  "sample_slash e rate = \<lparr>slash_epoch = e, slash_block_height = e, slash_type = DuplicateVote, slash_rate = dec_of rate\<rparr>"

lemma default_offset: "slash_processing_epoch_offset default_pos_params = Some 23"
  by (simp add: slash_processing_epoch_offset_def default_pos_params_def u64_add_def)

lemma sample_slash_rate:
  assumes "0 \<le> rate" "rate \<le> 10 ^ 12"
  shows "valid_rate (slash_rate (sample_slash e rate))" "slash_entry (sample_slash e rate) = (e, nat rate)"
  using assms by (simp_all add: sample_slash_def valid_rate_def slash_entry_def Dec_inv_of dec_val_of)

theorem slashed_amounts_agree_witness:
  "\<exists>a. apply_list_slashes default_pos_params [sample_slash 1 500000000000, sample_slash 30 500000000000] (amount_of 100) = Inr a \<and>
    get_slashed_amount default_pos_params (amount_of 100) [(1, dec_of 500000000000), (30, dec_of 500000000000)] = Inr a \<and>
    amount_val a = 25"
  using slashed_amounts_agree [OF default_offset, of "amount_of 100" "[sample_slash 1 500000000000, sample_slash 30 500000000000]"]
  by (simp add: slashes_ok_def sample_slash_rate amount_left_def div_ceil_def rate_entry_def) (simp add: sample_slash_def)

lemma dec_of_ops:
  assumes "\<bar>a\<bar> \<le> 10 ^ 12" "\<bar>b\<bar> \<le> 10 ^ 12"
  shows "Dec_checked_add (dec_of a) (dec_of b) = Some (dec_of (a + b))" "min (dec_of a) (dec_of b) = dec_of (min a b)"
proof -
  have small: "\<bar>a\<bar> < 2 ^ 255" "\<bar>b\<bar> < 2 ^ 255" "\<bar>a + b\<bar> < 2 ^ 255" using assms by auto
  note vals = Dec_inv_of [OF small(1)] Dec_inv_of [OF small(2)] dec_val_of [OF small(1)] dec_val_of [OF small(2)]
  show "Dec_checked_add (dec_of a) (dec_of b) = Some (dec_of (a + b))"
    using small(3) by (simp add: Dec_checked_add_eq vals dec_checked_def)
  show "min (dec_of a) (dec_of b) = dec_of (min a b)"
    unfolding min_def by (simp add: Dec_le_val vals)
qed

lemma Dec_zero_of: "Dec_zero = dec_of 0"
  by (simp add: Dec_zero_def I256_zero_def dec_of_def i256_of_def)

definition sample_slashes :: "Slash list" where
  "sample_slashes = [sample_slash 2 500000000000, sample_slash 2 250000000000, sample_slash 30 500000000000]"


section \<open>Slashing never adds tokens\<close>

lemma rfilter_total:
  "\<forall>x\<in>set xs. \<exists>b. f x = Inr b \<Longrightarrow> \<exists>ys. rfilter f xs = Inr ys \<and> set ys \<subseteq> set xs"
  by (induction xs) auto

lemma slashes_ok_iff: "slashes_ok off ss \<longleftrightarrow> (\<forall>s\<in>set ss. valid_rate (slash_rate s) \<and> slash_epoch s + off < 2 ^ 64)"
  by (simp add: slashes_ok_def list_all_iff)

lemma in_redelegation_window_total:
  assumes "slash_processing_epoch_offset params = Some off" "pipeline_len params \<le> redel_end" "e + off < 2 ^ 64"
  shows "\<exists>b. in_redelegation_window params redel_end e = Inr b"
  using assms by (simp add: in_redelegation_window_def redelegation_start_epoch_from_end_def
      in_redelegation_slashing_window_def u64_add_def)

definition redelegated_total :: "redelegated_map \<Rightarrow> nat" where
  "redelegated_total m = (\<Sum>(k, a) \<leftarrow> m. amount_val a)"

lemma plus_amount_ok:
  assumes "amount_val a + amount_val b < 2 ^ 256"
  shows "plus_amount a b = Inr (amount_of (amount_val a + amount_val b))"
  using assms by (simp add: plus_amount_def Amount_checked_add_eq)

lemma plus_amount_iff [simp]: "plus_amount a b = Inr c \<longleftrightarrow> amount_val c = amount_val a + amount_val b"
  by (auto simp: plus_amount_def result_simps checked_unat)

lemma fold_redelegated_step_ok:
  assumes off: "slash_processing_epoch_offset params = Some off" and start: "pipeline_len params \<le> start_epoch"
    and ok: "\<forall>v. slashes_ok off (validator_slashes v)" "slashes_ok off list_slashes" and filt: "\<forall>e. \<exists>b. flt e = Inr b"
    and bound: "(amount_val (total_redelegated r) + amount_val change) * 10 ^ 12 < 2 ^ 256"
    and le: "amount_val (total_after_slashing r) \<le> amount_val (total_redelegated r)"
  obtains r' where "fold_redelegated_step validator_slashes params start_epoch list_slashes flt r ((v, bs), change) = Inr r'"
    and "amount_val (total_redelegated r') = amount_val (total_redelegated r) + amount_val change"
    and "amount_val (total_after_slashing r') \<le> amount_val (total_redelegated r')"
proof -
  have "\<exists>b. in_redelegation_window params start_epoch (slash_epoch s) = Inr b" if "s \<in> set (validator_slashes v)" for s
    using ok(1) that by (intro in_redelegation_window_total [OF off start]) (simp add: slashes_ok_iff)
  note win = this
  have "\<forall>s\<in>set (validator_slashes v). \<exists>b. rbind (in_redelegation_window params start_epoch (slash_epoch s)) (\<lambda>w.
        if w \<and> bs \<le> slash_epoch s then flt (slash_epoch s) else Inr False) = Inr b"
  proof
    fix s assume "s \<in> set (validator_slashes v)"
    then obtain w where "in_redelegation_window params start_epoch (slash_epoch s) = Inr w" using win by blast
    then show "\<exists>b. rbind (in_redelegation_window params start_epoch (slash_epoch s)) (\<lambda>w.
        if w \<and> bs \<le> slash_epoch s then flt (slash_epoch s) else Inr False) = Inr b"
      using filt by (cases "w \<and> bs \<le> slash_epoch s") (simp, auto)
  qed
  from rfilter_total [OF this] obtain ss where ss: "redelegation_slashes params start_epoch bs flt (validator_slashes v) = Inr ss"
    "set ss \<subseteq> set (validator_slashes v)" by (auto simp: redelegation_slashes_def)
  have merged: "slashes_ok off (sort_key slash_epoch (ss @ list_slashes))"
    using ss(2) ok unfolding slashes_ok_iff by auto
  have b1: "amount_val change * 10 ^ 12 < 2 ^ 256" and b2: "amount_val (total_redelegated r) + amount_val change < 2 ^ 256"
    using bound by simp_all
  obtain a where a: "apply_list_slashes params (sort_key slash_epoch (ss @ list_slashes)) change = Inr a"
    "amount_val a \<le> amount_val change" using apply_list_slashes_le [OF off b1 merged] by blast
  have b3: "amount_val (total_after_slashing r) + amount_val a < 2 ^ 256" using b2 le a(2) by linarith
  show thesis
    by (rule that [of "\<lparr>total_redelegated = amount_of (amount_val (total_redelegated r) + amount_val change),
          total_after_slashing = amount_of (amount_val (total_after_slashing r) + amount_val a)\<rparr>"])
       (use a le in \<open>simp_all add: fold_redelegated_step_def ss(1) plus_amount_ok [OF b2] plus_amount_ok [OF b3]
          amount_val_of [OF b2] amount_val_of [OF b3] del: plus_amount_iff\<close>)
qed

lemma rfold_redelegated_ok:
  assumes off: "slash_processing_epoch_offset params = Some off" and start: "pipeline_len params \<le> start_epoch"
    and ok: "\<forall>v. slashes_ok off (validator_slashes v)" "slashes_ok off list_slashes" and filt: "\<forall>e. \<exists>b. flt e = Inr b"
    and "(amount_val (total_redelegated r) + redelegated_total m) * 10 ^ 12 < 2 ^ 256"
    and "amount_val (total_after_slashing r) \<le> amount_val (total_redelegated r)"
  shows "\<exists>r'. rfold (fold_redelegated_step validator_slashes params start_epoch list_slashes flt) r m = Inr r' \<and>
     amount_val (total_redelegated r') = amount_val (total_redelegated r) + redelegated_total m \<and>
     amount_val (total_after_slashing r') \<le> amount_val (total_redelegated r')"
  using assms(6,7)
proof (induction m arbitrary: r)
  case (Cons x m)
  obtain v bs change where x: "x = ((v, bs), change)" by (metis surj_pair)
  have tot: "redelegated_total (x # m) = amount_val change + redelegated_total m" by (simp add: redelegated_total_def x)
  have b: "(amount_val (total_redelegated r) + amount_val change) * 10 ^ 12 < 2 ^ 256"
    using Cons.prems(1) unfolding tot by simp
  obtain r1 where r1: "fold_redelegated_step validator_slashes params start_epoch list_slashes flt r ((v, bs), change) = Inr r1"
    "amount_val (total_redelegated r1) = amount_val (total_redelegated r) + amount_val change"
    "amount_val (total_after_slashing r1) \<le> amount_val (total_redelegated r1)"
    by (rule fold_redelegated_step_ok [OF off start ok filt b Cons.prems(2)]) blast
  have "(amount_val (total_redelegated r1) + redelegated_total m) * 10 ^ 12 < 2 ^ 256"
    using Cons.prems(1) unfolding tot r1(2) by (simp only: add.assoc)
  from Cons.IH [OF this r1(3)] show ?case unfolding tot r1(2) by (simp add: x r1(1) add.assoc)
qed (simp add: redelegated_total_def)

lemma fold_and_slash_ok:
  assumes "slash_processing_epoch_offset params = Some off" "pipeline_len params \<le> start_epoch"
    and "\<forall>v. slashes_ok off (validator_slashes v)" "slashes_ok off list_slashes" "\<forall>e. \<exists>b. flt e = Inr b"
    and "redelegated_total m * 10 ^ 12 < 2 ^ 256"
  obtains r where "fold_and_slash_redelegated_bonds validator_slashes params m start_epoch list_slashes flt = Inr r"
    and "amount_val (total_redelegated r) = redelegated_total m"
    and "amount_val (total_after_slashing r) \<le> redelegated_total m"
proof -
  obtain r where "rfold (fold_redelegated_step validator_slashes params start_epoch list_slashes flt)
      \<lparr>total_redelegated = Amount_zero, total_after_slashing = Amount_zero\<rparr> m = Inr r"
    "amount_val (total_redelegated r) = redelegated_total m" "amount_val (total_after_slashing r) \<le> amount_val (total_redelegated r)"
    using rfold_redelegated_ok [OF assms(1-5), of "\<lparr>total_redelegated = Amount_zero, total_after_slashing = Amount_zero\<rparr>" m] assms(6)
    by auto
  then show thesis by (intro that [of r]) (simp_all add: fold_and_slash_redelegated_bonds_def)
qed

lemma result_add_ok:
  assumes "amount_val (rs_sum r) + amount_val x < 2 ^ 256"
  obtains r' where "result_add e x r = Inr r'" "amount_val (rs_sum r') = amount_val (rs_sum r) + amount_val x"
    "rs_epoch_map r' = bt_insert e x (rs_epoch_map r)"
  by (rule that [of "\<lparr>rs_sum = amount_of (amount_val (rs_sum r) + amount_val x), rs_epoch_map = bt_insert e x (rs_epoch_map r)\<rparr>"])
     (use assms in \<open>simp_all add: result_add_def plus_amount_ok amount_val_of\<close>)

text \<open>A fold that adds, for every unbond, an amount that is at most the unbond.\<close>

lemma rfold_result_add:
  assumes "\<forall>u\<in>set us. \<exists>x. amount_val x \<le> val u \<and> (\<forall>r. f r u = result_add (key u) x r)"
    and "amount_val (rs_sum r) + sum_list (map val us) < 2 ^ 256"
  shows "\<exists>r' xs. rfold f r us = Inr r' \<and> list_all2 (\<lambda>x u. amount_val x \<le> val u) xs us \<and>
     amount_val (rs_sum r') = amount_val (rs_sum r) + sum_list (map amount_val xs) \<and>
     rs_epoch_map r' = bt_extend (rs_epoch_map r) (zip (map key us) xs)"
  using assms
proof (induction us arbitrary: r)
  case (Cons u us)
  obtain x where x: "amount_val x \<le> val u" "\<And>r. f r u = result_add (key u) x r" using Cons.prems(1) by auto
  have "amount_val (rs_sum r) + amount_val x < 2 ^ 256" using Cons.prems(2) x(1) by simp
  then obtain r1 where r1: "result_add (key u) x r = Inr r1" "amount_val (rs_sum r1) = amount_val (rs_sum r) + amount_val x"
    "rs_epoch_map r1 = bt_insert (key u) x (rs_epoch_map r)" by (rule result_add_ok)
  have "amount_val (rs_sum r1) + sum_list (map val us) < 2 ^ 256" using Cons.prems(2) x(1) r1(2) by simp
  then obtain r' xs where "rfold f r1 us = Inr r'" "list_all2 (\<lambda>x u. amount_val x \<le> val u) xs us"
     "amount_val (rs_sum r') = amount_val (rs_sum r1) + sum_list (map amount_val xs)"
     "rs_epoch_map r' = bt_extend (rs_epoch_map r1) (zip (map key us) xs)"
    using Cons.IH [of r1] Cons.prems(1) by auto
  then show ?case using x r1 by (intro exI [of _ r'] exI [of _ "x # xs"]) (simp add: bt_extend_def)
qed (simp add: bt_extend_def)

lemma sum_list_all2_le: "list_all2 (\<lambda>x u. f x \<le> g u) xs us \<Longrightarrow> sum_list (map f xs) \<le> (sum_list (map g us) :: nat)"
  by (induction rule: list_all2_induct) auto

definition unbonds_total :: "('k \<times> Amount) list \<Rightarrow> nat" where
  "unbonds_total us = (\<Sum>(k, a) \<leftarrow> us. amount_val a)"

text \<open>
  The redelegated part of an unbond is at most the unbond, and its redelegation is at least the
  pipeline offset old, so that its first epoch exists.
\<close>

definition redelegated_part_ok :: "PosParams \<Rightarrow> epoch \<Rightarrow> Amount \<Rightarrow> redelegated_map \<Rightarrow> bool" where
  "redelegated_part_ok params start amount m \<longleftrightarrow>
     redelegated_total m \<le> amount_val amount \<and> (m = [] \<or> pipeline_len params \<le> start)"

lemma fold_part_ok:
  assumes "slash_processing_epoch_offset params = Some off" "redelegated_part_ok params start amount m"
    and "\<forall>v. slashes_ok off (validator_slashes v)" "slashes_ok off list_slashes" "amount_val amount * 10 ^ 12 < 2 ^ 256"
  obtains r where "fold_and_slash_redelegated_bonds validator_slashes params m start list_slashes (\<lambda>_. Inr True) = Inr r"
    and "amount_val (total_redelegated r) = redelegated_total m" "amount_val (total_after_slashing r) \<le> redelegated_total m"
proof (cases "m = []")
  case True
  then show thesis
    by (intro that [of "\<lparr>total_redelegated = Amount_zero, total_after_slashing = Amount_zero\<rparr>"])
       (simp_all add: fold_and_slash_redelegated_bonds_def redelegated_total_def)
next
  case False
  then have start: "pipeline_len params \<le> start" and le: "redelegated_total m \<le> amount_val amount"
    using assms(2) by (auto simp: redelegated_part_ok_def)
  have "redelegated_total m * 10 ^ 12 \<le> amount_val amount * 10 ^ 12" using le by (rule mult_right_mono) simp
  then have b: "redelegated_total m * 10 ^ 12 < 2 ^ 256" using assms(5) by linarith
  have flt: "\<forall>e::epoch. \<exists>b. (\<lambda>_. Inr True :: pos_error + bool) e = Inr b" by blast
  show thesis
    by (rule fold_and_slash_ok [OF assms(1) start assms(3,4) flt b]) (rule that)
qed

lemma slash_remaining_ok:
  assumes "slash_processing_epoch_offset params = Some off" "slashes_ok off list_slashes" "amount_val amount * 10 ^ 12 < 2 ^ 256"
    and "amount_val rest + amount_val after \<le> amount_val amount"
  obtains a x where "apply_list_slashes params list_slashes rest = Inr a" "plus_amount a after = Inr x" "amount_val x \<le> amount_val amount"
proof -
  have "amount_val rest * 10 ^ 12 \<le> amount_val amount * 10 ^ 12" using assms(4) by (intro mult_right_mono) simp_all
  then have "amount_val rest * 10 ^ 12 < 2 ^ 256" using assms(3) by linarith
  from apply_list_slashes_le [OF assms(1) this assms(2)] obtain a where a: "apply_list_slashes params list_slashes rest = Inr a"
    "amount_val a \<le> amount_val rest" by blast
  have b: "amount_val a + amount_val after < 2 ^ 256" using a(2) assms(4) amount_val_lt [of amount] by linarith
  show thesis
    by (rule that [OF a(1), of "amount_of (amount_val a + amount_val after)"]) (use a(2) assms(4) in \<open>simp_all add: amount_val_of [OF b]\<close>)
qed

lemma bt_extend_append: "sorted_wrt (<) (map fst (m @ es)) \<Longrightarrow> bt_extend m es = m @ es"
proof (induction es arbitrary: m)
  case (Cons e es)
  have "bt_insert (fst e) (snd e) m = m @ [e]"
    using Cons.prems by (subst bt_insert_last) (auto simp: sorted_wrt_append)
  then have "bt_extend m (e # es) = bt_extend (m @ [e]) es" by (simp add: bt_extend_def split_def)
  then show ?case using Cons by simp
qed (simp add: bt_extend_def)

definition redelegated_at :: "(epoch, redelegated_map) btree_map \<Rightarrow> epoch \<Rightarrow> redelegated_map" where
  "redelegated_at m e = (case map_of m e of None \<Rightarrow> [] | Some r \<Rightarrow> r)"

lemma unbond_slash_step_ok:
  assumes off: "slash_processing_epoch_offset params = Some off" and part: "redelegated_part_ok params e a (redelegated_at red e)"
    and ok: "\<forall>v. slashes_ok off (validator_slashes v)" "slashes_ok off slashes" and b: "amount_val a * 10 ^ 12 < 2 ^ 256"
  shows "\<exists>x. amount_val x \<le> amount_val a \<and> (\<forall>r. unbond_slash_step validator_slashes params red slashes r (e, a) = result_add e x r)"
proof -
  let ?ls = "filter (\<lambda>slash. slash_epoch slash \<ge> e) slashes"
  have ls: "slashes_ok off ?ls" using ok(2) by (auto simp: slashes_ok_iff)
  obtain f where f: "fold_and_slash_redelegated_bonds validator_slashes params (redelegated_at red e) e ?ls (\<lambda>_. Inr True) = Inr f"
    "amount_val (total_redelegated f) = redelegated_total (redelegated_at red e)"
    "amount_val (total_after_slashing f) \<le> redelegated_total (redelegated_at red e)"
    by (rule fold_part_ok [OF off part ok(1) ls b])
  have cs: "(case map_of red e of
        Some m \<Rightarrow> fold_and_slash_redelegated_bonds validator_slashes params m e ?ls (\<lambda>_. Inr True)
      | None \<Rightarrow> Inr \<lparr>total_redelegated = Amount_zero, total_after_slashing = Amount_zero\<rparr>) = Inr f"
    using f(1) by (cases "map_of red e") (simp_all add: redelegated_at_def fold_and_slash_redelegated_bonds_def)
  have "amount_val (sub_or_default a (total_redelegated f)) + amount_val (total_after_slashing f) \<le> amount_val a"
    using f(2,3) part by (simp add: redelegated_part_ok_def)
  then obtain y x where "apply_list_slashes params ?ls (sub_or_default a (total_redelegated f)) = Inr y"
    "plus_amount y (total_after_slashing f) = Inr x" "amount_val x \<le> amount_val a"
    by (rule slash_remaining_ok [OF off ls b])
  then show ?thesis
    by (intro exI [of _ x]) (simp add: unbond_slash_step_def cs del: plus_amount_iff)
qed

lemma unbonds_total_bound:
  assumes "(k, a) \<in> set us" "unbonds_total us * 10 ^ 12 < 2 ^ 256"
  shows "amount_val a * 10 ^ 12 < 2 ^ 256"
proof -
  have "amount_val a \<le> unbonds_total us"
    unfolding unbonds_total_def by (rule member_le_sum_list) (use assms(1) in force, simp)
  then have "amount_val a * 10 ^ 12 \<le> unbonds_total us * 10 ^ 12" by (rule mult_right_mono) simp
  then show ?thesis using assms(2) by linarith
qed

text \<open>
  What an unbonding deducts from the stake: slashing succeeds on every unbond and leaves at most
  the unbonded amount of each bond; the sum is that of the amounts by bond, and
  no more than the amount unbonded. The redelegated part of each unbond must not exceed it.
\<close>

theorem unbond_slashing_never_adds:
  assumes off: "slash_processing_epoch_offset params = Some off" and sorted: "bt_ok unbonds"
    and ok: "\<forall>v. slashes_ok off (validator_slashes v)" "slashes_ok off slashes"
    and part: "\<forall>(e, a)\<in>set unbonds. redelegated_part_ok params e a (redelegated_at redelegated_unbonds e)"
    and bound: "unbonds_total unbonds * 10 ^ 12 < 2 ^ 256"
  shows "\<exists>r. compute_amount_after_slashing_unbond validator_slashes params unbonds redelegated_unbonds slashes = Inr r \<and>
    map fst (rs_epoch_map r) = map fst unbonds \<and>
    list_all2 (\<lambda>x a. x \<le> a) (map snd (rs_epoch_map r)) (map snd unbonds) \<and>
    amount_val (rs_sum r) = unbonds_total (rs_epoch_map r) \<and> amount_val (rs_sum r) \<le> unbonds_total unbonds"
proof -
  let ?f = "unbond_slash_step validator_slashes params redelegated_unbonds slashes"
  have step: "\<forall>u\<in>set unbonds. \<exists>x. amount_val x \<le> amount_val (snd u) \<and> (\<forall>r. ?f r u = result_add (fst u) x r)"
  proof
    fix u assume u: "u \<in> set unbonds"
    obtain e a where ua: "u = (e, a)" by (cases u)
    have "redelegated_part_ok params e a (redelegated_at redelegated_unbonds e)" using part u ua by blast
    from unbond_slash_step_ok [OF off this ok unbonds_total_bound [OF u [unfolded ua] bound]]
    show "\<exists>x. amount_val x \<le> amount_val (snd u) \<and> (\<forall>r. ?f r u = result_add (fst u) x r)" by (simp add: ua)
  qed
  have tot: "sum_list (map (\<lambda>u. amount_val (snd u)) unbonds) = unbonds_total unbonds"
    by (simp add: unbonds_total_def split_def)
  have "amount_val (rs_sum ResultSlashing_default) + sum_list (map (\<lambda>u. amount_val (snd u)) unbonds) < 2 ^ 256"
    unfolding tot using bound by (simp add: ResultSlashing_default_def)
  from rfold_result_add [OF step this] obtain r xs where r: "rfold ?f ResultSlashing_default unbonds = Inr r"
    and le: "list_all2 (\<lambda>x u. amount_val x \<le> amount_val (snd u)) xs unbonds"
    and sum: "amount_val (rs_sum r) = sum_list (map amount_val xs)"
    and em: "rs_epoch_map r = bt_extend [] (zip (map fst unbonds) xs)"
    by (auto simp: ResultSlashing_default_def)
  have len: "length xs = length unbonds" using le by (rule list_all2_lengthD)
  have zip: "rs_epoch_map r = zip (map fst unbonds) xs"
    unfolding em using sorted len by (subst bt_extend_append) (simp_all add: bt_ok_def)
  have "map snd (rs_epoch_map r) = xs" "map fst (rs_epoch_map r) = map fst unbonds" using len by (simp_all add: zip)
  moreover have "unbonds_total (rs_epoch_map r) = sum_list (map amount_val (map snd (rs_epoch_map r)))"
    by (simp add: unbonds_total_def split_def comp_def)
  moreover have "list_all2 (\<lambda>x a. x \<le> a) xs (map snd unbonds)" using le by (simp add: list.rel_map amount_le_iff)
  moreover have "amount_val (rs_sum r) \<le> unbonds_total unbonds" unfolding sum tot [symmetric] using le by (rule sum_list_all2_le)
  ultimately show ?thesis using r sum by (auto simp: compute_amount_after_slashing_unbond_def)
qed

lemma sample_slashes_ok: "slashes_ok 23 [sample_slash 2 500000000000]" "slashes_ok 23 []"
  by (simp_all add: slashes_ok_def sample_slash_rate) (simp add: sample_slash_def)

theorem unbond_slashing_never_adds_witness:
  "\<exists>r. compute_amount_after_slashing_unbond (\<lambda>_. []) default_pos_params [(1, amount_of 11), (5, amount_of 7)] []
      [sample_slash 2 500000000000] = Inr r \<and> map fst (rs_epoch_map r) = [1, 5] \<and> amount_val (rs_sum r) \<le> 18"
  using unbond_slashing_never_adds [OF default_offset, of "[(1, amount_of 11), (5, amount_of 7)]" "\<lambda>_. []" "[sample_slash 2 500000000000]" "[]"]
  by (auto simp: sample_slashes_ok bt_ok_def redelegated_part_ok_def redelegated_at_def redelegated_total_def unbonds_total_def)

lemma withdraw_slash_step_ok:
  assumes off: "slash_processing_epoch_offset params = Some off" and part: "redelegated_part_ok params e a m"
    and wd: "unbonding_len params + cubic_slashing_window_length params \<le> w"
    and ok: "\<forall>v. slashes_ok off (validator_slashes v)" "slashes_ok off slashes" and b: "amount_val a * 10 ^ 12 < 2 ^ 256"
  shows "\<exists>x. amount_val x \<le> amount_val a \<and> (\<forall>r. withdraw_slash_step validator_slashes params slashes r ((e, w), a, m) = result_add e x r)"
proof -
  let ?ls = "filter (\<lambda>slash. e \<le> slash_epoch slash \<and>
      w - unbonding_len params - cubic_slashing_window_length params > slash_epoch slash) slashes"
  have ls: "slashes_ok off ?ls" using ok(2) by (auto simp: slashes_ok_iff)
  obtain f where f: "fold_and_slash_redelegated_bonds validator_slashes params m e ?ls (\<lambda>_. Inr True) = Inr f"
    "amount_val (total_redelegated f) = redelegated_total m" "amount_val (total_after_slashing f) \<le> redelegated_total m"
    by (rule fold_part_ok [OF off part ok(1) ls b])
  have le: "amount_val (total_redelegated f) \<le> amount_val a" using f(2) part by (simp add: redelegated_part_ok_def)
  then have m: "minus_amount a (total_redelegated f) = Inr (sub_or_default a (total_redelegated f))"
    by (simp add: minus_amount_def sub_or_default_def Amount_checked_sub_eq)
  have "amount_val (sub_or_default a (total_redelegated f)) + amount_val (total_after_slashing f) \<le> amount_val a"
    using f(2,3) le by simp
  then obtain y x where "apply_list_slashes params ?ls (sub_or_default a (total_redelegated f)) = Inr y"
    "plus_amount y (total_after_slashing f) = Inr x" "amount_val x \<le> amount_val a"
    by (rule slash_remaining_ok [OF off ls b])
  then show ?thesis
    by (intro exI [of _ x]) (simp add: withdraw_slash_step_def Let_def f(1) m wd del: plus_amount_iff diff_diff_left)
qed

definition withdrawals_total :: "((epoch \<times> epoch) \<times> Amount \<times> redelegated_map) list \<Rightarrow> nat" where
  "withdrawals_total ws = (\<Sum>(k, a, m) \<leftarrow> ws. amount_val a)"

text \<open>A withdrawal pays out at most the unbonds it removes.\<close>

lemma withdraw_slashing_never_adds:
  assumes off: "slash_processing_epoch_offset params = Some off"
    and ok: "\<forall>v. slashes_ok off (validator_slashes v)" "slashes_ok off slashes"
    and part: "\<forall>((e, w), a, m)\<in>set ws. redelegated_part_ok params e a m \<and> unbonding_len params + cubic_slashing_window_length params \<le> w"
    and bound: "withdrawals_total ws * 10 ^ 12 < 2 ^ 256"
  shows "\<exists>r. compute_amount_after_slashing_withdraw validator_slashes params ws slashes = Inr r \<and>
    amount_val (rs_sum r) \<le> withdrawals_total ws"
proof -
  let ?f = "withdraw_slash_step validator_slashes params slashes"
  have step: "\<forall>u\<in>set ws. \<exists>x. amount_val x \<le> amount_val (fst (snd u)) \<and> (\<forall>r. ?f r u = result_add (fst (fst u)) x r)"
  proof
    fix u assume u: "u \<in> set ws"
    obtain e w a m where ua: "u = ((e, w), a, m)" by (metis surj_pair)
    have p: "redelegated_part_ok params e a m" "unbonding_len params + cubic_slashing_window_length params \<le> w"
      using part u ua by blast+
    have "amount_val a \<le> withdrawals_total ws"
      unfolding withdrawals_total_def by (rule member_le_sum_list) (use u ua in force, simp)
    then have "amount_val a * 10 ^ 12 \<le> withdrawals_total ws * 10 ^ 12" by (rule mult_right_mono) simp
    then have "amount_val a * 10 ^ 12 < 2 ^ 256" using bound by linarith
    from withdraw_slash_step_ok [OF off p ok this]
    show "\<exists>x. amount_val x \<le> amount_val (fst (snd u)) \<and> (\<forall>r. ?f r u = result_add (fst (fst u)) x r)" by (simp add: ua)
  qed
  have tot: "sum_list (map (\<lambda>u. amount_val (fst (snd u))) ws) = withdrawals_total ws"
    by (simp add: withdrawals_total_def split_def)
  have "amount_val (rs_sum ResultSlashing_default) + sum_list (map (\<lambda>u. amount_val (fst (snd u))) ws) < 2 ^ 256"
    unfolding tot using bound by (simp add: ResultSlashing_default_def)
  from rfold_result_add [OF step this] obtain r xs where "rfold ?f ResultSlashing_default ws = Inr r"
    and le: "list_all2 (\<lambda>x u. amount_val x \<le> amount_val (fst (snd u))) xs ws" and "amount_val (rs_sum r) = sum_list (map amount_val xs)"
    by (auto simp: ResultSlashing_default_def)
  then show ?thesis using sum_list_all2_le [OF le] tot by (auto simp: compute_amount_after_slashing_withdraw_def)
qed

end
