(* ===== verification/PosLedger.thy ===== *)
theory PosLedger
  imports ValidatorSets PosSlashing TransToken
begin

text \<open>
  The operations of proof of stake on bonds (\<open>proof_of_stake/src/lib.rs\<close>): bonding, unbonding,
  withdrawal and redelegation, on a state with one field per storage handle of \<open>storage.rs\<close>. A nested map
  of storage is a map with the tuple of its keys, outermost first. Maps with an address
  in their key are association lists: where the source visits their addresses in order, the order is that of
  the encoded text of the addresses, and the encoding is the argument \<open>encode\<close>.
\<close>

section \<open>The state\<close>

record DelegationEpochs =
  prev_ranges :: "(epoch, epoch) btree_map"
  last_range :: "epoch \<times> epoch option"

type_synonym redelegations = "(epoch \<times> Address \<times> epoch, Amount) index_map"
type_synonym redelegations_by_epoch = "(epoch \<times> epoch \<times> Address \<times> epoch, Amount) index_map"

record pos_ledger =
  lg_params :: PosParams
  native_token :: Address
  lg_tokens :: storage
  lg_sets :: pos_state
  max_commission_rate_changes :: "Address \<Rightarrow> Dec option"
  bonds :: "Address \<Rightarrow> Address \<Rightarrow> Amount epoched"
  total_bonded :: "Address \<Rightarrow> Amount epoched"
  unbonds :: "Address \<Rightarrow> Address \<Rightarrow> (epoch \<times> epoch, Amount) btree_map"
  total_unbonded :: "Address \<Rightarrow> (epoch \<times> epoch, Amount) btree_map"
  redelegated_bonds :: "Address \<Rightarrow> Address \<Rightarrow> redelegations"
  redelegated_unbonds :: "Address \<Rightarrow> Address \<Rightarrow> redelegations_by_epoch"
  total_redelegated_bonded :: "Address \<Rightarrow> redelegations"
  total_redelegated_unbonded :: "Address \<Rightarrow> redelegations_by_epoch"
  outgoing_redelegations :: "Address \<Rightarrow> (Address \<times> epoch \<times> epoch, Amount) index_map"
  incoming_redelegations :: "Address \<Rightarrow> Address \<Rightarrow> epoch option"
  validator_slashes :: "Address \<Rightarrow> Slash list"
  last_slash_epochs :: "Address \<Rightarrow> epoch option"
  delegation_targets :: "Address \<Rightarrow> Address \<Rightarrow> DelegationEpochs option"
  rewards_products :: "Address \<Rightarrow> epoch \<Rightarrow> Dec option"
  last_reward_claims :: "Address \<Rightarrow> Address \<Rightarrow> epoch option"
  rewards_counters :: "Address \<Rightarrow> Address \<Rightarrow> Amount option"
  rewards_accumulator :: "(Address, Dec) index_map"
  commission_rates :: "Address \<Rightarrow> Dec epoched"
  total_consensus_stakes :: "Amount epoched"
  enqueued_slashes :: "(Address \<times> nat, Slash) index_map epoched"
  last_staked_ratio :: "Dec option"
  last_pos_inflation_amount :: "Amount option"

text \<open>
  The bonds of a pair are kept for the whole past (\<open>OffsetMaxU64\<close>). The data of a handle lies within
  the reach of its last update, so that the iteration over it ends there.
\<close>

definition BONDS_PAST :: nat where
  "BONDS_PAST = 2 ^ 64 - 1"

definition bond_entries :: "nat \<Rightarrow> 'v epoched \<Rightarrow> (epoch \<times> 'v) list" where
  "bond_entries future E =
     (case last_update E of
        None \<Rightarrow> []
      | Some lu \<Rightarrow> List.map_filter (\<lambda>e. map_option (Pair e) (lazy_map E e)) [0..<Suc (lu + future)])"

definition amount_at :: "Amount epoched \<Rightarrow> epoch \<Rightarrow> Amount" where
  "amount_at E e = unwrap_or_default (lazy_map E e)"

definition bonds_sum :: "PosParams \<Rightarrow> epoch \<Rightarrow> Amount epoched \<Rightarrow> pos_error + Amount" where
  "bonds_sum params e E =
     rbind (epoched_result (get_sum Amount_checked_add BONDS_PAST (pipeline_len params) E e)) (\<lambda>r.
     Inr (unwrap_or_default r))"

definition bonds_add :: "Amount \<Rightarrow> epoch \<Rightarrow> nat \<Rightarrow> Amount epoched \<Rightarrow> pos_error + Amount epoched" where
  "bonds_add amount current_epoch offset E =
     epoched_result (delta_add Amount_checked_add Amount_zero BONDS_PAST amount current_epoch offset E)"

definition bonds_set :: "Amount \<Rightarrow> epoch \<Rightarrow> nat \<Rightarrow> Amount epoched \<Rightarrow> pos_error + Amount epoched" where
  "bonds_set amount current_epoch offset E =
     epoched_result (delta_set Amount_checked_add BONDS_PAST amount current_epoch offset E)"

definition put_bonds :: "Address \<Rightarrow> Address \<Rightarrow> Amount epoched \<Rightarrow> pos_ledger \<Rightarrow> pos_ledger" where
  "put_bonds source v E s = s\<lparr>bonds := (bonds s)(source := (bonds s source)(v := E))\<rparr>"

definition on_sets :: "(pos_state \<Rightarrow> pos_error + pos_state) \<Rightarrow> pos_ledger \<Rightarrow> pos_error + pos_ledger" where
  "on_sets f s = rbind (f (lg_sets s)) (\<lambda>p. Inr (s\<lparr>lg_sets := p\<rparr>))"

definition token_transfer :: "Address \<Rightarrow> Address \<Rightarrow> Amount \<Rightarrow> pos_ledger \<Rightarrow> pos_error + pos_ledger" where
  "token_transfer src dest amount s =
     (case transfer (native_token s) src dest amount (lg_tokens s) of
        (Inl _, _) \<Rightarrow> Inl TransferFailed
      | (Inr _, t) \<Rightarrow> Inr (s\<lparr>lg_tokens := t\<rparr>))"

definition change_of :: "Amount \<Rightarrow> pos_error + Change" where
  "change_of amount = ok_or (Amount_change amount) ChangePanic"

definition is_validator :: "Address \<Rightarrow> pos_ledger \<Rightarrow> bool" where
  "is_validator address s \<longleftrightarrow> max_commission_rate_changes s address \<noteq> None"

definition processing_epoch_of :: "PosParams \<Rightarrow> epoch \<Rightarrow> pos_error + epoch" where
  "processing_epoch_of params e =
     rbind (ok_or (slash_processing_epoch_offset params) OffsetPanic) (epoch_plus e)"

definition is_validator_frozen :: "Address \<Rightarrow> epoch \<Rightarrow> PosParams \<Rightarrow> pos_ledger \<Rightarrow> pos_error + bool" where
  "is_validator_frozen validator current_epoch params s =
     (case last_slash_epochs s validator of
        Some last_epoch \<Rightarrow> rbind (processing_epoch_of params last_epoch) (\<lambda>e. Inr (current_epoch < e))
      | None \<Rightarrow> Inr False)"

section \<open>Delegation targets\<close>

definition put_target :: "Address \<Rightarrow> Address \<Rightarrow> DelegationEpochs \<Rightarrow> pos_ledger \<Rightarrow> pos_ledger" where
  "put_target delegator v d s =
     s\<lparr>delegation_targets := (delegation_targets s)(delegator := (delegation_targets s delegator)(v \<mapsto> d))\<rparr>"

definition add_delegation_target :: "Address \<Rightarrow> Address \<Rightarrow> epoch \<Rightarrow> pos_ledger \<Rightarrow> pos_ledger" where
  "add_delegation_target delegator validator e s =
     (case delegation_targets s delegator validator of
        Some delegations \<Rightarrow>
          (case last_range delegations of
             (start, Some stop) \<Rightarrow>
               put_target delegator validator
                 (if e = stop then delegations\<lparr>last_range := (start, None)\<rparr>
                  else delegations\<lparr>prev_ranges := bt_insert start stop (prev_ranges delegations), last_range := (e, None)\<rparr>) s
           | (_, None) \<Rightarrow> s)
      | None \<Rightarrow> put_target delegator validator \<lparr>prev_ranges = [], last_range = (e, None)\<rparr> s)"

definition prune_old_delegations :: "PosParams \<Rightarrow> epoch \<Rightarrow> DelegationEpochs \<Rightarrow> pos_error + DelegationEpochs" where
  "prune_old_delegations params current_epoch delegations =
     rbind (offset_of params OffsetMaxProposalPeriodOrSlashProcessingLenPlus) (\<lambda>delta.
     let oldest_to_keep = (if delta \<le> current_epoch then current_epoch - delta else 0)
     in Inr (delegations\<lparr>prev_ranges := filter (\<lambda>(start, stop). stop \<ge> oldest_to_keep) (prev_ranges delegations)\<rparr>))"

definition remove_delegation_target ::
    "PosParams \<Rightarrow> Address \<Rightarrow> Address \<Rightarrow> epoch \<Rightarrow> epoch \<Rightarrow> pos_ledger \<Rightarrow> pos_error + pos_ledger" where
  "remove_delegation_target params delegator validator e current_epoch s =
     (case delegation_targets s delegator validator of
        Some delegation \<Rightarrow>
          rbind (prune_old_delegations params current_epoch
                   (delegation\<lparr>last_range := (fst (last_range delegation), Some e)\<rparr>)) (\<lambda>d.
          Inr (put_target delegator validator d s))
      | None \<Rightarrow> Inl DelegationTargetMissing)"

section \<open>Bonding\<close>

definition jailed_or_inactive :: "PosParams \<Rightarrow> Address \<Rightarrow> epoch \<Rightarrow> pos_ledger \<Rightarrow> pos_error + bool" where
  "jailed_or_inactive params v e s =
     rbind (get_validator_state params v e (lg_sets s)) (\<lambda>st. Inr (st = Some Jailed \<or> st = Some Inactive))"

text \<open>The last part of bonding, unbonding and redelegation: the sets unless the validator is out of them, and the deltas.\<close>

definition update_stake ::
    "PosParams \<Rightarrow> Address \<Rightarrow> Change \<Rightarrow> epoch \<Rightarrow> nat option \<Rightarrow> bool \<Rightarrow> pos_ledger \<Rightarrow> pos_error + pos_ledger" where
  "update_stake params v change current_epoch offset_opt out s =
     rbind (if out then Inr s else on_sets (update_validator_set params v change current_epoch offset_opt) s) (\<lambda>s1.
     rbind (on_sets (update_validator_deltas params v change current_epoch offset_opt) s1) (\<lambda>s2.
     on_sets (update_total_deltas params change current_epoch offset_opt (\<not> out)) s2))"

definition add_to_bonds :: "Address \<Rightarrow> Address \<Rightarrow> Amount \<Rightarrow> epoch \<Rightarrow> nat \<Rightarrow> pos_ledger \<Rightarrow> pos_error + pos_ledger" where
  "add_to_bonds source v amount current_epoch offset s =
     rbind (bonds_add amount current_epoch offset (bonds s source v)) (\<lambda>b.
     rbind (bonds_add amount current_epoch offset (total_bonded s v)) (\<lambda>t.
     Inr ((put_bonds source v b s)\<lparr>total_bonded := (total_bonded s)(v := t)\<rparr>)))"

definition bond_tokens ::
    "Address option \<Rightarrow> Address \<Rightarrow> Amount \<Rightarrow> epoch \<Rightarrow> nat option \<Rightarrow> pos_ledger \<Rightarrow> pos_error + pos_ledger" where
  "bond_tokens source_opt validator amount current_epoch offset_opt s =
     (if Amount_is_zero amount then Inr s
      else if (case source_opt of Some src \<Rightarrow> src \<noteq> validator \<and> is_validator src s | None \<Rightarrow> False)
      then Inl SourceMustNotBeAValidator
      else
        let source = (case source_opt of Some src \<Rightarrow> src | None \<Rightarrow> validator)
        in rbind (token_transfer source POS amount s) (\<lambda>s1.
           let params = lg_params s1; offset = (case offset_opt of Some n \<Rightarrow> n | None \<Rightarrow> pipeline_len params)
           in rbind (epoch_plus current_epoch offset) (\<lambda>offset_epoch.
              rbind (get_validator_state params validator offset_epoch (lg_sets s1)) (\<lambda>st.
              if st = None then Inl NotAValidator
              else
                rbind (add_to_bonds source validator amount current_epoch offset s1) (\<lambda>s2.
                let s3 = add_delegation_target source validator offset_epoch s2
                in rbind (jailed_or_inactive params validator offset_epoch s3) (\<lambda>out.
                   rbind (change_of amount) (\<lambda>change.
                   update_stake params validator change current_epoch offset_opt out s3)))))))"

section \<open>Bonds to remove\<close>

text \<open>A set of epochs (\<open>BTreeSet\<close>) is a sorted list without repetition.\<close>

record BondsForRemovalRes =
  removal_epochs :: "epoch list"
  new_entry :: "(epoch \<times> Amount) option"

fun remove_bonds_loop :: "(epoch \<times> Amount) list \<Rightarrow> Amount \<Rightarrow> BondsForRemovalRes \<Rightarrow> pos_error + BondsForRemovalRes" where
  "remove_bonds_loop [] remaining res = Inr res"
| "remove_bonds_loop ((bond_epoch, bond_amount) # rest) remaining res =
     (let to_unbond = min bond_amount remaining
      in rbind (if to_unbond = bond_amount then Inr (res\<lparr>removal_epochs := insort_insert bond_epoch (removal_epochs res)\<rparr>)
                else rbind (minus_amount bond_amount to_unbond) (\<lambda>n. Inr (res\<lparr>new_entry := Some (bond_epoch, n)\<rparr>))) (\<lambda>res.
         rbind (minus_amount remaining to_unbond) (\<lambda>remaining.
         if Amount_is_zero remaining then Inr res else remove_bonds_loop rest remaining res)))"

definition find_bonds_to_remove :: "(epoch \<times> Amount) list \<Rightarrow> Amount \<Rightarrow> pos_error + BondsForRemovalRes" where
  "find_bonds_to_remove entries amount = remove_bonds_loop (rev entries) amount \<lparr>removal_epochs = [], new_entry = None\<rparr>"

section \<open>Redelegated bonds\<close>

record ModifiedRedelegation =
  mr_epoch :: "epoch option"
  validators_to_remove :: "Address list"
  validator_to_modify :: "Address option"
  epochs_to_remove :: "epoch list"
  epoch_to_modify :: "epoch option"
  new_amount :: "Amount option"

definition ModifiedRedelegation_default :: ModifiedRedelegation where
  "ModifiedRedelegation_default =
     \<lparr>mr_epoch = None, validators_to_remove = [], validator_to_modify = None, epochs_to_remove = [],
      epoch_to_modify = None, new_amount = None\<rparr>"

text \<open>The bonds of one source validator, in the order of their epochs.\<close>

definition of_src :: "redelegated_map \<Rightarrow> Address \<Rightarrow> (epoch \<times> Amount) list" where
  "of_src m v = sort_key fst (map (\<lambda>((_, e), a). (e, a)) (filter (\<lambda>((w, _), _). w = v) m))"

definition sum_amounts :: "Amount list \<Rightarrow> pos_error + Amount" where
  "sum_amounts xs = rfold plus_amount Amount_zero xs"

fun modified_loop ::
    "redelegated_map \<Rightarrow> Address list \<Rightarrow> Amount \<Rightarrow> ModifiedRedelegation \<Rightarrow> pos_error + ModifiedRedelegation" where
  "modified_loop m [] remaining md = Inr md"
| "modified_loop m (src_validator # rest) remaining md =
     (if Amount_is_zero remaining then Inr md
      else
        let rbonds = of_src m src_validator
        in rbind (ok_or (Amount_sum (map snd rbonds)) PosArith) (\<lambda>total_src_val_amount.
           let md1 = md\<lparr>validators_to_remove := validators_to_remove md @ [src_validator]\<rparr>
           in if total_src_val_amount \<le> remaining then
                rbind (minus_amount remaining total_src_val_amount) (\<lambda>remaining. modified_loop m rest remaining md1)
              else
                rbind (find_bonds_to_remove rbonds remaining) (\<lambda>to_remove.
                modified_loop m rest Amount_zero
                  (case new_entry to_remove of
                     Some (bond_epoch, new_bond_amount) \<Rightarrow>
                       md1\<lparr>validator_to_modify := Some src_validator,
                           epochs_to_remove := insort_insert bond_epoch (removal_epochs to_remove),
                           epoch_to_modify := Some bond_epoch,
                           new_amount := Some new_bond_amount\<rparr>
                   | None \<Rightarrow>
                       md1\<lparr>validator_to_modify := Some src_validator,
                           epochs_to_remove := removal_epochs to_remove\<rparr>))))"

definition compute_modified_redelegation ::
    "(Address \<Rightarrow> string) \<Rightarrow> redelegated_map \<Rightarrow> epoch \<Rightarrow> Amount \<Rightarrow> pos_error + ModifiedRedelegation" where
  "compute_modified_redelegation encode rbonds start_epoch amount_to_unbond =
     rbind (sum_amounts (map snd rbonds)) (\<lambda>t.
     let md = ModifiedRedelegation_default\<lparr>mr_epoch := Some start_epoch\<rparr>
     in if t \<le> amount_to_unbond then Inr md
        else modified_loop rbonds (sort_key encode (remdups (map (fst \<circ> fst) rbonds))) amount_to_unbond md)"

definition update_redelegated_bonds :: "redelegated_map \<Rightarrow> ModifiedRedelegation \<Rightarrow> pos_error + redelegated_map" where
  "update_redelegated_bonds m md =
     (case validator_to_modify md of
        Some val_to_modify \<Rightarrow>
          let m1 = filter (\<lambda>((v, _), _). \<not> (v \<in> set (validators_to_remove md) \<and> v \<noteq> val_to_modify)) m
          in (case epoch_to_modify md of
                Some e \<Rightarrow>
                  let m2 = filter (\<lambda>((v, be), _). \<not> (v = val_to_modify \<and> be \<in> set (epochs_to_remove md) \<and> be \<noteq> e)) m1
                  in rbind (ok_or (new_amount md) NewAmountMissing) (\<lambda>n. Inr (AList.update (val_to_modify, e) n m2))
              | None \<Rightarrow> Inr (filter (\<lambda>((v, be), _). \<not> (v = val_to_modify \<and> be \<in> set (epochs_to_remove md))) m1))
      | None \<Rightarrow> Inr (filter (\<lambda>((v, _), _). v \<notin> set (validators_to_remove md)) m))"

text \<open>The redelegations of one epoch, and the write of them.\<close>

definition redelegations_at :: "redelegations \<Rightarrow> epoch \<Rightarrow> redelegated_map" where
  "redelegations_at m e = map (\<lambda>((_, v, be), a). ((v, be), a)) (filter (\<lambda>((e', _), _). e' = e) m)"

definition without_epochs :: "epoch list \<Rightarrow> redelegations \<Rightarrow> redelegations" where
  "without_epochs es m = filter (\<lambda>((e, _), _). e \<notin> set es) m"

definition put_redelegations :: "epoch \<Rightarrow> redelegated_map \<Rightarrow> redelegations \<Rightarrow> redelegations" where
  "put_redelegations e r m = without_epochs [e] m @ map (\<lambda>((v, be), a). ((e, v, be), a)) r"

text \<open>The unbonded part of the redelegation that is modified.\<close>

definition modified_unbonds :: "redelegated_map \<Rightarrow> ModifiedRedelegation \<Rightarrow> pos_error + redelegated_map" where
  "modified_unbonds m md =
     rfold (\<lambda>rbonds src_validator.
        if validator_to_modify md \<noteq> Some src_validator
        then Inr (im_extend rbonds (map (\<lambda>(e, a). ((src_validator, e), a)) (of_src m src_validator)))
        else
          rfold (\<lambda>rbonds bond_start.
             let cur_redel_bond_amount = unwrap_or_default (map_of m (src_validator, bond_start))
             in if epoch_to_modify md \<noteq> Some bond_start
                then Inr (AList.update (src_validator, bond_start) cur_redel_bond_amount rbonds)
                else
                  rbind (ok_or (new_amount md) NewAmountMissing) (\<lambda>n.
                  rbind (minus_amount cur_redel_bond_amount n) (\<lambda>a.
                  Inr (AList.update (src_validator, bond_start) a rbonds))))
            rbonds (epochs_to_remove md))
      [] (validators_to_remove md)"

definition compute_new_redelegated_unbonds ::
    "redelegations \<Rightarrow> epoch list \<Rightarrow> ModifiedRedelegation \<Rightarrow> pos_error + (epoch, redelegated_map) btree_map" where
  "compute_new_redelegated_unbonds redelegated epochs md =
     (let unbonded_epochs =
            filter (\<lambda>e. redelegations_at redelegated e \<noteq> [])
              (case mr_epoch md of Some e \<Rightarrow> insort_insert e epochs | None \<Rightarrow> epochs)
      in rfold (\<lambda>acc start.
           rbind (if mr_epoch md \<noteq> Some start \<or> validators_to_remove md = []
                  then Inr (redelegations_at redelegated start)
                  else modified_unbonds (redelegations_at redelegated start) md) (\<lambda>rbonds.
           Inr (bt_insert start rbonds acc))) [] unbonded_epochs)"

section \<open>Unbonding\<close>

definition im_add :: "'k \<Rightarrow> Amount \<Rightarrow> ('k, Amount) index_map \<Rightarrow> pos_error + ('k, Amount) index_map" where
  "im_add k a m = rbind (plus_amount (unwrap_or_default (map_of m k)) a) (\<lambda>x. Inr (AList.update k x m))"

definition im_sub :: "'k \<Rightarrow> Amount \<Rightarrow> ('k, Amount) index_map \<Rightarrow> pos_error + ('k, Amount) index_map" where
  "im_sub k a m = rbind (minus_amount (unwrap_or_default (map_of m k)) a) (\<lambda>x. Inr (AList.update k x m))"

definition bt_add :: "'k::linorder \<Rightarrow> Amount \<Rightarrow> ('k, Amount) btree_map \<Rightarrow> pos_error + ('k, Amount) btree_map" where
  "bt_add k a m = rbind (plus_amount (unwrap_or_default (map_of m k)) a) (\<lambda>x. Inr (bt_insert k x m))"

definition modified_redelegation_of ::
    "(Address \<Rightarrow> string) \<Rightarrow> Amount epoched \<Rightarrow> redelegations \<Rightarrow> BondsForRemovalRes \<Rightarrow> pos_error + ModifiedRedelegation" where
  "modified_redelegation_of encode E redelegated res =
     (case new_entry res of
        Some (bond_epoch, new_bond_amount) \<Rightarrow>
          if redelegations_at redelegated bond_epoch \<noteq> []
          then rbind (minus_amount (amount_at E bond_epoch) new_bond_amount)
                 (compute_modified_redelegation encode (redelegations_at redelegated bond_epoch) bond_epoch)
          else Inr ModifiedRedelegation_default
      | None \<Rightarrow> Inr ModifiedRedelegation_default)"

definition unbond_epochs :: "BondsForRemovalRes \<Rightarrow> epoch list" where
  "unbond_epochs res =
     (case new_entry res of Some (start, _) \<Rightarrow> insort_insert start (removal_epochs res) | None \<Rightarrow> removal_epochs res)"

definition unbonded_amount :: "Amount epoched \<Rightarrow> BondsForRemovalRes \<Rightarrow> epoch \<Rightarrow> pos_error + Amount" where
  "unbonded_amount E res e =
     (case new_entry res of
        Some (start, new_bond_amount) \<Rightarrow>
          if start = e then minus_amount (amount_at E e) new_bond_amount else Inr (amount_at E e)
      | None \<Rightarrow> Inr (amount_at E e))"

definition new_unbonds_map :: "Amount epoched \<Rightarrow> BondsForRemovalRes \<Rightarrow> pos_error + (epoch, Amount) btree_map" where
  "new_unbonds_map E res =
     rfold (\<lambda>acc e. rbind (unbonded_amount E res e) (\<lambda>a. Inr (bt_insert e a acc))) [] (unbond_epochs res)"

definition remove_unbonded :: "Amount epoched \<Rightarrow> BondsForRemovalRes \<Rightarrow> pos_error + Amount epoched" where
  "remove_unbonded E res =
     (let E1 = E\<lparr>lazy_map := (\<lambda>e. if e \<in> set (removal_epochs res) then None else lazy_map E e)\<rparr>
      in (case new_entry res of
            Some (bond_epoch, new_bond_amount) \<Rightarrow> bonds_set new_bond_amount bond_epoch 0 E1
          | None \<Rightarrow> Inr E1))"

definition updated_redelegations :: "BondsForRemovalRes \<Rightarrow> ModifiedRedelegation \<Rightarrow> redelegations \<Rightarrow> pos_error + redelegations" where
  "updated_redelegations res md redelegated =
     (let r1 = without_epochs (removal_epochs res) redelegated
      in (case mr_epoch md of
            Some e \<Rightarrow>
              if validators_to_remove md = [] then Inr (without_epochs [e] r1)
              else rbind (update_redelegated_bonds (redelegations_at r1 e) md) (\<lambda>r. Inr (put_redelegations e r r1))
          | None \<Rightarrow> Inr r1))"

text \<open>The redelegated unbonds as one list of entries: start of the bond, source validator and start of the source bond.\<close>

definition redelegated_entries :: "(epoch, redelegated_map) btree_map \<Rightarrow> ((epoch \<times> Address \<times> epoch) \<times> Amount) list" where
  "redelegated_entries m = concat (map (\<lambda>(start, r). map (\<lambda>((src, be), a). ((start, src, be), a)) r) m)"

definition add_redelegated_unbonds ::
    "epoch \<Rightarrow> (epoch, redelegated_map) btree_map \<Rightarrow> redelegations_by_epoch \<Rightarrow> pos_error + redelegations_by_epoch" where
  "add_redelegated_unbonds withdrawable_epoch new_redelegated m =
     rfold (\<lambda>m ((start, src, be), change). im_add (start, withdrawable_epoch, src, be) change m) m
       (redelegated_entries new_redelegated)"

definition sub_total_bonded :: "Amount epoched \<Rightarrow> epoch \<times> Amount \<Rightarrow> pos_error + Amount epoched" where
  "sub_total_bonded E entry =
     (let (start_epoch, amount) = entry
      in rbind (minus_amount (amount_at E start_epoch) amount) (\<lambda>x.
         Inr (E\<lparr>lazy_map := (lazy_map E)(start_epoch \<mapsto> x)\<rparr>)))"

definition update_totals ::
    "Address \<Rightarrow> epoch \<Rightarrow> (epoch, Amount) btree_map \<Rightarrow> (epoch, redelegated_map) btree_map \<Rightarrow> pos_ledger \<Rightarrow> pos_error + pos_ledger" where
  "update_totals v pipeline_epoch new_unbonds new_redelegated s =
     rbind (rfold sub_total_bonded (total_bonded s v) new_unbonds) (\<lambda>tb.
     rbind (rfold (\<lambda>m (start, a). bt_add (pipeline_epoch, start) a m) (total_unbonded s v) new_unbonds) (\<lambda>tu.
     rbind (rfold (\<lambda>m (k, change). im_sub k change m) (total_redelegated_bonded s v) (redelegated_entries new_redelegated)) (\<lambda>trb.
     rbind (rfold (\<lambda>m ((start, src, be), change). im_add (pipeline_epoch, start, src, be) change m)
              (total_redelegated_unbonded s v) (redelegated_entries new_redelegated)) (\<lambda>tru.
     Inr (s\<lparr>total_bonded := (total_bonded s)(v := tb), total_unbonded := (total_unbonded s)(v := tu),
            total_redelegated_bonded := (total_redelegated_bonded s)(v := trb),
            total_redelegated_unbonded := (total_redelegated_unbonded s)(v := tru)\<rparr>)))))"

definition tally_unbond_rewards ::
    "Address \<Rightarrow> Address \<Rightarrow> epoch \<Rightarrow> (epoch, Amount) btree_map \<Rightarrow> pos_ledger \<Rightarrow> pos_error + pos_ledger" where
  "tally_unbond_rewards source v current_epoch epoch_map s =
     (if current_epoch = 0 then Inr s
      else
        let last_claim_epoch = (case last_reward_claims s source v of None \<Rightarrow> 0 | Some e \<Rightarrow> e)
        in rbind (rfold (\<lambda>rewards (start_epoch, slashed_amount).
                    rfold (\<lambda>rewards ep.
                       if ep < last_claim_epoch then Inr rewards
                       else
                         let rp = (case rewards_products s v ep of None \<Rightarrow> Dec_zero | Some d \<Rightarrow> d)
                         in rbind (arith_result (Amount_mul_floor slashed_amount rp)) (plus_amount rewards))
                      rewards [start_epoch..<current_epoch])
                  Amount_zero epoch_map) (\<lambda>rewards.
           rbind (plus_amount (unwrap_or_default (rewards_counters s source v)) rewards) (\<lambda>c.
           Inr (s\<lparr>rewards_counters := (rewards_counters s)(source := (rewards_counters s source)(v \<mapsto> c))\<rparr>))))"

text \<open>The checks at the start of an unbonding.\<close>

definition check_unbond ::
    "Address option \<Rightarrow> Address \<Rightarrow> Amount \<Rightarrow> epoch \<Rightarrow> epoch \<Rightarrow> pos_ledger \<Rightarrow> pos_error + unit" where
  "check_unbond source_opt validator amount current_epoch pipeline_epoch s =
     (if (case source_opt of Some src \<Rightarrow> src \<noteq> validator \<and> is_validator src s | None \<Rightarrow> False)
      then Inl SourceMustNotBeAValidator
      else if \<not> is_validator validator s then Inl NotAValidator
      else
        rbind (is_validator_frozen validator current_epoch (lg_params s) s) (\<lambda>frozen.
        if frozen then Inl ValidatorIsFrozen
        else
          let source = (case source_opt of Some src \<Rightarrow> src | None \<Rightarrow> validator)
          in rbind (bonds_sum (lg_params s) pipeline_epoch (bonds s source validator)) (\<lambda>remaining_at_pipeline.
             if amount > remaining_at_pipeline then Inl UnbondAmountGreaterThanBond else Inr ())))"

text \<open>The writes of an unbonding up to the slashing: bonds, targets, unbonds and their redelegated parts, and the totals.\<close>

definition record_unbond ::
    "Address \<Rightarrow> Address \<Rightarrow> epoch \<Rightarrow> epoch \<Rightarrow> epoch \<Rightarrow> bool \<Rightarrow> BondsForRemovalRes \<Rightarrow> ModifiedRedelegation \<Rightarrow>
     (epoch, Amount) btree_map \<Rightarrow> pos_ledger \<Rightarrow> pos_error + (epoch, redelegated_map) btree_map \<times> pos_ledger" where
  "record_unbond source v current_epoch pipeline_epoch withdrawable_epoch is_redelegation res md new_unbonds s =
     (let params = lg_params s; redelegated = redelegated_bonds s source v
      in rbind (remove_unbonded (bonds s source v) res) (\<lambda>E.
         let s1 = put_bonds source v E s
         in rbind (bonds_sum params pipeline_epoch E) (\<lambda>bonds_total.
            rbind (if Amount_is_zero bonds_total
                   then remove_delegation_target params source v pipeline_epoch current_epoch s1 else Inr s1) (\<lambda>s2.
            rbind (if is_redelegation then Inr (unbonds s2 source v)
                   else rfold (\<lambda>m (start, a). bt_add (start, withdrawable_epoch) a m) (unbonds s2 source v) new_unbonds) (\<lambda>ub.
            rbind (compute_new_redelegated_unbonds redelegated (removal_epochs res) md) (\<lambda>new_redelegated.
            rbind (updated_redelegations res md redelegated) (\<lambda>r.
            rbind (if is_redelegation then Inr (redelegated_unbonds s2 source v)
                   else add_redelegated_unbonds withdrawable_epoch new_redelegated (redelegated_unbonds s2 source v)) (\<lambda>ru.
            let s3 = s2\<lparr>unbonds := (unbonds s2)(source := (unbonds s2 source)(v := ub)),
                        redelegated_bonds := (redelegated_bonds s2)(source := (redelegated_bonds s2 source)(v := r)),
                        redelegated_unbonds := (redelegated_unbonds s2)(source := (redelegated_unbonds s2 source)(v := ru))\<rparr>
            in rbind (update_totals v pipeline_epoch new_unbonds new_redelegated s3) (\<lambda>s4.
               Inr (new_redelegated, s4))))))))))"

definition unbond_tokens ::
    "(Address \<Rightarrow> string) \<Rightarrow> Address option \<Rightarrow> Address \<Rightarrow> Amount \<Rightarrow> epoch \<Rightarrow> bool \<Rightarrow> pos_ledger \<Rightarrow>
     pos_error + ResultSlashing \<times> pos_ledger" where
  "unbond_tokens encode source_opt validator amount current_epoch is_redelegation s =
     (if Amount_is_zero amount then Inr (ResultSlashing_default, s)
      else
        let params = lg_params s
        in rbind (epoch_plus current_epoch (pipeline_len params)) (\<lambda>pipeline_epoch.
           rbind (ok_or (withdrawable_epoch_offset params) OffsetPanic) (\<lambda>n.
           rbind (epoch_plus current_epoch n) (\<lambda>withdrawable_epoch.
           rbind (check_unbond source_opt validator amount current_epoch pipeline_epoch s) (\<lambda>_.
           let source = (case source_opt of Some src \<Rightarrow> src | None \<Rightarrow> validator);
               E = bonds s source validator
           in rbind (find_bonds_to_remove (bond_entries (pipeline_len params) E) amount) (\<lambda>res.
              rbind (modified_redelegation_of encode E (redelegated_bonds s source validator) res) (\<lambda>md.
              rbind (new_unbonds_map E res) (\<lambda>new_unbonds.
              rbind (record_unbond source validator current_epoch pipeline_epoch withdrawable_epoch is_redelegation
                       res md new_unbonds s) (\<lambda>(new_redelegated, s1).
              rbind (compute_amount_after_slashing_unbond (validator_slashes s1) params new_unbonds new_redelegated
                       (validator_slashes s1 validator)) (\<lambda>result_slashing.
              rbind (change_of (rs_sum result_slashing)) (\<lambda>c.
              rbind (ok_or (I256_checked_neg c) PosArith) (\<lambda>change_after_slashing.
              rbind (jailed_or_inactive params validator pipeline_epoch s1) (\<lambda>out.
              rbind (update_stake params validator change_after_slashing current_epoch None out s1) (\<lambda>s2.
              rbind (tally_unbond_rewards source validator current_epoch (rs_epoch_map result_slashing) s2) (\<lambda>s3.
              Inr (result_slashing, s3))))))))))))))))"

section \<open>Withdrawal\<close>

definition redelegated_unbonds_at :: "redelegations_by_epoch \<Rightarrow> epoch \<Rightarrow> epoch \<Rightarrow> redelegated_map" where
  "redelegated_unbonds_at m start withdraw =
     map (\<lambda>((_, _, v, be), a). ((v, be), a)) (filter (\<lambda>((s, w, _), _). s = start \<and> w = withdraw) m)"

definition withdrawable_unbonds ::
    "epoch \<Rightarrow> (epoch \<times> epoch, Amount) btree_map \<Rightarrow> redelegations_by_epoch \<Rightarrow> ((epoch \<times> epoch) \<times> Amount \<times> redelegated_map) list" where
  "withdrawable_unbonds current_epoch ub ru =
     map (\<lambda>((start, withdraw), a). ((start, withdraw), a, redelegated_unbonds_at ru start withdraw))
       (filter (\<lambda>((_, withdraw), _). \<not> withdraw > current_epoch) ub)"

definition withdraw_tokens ::
    "Address option \<Rightarrow> Address \<Rightarrow> epoch \<Rightarrow> pos_ledger \<Rightarrow> pos_error + Amount \<times> pos_ledger" where
  "withdraw_tokens source_opt validator current_epoch s =
     (let params = lg_params s;
          source = (case source_opt of Some src \<Rightarrow> src | None \<Rightarrow> validator);
          ub = unbonds s source validator;
          ru = redelegated_unbonds s source validator
      in if ub = [] then Inl NoUnbondFound
         else
           let ws = withdrawable_unbonds current_epoch ub ru
           in rbind (compute_amount_after_slashing_withdraw (validator_slashes s) params ws (validator_slashes s validator)) (\<lambda>result.
              let ub' = foldl (\<lambda>m (k, _). bt_remove k m) ub ws;
                  ru' = foldl (\<lambda>m ((start, withdraw), _). filter (\<lambda>((s, w, _), _). \<not> (s = start \<and> w = withdraw)) m) ru ws;
                  s1 = s\<lparr>unbonds := (unbonds s)(source := (unbonds s source)(validator := ub')),
                         redelegated_unbonds := (redelegated_unbonds s)(source := (redelegated_unbonds s source)(validator := ru'))\<rparr>
              in rbind (token_transfer POS source (rs_sum result) s1) (\<lambda>s2.
                 Inr (rs_sum result, s2))))"

section \<open>Redelegation\<close>

definition check_redelegation :: "Address \<Rightarrow> Address \<Rightarrow> Address \<Rightarrow> epoch \<Rightarrow> pos_ledger \<Rightarrow> pos_error + unit" where
  "check_redelegation delegator src_validator dest_validator current_epoch s =
     (if src_validator = dest_validator then Inl RedelegationSrcEqDest
      else if is_validator delegator s then Inl DelegatorIsValidator
      else if \<not> is_validator src_validator s then Inl NotAValidator
      else if \<not> is_validator dest_validator s then Inl NotAValidator
      else
        rbind (epoch_plus current_epoch (pipeline_len (lg_params s))) (\<lambda>_.
        case incoming_redelegations s src_validator delegator of
          Some end_epoch \<Rightarrow>
            if end_epoch = 0 then Inl OffsetPanic
            else rbind (processing_epoch_of (lg_params s) (end_epoch - 1)) (\<lambda>e.
                 if e \<le> current_epoch then Inr () else Inl IsChainedRedelegation)
        | None \<Rightarrow> Inr ()))"

text \<open>The records of a redelegation at the destination and the source, by the start of the bonds it unbonded.\<close>

definition record_redelegation ::
    "Address \<Rightarrow> Address \<Rightarrow> Address \<Rightarrow> epoch \<Rightarrow> epoch \<Rightarrow> ResultSlashing \<Rightarrow> pos_ledger \<Rightarrow> pos_error + pos_ledger" where
  "record_redelegation delegator src dest current_epoch pipeline_epoch result s =
     rbind (rfold (\<lambda>m (e, a). im_add (pipeline_epoch, src, e) a m) (redelegated_bonds s delegator dest) (rs_epoch_map result)) (\<lambda>rb.
     let s1 = s\<lparr>redelegated_bonds := (redelegated_bonds s)(delegator := (redelegated_bonds s delegator)(dest := rb))\<rparr>
     in rbind (if Amount_is_zero (rs_sum result) then Inr s1
               else add_to_bonds delegator dest (rs_sum result) current_epoch (pipeline_len (lg_params s1)) s1) (\<lambda>s2.
        rbind (rfold (\<lambda>m (start, a). im_add (dest, start, current_epoch) a m) (outgoing_redelegations s2 src) (rs_epoch_map result)) (\<lambda>og.
        rbind (rfold (\<lambda>m (e, a). im_add (pipeline_epoch, src, e) a m) (total_redelegated_bonded s2 dest) (rs_epoch_map result)) (\<lambda>trb.
        Inr (s2\<lparr>outgoing_redelegations := (outgoing_redelegations s2)(src := og),
                total_redelegated_bonded := (total_redelegated_bonded s2)(dest := trb),
                incoming_redelegations :=
                  (incoming_redelegations s2)(dest := (incoming_redelegations s2 dest)(delegator \<mapsto> pipeline_epoch))\<rparr>)))))"

definition redelegate_tokens ::
    "(Address \<Rightarrow> string) \<Rightarrow> Address \<Rightarrow> Address \<Rightarrow> Address \<Rightarrow> epoch \<Rightarrow> Amount \<Rightarrow> pos_ledger \<Rightarrow> pos_error + pos_ledger" where
  "redelegate_tokens encode delegator src_validator dest_validator current_epoch amount s =
     (if Amount_is_zero amount then Inr s
      else
        rbind (check_redelegation delegator src_validator dest_validator current_epoch s) (\<lambda>_.
        let params = lg_params s
        in rbind (epoch_plus current_epoch (pipeline_len params)) (\<lambda>pipeline_epoch.
           rbind (unbond_tokens encode (Some delegator) src_validator amount current_epoch True s) (\<lambda>(result_unbond, s1).
           rbind (record_redelegation delegator src_validator dest_validator current_epoch pipeline_epoch result_unbond s1) (\<lambda>s2.
           let s3 = add_delegation_target delegator dest_validator pipeline_epoch s2
           in rbind (jailed_or_inactive params dest_validator pipeline_epoch s3) (\<lambda>out.
              rbind (change_of (rs_sum result_unbond)) (\<lambda>change.
              update_stake params dest_validator change current_epoch None out s3)))))))"

section \<open>Bonds are removed from the latest on\<close>

lemma minus_amount_ok: "amount_val b \<le> amount_val a \<Longrightarrow> minus_amount a b = Inr (amount_of (amount_val a - amount_val b))"
  by (simp add: minus_amount_def Amount_checked_sub_eq)

lemma minus_amount_iff: "minus_amount a b = Inr c \<longleftrightarrow> amount_val a = amount_val b + amount_val c"
  by (auto simp: minus_amount_def result_simps checked_unat)

lemma Amount_is_zero_val: "Amount_is_zero a \<longleftrightarrow> amount_val a = 0"
  by (simp add: Amount_is_zero_def amount_val_def unat_eq_0) 

lemma unbonds_total_simps [simp]:
  "unbonds_total [] = 0" "unbonds_total ((k, a) # us) = amount_val a + unbonds_total us"
  "unbonds_total (us @ vs) = unbonds_total us + unbonds_total vs" "unbonds_total (rev us) = unbonds_total us"
proof -
  show "unbonds_total (rev us) = unbonds_total us" by (simp add: unbonds_total_def rev_map [symmetric])
qed (simp_all add: unbonds_total_def)

lemma insort_insert_least: "\<forall>y\<in>set ys. x < y \<Longrightarrow> insort_insert x ys = x # ys" for x :: epoch
  by (cases ys) (auto simp: insort_insert_key_def)

text \<open>The loop removes the bonds of a prefix of its list in full, and a part of the next one if the prefix is not enough.\<close>

lemma remove_bonds_loop_spec:
  assumes "sorted_wrt (>) (map fst xs)" "\<forall>x\<in>fst ` set xs. \<forall>y\<in>set (removal_epochs res). x < y"
    and "0 < amount_val amount" "amount_val amount \<le> unbonds_total xs"
  shows "(\<exists>ys zs. xs = ys @ zs \<and> unbonds_total ys = amount_val amount \<and>
        remove_bonds_loop xs amount res = Inr (res\<lparr>removal_epochs := map fst (rev ys) @ removal_epochs res\<rparr>)) \<or>
    (\<exists>ys e a zs n. xs = ys @ (e, a) # zs \<and> unbonds_total ys + amount_val a = amount_val amount + amount_val n \<and>
        0 < amount_val n \<and> amount_val n < amount_val a \<and>
        remove_bonds_loop xs amount res = Inr (res\<lparr>removal_epochs := map fst (rev ys) @ removal_epochs res, new_entry := Some (e, n)\<rparr>))"
  using assms
proof (induction xs arbitrary: amount res)
  case (Cons x xs)
  obtain e a where x: "x = (e, a)" by (cases x)
  show ?case
  proof (cases "amount_val a \<le> amount_val amount")
    case True
    then have mn: "min a amount = a" by (simp add: min_def amount_le_iff)
    let ?rem = "amount_of (amount_val amount - amount_val a)" and ?res = "res\<lparr>removal_epochs := e # removal_epochs res\<rparr>"
    have rem: "minus_amount amount a = Inr ?rem" using True by (rule minus_amount_ok)
    have ins: "insort_insert e (removal_epochs res) = e # removal_epochs res"
      using Cons.prems(2) by (intro insort_insert_least) (simp add: x)
    have step: "remove_bonds_loop (x # xs) amount res =
        (if amount_val amount = amount_val a then Inr ?res else remove_bonds_loop xs ?rem ?res)"
      using True by (simp add: x mn rem ins Amount_is_zero_val)
    show ?thesis
    proof (cases "amount_val amount = amount_val a")
      case eq: True
      show ?thesis by (rule disjI1, rule exI [of _ "[x]"], rule exI [of _ xs]) (use eq step in \<open>simp add: x\<close>)
    next
      case False
      have p: "sorted_wrt (>) (map fst xs)" "\<forall>x\<in>fst ` set xs. \<forall>y\<in>set (removal_epochs ?res). x < y"
        "0 < amount_val ?rem" "amount_val ?rem \<le> unbonds_total xs"
        using Cons.prems True False by (auto simp: x)
      from Cons.IH [OF p] show ?thesis
      proof (elim disjE exE conjE)
        fix ys zs
        assume "xs = ys @ zs" "unbonds_total ys = amount_val ?rem"
          "remove_bonds_loop xs ?rem ?res = Inr (?res\<lparr>removal_epochs := map fst (rev ys) @ removal_epochs ?res\<rparr>)"
        then show ?thesis using True False step
          by (intro disjI1 exI [of _ "x # ys"] exI [of _ zs]) (simp add: x)
      next
        fix ys e' a' zs n
        assume "xs = ys @ (e', a') # zs" "unbonds_total ys + amount_val a' = amount_val ?rem + amount_val n"
          "0 < amount_val n" "amount_val n < amount_val a'"
          "remove_bonds_loop xs ?rem ?res = Inr (?res\<lparr>removal_epochs := map fst (rev ys) @ removal_epochs ?res, new_entry := Some (e', n)\<rparr>)"
        then show ?thesis using True False step
          by (intro disjI2 exI [of _ "x # ys"] exI [of _ e'] exI [of _ a'] exI [of _ zs] exI [of _ n]) (simp add: x)
      qed
    qed
  next
    case False
    then have mn: "min a amount = amount" and ne: "amount \<noteq> a" by (auto simp: min_def amount_le_iff)
    let ?n = "amount_of (amount_val a - amount_val amount)"
    have n: "minus_amount a amount = Inr ?n" using False by (intro minus_amount_ok) simp
    have z: "minus_amount amount amount = Inr (amount_of 0)" using minus_amount_ok [of amount amount] by simp
    have "remove_bonds_loop (x # xs) amount res = Inr (res\<lparr>new_entry := Some (e, ?n)\<rparr>)"
      using ne by (simp add: x mn n z Amount_is_zero_val)
    then show ?thesis using False Cons.prems(3)
      by (intro disjI2 exI [of _ "[]"] exI [of _ e] exI [of _ a] exI [of _ xs] exI [of _ ?n]) (simp add: x)
  qed
qed simp

text \<open>
  The data of the bonds of a pair lies within the pipeline of the current epoch and of the last
  update, which a partial unbond sets to the epoch of the bond.
\<close>

definition bonds_ok :: "nat \<Rightarrow> epoch \<Rightarrow> Amount epoched \<Rightarrow> bool" where
  "bonds_ok future cur E \<longleftrightarrow>
     (\<forall>k. lazy_map E k \<noteq> None \<longrightarrow> k \<le> cur + future) \<and>
     (case last_update E of
        None \<Rightarrow> \<forall>k. lazy_map E k = None
      | Some lu \<Rightarrow> lu \<le> cur + future \<and> (\<forall>k. lazy_map E k \<noteq> None \<longrightarrow> k \<le> lu + future))"

definition bond_val :: "Amount epoched \<Rightarrow> epoch \<Rightarrow> nat" where
  "bond_val E e = amount_val (amount_at E e)"

lemma bonds_okD:
  assumes "bonds_ok future cur E"
  shows "lazy_map E k \<noteq> None \<Longrightarrow> k \<le> cur + future" "last_update E = None \<Longrightarrow> lazy_map E k = None"
    "last_update E = Some lu \<Longrightarrow> lu \<le> cur + future" "last_update E = Some lu \<Longrightarrow> lazy_map E k \<noteq> None \<Longrightarrow> k \<le> lu + future"
  using assms by (auto simp: bonds_ok_def split: option.splits)

lemma map_filter_entries:
  "map fst (List.map_filter (\<lambda>e. map_option (Pair e) (m e)) es) = filter (\<lambda>e. m e \<noteq> None) es"
  by (induction es) (auto simp: List.map_filter_def)

lemma map_of_map_filter:
  "map_of (List.map_filter (\<lambda>e. map_option (Pair e) (m e)) es) k = (if k \<in> set es then m k else None)"
  by (induction es) (auto simp: List.map_filter_def)

lemma bond_entries_sorted: "sorted_wrt (<) (map fst (bond_entries future E))"
proof (cases "last_update E")
  case (Some lu)
  have "sorted_wrt (<) (filter (\<lambda>e. lazy_map E e \<noteq> None) [0..<Suc (lu + future)])"
    by (rule sorted_wrt_filter) (rule sorted_wrt_upt)
  then show ?thesis unfolding bond_entries_def Some option.case map_filter_entries .
qed (simp add: bond_entries_def)

lemma bond_entries_map_of:
  assumes "bonds_ok future cur E"
  shows "map_of (bond_entries future E) = lazy_map E"
proof
  fix k
  show "map_of (bond_entries future E) k = lazy_map E k"
  proof (cases "last_update E")
    case None
    then show ?thesis using bonds_okD(2) [OF assms] by (simp add: bond_entries_def)
  next
    case (Some lu)
    then have "lazy_map E k = None" if "k \<notin> set [0..<Suc (lu + future)]"
      using bonds_okD(4) [OF assms Some, of k] that by (cases "lazy_map E k") auto
    then show ?thesis by (auto simp: bond_entries_def Some map_of_map_filter simp del: upt_Suc)
  qed
qed

lemma unbonds_total_map_filter:
  "unbonds_total (List.map_filter (\<lambda>e. map_option (Pair e) (m e)) es) = (\<Sum>e \<leftarrow> es. amount_val (unwrap_or_default (m e)))"
  by (induction es) (auto simp: List.map_filter_def unwrap_or_default_def split: option.splits)

lemma sum_upt_bound:
  assumes "\<And>k. n \<le> k \<Longrightarrow> f k = (0 :: nat)" "n \<le> n'"
  shows "(\<Sum>e \<leftarrow> [0..<n']. f e) = (\<Sum>e \<leftarrow> [0..<n]. f e)"
proof -
  have "[0..<n'] = [0..<n] @ [n..<n']" using upt_add_eq_append [of 0 n "n' - n"] assms(2) by simp
  moreover have "(\<Sum>e \<leftarrow> [n..<n']. f e) = 0" using assms(1) by (simp add: sum_list_eq_0_iff)
  ultimately show ?thesis by simp
qed

lemma sum_oval:
  "(\<Sum>k\<leftarrow>ks. oval (\<lambda>a. int (amount_val a)) (m k)) = int (\<Sum>k \<leftarrow> ks. amount_val (unwrap_or_default (m k)))"
  by (induction ks) (simp_all add: oval_def unwrap_or_default_def split: option.split)

lemma bonds_sum_total:
  assumes ok: "bonds_ok (pipeline_len params) cur E"
    and r: "bonds_sum params (cur + pipeline_len params) E = Inr t"
  shows "amount_val t = unbonds_total (bond_entries (pipeline_len params) E)"
proof (cases "last_update E")
  case None
  then show ?thesis using r by (simp add: bonds_sum_def get_sum_def epoched_result_def bond_entries_def unwrap_or_default_def)
next
  case (Some lu)
  let ?f = "pipeline_len params" and ?m = "lazy_map E"
  let ?b = "min (cur + ?f) (lu + ?f)"
  obtain r0 where r0: "get_sum Amount_checked_add BONDS_PAST ?f E (cur + ?f) = Inr r0" and t: "t = unwrap_or_default r0"
    using r by (auto simp: bonds_sum_def epoched_result_def result_simps split: sum.splits)
  have small: "lu + ?f < 2 ^ 64" using r0 by (auto simp: get_sum_def Some unchecked_add_def result_simps split: if_splits)
  then have "sub_past_epochs BONDS_PAST lu = 0" by (simp add: sub_past_epochs_def BONDS_PAST_def)
  then have "rfold (\<lambda>t k. add_some Amount_checked_add t (?m k)) None [0..<Suc ?b] = Inr r0"
    using r0 small by (simp add: get_sum_def Some unchecked_add_def del: upt_Suc)
  from amount_delta.rfold_add_Inr [OF _ _ this]
  have "oval (\<lambda>a. int (amount_val a)) r0 = (\<Sum>k\<leftarrow>[0..<Suc ?b]. oval (\<lambda>a. int (amount_val a)) (?m k))"
    by (simp add: all_ok_def pred_option_def del: upt_Suc)
  also have "\<dots> = int (\<Sum>e \<leftarrow> [0..<Suc ?b]. amount_val (unwrap_or_default (?m e)))"
    by (rule sum_oval)
  also have "(\<Sum>e \<leftarrow> [0..<Suc ?b]. amount_val (unwrap_or_default (?m e))) = unbonds_total (bond_entries ?f E)"
    unfolding bond_entries_def Some option.case unbonds_total_map_filter
  proof (rule sum_upt_bound [symmetric])
    fix k assume "Suc ?b \<le> k"
    then have "?m k = None"
      using bonds_okD(1) [OF ok, of k] bonds_okD(4) [OF ok Some, of k] by (cases "?m k") (auto simp: min_def split: if_splits)
    then show "amount_val (unwrap_or_default (?m k)) = 0" by (simp add: unwrap_or_default_def)
  qed simp
  finally show ?thesis unfolding t by (simp add: oval_def unwrap_or_default_def split: option.splits)
qed

lemma find_bonds_spec:
  assumes "sorted_wrt (<) (map fst entries)" "0 < amount_val amount" "amount_val amount \<le> unbonds_total entries"
  obtains (whole) kept removed where "entries = kept @ removed" "unbonds_total removed = amount_val amount"
      "find_bonds_to_remove entries amount = Inr \<lparr>removal_epochs = map fst removed, new_entry = None\<rparr>"
  | (partial) kept e a removed n where "entries = kept @ (e, a) # removed"
      "unbonds_total removed + amount_val a = amount_val amount + amount_val n" "0 < amount_val n" "amount_val n < amount_val a"
      "find_bonds_to_remove entries amount = Inr \<lparr>removal_epochs = map fst removed, new_entry = Some (e, n)\<rparr>"
proof -
  let ?res = "\<lparr>removal_epochs = [], new_entry = None\<rparr> :: BondsForRemovalRes"
  have sorted: "sorted_wrt (>) (map fst (rev entries))" using assms(1) by (simp add: rev_map [symmetric] sorted_wrt_rev)
  have le: "amount_val amount \<le> unbonds_total (rev entries)" using assms(3) by simp
  have "\<forall>x\<in>fst ` set (rev entries). \<forall>y\<in>set (removal_epochs ?res). x < y" by simp
  from remove_bonds_loop_spec [OF sorted this assms(2) le] show thesis
  proof (elim disjE exE conjE)
    fix ys zs
    assume *: "rev entries = ys @ zs" "unbonds_total ys = amount_val amount"
      "remove_bonds_loop (rev entries) amount ?res = Inr (?res\<lparr>removal_epochs := map fst (rev ys) @ removal_epochs ?res\<rparr>)"
    from *(1) have "entries = rev zs @ rev ys" by (metis rev_append rev_rev_ident)
    then show thesis using * by (intro whole [of "rev zs" "rev ys"]) (simp_all add: find_bonds_to_remove_def)
  next
    fix ys e a zs n
    assume *: "rev entries = ys @ (e, a) # zs" "unbonds_total ys + amount_val a = amount_val amount + amount_val n"
      "0 < amount_val n" "amount_val n < amount_val a"
      "remove_bonds_loop (rev entries) amount ?res = Inr (?res\<lparr>removal_epochs := map fst (rev ys) @ removal_epochs ?res, new_entry := Some (e, n)\<rparr>)"
    from *(1) have "entries = rev zs @ (e, a) # rev ys" by (metis rev_append rev_rev_ident rev.simps(2) append_Cons append_Nil append_assoc)
    then show thesis using * by (intro partial [of "rev zs" e a "rev ys" n]) (simp_all add: find_bonds_to_remove_def)
  qed
qed

lemma rfold_bt_insert:
  assumes "\<forall>(e, a)\<in>set us. g e = Inr a" "sorted_wrt (<) (map fst (acc @ us))"
  shows "rfold (\<lambda>acc e. rbind (g e) (\<lambda>a. Inr (bt_insert e a acc))) acc (map fst us) = Inr (acc @ us)"
  using assms
proof (induction us arbitrary: acc)
  case (Cons u us)
  obtain e a where u: "u = (e, a)" by (cases u)
  have g: "g e = Inr a" using Cons.prems(1) by (simp add: u)
  have ins: "bt_insert e a acc = acc @ [u]" using Cons.prems(2) by (subst bt_insert_last) (auto simp: u sorted_wrt_append)
  have "rfold (\<lambda>acc e. rbind (g e) (\<lambda>a. Inr (bt_insert e a acc))) (acc @ [u]) (map fst us) = Inr ((acc @ [u]) @ us)"
    using Cons.prems by (intro Cons.IH) auto
  then show ?case by (simp add: u g ins [unfolded u])
qed simp

lemma bonds_set_eq:
  assumes "e < 2 ^ 64"
  shows "bonds_set n e 0 E = Inr ((touch_epochs e E)\<lparr>lazy_map := (lazy_map E)(e \<mapsto> n)\<rparr>)"
proof -
  have "sub_past_epochs BONDS_PAST e = 0" using assms by (simp add: sub_past_epochs_def BONDS_PAST_def)
  then have "delta_update_data Amount_checked_add BONDS_PAST e E = Inr (touch_epochs e E)"
    by (simp add: delta_update_data_def split: option.split)
  then show ?thesis using assms
    by (simp add: bonds_set_def delta_set_def set_at_epoch_def unchecked_add_def epoched_result_def)
qed

lemma entry_in_map:
  assumes "bonds_ok future cur E" "(e, a) \<in> set (bond_entries future E)"
  shows "lazy_map E e = Some a" "amount_at E e = a"
proof -
  have "distinct (map fst (bond_entries future E))"
    using bond_entries_sorted by (metis strict_sorted_iff)
  then show *: "lazy_map E e = Some a"
    unfolding bond_entries_map_of [OF assms(1), symmetric] using assms(2) by simp
  show "amount_at E e = a" by (simp add: amount_at_def * unwrap_or_default_def)
qed

definition taken_at :: "(epoch, Amount) btree_map \<Rightarrow> epoch \<Rightarrow> nat" where
  "taken_at taken k = amount_val (unwrap_or_default (map_of taken k))"

lemma suffix_entries:
  assumes ok: "bonds_ok future cur E" and split: "bond_entries future E = kept @ rest"
  shows "map_of rest k = (if k \<in> fst ` set rest then lazy_map E k else None)" "sorted_wrt (<) (map fst rest)"
    "\<And>j. lazy_map E j \<noteq> None \<Longrightarrow> j \<notin> fst ` set rest \<Longrightarrow> j \<in> fst ` set kept"
proof -
  have sorted: "sorted_wrt (<) (map fst kept @ map fst rest)" using bond_entries_sorted [of future E] by (simp add: split)
  then have dis: "distinct (map fst (kept @ rest))" using strict_sorted_iff by (metis map_append)
  show "sorted_wrt (<) (map fst rest)" using sorted by (simp add: sorted_wrt_append)
  have m: "map_of (kept @ rest) = lazy_map E" using bond_entries_map_of [OF ok] by (simp add: split)
  show "map_of rest k = (if k \<in> fst ` set rest then lazy_map E k else None)"
  proof (cases "k \<in> fst ` set rest")
    case True
    then have "map_of kept k = None" using dis by (auto simp: map_of_eq_None_iff)
    then have "map_of (kept @ rest) k = map_of rest k" by (simp add: map_add_def)
    then show ?thesis using True m by simp
  qed (simp add: map_of_eq_None_iff)
  show "j \<in> fst ` set kept" if "lazy_map E j \<noteq> None" "j \<notin> fst ` set rest" for j
  proof -
    have "map_of (kept @ rest) j \<noteq> None" using that(1) m by simp
    then show ?thesis using that(2) by (auto simp: map_of_eq_None_iff)
  qed
qed

lemma taken_whole:
  assumes ok: "bonds_ok future cur E" and split: "bond_entries future E = kept @ removed"
  shows "new_unbonds_map E \<lparr>removal_epochs = map fst removed, new_entry = None\<rparr> = Inr removed"
    and "remove_unbonded E \<lparr>removal_epochs = map fst removed, new_entry = None\<rparr> =
      Inr (E\<lparr>lazy_map := (\<lambda>e. if e \<in> fst ` set removed then None else lazy_map E e)\<rparr>)"
proof -
  note suf = suffix_entries [OF ok split]
  have "\<forall>(e, a)\<in>set removed. unbonded_amount E \<lparr>removal_epochs = map fst removed, new_entry = None\<rparr> e = Inr a"
  proof clarify
    fix e a assume "(e, a) \<in> set removed"
    then have "amount_at E e = a" by (intro entry_in_map(2) [OF ok]) (simp add: split)
    then show "unbonded_amount E \<lparr>removal_epochs = map fst removed, new_entry = None\<rparr> e = Inr a"
      by (simp add: unbonded_amount_def)
  qed
  from rfold_bt_insert [OF this, of "[]"] suf(2)
  show "new_unbonds_map E \<lparr>removal_epochs = map fst removed, new_entry = None\<rparr> = Inr removed"
    by (simp add: new_unbonds_map_def unbond_epochs_def)
qed (simp add: remove_unbonded_def)

lemma taken_partial:
  assumes ok: "bonds_ok future cur E" and split: "bond_entries future E = kept @ (e, a) # removed"
    and n: "amount_val n < amount_val a" and small: "cur + future < 2 ^ 64"
  defines "res \<equiv> \<lparr>removal_epochs = map fst removed, new_entry = Some (e, n)\<rparr> :: BondsForRemovalRes"
  shows "new_unbonds_map E res = Inr ((e, amount_of (amount_val a - amount_val n)) # removed)"
    and "remove_unbonded E res = Inr ((touch_epochs e E)\<lparr>lazy_map := (\<lambda>k. if k \<in> fst ` set removed then None else lazy_map E k)(e \<mapsto> n)\<rparr>)"
proof -
  note suf = suffix_entries [OF ok split]
  have e: "amount_at E e = a" "lazy_map E e = Some a" using split by (auto intro: entry_in_map [OF ok])
  have later: "\<forall>k\<in>fst ` set removed. e < k" using suf(2) by auto
  have ins: "insort_insert e (map fst removed) = e # map fst removed" using later by (intro insort_insert_least) simp
  let ?us = "(e, amount_of (amount_val a - amount_val n)) # removed"
  have "\<forall>(k, b)\<in>set ?us. unbonded_amount E res k = Inr b"
  proof clarify
    fix k b assume kb: "(k, b) \<in> set ?us"
    show "unbonded_amount E res k = Inr b"
    proof (cases "k = e")
      case True
      then have "b = amount_of (amount_val a - amount_val n)" using kb later by auto
      then show ?thesis using True n by (simp add: unbonded_amount_def res_def e minus_amount_ok)
    next
      case False
      then have "(k, b) \<in> set removed" using kb by simp
      then have "amount_at E k = b" by (intro entry_in_map(2) [OF ok]) (simp add: split)
      then show ?thesis using False by (simp add: unbonded_amount_def res_def)
    qed
  qed
  from rfold_bt_insert [OF this, of "[]"] suf(2)
  show "new_unbonds_map E res = Inr ?us" by (simp add: new_unbonds_map_def unbond_epochs_def res_def ins)
  have "e < 2 ^ 64" using bonds_okD(1) [OF ok, of e] e(2) small by simp
  then show "remove_unbonded E res = Inr ((touch_epochs e E)\<lparr>lazy_map := (\<lambda>k. if k \<in> fst ` set removed then None else lazy_map E k)(e \<mapsto> n)\<rparr>)"
    by (simp add: remove_unbonded_def res_def bonds_set_eq touch_epochs_def)
qed

lemma unbond_takes:
  assumes ok: "bonds_ok future cur E" and amount: "0 < amount_val amount" "amount_val amount \<le> unbonds_total (bond_entries future E)"
    and small: "cur + future < 2 ^ 64"
  obtains res taken E' where "find_bonds_to_remove (bond_entries future E) amount = Inr res"
    "new_unbonds_map E res = Inr taken" "remove_unbonded E res = Inr E'"
    "bt_ok taken" "unbonds_total taken = amount_val amount" "\<And>k. bond_val E' k + taken_at taken k = bond_val E k"
    "bonds_ok future cur E'"
  using bond_entries_sorted amount
proof (cases rule: find_bonds_spec)
  case (whole kept removed)
  note suf = suffix_entries [OF ok whole(1)]
  let ?E = "E\<lparr>lazy_map := (\<lambda>e. if e \<in> fst ` set removed then None else lazy_map E e)\<rparr>"
  show thesis
  proof (rule that [OF whole(3) taken_whole [OF ok whole(1)]])
    show "bt_ok removed" using suf(2) by (simp add: bt_ok_def)
    show "bond_val ?E k + taken_at removed k = bond_val E k" for k
      by (simp add: bond_val_def amount_at_def taken_at_def suf(1) unwrap_or_default_def)
    show "bonds_ok future cur ?E" using ok by (auto simp: bonds_ok_def split: option.splits)
  qed (use whole in simp)
next
  case (partial kept e a removed n)
  note suf = suffix_entries [OF ok partial(1)]
  let ?E = "(touch_epochs e E)\<lparr>lazy_map := (\<lambda>k. if k \<in> fst ` set removed then None else lazy_map E k)(e \<mapsto> n)\<rparr>"
  let ?us = "(e, amount_of (amount_val a - amount_val n)) # removed"
  have e: "lazy_map E e = Some a" using partial(1) by (intro entry_in_map [OF ok]) simp
  have later: "\<forall>k\<in>fst ` set removed. e < k" using suf(2) by auto
  have early: "k < e" if "lazy_map E k \<noteq> None" "k \<notin> fst ` set removed" "k \<noteq> e" for k
  proof -
    have "k \<in> fst ` set kept" using suf(3) [OF that(1)] that by simp
    then show ?thesis using bond_entries_sorted [of future E] unfolding partial(1) by (auto simp: sorted_wrt_append)
  qed
  show thesis
  proof (rule that [OF partial(5) taken_partial [OF ok partial(1,4) small]])
    show "bt_ok ?us" using suf(2) by (simp add: bt_ok_def)
    show "unbonds_total ?us = amount_val amount" using partial(2,4) by simp
    show "bond_val ?E k + taken_at ?us k = bond_val E k" for k
    proof (cases "k = e")
      case True
      then show ?thesis using later e partial(4) by (simp add: bond_val_def amount_at_def taken_at_def unwrap_or_default_def)
    next
      case False
      have "map_of removed k = (if k \<in> fst ` set removed then lazy_map E k else None)"
        using suf(1) [of k] False by simp
      then show ?thesis using False by (simp add: bond_val_def amount_at_def taken_at_def unwrap_or_default_def)
    qed
    have "e \<le> cur + future" using bonds_okD(1) [OF ok, of e] e by simp
    then show "bonds_ok future cur ?E"
      using bonds_okD(1) [OF ok] early by (auto simp: bonds_ok_def dest: less_imp_le_nat split: if_splits)
        (metis early less_imp_le_nat option.distinct(1) trans_le_add1)
  qed
qed

section \<open>An unbonding moves exactly the amount\<close>

definition entry_val :: "('k \<times> Amount) list \<Rightarrow> 'k \<Rightarrow> nat" where
  "entry_val m k = amount_val (unwrap_or_default (map_of m k))"

lemma taken_at_entry_val: "taken_at = entry_val"
  by (simp add: taken_at_def entry_val_def fun_eq_iff)

lemma bt_add_val: "bt_add k a m = Inr m' \<Longrightarrow> entry_val m' j = entry_val m j + (if j = k then amount_val a else 0)"
  by (auto simp: bt_add_def result_simps entry_val_def map_of_bt_insert unwrap_or_default_def)

lemma im_add_val: "im_add k a m = Inr m' \<Longrightarrow> entry_val m' j = entry_val m j + (if j = k then amount_val a else 0)"
  by (auto simp: im_add_def result_simps entry_val_def update_conv' unwrap_or_default_def)

lemma rfold_bt_add:
  "rfold (\<lambda>m (x, a). bt_add (f x) a m) m us = Inr m' \<Longrightarrow>
     entry_val m' j = entry_val m j + (\<Sum>(x, a) \<leftarrow> us. if f x = j then amount_val a else 0)"
proof (induction us arbitrary: m)
  case (Cons u us)
  obtain x a where u: "u = (x, a)" by (cases u)
  from Cons.prems obtain m1 where m1: "bt_add (f x) a m = Inr m1" "rfold (\<lambda>m (x, a). bt_add (f x) a m) m1 us = Inr m'"
    by (auto simp: u result_simps)
  then show ?case using Cons.IH [OF m1(2)] bt_add_val [OF m1(1), of j] by (auto simp: u)
qed simp

lemma sum_key_entry_val:
  assumes "distinct (map fst us)"
  shows "(\<Sum>(x, a) \<leftarrow> us. if x = k then amount_val a else 0) = entry_val us k"
  using assms
proof (induction us)
  case (Cons u us)
  obtain x a where u: "u = (x, a)" by (cases u)
  have "map_of us x = None" using Cons.prems by (simp add: u map_of_eq_None_iff)
  then show ?case using Cons by (auto simp: u entry_val_def unwrap_or_default_def)
qed (simp add: entry_val_def unwrap_or_default_def)

lemma sub_total_bonded_eq:
  "sub_total_bonded E (x, a) = rbind (minus_amount (amount_at E x) a) (\<lambda>y. Inr (E\<lparr>lazy_map := (lazy_map E)(x \<mapsto> y)\<rparr>))"
  by (simp add: sub_total_bonded_def)

lemma rfold_sub_total_bonded:
  "rfold sub_total_bonded E us = Inr E' \<Longrightarrow>
     bond_val E' k + (\<Sum>(x, a) \<leftarrow> us. if x = k then amount_val a else 0) = bond_val E k"
proof (induction us arbitrary: E)
  case (Cons u us)
  obtain x a where u: "u = (x, a)" by (cases u)
  from Cons.prems obtain y where y: "minus_amount (amount_at E x) a = Inr y"
    "rfold sub_total_bonded (E\<lparr>lazy_map := (lazy_map E)(x \<mapsto> y)\<rparr>) us = Inr E'"
    by (auto simp: u sub_total_bonded_eq result_simps)
  have "bond_val (E\<lparr>lazy_map := (lazy_map E)(x \<mapsto> y)\<rparr>) k + (if x = k then amount_val a else 0) = bond_val E k"
    using y(1) by (auto simp: minus_amount_iff bond_val_def amount_at_def unwrap_or_default_def)
  then show ?case using Cons.IH [OF y(2)] by (simp add: u)
qed simp

text \<open>The parts of the state that the later steps of an unbonding leave alone.\<close>

definition same_bonds :: "pos_ledger \<Rightarrow> pos_ledger \<Rightarrow> bool" where
  "same_bonds s s' \<longleftrightarrow> bonds s' = bonds s \<and> unbonds s' = unbonds s \<and> total_bonded s' = total_bonded s \<and>
     total_unbonded s' = total_unbonded s \<and> lg_tokens s' = lg_tokens s \<and> lg_params s' = lg_params s \<and>
     native_token s' = native_token s \<and> validator_slashes s' = validator_slashes s \<and>
     redelegated_bonds s' = redelegated_bonds s \<and> redelegated_unbonds s' = redelegated_unbonds s \<and>
     last_slash_epochs s' = last_slash_epochs s \<and> max_commission_rate_changes s' = max_commission_rate_changes s"

lemma same_bonds_refl [simp]: "same_bonds s s"
  by (simp add: same_bonds_def)

lemma same_bonds_trans: "same_bonds s t \<Longrightarrow> same_bonds t u \<Longrightarrow> same_bonds s u"
  by (simp add: same_bonds_def)

lemma on_sets_same: "on_sets f s = Inr s' \<Longrightarrow> same_bonds s s'"
  by (auto simp: on_sets_def result_simps same_bonds_def)

lemma update_stake_same: "update_stake params v c cur off out s = Inr s' \<Longrightarrow> same_bonds s s'"
  unfolding update_stake_def rbind_Inr_iff
  by (elim exE conjE) (auto dest!: on_sets_same intro: same_bonds_trans split: if_splits)

lemma tally_unbond_rewards_same: "tally_unbond_rewards src v cur m s = Inr s' \<Longrightarrow> same_bonds s s'"
  unfolding tally_unbond_rewards_def Let_def by (auto simp: rbind_Inr_iff same_bonds_def split: if_splits)

lemma remove_delegation_target_same: "remove_delegation_target params d v e cur s = Inr s' \<Longrightarrow> same_bonds s s'"
  unfolding remove_delegation_target_def by (auto simp: rbind_Inr_iff same_bonds_def put_target_def split: option.splits)

lemma add_delegation_target_same: "same_bonds s (add_delegation_target d v e s)"
  by (simp add: add_delegation_target_def same_bonds_def put_target_def split: option.split prod.split)

lemma update_totals_spec:
  assumes "update_totals v pe taken red s = Inr s'" and dis: "distinct (map fst taken)"
  shows "bonds s' = bonds s" "unbonds s' = unbonds s" "lg_tokens s' = lg_tokens s" "lg_params s' = lg_params s"
    "validator_slashes s' = validator_slashes s" "redelegated_bonds s' = redelegated_bonds s"
    "\<And>k. bond_val (total_bonded s' v) k + entry_val taken k = bond_val (total_bonded s v) k"
    "\<And>u. u \<noteq> v \<Longrightarrow> total_bonded s' u = total_bonded s u"
    "\<And>e k. entry_val (total_unbonded s' v) (e, k) = entry_val (total_unbonded s v) (e, k) + (if e = pe then entry_val taken k else 0)"
proof -
  from assms(1) obtain tb tu trb tru where tb: "rfold sub_total_bonded (total_bonded s v) taken = Inr tb"
    and tu: "rfold (\<lambda>m (start, a). bt_add (pe, start) a m) (total_unbonded s v) taken = Inr tu"
    and s': "s' = s\<lparr>total_bonded := (total_bonded s)(v := tb), total_unbonded := (total_unbonded s)(v := tu),
            total_redelegated_bonded := (total_redelegated_bonded s)(v := trb),
            total_redelegated_unbonded := (total_redelegated_unbonded s)(v := tru)\<rparr>"
    unfolding update_totals_def rbind_Inr_iff by blast
  show "bonds s' = bonds s" "unbonds s' = unbonds s" "lg_tokens s' = lg_tokens s" "lg_params s' = lg_params s"
    "validator_slashes s' = validator_slashes s" "redelegated_bonds s' = redelegated_bonds s"
    "\<And>u. u \<noteq> v \<Longrightarrow> total_bonded s' u = total_bonded s u"
    by (simp_all add: s')
  show "bond_val (total_bonded s' v) k + entry_val taken k = bond_val (total_bonded s v) k" for k
    using rfold_sub_total_bonded [OF tb, of k] by (simp add: s' sum_key_entry_val [OF dis])
  show "entry_val (total_unbonded s' v) (e, k) = entry_val (total_unbonded s v) (e, k) + (if e = pe then entry_val taken k else 0)" for e k
  proof -
    have "entry_val tu (e, k) = entry_val (total_unbonded s v) (e, k) + (\<Sum>(x, a) \<leftarrow> taken. if (pe, x) = (e, k) then amount_val a else 0)"
      using tu by (rule rfold_bt_add)
    moreover have "(\<Sum>(x, a) \<leftarrow> taken. if (pe, x) = (e, k) then amount_val a else 0) = (if e = pe then entry_val taken k else 0)"
    proof (cases "e = pe")
      case True
      then show ?thesis by (simp add: sum_key_entry_val [OF dis])
    qed (auto simp: split_def)
    ultimately show ?thesis by (simp add: s')
  qed
qed

text \<open>The effect of an unbonding on the records: what is taken from the bonds of the pair, by the start of the bond.\<close>

definition unbond_effect ::
    "bool \<Rightarrow> Address \<Rightarrow> Address \<Rightarrow> epoch \<Rightarrow> epoch \<Rightarrow> (epoch, Amount) btree_map \<Rightarrow> pos_ledger \<Rightarrow> pos_ledger \<Rightarrow> bool" where
  "unbond_effect is_redelegation source v pipeline_epoch withdrawable_epoch taken s s' \<longleftrightarrow>
     (\<forall>k. bond_val (bonds s' source v) k + entry_val taken k = bond_val (bonds s source v) k) \<and>
     (\<forall>k. bond_val (total_bonded s' v) k + entry_val taken k = bond_val (total_bonded s v) k) \<and>
     (\<forall>k w. entry_val (unbonds s' source v) (k, w) =
        entry_val (unbonds s source v) (k, w) + (if w = withdrawable_epoch \<and> \<not> is_redelegation then entry_val taken k else 0)) \<and>
     (\<forall>e k. entry_val (total_unbonded s' v) (e, k) =
        entry_val (total_unbonded s v) (e, k) + (if e = pipeline_epoch then entry_val taken k else 0)) \<and>
     (\<forall>src u. (src, u) \<noteq> (source, v) \<longrightarrow> bonds s' src u = bonds s src u \<and> unbonds s' src u = unbonds s src u) \<and>
     (\<forall>u. u \<noteq> v \<longrightarrow> total_bonded s' u = total_bonded s u) \<and> lg_tokens s' = lg_tokens s \<and> lg_params s' = lg_params s"

lemma unbond_effect_same: "unbond_effect r src v p w taken s t \<Longrightarrow> same_bonds t u \<Longrightarrow> unbond_effect r src v p w taken s u"
  by (simp add: unbond_effect_def same_bonds_def)

lemma record_unbond_spec:
  assumes r: "record_unbond source v cur pe we is_red res md taken s = Inr (red, s')"
    and E': "remove_unbonded (bonds s source v) res = Inr E'"
    and dis: "distinct (map fst taken)" and took: "\<And>k. bond_val E' k + entry_val taken k = bond_val (bonds s source v) k"
  shows "unbond_effect is_red source v pe we taken s s' \<and> bonds s' source v = E' \<and> validator_slashes s' = validator_slashes s"
proof -
  let ?s1 = "put_bonds source v E' s"
  from r obtain bt s2 ub nr r2 ru where
    s2: "(if Amount_is_zero bt then remove_delegation_target (lg_params s) source v pe cur ?s1 else Inr ?s1) = Inr s2"
    and ub: "(if is_red then Inr (unbonds s2 source v)
        else rfold (\<lambda>m (start, a). bt_add (start, we) a m) (unbonds s2 source v) taken) = Inr ub"
    and tot: "update_totals v pe taken nr (s2\<lparr>unbonds := (unbonds s2)(source := (unbonds s2 source)(v := ub)),
                        redelegated_bonds := (redelegated_bonds s2)(source := (redelegated_bonds s2 source)(v := r2)),
                        redelegated_unbonds := (redelegated_unbonds s2)(source := (redelegated_unbonds s2 source)(v := ru))\<rparr>) = Inr s'"
    unfolding record_unbond_def Let_def E' rbind_simps rbind_Inr_iff by (elim exE conjE) (simp add: prod_eq_iff)
  have same: "same_bonds ?s1 s2" using s2 remove_delegation_target_same by (auto split: if_splits)
  note t = update_totals_spec [OF tot dis]
  have unb: "unbonds s2 = unbonds s" using same by (simp add: same_bonds_def put_bonds_def)
  have u: "entry_val ub (k, w) = entry_val (unbonds s source v) (k, w) + (if w = we \<and> \<not> is_red then entry_val taken k else 0)" for k w
  proof (cases is_red)
    case False
    then have "rfold (\<lambda>m (start, a). bt_add (start, we) a m) (unbonds s source v) taken = Inr ub" using ub unb by simp
    then have "entry_val ub (k, w) = entry_val (unbonds s source v) (k, w) + (\<Sum>(x, a) \<leftarrow> taken. if (x, we) = (k, w) then amount_val a else 0)"
      by (rule rfold_bt_add)
    moreover have "(\<Sum>(x, a) \<leftarrow> taken. if (x, we) = (k, w) then amount_val a else 0) = (if w = we then entry_val taken k else 0)"
    proof (cases "w = we")
      case True
      then show ?thesis by (simp add: sum_key_entry_val [OF dis])
    qed (auto simp: split_def)
    ultimately show ?thesis using False by simp
  qed (use ub unb in simp)
  show ?thesis
    using same took u t by (simp add: unbond_effect_def same_bonds_def put_bonds_def)
qed

lemma unbond_tokensE:
  assumes "unbond_tokens encode source_opt v amount cur is_red s = Inr (result, s')" "\<not> Amount_is_zero amount"
  defines "source \<equiv> (case source_opt of Some src \<Rightarrow> src | None \<Rightarrow> v)"
  obtains w res md taken red s1 out s2 c where "cur + pipeline_len (lg_params s) < 2 ^ 64"
    "withdrawable_epoch_offset (lg_params s) = Some w" "cur + w < 2 ^ 64"
    "check_unbond source_opt v amount cur (cur + pipeline_len (lg_params s)) s = Inr ()"
    "find_bonds_to_remove (bond_entries (pipeline_len (lg_params s)) (bonds s source v)) amount = Inr res"
    "modified_redelegation_of encode (bonds s source v) (redelegated_bonds s source v) res = Inr md"
    "new_unbonds_map (bonds s source v) res = Inr taken"
    "record_unbond source v cur (cur + pipeline_len (lg_params s)) (cur + w) is_red res md taken s = Inr (red, s1)"
    "compute_amount_after_slashing_unbond (validator_slashes s1) (lg_params s) taken red (validator_slashes s1 v) = Inr result"
    "rbind (change_of (rs_sum result)) (\<lambda>c. ok_or (I256_checked_neg c) PosArith) = Inr c"
    "update_stake (lg_params s) v c cur None out s1 = Inr s2"
    "tally_unbond_rewards source v cur (rs_epoch_map result) s2 = Inr s'"
proof -
  note r = assms(1) [unfolded unbond_tokens_def Let_def if_not_P [OF assms(2)] source_def [symmetric] split_def rbind_Inr_iff]
  then show thesis
  proof (elim exE conjE)
    fix pe n w' u res md taken p result' c c' out s2 s3
    assume *: "epoch_plus cur (pipeline_len (lg_params s)) = Inr pe" "ok_or (withdrawable_epoch_offset (lg_params s)) OffsetPanic = Inr n"
      "epoch_plus cur n = Inr w'" "check_unbond source_opt v amount cur pe s = Inr u"
      "find_bonds_to_remove (bond_entries (pipeline_len (lg_params s)) (bonds s source v)) amount = Inr res"
      "modified_redelegation_of encode (bonds s source v) (redelegated_bonds s source v) res = Inr md"
      "new_unbonds_map (bonds s source v) res = Inr taken"
      "record_unbond source v cur pe w' is_red res md taken s = Inr p"
      "compute_amount_after_slashing_unbond (validator_slashes (snd p)) (lg_params s) taken (fst p) (validator_slashes (snd p) v) = Inr result'"
      "change_of (rs_sum result') = Inr c" "ok_or (I256_checked_neg c) PosArith = Inr c'"
      "update_stake (lg_params s) v c' cur None out (snd p) = Inr s2"
      "tally_unbond_rewards source v cur (rs_epoch_map result') s2 = Inr s3" "Inr (result', s3) = Inr (result, s')"
    then show thesis
      by (intro that [of n res md taken "fst p" "snd p" c' out s2]) (auto simp: epoch_plus_def result_simps split: if_splits)
  qed
qed

lemma check_unbond_enough:
  assumes "check_unbond source_opt v amount cur (cur + pipeline_len (lg_params s)) s = Inr ()"
    and "bonds_ok (pipeline_len (lg_params s)) cur (bonds s (case source_opt of Some src \<Rightarrow> src | None \<Rightarrow> v) v)"
  shows "amount_val amount \<le> unbonds_total (bond_entries (pipeline_len (lg_params s)) (bonds s (case source_opt of Some src \<Rightarrow> src | None \<Rightarrow> v) v))"
proof -
  from assms(1) obtain t where t: "bonds_sum (lg_params s) (cur + pipeline_len (lg_params s))
      (bonds s (case source_opt of Some src \<Rightarrow> src | None \<Rightarrow> v) v) = Inr t" "\<not> amount > t"
    unfolding check_unbond_def Let_def by (auto simp: rbind_Inr_iff split: if_splits)
  show ?thesis using bonds_sum_total [OF assms(2) t(1)] t(2) by (simp add: not_less amount_le_iff)
qed

lemma unbond_moves:
  assumes "unbond_tokens encode source_opt v amount cur is_redelegation s = Inr (result, s')" "\<not> Amount_is_zero amount"
    and "source = (case source_opt of Some src \<Rightarrow> src | None \<Rightarrow> v)"
    and "bonds_ok (pipeline_len (lg_params s)) cur (bonds s source v)"
  shows "\<exists>taken w. withdrawable_epoch_offset (lg_params s) = Some w \<and> bt_ok taken \<and> unbonds_total taken = amount_val amount \<and>
    unbond_effect is_redelegation source v (cur + pipeline_len (lg_params s)) (cur + w) taken s s' \<and>
    bonds_ok (pipeline_len (lg_params s)) cur (bonds s' source v)"
proof -
  let ?f = "pipeline_len (lg_params s)" and ?E = "bonds s source v"
  obtain w res md taken red s1 out s2 c where u: "cur + ?f < 2 ^ 64" "withdrawable_epoch_offset (lg_params s) = Some w"
    "check_unbond source_opt v amount cur (cur + ?f) s = Inr ()"
    "find_bonds_to_remove (bond_entries ?f ?E) amount = Inr res" "new_unbonds_map ?E res = Inr taken"
    "record_unbond source v cur (cur + ?f) (cur + w) is_redelegation res md taken s = Inr (red, s1)"
    "update_stake (lg_params s) v c cur None out s1 = Inr s2" "tally_unbond_rewards source v cur (rs_epoch_map result) s2 = Inr s'"
    by (rule unbond_tokensE [OF assms(1,2), folded assms(3)]) blast
  have amount: "0 < amount_val amount" "amount_val amount \<le> unbonds_total (bond_entries ?f ?E)"
    using assms(2) check_unbond_enough [OF u(3)] assms(3,4) by (simp_all add: Amount_is_zero_val)
  obtain res' taken' E' where t: "find_bonds_to_remove (bond_entries ?f ?E) amount = Inr res'"
    "new_unbonds_map ?E res' = Inr taken'" "remove_unbonded ?E res' = Inr E'"
    "bt_ok taken'" "unbonds_total taken' = amount_val amount" "\<And>k. bond_val E' k + taken_at taken' k = bond_val ?E k"
    "bonds_ok ?f cur E'"
    by (rule unbond_takes [OF assms(4) amount u(1)]) blast
  have eq: "res' = res" "taken' = taken" using t(1,2) u(4,5) by auto
  have "unbond_effect is_redelegation source v (cur + ?f) (cur + w) taken s s1 \<and> bonds s1 source v = E'"
    using record_unbond_spec [OF u(6), of E'] t(3,6) bt_ok_distinct [OF t(4)] by (simp add: eq taken_at_entry_val)
  moreover have same: "same_bonds s1 s'"
    using update_stake_same [OF u(7)] tally_unbond_rewards_same [OF u(8)] by (rule same_bonds_trans)
  ultimately have "unbond_effect is_redelegation source v (cur + ?f) (cur + w) taken s s'" "bonds s' source v = E'"
    using unbond_effect_same by (auto simp: same_bonds_def)
  then show ?thesis using u(2) t(4,5,7) by (auto simp: eq)
qed

text \<open>
  C4: An unbonding that succeeds takes exactly the requested amount from the bonds of the pair, adds it
  to their unbonds at the withdrawable epoch, by the start of each bond, unless it is the first half of
  a redelegation, and moves the same
  amounts from the bonded to the unbonded total of the validator. No other pair and no token balance changes.
\<close>

theorem unbond_moves_exactly:
  assumes "unbond_tokens encode source_opt v amount cur is_redelegation s = Inr (result, s')" "\<not> Amount_is_zero amount"
    and "source = (case source_opt of Some src \<Rightarrow> src | None \<Rightarrow> v)"
    and "bonds_ok (pipeline_len (lg_params s)) cur (bonds s source v)"
  shows "\<exists>taken w. withdrawable_epoch_offset (lg_params s) = Some w \<and> bt_ok taken \<and> unbonds_total taken = amount_val amount \<and>
    unbond_effect is_redelegation source v (cur + pipeline_len (lg_params s)) (cur + w) taken s s' \<and>
    bonds_ok (pipeline_len (lg_params s)) cur (bonds s' source v)"
  using assms by (rule unbond_moves)

section \<open>The total of a validator is the sum of its bonds\<close>

definition totals_match :: "pos_ledger \<Rightarrow> Address \<Rightarrow> bool" where
  "totals_match s v \<longleftrightarrow> (\<exists>S. finite S \<and> (\<forall>src e. src \<notin> S \<longrightarrow> bond_val (bonds s src v) e = 0) \<and>
     (\<forall>e. bond_val (total_bonded s v) e = (\<Sum>src\<in>S. bond_val (bonds s src v) e)))"

lemma totals_matchE:
  assumes "totals_match s v"
  obtains S where "finite S" "source \<in> S" "\<And>src e. src \<notin> S \<Longrightarrow> bond_val (bonds s src v) e = 0"
    "\<And>e. bond_val (total_bonded s v) e = bond_val (bonds s source v) e + (\<Sum>src\<in>S - {source}. bond_val (bonds s src v) e)"
proof -
  from assms obtain S where S: "finite S" "\<And>src e. src \<notin> S \<Longrightarrow> bond_val (bonds s src v) e = 0"
    "\<And>e. bond_val (total_bonded s v) e = (\<Sum>src\<in>S. bond_val (bonds s src v) e)" unfolding totals_match_def by blast
  show thesis
  proof (rule that [of "insert source S"])
    show "bond_val (total_bonded s v) e = bond_val (bonds s source v) e + (\<Sum>src\<in>insert source S - {source}. bond_val (bonds s src v) e)" for e
    proof -
      have "(\<Sum>src\<in>insert source S. bond_val (bonds s src v) e) = (\<Sum>src\<in>S. bond_val (bonds s src v) e)"
        using S(1,2) by (intro sum.mono_neutral_right) auto
      then show ?thesis using S(1,3) by (simp add: sum.remove [of "insert source S" source])
    qed
  qed (use S in auto)
qed

lemma totals_matchI:
  assumes "finite S" "source \<in> S" "\<And>src e. src \<notin> S \<Longrightarrow> bond_val (bonds s src v) e = 0"
    "\<And>e. bond_val (total_bonded s v) e = bond_val (bonds s source v) e + (\<Sum>src\<in>S - {source}. bond_val (bonds s src v) e)"
  shows "totals_match s v"
  unfolding totals_match_def using assms by (intro exI [of _ S]) (simp add: sum.remove)

text \<open>A change of the bonds of one pair, matched by the change of the total of its validator.\<close>

lemma totals_match_step:
  assumes match: "totals_match s u" and others: "\<And>src w. (src, w) \<noteq> (source, v) \<Longrightarrow> bonds s' src w = bonds s src w"
      "\<And>w. w \<noteq> v \<Longrightarrow> total_bonded s' w = total_bonded s w"
    and step: "\<And>e. bond_val (total_bonded s' v) e + bond_val (bonds s source v) e = bond_val (total_bonded s v) e + bond_val (bonds s' source v) e"
  shows "totals_match s' u"
proof (cases "u = v")
  case True
  from match obtain S where S: "finite S" "source \<in> S" "\<And>src e. src \<notin> S \<Longrightarrow> bond_val (bonds s src v) e = 0"
    "\<And>e. bond_val (total_bonded s v) e = bond_val (bonds s source v) e + (\<Sum>src\<in>S - {source}. bond_val (bonds s src v) e)"
    unfolding True by (rule totals_matchE [where source = source]) blast
  have same: "bonds s' src v = bonds s src v" if "src \<noteq> source" for src using others(1) that by simp
  show ?thesis unfolding True
  proof (rule totals_matchI [OF S(1,2)])
    show "bond_val (bonds s' src v) e = 0" if "src \<notin> S" for src e
    proof -
      have "src \<noteq> source" using that S(2) by blast
      then show ?thesis using S(3) [OF that] same by simp
    qed
    have "(\<Sum>src\<in>S - {source}. bond_val (bonds s' src v) e) = (\<Sum>src\<in>S - {source}. bond_val (bonds s src v) e)" for e
      using same by (intro sum.cong) auto
    then show "bond_val (total_bonded s' v) e = bond_val (bonds s' source v) e + (\<Sum>src\<in>S - {source}. bond_val (bonds s' src v) e)" for e
      using S(4) [of e] step [of e] by simp
  qed
next
  case False
  then show ?thesis using match others by (simp add: totals_match_def)
qed

lemma bonds_add_val:
  assumes "bonds_add amount cur offset E = Inr E'"
  shows "bond_val E' e = bond_val E e + (if e = cur + offset then amount_val amount else 0)"
    and "last_update E' = Some cur" "\<And>k. lazy_map E' k \<noteq> None \<Longrightarrow> lazy_map E k \<noteq> None \<or> k = cur + offset"
    and "cur + offset < 2 ^ 64"
proof -
  from assms have r: "delta_add Amount_checked_add Amount_zero BONDS_PAST amount cur offset E = Inr E'"
    by (auto simp: bonds_add_def epoched_result_def split: sum.splits)
  then have small: "cur + offset < 2 ^ 64" by (auto simp: delta_add_def unchecked_add_def rbind_Inr_iff split: if_splits)
  then have "sub_past_epochs BONDS_PAST cur = 0" by (simp add: sub_past_epochs_def BONDS_PAST_def)
  then have "delta_update_data Amount_checked_add BONDS_PAST cur E = Inr (touch_epochs cur E)"
    by (simp add: delta_update_data_def split: option.split)
  then have "\<exists>x. Amount_checked_add (unwrap_or_default (lazy_map E (cur + offset))) amount = Some x \<and>
      E' = (touch_epochs cur E)\<lparr>lazy_map := (lazy_map E)(cur + offset \<mapsto> x)\<rparr>"
    using r small by (auto simp: delta_add_def unchecked_add_def set_at_epoch_def Let_def result_simps unwrap_or_default_def)
  then obtain x where x: "amount_val x = bond_val E (cur + offset) + amount_val amount"
    "E' = (touch_epochs cur E)\<lparr>lazy_map := (lazy_map E)(cur + offset \<mapsto> x)\<rparr>"
    by (auto simp: bond_val_def amount_at_def checked_unat)
  show "bond_val E' e = bond_val E e + (if e = cur + offset then amount_val amount else 0)"
    using x by (simp add: bond_val_def amount_at_def unwrap_or_default_def)
  show "last_update E' = Some cur" "\<And>k. lazy_map E' k \<noteq> None \<Longrightarrow> lazy_map E k \<noteq> None \<or> k = cur + offset" "cur + offset < 2 ^ 64"
    using x small by (auto split: if_splits)
qed

lemma add_to_bonds_spec:
  assumes "add_to_bonds source v amount cur offset s = Inr s'"
  shows "\<And>e. bond_val (bonds s' source v) e = bond_val (bonds s source v) e + (if e = cur + offset then amount_val amount else 0)"
    "\<And>e. bond_val (total_bonded s' v) e = bond_val (total_bonded s v) e + (if e = cur + offset then amount_val amount else 0)"
    "\<And>src w. (src, w) \<noteq> (source, v) \<Longrightarrow> bonds s' src w = bonds s src w" "\<And>w. w \<noteq> v \<Longrightarrow> total_bonded s' w = total_bonded s w"
    "unbonds s' = unbonds s" "lg_tokens s' = lg_tokens s" "total_unbonded s' = total_unbonded s" "native_token s' = native_token s"
proof -
  from assms obtain b t where b: "bonds_add amount cur offset (bonds s source v) = Inr b"
    and t: "bonds_add amount cur offset (total_bonded s v) = Inr t" and
    s': "s' = (put_bonds source v b s)\<lparr>total_bonded := (total_bonded s)(v := t)\<rparr>"
    unfolding add_to_bonds_def rbind_Inr_iff by blast
  show "bond_val (bonds s' source v) e = bond_val (bonds s source v) e + (if e = cur + offset then amount_val amount else 0)"
    "bond_val (total_bonded s' v) e = bond_val (total_bonded s v) e + (if e = cur + offset then amount_val amount else 0)" for e
    using bonds_add_val(1) [OF b, of e] bonds_add_val(1) [OF t, of e] by (simp_all add: s' put_bonds_def)
qed (use assms in \<open>auto simp: add_to_bonds_def rbind_Inr_iff put_bonds_def\<close>)

lemma token_transfer_spec:
  assumes "token_transfer src dest amount s = Inr s'"
  shows "s' = s\<lparr>lg_tokens := lg_tokens s'\<rparr>" "transfer (native_token s) src dest amount (lg_tokens s) = (Inr (), lg_tokens s')"
  using assms by (auto simp: token_transfer_def split: prod.splits sum.splits)

lemma bond_tokens_spec:
  assumes r: "bond_tokens source_opt v amount cur offset_opt s = Inr s'" and nz: "\<not> Amount_is_zero amount"
  defines "source \<equiv> (case source_opt of Some src \<Rightarrow> src | None \<Rightarrow> v)"
    and "offset \<equiv> (case offset_opt of Some n \<Rightarrow> n | None \<Rightarrow> pipeline_len (lg_params s))"
  obtains s1 where "transfer (native_token s) source POS amount (lg_tokens s) = (Inr (), lg_tokens s1)"
    "add_to_bonds source v amount cur offset (s\<lparr>lg_tokens := lg_tokens s1\<rparr>) = Inr s1" "same_bonds s1 s'"
proof -
  from r [unfolded bond_tokens_def Let_def if_not_P [OF nz] source_def [symmetric]]
  obtain s1 oe st s2 out c where s1: "token_transfer source POS amount s = Inr s1"
    and s2: "add_to_bonds source v amount cur (case offset_opt of Some n \<Rightarrow> n | None \<Rightarrow> pipeline_len (lg_params s1)) s1 = Inr s2"
    and s': "update_stake (lg_params s1) v c cur offset_opt out (add_delegation_target source v oe s2) = Inr s'"
    by (auto simp: rbind_Inr_iff split: if_splits)
  note t = token_transfer_spec [OF s1]
  have params: "lg_params s1 = lg_params s" using t(1) by (metis pos_ledger.ext_inject pos_ledger.surjective pos_ledger.update_convs(3))
  have tok: "lg_tokens s2 = lg_tokens s1" using add_to_bonds_spec(6) [OF s2] .
  show thesis
  proof (rule that [of s2])
    show "transfer (native_token s) source POS amount (lg_tokens s) = (Inr (), lg_tokens s2)" using t(2) tok by simp
    show "add_to_bonds source v amount cur offset (s\<lparr>lg_tokens := lg_tokens s2\<rparr>) = Inr s2"
      using s2 t(1) unfolding offset_def params tok by simp
    show "same_bonds s2 s'" by (rule same_bonds_trans [OF add_delegation_target_same update_stake_same [OF s']])
  qed
qed

section \<open>A ledger with one bond\<close>

definition sample_ledger :: pos_ledger where
  "sample_ledger =
     \<lparr>lg_params = default_pos_params, native_token = sample_token,
      lg_tokens = [balance_key sample_token (sample_account 1) \<mapsto> AmountVal (Amount 10)],
      lg_sets = empty_pos_state\<lparr>validator_states := (\<lambda>_. epoched_open)
        (sample_account 2 := \<lparr>lazy_map = [5 \<mapsto> BelowThreshold], last_update = Some 3, oldest_epoch = Some 3\<rparr>)\<rparr>,
      max_commission_rate_changes = [sample_account 2 \<mapsto> Dec_zero],
      bonds = (\<lambda>_ _. epoched_open), total_bonded = (\<lambda>_. epoched_open), unbonds = (\<lambda>_ _. []), total_unbonded = (\<lambda>_. []),
      redelegated_bonds = (\<lambda>_ _. []), redelegated_unbonds = (\<lambda>_ _. []),
      total_redelegated_bonded = (\<lambda>_. []), total_redelegated_unbonded = (\<lambda>_. []),
      outgoing_redelegations = (\<lambda>_. []), incoming_redelegations = (\<lambda>_. Map.empty),
      validator_slashes = (\<lambda>_. []), last_slash_epochs = Map.empty, delegation_targets = (\<lambda>_. Map.empty),
      rewards_products = (\<lambda>_. Map.empty), last_reward_claims = (\<lambda>_. Map.empty), rewards_counters = (\<lambda>_. Map.empty),
      rewards_accumulator = [], commission_rates = (\<lambda>_. epoched_open), total_consensus_stakes = epoched_open,
      enqueued_slashes = epoched_open, last_staked_ratio = None, last_pos_inflation_amount = None\<rparr>"

lemma sample_past: "offset_of default_pos_params OffsetMaxProposalPeriodOrSlashProcessingLenPlus = Inr 29"
  by (simp add: offset_of_def slash_processing_epoch_offset_def default_pos_params_def u64_add_def DEFAULT_NUM_PAST_EPOCHS_def)

lemma sample_state:
  "get_validator_state default_pos_params (sample_account 2) 5 (lg_sets sample_ledger) = Inr (Some BelowThreshold)"
  by (simp add: get_validator_state_def offset_of_def sample_ledger_def epoched_get_def
      unchecked_add_def sub_past_epochs_def DEFAULT_NUM_PAST_EPOCHS_def default_pos_params_def u64_add_def
      epoched_result_def get_loop.simps)

lemma default_pipeline: "pipeline_len default_pos_params = 2" "amount_val (validator_stake_threshold default_pos_params) = 1000000"
  by (simp_all add: default_pos_params_def Amount_native_whole_def NATIVE_SCALE_def checked_mul_def amount_val_def)

lemma sample_past_epochs: "sub_past_epochs 29 3 = 0" "sub_past_epochs BONDS_PAST 3 = 0"
  by (simp_all add: sub_past_epochs_def BONDS_PAST_def)

definition sample_deltas :: "int \<Rightarrow> Change epoched" where
  "sample_deltas z = \<lparr>lazy_map = [5 \<mapsto> i256_of z], last_update = Some 3, oldest_epoch = Some 3\<rparr>"

definition sample_bonds :: "nat \<Rightarrow> Amount epoched" where
  "sample_bonds n = \<lparr>lazy_map = [5 \<mapsto> amount_of n], last_update = Some 3, oldest_epoch = Some 3\<rparr>"

lemma sample_update_delta:
  assumes "\<bar>z\<bar> < 2 ^ 200" "\<bar>d\<bar> < 2 ^ 200"
  shows "update_delta default_pos_params (i256_of d) 3 2 (sample_deltas z) = Inr (sample_deltas (z + d))"
    "update_delta default_pos_params (i256_of d) 3 2 epoched_open = Inr (sample_deltas d)"
proof -
  show "update_delta default_pos_params (i256_of d) 3 2 (sample_deltas z) = Inr (sample_deltas (z + d))"
    using assms by (simp add: update_delta_def sample_past epoch_plus_def sample_deltas_def I256_checked_add_eq i256_val_of I256_inv_of i256_checked_def
      delta_set_def delta_update_data_def sample_past_epochs touch_epochs_def set_at_epoch_def epoched_result_def unchecked_add_def)
  show "update_delta default_pos_params (i256_of d) 3 2 epoched_open = Inr (sample_deltas d)"
    using assms by (simp add: update_delta_def sample_past epoch_plus_def sample_deltas_def I256_checked_add_eq i256_val_of I256_inv_of i256_checked_def
      delta_set_def delta_update_data_def sample_past_epochs touch_epochs_def set_at_epoch_def epoched_result_def unchecked_add_def
      epoched_open_def)
qed

lemma sample_stake:
  assumes "z < 2 ^ 200"
  shows "validator_deltas s v = sample_deltas (int z) \<Longrightarrow> read_validator_stake default_pos_params v 5 s = Inr (amount_of z)"
    "validator_deltas s v = epoched_open \<Longrightarrow> read_validator_stake default_pos_params v 5 s = Inr Amount_zero"
proof -
  have "\<bar>int z\<bar> < 2 ^ 255" using assms by simp
  then have "int (amount_val (Amount_from_change (i256_of (int z)))) = int z"
    by (simp add: Amount_from_change_val I256_inv_of i256_val_of)
  then have "Amount_from_change (i256_of (int z)) = amount_of z" using assms by (simp add: amount_eq_iff)
  then show "validator_deltas s v = sample_deltas (int z) \<Longrightarrow> read_validator_stake default_pos_params v 5 s = Inr (amount_of z)"
    by (simp add: read_validator_stake_def sample_past sample_deltas_def get_sum_def sample_past_epochs unchecked_add_def
        default_pipeline add_some_def upt_conv_Cons epoched_result_def stake_of_sum_def del: upt_Suc)
  show "validator_deltas s v = epoched_open \<Longrightarrow> read_validator_stake default_pos_params v 5 s = Inr Amount_zero"
    by (simp add: read_validator_stake_def sample_past get_sum_def epoched_open_def epoched_result_def stake_of_sum_def)
qed

lemma sample_change: "n < 2 ^ 200 \<Longrightarrow> change_of (amount_of n) = Inr (i256_of (int n))"
  by (simp add: change_of_def Amount_change_eq i256_checked_def)

lemma sample_update_set:
  assumes "read_validator_stake default_pos_params v 5 s = Inr (amount_of n)" "n < 1000000" "0 \<le> int n + d" "int n + d < 1000000"
  shows "update_validator_set default_pos_params v (i256_of d) 3 None s = Inr s"
proof -
  have "\<bar>int n + d\<bar> < 2 ^ 255" using assms(3,4) by simp
  then have "int (amount_val (Amount_from_change (i256_of (int n + d)))) = int n + d"
    using assms(3) by (simp add: Amount_from_change_val I256_inv_of i256_val_of)
  then have "Amount_from_change (i256_of (int n + d)) < validator_stake_threshold default_pos_params"
    "amount_of n < validator_stake_threshold default_pos_params"
    using assms(2,4) by (simp_all add: amount_less_iff default_pipeline)
  then show ?thesis
    using assms by (simp add: update_validator_set_def epoch_plus_def default_pipeline Amount_change_eq I256_checked_add_eq
        i256_checked_def I256_inv_of i256_val_of Let_def)
qed

lemma sample_distinct [simp]: "sample_account 1 \<noteq> sample_account 2" "sample_account 2 \<noteq> sample_account 1"
  by (simp_all add: sample_account_def)

definition sample_bonded :: pos_ledger where
  "sample_bonded = sample_ledger
     \<lparr>lg_tokens := snd (transfer sample_token (sample_account 1) POS (amount_of 8) (lg_tokens sample_ledger)),
      lg_sets := (lg_sets sample_ledger)\<lparr>validator_deltas := (\<lambda>_. epoched_open)(sample_account 2 := sample_deltas 8),
        total_deltas := sample_deltas 8, total_active_deltas := sample_deltas 8\<rparr>,
      bonds := (\<lambda>_ _. epoched_open)(sample_account 1 := (\<lambda>_. epoched_open)(sample_account 2 := sample_bonds 8)),
      total_bonded := (\<lambda>_. epoched_open)(sample_account 2 := sample_bonds 8),
      delegation_targets := (\<lambda>_. Map.empty)(sample_account 1 := [sample_account 2 \<mapsto> \<lparr>prev_ranges = [], last_range = (5, None)\<rparr>])\<rparr>"

lemma sample_transfer_pos: "fst (transfer sample_token (sample_account 1) POS (amount_of 8) (lg_tokens sample_ledger)) = Inr ()"
proof -
  have "tokens_typed Map.empty" using supply_inv_empty by (simp add: supply_inv_def)
  then have typed: "tokens_typed (lg_tokens sample_ledger)" by (simp add: sample_ledger_def tokens_typed_upd)
  have "bal (lg_tokens sample_ledger) sample_token (sample_account 1) = 10" "bal (lg_tokens sample_ledger) sample_token POS = 0"
    by (simp_all add: sample_ledger_def key_amount_def amount_val_def sample_account_def POS_def)
  then show ?thesis by (simp add: transfer_eq [OF typed] sample_account_def POS_def)
qed

lemma sample_bonds_add: "bonds_add (amount_of 8) 3 2 epoched_open = Inr (sample_bonds 8)"
  by (simp add: bonds_add_def delta_add_def delta_update_data_def epoched_open_def touch_epochs_def unchecked_add_def
      Amount_checked_add_eq set_at_epoch_def sample_bonds_def epoched_result_def)

lemma sample_open: "validator_deltas (lg_sets sample_ledger) v = epoched_open" "total_deltas (lg_sets sample_ledger) = epoched_open"
  "total_active_deltas (lg_sets sample_ledger) = epoched_open"
  by (simp_all add: sample_ledger_def empty_pos_state_def)

lemma sample_bond: "bond_tokens (Some (sample_account 1)) (sample_account 2) (amount_of 8) 3 None sample_ledger = Inr sample_bonded"
proof -
  let ?t = "snd (transfer sample_token (sample_account 1) POS (amount_of 8) (lg_tokens sample_ledger))"
  have tr: "token_transfer (sample_account 1) POS (amount_of 8) sample_ledger = Inr (sample_ledger\<lparr>lg_tokens := ?t\<rparr>)"
    using sample_transfer_pos
    by (cases "transfer sample_token (sample_account 1) POS (amount_of 8) (lg_tokens sample_ledger)")
       (simp add: token_transfer_def, simp add: sample_ledger_def)
  have zero: "Amount_zero = amount_of 0" by (simp add: amount_eq_iff)
  have set: "update_validator_set default_pos_params (sample_account 2) (i256_of 8) 3 None (lg_sets sample_ledger) = Inr (lg_sets sample_ledger)"
    using sample_stake(2) [of 0 "lg_sets sample_ledger" "sample_account 2"]
    by (intro sample_update_set [where n = 0]) (simp_all add: sample_open zero)
  have st: "update_stake default_pos_params (sample_account 2) (i256_of 8) 3 None False s =
      Inr (s\<lparr>lg_sets := lg_sets sample_bonded\<rparr>)" if "lg_sets s = lg_sets sample_ledger" for s
    using that by (simp add: update_stake_def on_sets_def set update_validator_deltas_def update_total_deltas_def default_pipeline
        sample_open sample_update_delta(2) [of 0 8] Let_def) (simp add: sample_bonded_def sample_ledger_def empty_pos_state_def)
  have v: "\<not> is_validator (sample_account 1) sample_ledger" "lg_params sample_ledger = default_pos_params"
    "bonds sample_ledger = (\<lambda>_ _. epoched_open)" "total_bonded sample_ledger = (\<lambda>_. epoched_open)" "delegation_targets sample_ledger = (\<lambda>_. Map.empty)"
    by (simp_all add: is_validator_def sample_ledger_def)
  show ?thesis
    by (simp add: bond_tokens_def Amount_is_zero_val v tr Let_def default_pipeline epoch_plus_def sample_state add_to_bonds_def
        sample_bonds_add add_delegation_target_def put_target_def put_bonds_def jailed_or_inactive_def sample_change st)
       (simp add: sample_bonded_def)
qed

lemma sample_bonded_fields:
  "lg_params sample_bonded = default_pos_params" "bonds sample_bonded (sample_account 1) (sample_account 2) = sample_bonds 8"
  "total_bonded sample_bonded (sample_account 2) = sample_bonds 8" "unbonds sample_bonded = (\<lambda>_ _. [])" "total_unbonded sample_bonded = (\<lambda>_. [])"
  "redelegated_bonds sample_bonded = (\<lambda>_ _. [])" "validator_slashes sample_bonded = (\<lambda>_. [])" "rewards_counters sample_bonded = (\<lambda>_. Map.empty)"
  "last_slash_epochs sample_bonded = Map.empty" "is_validator v sample_bonded \<longleftrightarrow> v = sample_account 2"
  "redelegated_unbonds sample_bonded = (\<lambda>_ _. [])"
  by (simp_all add: sample_bonded_def sample_ledger_def is_validator_def)

lemma sample_sum: "bonds_sum default_pos_params 5 (sample_bonds n) = Inr (amount_of n)"
  by (simp add: bonds_sum_def sample_bonds_def get_sum_def sample_past_epochs unchecked_add_def default_pipeline add_some_def
      upt_conv_Cons epoched_result_def unwrap_or_default_def del: upt_Suc)

lemma sample_unbond_parts:
  shows "check_unbond (Some (sample_account 1)) (sample_account 2) (amount_of 3) 3 5 sample_bonded = Inr ()"
    "find_bonds_to_remove (bond_entries 2 (sample_bonds 8)) (amount_of 3) = Inr \<lparr>removal_epochs = [], new_entry = Some (5, amount_of 5)\<rparr>"
    "new_unbonds_map (sample_bonds 8) \<lparr>removal_epochs = [], new_entry = Some (5, amount_of 5)\<rparr> = Inr [(5, amount_of 3)]"
    "remove_unbonded (sample_bonds 8) \<lparr>removal_epochs = [], new_entry = Some (5, amount_of 5)\<rparr> = Inr (sample_bonds 5\<lparr>last_update := Some 5\<rparr>)"
proof -
  show "check_unbond (Some (sample_account 1)) (sample_account 2) (amount_of 3) 3 5 sample_bonded = Inr ()"
    by (simp add: check_unbond_def sample_bonded_fields is_validator_frozen_def sample_sum amount_less_iff)
  have e: "bond_entries 2 (sample_bonds 8) = [(5, amount_of 8)]"
    by (simp add: bond_entries_def sample_bonds_def upt_conv_Cons map_filter_simps del: upt_Suc)
  have m: "min (amount_of 8) (amount_of 3) = amount_of 3" "amount_of 3 \<noteq> amount_of 8" by (simp_all add: min_def amount_le_iff amount_eq_iff)
  show "find_bonds_to_remove (bond_entries 2 (sample_bonds 8)) (amount_of 3) = Inr \<lparr>removal_epochs = [], new_entry = Some (5, amount_of 5)\<rparr>"
    by (simp add: e find_bonds_to_remove_def m minus_amount_ok Amount_is_zero_val)
  show "new_unbonds_map (sample_bonds 8) \<lparr>removal_epochs = [], new_entry = Some (5, amount_of 5)\<rparr> = Inr [(5, amount_of 3)]"
    by (simp add: new_unbonds_map_def unbond_epochs_def insort_insert_key_def unbonded_amount_def amount_at_def unwrap_or_default_def
        sample_bonds_def minus_amount_ok)
  show "remove_unbonded (sample_bonds 8) \<lparr>removal_epochs = [], new_entry = Some (5, amount_of 5)\<rparr> = Inr (sample_bonds 5\<lparr>last_update := Some 5\<rparr>)"
    by (simp add: remove_unbonded_def bonds_set_def delta_set_def sample_bonds_def delta_update_data_def touch_epochs_def
       sub_past_epochs_def BONDS_PAST_def set_at_epoch_def unchecked_add_def epoched_result_def fun_eq_iff)
qed

lemma sample_record:
  "\<exists>s1. record_unbond (sample_account 1) (sample_account 2) 3 5 27 False \<lparr>removal_epochs = [], new_entry = Some (5, amount_of 5)\<rparr>
      ModifiedRedelegation_default [(5, amount_of 3)] sample_bonded = Inr ([], s1) \<and>
    lg_sets s1 = lg_sets sample_bonded \<and> validator_slashes s1 = (\<lambda>_. []) \<and> rewards_counters s1 = (\<lambda>_. Map.empty)"
proof -
  have after: "bonds_sum default_pos_params 5 (sample_bonds 5\<lparr>last_update := Some 5\<rparr>) = Inr (amount_of 5)"
    by (simp add: bonds_sum_def sample_bonds_def get_sum_def sub_past_epochs_def BONDS_PAST_def unchecked_add_def default_pipeline add_some_def
      upt_conv_Cons epoched_result_def unwrap_or_default_def del: upt_Suc)
  have tot: "sub_total_bonded (sample_bonds 8) (5, amount_of 3) = Inr (sample_bonds 5)"
    by (simp add: sub_total_bonded_def amount_at_def sample_bonds_def unwrap_or_default_def minus_amount_ok)
  show ?thesis
    by (simp add: record_unbond_def sample_bonded_fields sample_unbond_parts put_bonds_def after Amount_is_zero_val bt_add_def compute_new_redelegated_unbonds_def
        ModifiedRedelegation_default_def redelegations_at_def updated_redelegations_def without_epochs_def
        add_redelegated_unbonds_def redelegated_entries_def update_totals_def tot plus_amount_ok Let_def unwrap_or_default_def)
qed

lemma sample_unbond:
  "\<exists>result s'. unbond_tokens encode (Some (sample_account 1)) (sample_account 2) (amount_of 3) 3 False sample_bonded = Inr (result, s')"
proof -
  let ?d = "sample_account 1" and ?v = "sample_account 2" and ?res = "\<lparr>removal_epochs = [], new_entry = Some (5, amount_of 5)\<rparr>"
  note f = sample_bonded_fields and p = sample_unbond_parts
  have w: "withdrawable_epoch_offset default_pos_params = Some 24"
    by (simp add: withdrawable_epoch_offset_def default_pos_params_def u64_add_def)
  have md: "modified_redelegation_of encode (sample_bonds 8) [] ?res = Inr ModifiedRedelegation_default"
    by (simp add: modified_redelegation_of_def redelegations_at_def)
  obtain s1 where s1: "record_unbond ?d ?v 3 5 27 False ?res ModifiedRedelegation_default [(5, amount_of 3)] sample_bonded = Inr ([], s1)"
    "lg_sets s1 = lg_sets sample_bonded" "validator_slashes s1 = (\<lambda>_. [])" "rewards_counters s1 = (\<lambda>_. Map.empty)" using sample_record by blast
  have sub: "sub_or_default (amount_of 3) Amount_zero = amount_of 3" by (simp add: amount_eq_iff)
  have sl: "compute_amount_after_slashing_unbond (\<lambda>_. []) default_pos_params [(5, amount_of 3)] [] [] =
      Inr \<lparr>rs_sum = amount_of 3, rs_epoch_map = [(5, amount_of 3)]\<rparr>"
    by (simp add: compute_amount_after_slashing_unbond_def unbond_slash_step_def apply_list_slashes_def result_add_def
        ResultSlashing_default_def sub plus_amount_ok unwrap_or_default_def)
  have neg: "I256_checked_neg (i256_of 3) = Some (i256_of (- 3))"
    by (simp add: I256_checked_neg_eq I256_inv_of i256_val_of)
  have st: "get_validator_state default_pos_params ?v 5 (lg_sets sample_bonded) = Inr (Some BelowThreshold)"
    using sample_state by (simp add: get_validator_state_def sample_bonded_def)
  have set: "update_validator_set default_pos_params ?v (i256_of (- 3)) 3 None (lg_sets sample_bonded) = Inr (lg_sets sample_bonded)"
    using sample_stake(1) [of 8 "lg_sets sample_bonded" ?v]
    by (intro sample_update_set [where n = 8]) (simp_all add: sample_bonded_def)
  have d: "validator_deltas (lg_sets sample_bonded) ?v = sample_deltas 8" "total_deltas (lg_sets sample_bonded) = sample_deltas 8"
    "total_active_deltas (lg_sets sample_bonded) = sample_deltas 8" by (simp_all add: sample_bonded_def)
  have up: "update_delta default_pos_params (i256_of (- 3)) 3 2 (sample_deltas 8) = Inr (sample_deltas 5)"
    using sample_update_delta(1) [of 8 "- 3"] by simp
  have "\<exists>s2. update_stake default_pos_params ?v (i256_of (- 3)) 3 None False s1 = Inr s2 \<and> rewards_counters s2 = (\<lambda>_. Map.empty)"
    by (simp add: update_stake_def on_sets_def s1 set update_validator_deltas_def update_total_deltas_def default_pipeline d up)
  then obtain s2 where s2: "update_stake default_pos_params ?v (i256_of (- 3)) 3 None False s1 = Inr s2" "rewards_counters s2 = (\<lambda>_. Map.empty)"
    by blast
  obtain s3 where rw: "tally_unbond_rewards ?d ?v 3 [(5, amount_of 3)] s2 = Inr s3"
    by (simp add: tally_unbond_rewards_def s2 plus_amount_ok unwrap_or_default_def)
  show ?thesis
    by (simp add: unbond_tokens_def Amount_is_zero_val f default_pipeline epoch_plus_def w p md s1 sl sample_change neg
        jailed_or_inactive_def st s2 rw)
qed

lemma sample_bonded_ok: "bonds_ok 2 3 (bonds sample_bonded (sample_account 1) (sample_account 2))"
  by (auto simp: sample_bonded_fields bonds_ok_def sample_bonds_def split: if_splits)

theorem unbond_moves_exactly_witness:
  "\<exists>result s' taken. unbond_tokens (\<lambda>_. []) (Some (sample_account 1)) (sample_account 2) (amount_of 3) 3 False sample_bonded = Inr (result, s') \<and>
    unbonds_total taken = 3 \<and> unbond_effect False (sample_account 1) (sample_account 2) 5 27 taken sample_bonded s'"
proof -
  obtain result s' where r: "unbond_tokens (\<lambda>_. []) (Some (sample_account 1)) (sample_account 2) (amount_of 3) 3 False sample_bonded = Inr (result, s')"
    using sample_unbond by blast
  have w: "withdrawable_epoch_offset default_pos_params = Some 24"
    by (simp add: withdrawable_epoch_offset_def default_pos_params_def u64_add_def)
  show ?thesis
    using unbond_moves_exactly [OF r _ refl] r sample_bonded_ok
    by (simp add: Amount_is_zero_val sample_bonded_fields default_pipeline w) blast
qed

end
