(* ===== verification/PosSteps.thy ===== *)
theory PosSteps
  imports PosLedger
begin

text \<open>
  Sequences of operations on proof of stake: every state reached by bonding, unbonding,
  withdrawing, redelegating and moving to the next epoch has totals that match the bonds; without slashes and
  redelegations the stake of a validator at the pipeline epoch is the sum of the bonds to it.
\<close>

section \<open>Operations on the sets keep the deltas\<close>

definition same_deltas :: "pos_state \<Rightarrow> pos_state \<Rightarrow> bool" where
  "same_deltas s s' \<longleftrightarrow> validator_deltas s' = validator_deltas s \<and> total_deltas s' = total_deltas s \<and>
     total_active_deltas s' = total_active_deltas s"

lemma same_deltas_refl [simp]: "same_deltas s s"
  by (simp add: same_deltas_def)

lemma same_deltas_trans: "same_deltas s t \<Longrightarrow> same_deltas t u \<Longrightarrow> same_deltas s u"
  by (simp add: same_deltas_def)

lemma same_deltas_put [simp]:
  "same_deltas s (put_consensus e m s') \<longleftrightarrow> same_deltas s s'" "same_deltas s (put_below_capacity e b s') \<longleftrightarrow> same_deltas s s'"
  "same_deltas s (put_positions e q s') \<longleftrightarrow> same_deltas s s'" "same_deltas s (remove_position e v s') \<longleftrightarrow> same_deltas s s'"
  "same_deltas s (insert_validator_into_consensus e a v s') \<longleftrightarrow> same_deltas s s'"
  "same_deltas s (insert_validator_into_below_capacity e a v s') \<longleftrightarrow> same_deltas s s'"
  by (simp_all add: same_deltas_def put_consensus_def put_below_capacity_def put_positions_def remove_position_def
      insert_validator_into_consensus_def insert_validator_into_below_capacity_def Let_def)

lemma set_validator_state_deltas: "set_validator_state params v st cur off s = Inr s' \<Longrightarrow> same_deltas s s'"
  by (auto simp: set_validator_state_def rbind_Inr_iff same_deltas_def)

lemma promote_deltas: "promote_below_capacity params a cur off e s = Inr s' \<Longrightarrow> same_deltas s s'"
  unfolding promote_below_capacity_def Let_def rbind_Inr_iff
  by (elim exE conjE) (drule set_validator_state_deltas, simp add: same_deltas_def put_below_capacity_def
      insert_validator_into_consensus_def put_consensus_def put_positions_def Let_def)

lemma demote_deltas:
  "insert_into_consensus_and_demote_to_below_cap params v a b cur off e s = Inr s' \<Longrightarrow> same_deltas s s'"
  unfolding insert_into_consensus_and_demote_to_below_cap_def Let_def rbind_Inr_iff
  by (elim exE conjE) (drule set_validator_state_deltas, drule set_validator_state_deltas,
      simp add: same_deltas_def put_below_capacity_def insert_validator_into_below_capacity_def
      insert_validator_into_consensus_def put_consensus_def put_positions_def Let_def)

lemmas put_defs = put_below_capacity_def insert_validator_into_below_capacity_def insert_validator_into_consensus_def
  put_consensus_def put_positions_def remove_position_def

lemma update_consensus_validator_deltas:
  "update_consensus_validator params v a b p cur off e s = Inr s' \<Longrightarrow> same_deltas s s'"
  unfolding update_consensus_validator_def Let_def
  by (auto simp: rbind_Inr_iff split: if_splits option.splits
      dest!: set_validator_state_deltas promote_deltas) (auto simp: same_deltas_def put_defs Let_def)

lemma update_below_capacity_validator_deltas:
  "update_below_capacity_validator params v a b p cur off e s = Inr s' \<Longrightarrow> same_deltas s s'"
  unfolding update_below_capacity_validator_def Let_def
  by (auto simp: rbind_Inr_iff split: if_splits dest!: set_validator_state_deltas demote_deltas) (auto simp: same_deltas_def put_defs Let_def)

lemma insert_by_stake_deltas: "insert_by_stake params v a cur off e s = Inr s' \<Longrightarrow> same_deltas s s'"
  unfolding insert_by_stake_def Let_def
  by (auto split: if_splits dest!: set_validator_state_deltas demote_deltas) (auto simp: same_deltas_def put_defs Let_def)

lemma update_validator_set_deltas: "update_validator_set params v c cur off s = Inr s' \<Longrightarrow> same_deltas s s'"
  unfolding update_validator_set_def Let_def
  by (auto simp: rbind_Inr_iff split: if_splits option.splits dest!: update_consensus_validator_deltas
      update_below_capacity_validator_deltas insert_by_stake_deltas)

section \<open>The sum of the deltas\<close>

lemma delta_update_data_above:
  assumes "delta_update_data I256_checked_add past cur E = Inr U" "sub_past_epochs past cur < k"
  shows "lazy_map U k = lazy_map E k"
proof (cases "\<exists>lu old. last_update E = Some lu \<and> oldest_epoch E = Some old \<and> old < sub_past_epochs past cur")
  case True
  then obtain lu old where live: "last_update E = Some lu" "oldest_epoch E = Some old" "old < sub_past_epochs past cur" by blast
  let ?t = "sub_past_epochs past cur"
  have fold: "rfold (remove_sum I256_checked_add) (lazy_map E, None) [old..<?t] =
      rbind (rfold (\<lambda>t k. add_some I256_checked_add t (lazy_map E k)) None [old..<?t])
        (\<lambda>r. Inr (\<lambda>k. if k \<in> set [old..<?t] then None else lazy_map E k, r))"
    by (rule change_delta.rfold_remove_sum) simp
  obtain r where r: "rfold (\<lambda>t k. add_some I256_checked_add t (lazy_map E k)) None [old..<?t] = Inr r"
    using assms(1) live by (auto simp: delta_update_data_def Let_def fold rbind_Inr_iff)
  have m: "(if k \<in> set [old..<?t] then None else lazy_map E k) = lazy_map E k" using assms(2) by simp
  show ?thesis
    using assms live m by (cases r; cases "lazy_map E ?t") (auto simp: delta_update_data_def Let_def fold r result_simps)
next
  case False
  then have "U = touch_epochs cur E"
    using assms(1) by (auto simp: delta_update_data_def Let_def split: option.splits)
  then show ?thesis by simp
qed

definition deltas_ok :: "PosParams \<Rightarrow> epoch \<Rightarrow> Change epoched \<Rightarrow> bool" where
  "deltas_ok params cur h \<longleftrightarrow>
     (\<exists>past. offset_of params OffsetMaxProposalPeriodOrSlashProcessingLenPlus = Inr past \<and>
        epoched_inv past (pipeline_len params) h) \<and> all_ok I256_inv (lazy_map h) \<and> updated_by cur h"

definition stake_sum :: "Change epoched \<Rightarrow> epoch \<Rightarrow> int" where
  "stake_sum h e = sum_to i256_val (lazy_map h) e"

lemma epoched_result_Inr: "epoched_result r = Inr x \<longleftrightarrow> r = Inr x"
  by (cases r) (simp_all add: epoched_result_def)

lemma update_delta_spec:
  assumes ok: "deltas_ok params cur h" and off: "0 < pipeline_len params" and delta: "I256_inv delta"
    and r: "update_delta params delta cur (pipeline_len params) h = Inr h'"
  shows "deltas_ok params cur h'" "stake_sum h' (cur + pipeline_len params) = stake_sum h (cur + pipeline_len params) + i256_val delta"
proof -
  let ?f = "pipeline_len params"
  obtain past where past: "offset_of params OffsetMaxProposalPeriodOrSlashProcessingLenPlus = Inr past"
    and inv: "epoched_inv past ?f h" and aok: "all_ok I256_inv (lazy_map h)" and upd: "updated_by cur h"
    using ok unfolding deltas_ok_def by blast
  define val where "val = (case lazy_map h (cur + ?f) of None \<Rightarrow> I256_zero | Some c \<Rightarrow> c)"
  obtain c U where c: "I256_checked_add val delta = Some c" and U: "delta_update_data I256_checked_add past cur h = Inr U"
    and h': "h' = U\<lparr>lazy_map := (lazy_map U)(cur + ?f \<mapsto> c)\<rparr>"
    using r by (auto simp: update_delta_def past epoch_plus_def val_def Let_def epoched_result_Inr delta_set_def set_at_epoch_def
        unchecked_add_def result_simps split: if_splits)
  note spec = change_delta.delta_update_data_spec [OF inv aok upd U]
  have t: "sub_past_epochs past cur \<le> cur" by (simp add: sub_past_epochs_def)
  then have same: "lazy_map U (cur + ?f) = lazy_map h (cur + ?f)"
    using off by (intro delta_update_data_above [OF U]) simp
  have val: "I256_inv val" "i256_val val = oval i256_val (lazy_map h (cur + ?f))"
    using aok by (auto simp: val_def all_ok_def pred_option_def split: option.split)
  have cv: "I256_inv c" "i256_val c = i256_val val + i256_val delta"
    using change_delta.add_Some [OF val(1) delta c] by simp_all
  have "epoched_inv past ?f h'"
  proof -
    obtain old where old: "oldest_epoch U = Some old" "old \<le> cur" and
      keys: "\<And>k. lazy_map U k \<noteq> None \<Longrightarrow> old \<le> k \<and> sub_past_epochs past cur \<le> k \<and> k \<le> cur + ?f"
      using spec by (auto elim: epoched_inv_cases)
    then show ?thesis using t spec unfolding h' by (intro epoched_invI [of _ cur old]) (auto split: if_splits)
  qed
  moreover have "all_ok I256_inv (lazy_map h')" using spec cv by (simp add: h' all_ok_def)
  moreover have "updated_by cur h'" using spec by (simp add: h' updated_by_def)
  ultimately show "deltas_ok params cur h'" unfolding deltas_ok_def using past by blast
  have "sum_to i256_val (lazy_map U) (cur + ?f) = sum_to i256_val (lazy_map h) (cur + ?f)" using spec t by simp
  then show "stake_sum h' (cur + ?f) = stake_sum h (cur + ?f) + i256_val delta"
    using cv val by (simp add: stake_sum_def h' change_delta.sum_to_upd same)
qed

lemma deltas_ok_Suc: "deltas_ok params cur h \<Longrightarrow> deltas_ok params (Suc cur) h"
  by (auto simp: deltas_ok_def updated_by_def split: option.splits)

lemma stake_sum_Suc:
  assumes "deltas_ok params cur h"
  shows "stake_sum h (Suc cur + pipeline_len params) = stake_sum h (cur + pipeline_len params)"
proof -
  obtain past where inv: "epoched_inv past (pipeline_len params) h" and upd: "updated_by cur h"
    using assms unfolding deltas_ok_def by blast
  have "lazy_map h (Suc cur + pipeline_len params) = None"
    using inv
  proof (cases rule: epoched_inv_cases)
    case (live lu old)
    show ?thesis
    proof (rule ccontr)
      assume "lazy_map h (Suc cur + pipeline_len params) \<noteq> None"
      from live(3) [OF this] upd live(1) show False by (simp add: updated_by_def)
    qed
  qed blast
  then show ?thesis by (simp add: stake_sum_def sum_to_def)
qed

section \<open>Totals match bonds in every reachable state\<close>

inductive pos_step :: "(Address \<Rightarrow> string) \<Rightarrow> epoch \<times> pos_ledger \<Rightarrow> epoch \<times> pos_ledger \<Rightarrow> bool" for encode where
  step_bond: "bond_tokens src v a cur None s = Inr s' \<Longrightarrow> pos_step encode (cur, s) (cur, s')"
| step_unbond: "unbond_tokens encode src v a cur False s = Inr (r, s') \<Longrightarrow> pos_step encode (cur, s) (cur, s')"
| step_withdraw: "withdraw_tokens src v cur s = Inr (a, s') \<Longrightarrow> pos_step encode (cur, s) (cur, s')"
| step_redelegate: "redelegate_tokens encode d sv dv cur a s = Inr s' \<Longrightarrow> pos_step encode (cur, s) (cur, s')"
| step_epoch: "pos_step encode (cur, s) (Suc cur, s)"
| step_other: "bonds s' = bonds s \<Longrightarrow> total_bonded s' = total_bonded s \<Longrightarrow> lg_params s' = lg_params s \<Longrightarrow>
    pos_step encode (cur, s) (cur, s')"

definition ledger_ok :: "epoch \<times> pos_ledger \<Rightarrow> bool" where
  "ledger_ok = (\<lambda>(cur, s). (\<forall>src v. bonds_ok (pipeline_len (lg_params s)) cur (bonds s src v)) \<and> (\<forall>v. totals_match s v))"

lemma ledger_okD:
  assumes "ledger_ok (cur, s)"
  shows "bonds_ok (pipeline_len (lg_params s)) cur (bonds s src v)" "totals_match s v"
  using assms by (simp_all add: ledger_ok_def)

lemma ledger_okI:
  "(\<And>src v. bonds_ok (pipeline_len (lg_params s)) cur (bonds s src v)) \<Longrightarrow> (\<And>v. totals_match s v) \<Longrightarrow> ledger_ok (cur, s)"
  unfolding ledger_ok_def case_prod_conv by blast

lemma ledger_ok_same: "ledger_ok (cur, s) \<Longrightarrow> bonds s' = bonds s \<Longrightarrow> total_bonded s' = total_bonded s \<Longrightarrow> lg_params s' = lg_params s \<Longrightarrow> ledger_ok (cur, s')"
  by (simp add: ledger_ok_def totals_match_def)

lemma same_bondsD: "same_bonds s s' \<Longrightarrow> bonds s' = bonds s \<and> total_bonded s' = total_bonded s \<and> lg_params s' = lg_params s"
  by (simp add: same_bonds_def)

lemma bonds_ok_add:
  assumes "bonds_ok f cur E" "bonds_add amount cur f E = Inr E'"
  shows "bonds_ok f cur E'"
  using assms(1) bonds_add_val(2,3) [OF assms(2)] by (auto simp: bonds_ok_def)

lemma add_to_bonds_ledger_ok:
  assumes ok: "ledger_ok (cur, s)" and r: "add_to_bonds source v amount cur (pipeline_len (lg_params s)) s = Inr s'"
  shows "ledger_ok (cur, s')" "lg_params s' = lg_params s"
proof -
  let ?f = "pipeline_len (lg_params s)"
  obtain b where b: "bonds_add amount cur ?f (bonds s source v) = Inr b" and b': "bonds s' source v = b" and
    p: "lg_params s' = lg_params s"
    using r by (auto simp: add_to_bonds_def rbind_Inr_iff put_bonds_def)
  note spec = add_to_bonds_spec [OF r]
  show "lg_params s' = lg_params s" by (rule p)
  show "ledger_ok (cur, s')"
  proof (rule ledger_okI)
    show "bonds_ok (pipeline_len (lg_params s')) cur (bonds s' src u)" for src u
      using ledger_okD(1) [OF ok] bonds_ok_add [OF ledger_okD(1) [OF ok] b] spec(3) [of src u] b' p
      by (cases "(src, u) = (source, v)") auto
    show "totals_match s' u" for u
      by (rule totals_match_step [OF ledger_okD(2) [OF ok], of source v]) (use spec in auto)
  qed
qed

lemma bond_ledger_ok:
  assumes ok: "ledger_ok (cur, s)" and r: "bond_tokens src v a cur None s = Inr s'"
  shows "ledger_ok (cur, s')" "lg_params s' = lg_params s"
proof -
  have "ledger_ok (cur, s') \<and> lg_params s' = lg_params s"
  proof (cases "Amount_is_zero a")
    case True
    then show ?thesis using r ok by (simp add: bond_tokens_def)
  next
    case False
    obtain s1 where s1: "add_to_bonds (case src of Some x \<Rightarrow> x | None \<Rightarrow> v) v a cur (pipeline_len (lg_params s)) (s\<lparr>lg_tokens := lg_tokens s1\<rparr>) = Inr s1"
      and same: "same_bonds s1 s'" by (rule bond_tokens_spec [OF r False]) simp
    have ok1: "ledger_ok (cur, s\<lparr>lg_tokens := lg_tokens s1\<rparr>)" using ok by (rule ledger_ok_same) simp_all
    have "add_to_bonds (case src of Some x \<Rightarrow> x | None \<Rightarrow> v) v a cur (pipeline_len (lg_params (s\<lparr>lg_tokens := lg_tokens s1\<rparr>)))
        (s\<lparr>lg_tokens := lg_tokens s1\<rparr>) = Inr s1" using s1 by simp
    note s1_ok' = add_to_bonds_ledger_ok [OF ok1 this]
    then have s1_ok: "ledger_ok (cur, s1)" "lg_params s1 = lg_params s" by simp_all
    note sm = same_bondsD [OF same]
    have "ledger_ok (cur, s')" using sm by (intro ledger_ok_same [OF s1_ok(1)]) simp_all
    then show ?thesis using sm s1_ok(2) by simp
  qed
  then show "ledger_ok (cur, s')" "lg_params s' = lg_params s" by blast+
qed

lemma unbond_ledger_ok:
  assumes ok: "ledger_ok (cur, s)" and r: "unbond_tokens encode src v a cur is_red s = Inr (res, s')"
  shows "ledger_ok (cur, s')" "lg_params s' = lg_params s"
proof -
  have "ledger_ok (cur, s') \<and> lg_params s' = lg_params s"
  proof (cases "Amount_is_zero a")
    case True
    then show ?thesis using r ok by (simp add: unbond_tokens_def)
  next
    case False
    define source where "source = (case src of Some x \<Rightarrow> x | None \<Rightarrow> v)"
    obtain taken w where eff: "unbond_effect is_red source v (cur + pipeline_len (lg_params s)) (cur + w) taken s s'"
      and bok: "bonds_ok (pipeline_len (lg_params s)) cur (bonds s' source v)"
      using unbond_moves [OF r False source_def ledger_okD(1) [OF ok]] by blast
    have e: "\<And>k. bond_val (bonds s' source v) k + entry_val taken k = bond_val (bonds s source v) k"
      "\<And>k. bond_val (total_bonded s' v) k + entry_val taken k = bond_val (total_bonded s v) k"
      "\<And>src u. (src, u) \<noteq> (source, v) \<Longrightarrow> bonds s' src u = bonds s src u" "\<And>u. u \<noteq> v \<Longrightarrow> total_bonded s' u = total_bonded s u"
      and p: "lg_params s' = lg_params s" using eff unfolding unbond_effect_def by blast+
    have "ledger_ok (cur, s')"
    proof (rule ledger_okI)
      show "bonds_ok (pipeline_len (lg_params s')) cur (bonds s' x u)" for x u
        using ledger_okD(1) [OF ok] bok e(3) [of x u] p by (cases "(x, u) = (source, v)") auto
      show "totals_match s' u" for u
      proof (rule totals_match_step [OF ledger_okD(2) [OF ok], of source v])
        show "bond_val (total_bonded s' v) k + bond_val (bonds s source v) k = bond_val (total_bonded s v) k + bond_val (bonds s' source v) k" for k
          using e(1) [of k] e(2) [of k] by linarith
      qed (use e in auto)
    qed
    then show ?thesis using p by blast
  qed
  then show "ledger_ok (cur, s')" "lg_params s' = lg_params s" by blast+
qed

lemma record_redelegation_ledger_ok:
  assumes ok: "ledger_ok (cur, s)" and r: "record_redelegation d sv dv cur pe result s = Inr s'"
  shows "ledger_ok (cur, s')"
proof -
  from r obtain rb s2 og trb where
    s2: "(if Amount_is_zero (rs_sum result) then Inr (s\<lparr>redelegated_bonds := rb\<rparr>)
          else add_to_bonds d dv (rs_sum result) cur (pipeline_len (lg_params (s\<lparr>redelegated_bonds := rb\<rparr>))) (s\<lparr>redelegated_bonds := rb\<rparr>)) = Inr s2"
    and s': "bonds s' = bonds s2" "total_bonded s' = total_bonded s2" "lg_params s' = lg_params s2"
    by (auto simp: record_redelegation_def Let_def rbind_Inr_iff)
  have ok1: "ledger_ok (cur, s\<lparr>redelegated_bonds := rb\<rparr>)" using ok by (rule ledger_ok_same) simp_all
  have "ledger_ok (cur, s2)"
  proof (cases "Amount_is_zero (rs_sum result)")
    case True
    then show ?thesis using s2 ok1 by simp
  next
    case False
    then show ?thesis using s2 by (intro add_to_bonds_ledger_ok(1) [OF ok1]) (simp only: if_False)
  qed
  then show ?thesis using s' by (rule ledger_ok_same)
qed

lemma redelegate_ledger_ok:
  assumes ok: "ledger_ok (cur, s)" and r: "redelegate_tokens encode d sv dv cur a s = Inr s'"
  shows "ledger_ok (cur, s')"
proof (cases "Amount_is_zero a")
  case True
  then show ?thesis using r ok by (simp add: redelegate_tokens_def)
next
  case False
  from r [unfolded redelegate_tokens_def Let_def if_not_P [OF False]]
  obtain p pe s2 out c where u: "unbond_tokens encode (Some d) sv a cur True s = Inr p"
    and s2: "record_redelegation d sv dv cur pe (fst p) (snd p) = Inr s2"
    and s': "update_stake (lg_params s) dv c cur None out (add_delegation_target d dv pe s2) = Inr s'"
    by (auto simp: rbind_Inr_iff split_def)
  have "ledger_ok (cur, snd p)" by (rule unbond_ledger_ok(1) [OF ok, of encode "Some d" sv a True "fst p"]) (simp add: u)
  then have ok2: "ledger_ok (cur, s2)" using s2 by (rule record_redelegation_ledger_ok)
  have "same_bonds s2 s'" by (rule same_bonds_trans [OF add_delegation_target_same update_stake_same [OF s']])
  note sm = same_bondsD [OF this]
  show ?thesis using sm by (intro ledger_ok_same [OF ok2]) simp_all
qed

lemma withdraw_same:
  assumes "withdraw_tokens src v cur s = Inr (a, s')"
  shows "bonds s' = bonds s" "total_bonded s' = total_bonded s" "lg_params s' = lg_params s" "lg_sets s' = lg_sets s"
    "validator_slashes s' = validator_slashes s" "redelegated_bonds s' = redelegated_bonds s"
proof -
  obtain s1 where s1: "token_transfer POS (case src of Some x \<Rightarrow> x | None \<Rightarrow> v) a s1 = Inr s'"
    and same: "bonds s1 = bonds s" "total_bonded s1 = total_bonded s" "lg_params s1 = lg_params s" "lg_sets s1 = lg_sets s"
    "validator_slashes s1 = validator_slashes s" "redelegated_bonds s1 = redelegated_bonds s"
    using assms by (auto simp: withdraw_tokens_def Let_def rbind_Inr_iff split: if_splits)
  obtain t where t: "s' = s1\<lparr>lg_tokens := t\<rparr>" using token_transfer_spec(1) [OF s1] by blast
  show "bonds s' = bonds s" "total_bonded s' = total_bonded s" "lg_params s' = lg_params s" "lg_sets s' = lg_sets s"
    "validator_slashes s' = validator_slashes s" "redelegated_bonds s' = redelegated_bonds s"
    using same by (simp_all add: t)
qed

lemma bonds_ok_Suc: "bonds_ok f cur E \<Longrightarrow> bonds_ok f (Suc cur) E"
  by (fastforce simp: bonds_ok_def split: option.splits)

lemma ledger_ok_Suc: "ledger_ok (cur, s) \<Longrightarrow> ledger_ok (Suc cur, s)"
  using bonds_ok_Suc unfolding ledger_ok_def case_prod_conv by blast

lemma pos_step_ledger_ok: "pos_step encode x y \<Longrightarrow> ledger_ok x \<Longrightarrow> ledger_ok y"
proof (induction rule: pos_step.induct)
  case (step_bond src v a cur s s')
  then show ?case using bond_ledger_ok(1) by blast
next
  case (step_unbond src v a cur s r s')
  then show ?case using unbond_ledger_ok(1) by blast
next
  case (step_withdraw src v cur s a s')
  show ?case by (rule ledger_ok_same [OF step_withdraw.prems withdraw_same(1-3) [OF step_withdraw.hyps]])
next
  case (step_redelegate d sv dv cur a s s')
  then show ?case using redelegate_ledger_ok by blast
next
  case (step_epoch cur s)
  then show ?case by (rule ledger_ok_Suc)
next
  case (step_other s' s cur)
  then show ?case using ledger_ok_same by blast
qed

text \<open>
  In every state that bonding, unbonding, withdrawing, redelegating, the change of the epoch and the
  other operations can reach from a state without bonds, the recorded total of bonds to a validator,
  by the epoch they started to count, is the sum of the bonds of all sources to it.
\<close>

theorem reachable_totals_match:
  assumes "rtranclp (pos_step encode) (cur0, s0) (cur, s)" and "\<forall>src v. bonds s0 src v = epoched_open" "\<forall>v. total_bonded s0 v = epoched_open"
  shows "\<exists>S. finite S \<and> (\<forall>src e. src \<notin> S \<longrightarrow> bond_val (bonds s src v) e = 0) \<and>
    (\<forall>e. bond_val (total_bonded s v) e = (\<Sum>src\<in>S. bond_val (bonds s src v) e))"
proof -
  have "ledger_ok (cur0, s0)"
    using assms(2,3) by (intro ledger_okI)
      (auto simp: bonds_ok_def epoched_open_def totals_match_def bond_val_def amount_at_def unwrap_or_default_def)
  with assms(1) have "ledger_ok (cur, s)" by (induction rule: rtranclp_induct) (use pos_step_ledger_ok in blast)+
  then show ?thesis using ledger_okD(2) unfolding totals_match_def by blast
qed

theorem reachable_totals_match_witness:
  "\<exists>S. finite S \<and> (\<forall>e. bond_val (total_bonded sample_bonded (sample_account 2)) e = (\<Sum>src\<in>S. bond_val (bonds sample_bonded src (sample_account 2)) e)) \<and>
    bond_val (total_bonded sample_bonded (sample_account 2)) 5 = 8"
proof -
  have "pos_step encode (3, sample_ledger) (3, sample_bonded)" for encode by (rule step_bond [OF sample_bond])
  then have r: "rtranclp (pos_step encode) (3, sample_ledger) (3, sample_bonded)" for encode by blast
  have "\<forall>src v. bonds sample_ledger src v = epoched_open" "\<forall>v. total_bonded sample_ledger v = epoched_open"
    by (simp_all add: sample_ledger_def)
  note t = reachable_totals_match [OF r this, of "sample_account 2"]
  have "bond_val (total_bonded sample_bonded (sample_account 2)) 5 = 8"
    by (simp add: sample_bonded_fields sample_bonds_def bond_val_def amount_at_def unwrap_or_default_def)
  with t show ?thesis by blast
qed

section \<open>Without slashes the stake is the sum of the bonds\<close>

lemma unslashed_unbond_sum:
  assumes "rfold (unbond_slash_step (\<lambda>_. []) params [] []) r us = Inr r'"
  shows "amount_val (rs_sum r') = amount_val (rs_sum r) + unbonds_total us"
  using assms
proof (induction us arbitrary: r)
  case (Cons u us)
  obtain e a where u: "u = (e, a)" by (cases u)
  have "sub_or_default a Amount_zero = a" by (simp add: amount_eq_iff)
  then have step: "unbond_slash_step (\<lambda>_. []) params [] [] r (e, a) = rbind (plus_amount a Amount_zero) (\<lambda>x. result_add e x r)"
    by (simp add: unbond_slash_step_def apply_list_slashes_def)
  from Cons.prems obtain r1 where r1: "rbind (plus_amount a Amount_zero) (\<lambda>x. result_add e x r) = Inr r1"
    "rfold (unbond_slash_step (\<lambda>_. []) params [] []) r1 us = Inr r'" by (auto simp: u step rbind_Inr_iff)
  have "amount_val (rs_sum r1) = amount_val (rs_sum r) + amount_val a"
    using r1(1) by (auto simp: rbind_Inr_iff result_add_def)
  then show ?case using Cons.IH [OF r1(2)] by (simp add: u)
qed simp

lemma unbonds_total_keys:
  assumes "distinct (map fst us)"
  shows "unbonds_total us = (\<Sum>k\<in>fst ` set us. entry_val us k)"
  using assms
proof (induction us)
  case (Cons u us)
  obtain k a where u: "u = (k, a)" by (cases u)
  have k: "k \<notin> fst ` set us" using Cons.prems by (simp add: u)
  have "(\<Sum>j\<in>fst ` set us. entry_val (u # us) j) = (\<Sum>j\<in>fst ` set us. entry_val us j)"
    using k by (intro sum.cong) (auto simp: u entry_val_def)
  then show ?case using Cons k by (simp add: u) (simp add: entry_val_def unwrap_or_default_def)
qed simp

lemma sum_entry_val:
  fixes us :: "(epoch \<times> Amount) list"
  assumes "distinct (map fst us)" "\<And>k. n < k \<Longrightarrow> entry_val us k = 0"
  shows "(\<Sum>k\<le>n. entry_val us k) = unbonds_total us"
proof -
  have zero: "entry_val us k = 0" if "k \<notin> fst ` set us" for k
    using that by (simp add: entry_val_def map_of_eq_None_iff [THEN iffD2] unwrap_or_default_def)
  have "(\<Sum>k\<le>n. entry_val us k) = (\<Sum>k\<in>{..n} \<union> fst ` set us. entry_val us k)"
    using assms(2) by (intro sum.mono_neutral_left ballI) auto
  also have "\<dots> = (\<Sum>k\<in>fst ` set us. entry_val us k)" using zero by (intro sum.mono_neutral_right) auto
  finally show ?thesis using unbonds_total_keys [OF assms(1)] by simp
qed

definition bonded_sum :: "pos_ledger \<Rightarrow> Address \<Rightarrow> epoch \<Rightarrow> nat" where
  "bonded_sum s v n = (\<Sum>e\<le>n. bond_val (total_bonded s v) e)"

definition stake_ok :: "epoch \<times> pos_ledger \<Rightarrow> bool" where
  "stake_ok = (\<lambda>(cur, s). ledger_ok (cur, s) \<and> 0 < pipeline_len (lg_params s) \<and>
     validator_slashes s = (\<lambda>_. []) \<and> redelegated_bonds s = (\<lambda>_ _. []) \<and>
     (\<forall>v. deltas_ok (lg_params s) cur (validator_deltas (lg_sets s) v) \<and>
        stake_sum (validator_deltas (lg_sets s) v) (cur + pipeline_len (lg_params s)) =
          int (bonded_sum s v (cur + pipeline_len (lg_params s)))))"

lemma stake_okD:
  assumes "stake_ok (cur, s)"
  shows "ledger_ok (cur, s)" "0 < pipeline_len (lg_params s)" "validator_slashes s = (\<lambda>_. [])" "redelegated_bonds s = (\<lambda>_ _. [])"
    "deltas_ok (lg_params s) cur (validator_deltas (lg_sets s) v)"
    "stake_sum (validator_deltas (lg_sets s) v) (cur + pipeline_len (lg_params s)) = int (bonded_sum s v (cur + pipeline_len (lg_params s)))"
  using assms unfolding stake_ok_def case_prod_conv by blast+

lemma stake_okI:
  assumes "ledger_ok (cur, s)" "0 < pipeline_len (lg_params s)" "validator_slashes s = (\<lambda>_. [])" "redelegated_bonds s = (\<lambda>_ _. [])"
    "\<And>v. deltas_ok (lg_params s) cur (validator_deltas (lg_sets s) v)"
    "\<And>v. stake_sum (validator_deltas (lg_sets s) v) (cur + pipeline_len (lg_params s)) = int (bonded_sum s v (cur + pipeline_len (lg_params s)))"
  shows "stake_ok (cur, s)"
  using assms unfolding stake_ok_def case_prod_conv by blast

lemma change_of_val:
  assumes "change_of a = Inr c"
  shows "I256_inv c" "i256_val c = int (amount_val a)"
  using assms by (auto simp: change_of_def result_simps Amount_change_eq i256_checked_Some)

lemma neg_change_val:
  assumes "I256_inv c" "ok_or (I256_checked_neg c) e = Inr d"
  shows "I256_inv d" "i256_val d = - i256_val c"
proof -
  have small: "\<bar>- i256_val c\<bar> < 2 ^ 255" using assms(1) by (simp add: I256_inv_val)
  have "d = i256_of (- i256_val c)" using assms(2) unfolding I256_checked_neg_eq [OF assms(1)] by simp
  then show "I256_inv d" "i256_val d = - i256_val c" using I256_inv_of [OF small] i256_val_of [OF small] by simp_all
qed

text \<open>The stake after the last part of bonding and unbonding.\<close>

lemma update_stake_sum:
  assumes r: "update_stake params v c cur None out s = Inr s'" and ok: "deltas_ok params cur (validator_deltas (lg_sets s) v)"
    and off: "0 < pipeline_len params" and c: "I256_inv c"
  shows "deltas_ok params cur (validator_deltas (lg_sets s') v)"
    "stake_sum (validator_deltas (lg_sets s') v) (cur + pipeline_len params) =
       stake_sum (validator_deltas (lg_sets s) v) (cur + pipeline_len params) + i256_val c"
    "\<And>u. u \<noteq> v \<Longrightarrow> validator_deltas (lg_sets s') u = validator_deltas (lg_sets s) u"
proof -
  from r obtain s1 s2 where
    s1: "(if out then Inr s else on_sets (update_validator_set params v c cur None) s) = Inr s1"
    and s2: "on_sets (update_validator_deltas params v c cur None) s1 = Inr s2"
    and s3: "on_sets (update_total_deltas params c cur None (\<not> out)) s2 = Inr s'"
    by (auto simp: update_stake_def rbind_Inr_iff)
  have d1: "validator_deltas (lg_sets s1) = validator_deltas (lg_sets s)"
    using s1 by (auto simp: on_sets_def rbind_Inr_iff same_deltas_def split: if_splits dest!: update_validator_set_deltas)
  obtain h where h: "update_delta params c cur (pipeline_len params) (validator_deltas (lg_sets s1) v) = Inr h"
    and d2: "validator_deltas (lg_sets s2) = (validator_deltas (lg_sets s1))(v := h)"
    using s2 by (auto simp: on_sets_def update_validator_deltas_def rbind_Inr_iff)
  have d3: "validator_deltas (lg_sets s') = validator_deltas (lg_sets s2)"
    using s3 by (auto simp: on_sets_def update_total_deltas_def rbind_Inr_iff Let_def split: if_splits)
  note u = update_delta_spec [OF ok off c h [unfolded d1]]
  show "deltas_ok params cur (validator_deltas (lg_sets s') v)" "stake_sum (validator_deltas (lg_sets s') v) (cur + pipeline_len params) =
       stake_sum (validator_deltas (lg_sets s) v) (cur + pipeline_len params) + i256_val c"
    "\<And>u. u \<noteq> v \<Longrightarrow> validator_deltas (lg_sets s') u = validator_deltas (lg_sets s) u"
    using u by (simp_all add: d3 d2 d1)
qed

lemma bond_tokens_stake:
  assumes r: "bond_tokens src v amount cur None s = Inr s'" and nz: "\<not> Amount_is_zero amount"
  obtains c out s3 where "change_of amount = Inr c" "update_stake (lg_params s) v c cur None out s3 = Inr s'"
    "lg_sets s3 = lg_sets s" "validator_slashes s' = validator_slashes s" "redelegated_bonds s' = redelegated_bonds s"
proof -
  define source where "source = (case src of Some x \<Rightarrow> x | None \<Rightarrow> v)"
  from r [unfolded bond_tokens_def Let_def if_not_P [OF nz] source_def [symmetric]]
  obtain s1 oe s2 out c where s1: "token_transfer source POS amount s = Inr s1"
    and s2: "add_to_bonds source v amount cur (pipeline_len (lg_params s1)) s1 = Inr s2" and c: "change_of amount = Inr c"
    and s': "update_stake (lg_params s1) v c cur None out (add_delegation_target source v oe s2) = Inr s'"
    by (auto simp: rbind_Inr_iff split: if_splits)
  obtain t where t: "s1 = s\<lparr>lg_tokens := t\<rparr>" using token_transfer_spec(1) [OF s1] by blast
  have s3: "lg_sets (add_delegation_target source v oe s2) = lg_sets s2"
    by (simp add: add_delegation_target_def put_target_def split: option.split prod.split)
  have s2': "lg_sets s2 = lg_sets s" "validator_slashes s2 = validator_slashes s" "redelegated_bonds s2 = redelegated_bonds s"
    using s2 by (auto simp: add_to_bonds_def rbind_Inr_iff put_bonds_def t)
  have "same_bonds s2 s'" by (rule same_bonds_trans [OF add_delegation_target_same update_stake_same [OF s']])
  then have sl: "validator_slashes s' = validator_slashes s" "redelegated_bonds s' = redelegated_bonds s"
    using s2' by (simp_all add: same_bonds_def)
  show thesis by (rule that [OF c, of out "add_delegation_target source v oe s2"]) (use s' s3 s2' t sl in simp_all)
qed

lemma bond_total_bonded:
  assumes r: "bond_tokens src v amount cur None s = Inr s'" and nz: "\<not> Amount_is_zero amount"
  shows "bond_val (total_bonded s' u) e =
    bond_val (total_bonded s u) e + (if u = v \<and> e = cur + pipeline_len (lg_params s) then amount_val amount else 0)"
proof -
  obtain s1 where s1: "add_to_bonds (case src of Some x \<Rightarrow> x | None \<Rightarrow> v) v amount cur (pipeline_len (lg_params s)) (s\<lparr>lg_tokens := lg_tokens s1\<rparr>) = Inr s1"
    and same: "same_bonds s1 s'" by (rule bond_tokens_spec [OF r nz]) simp
  show ?thesis
    using add_to_bonds_spec(2,4) [OF s1] same by (cases "u = v") (simp_all add: same_bonds_def)
qed

lemma bonded_sum_add:
  assumes "\<And>e. bond_val (total_bonded s' v) e = bond_val (total_bonded s v) e + (if e = k then a else 0)" "k \<le> n"
  shows "bonded_sum s' v n = bonded_sum s v n + a"
  unfolding bonded_sum_def assms(1) using assms(2) by (simp add: sum.distrib)

lemma bond_stake_ok:
  assumes ok: "stake_ok (cur, s)" and r: "bond_tokens src v a cur None s = Inr s'"
  shows "stake_ok (cur, s')"
proof (cases "Amount_is_zero a")
  case True
  then show ?thesis using r ok by (simp add: bond_tokens_def)
next
  case False
  note o = stake_okD [OF ok]
  note l = bond_ledger_ok [OF o(1) r]
  obtain c out s3 where c: "change_of a = Inr c" and s3: "update_stake (lg_params s) v c cur None out s3 = Inr s'" "lg_sets s3 = lg_sets s"
    and sl: "validator_slashes s' = validator_slashes s" "redelegated_bonds s' = redelegated_bonds s"
    by (rule bond_tokens_stake [OF r False])
  note cv = change_of_val [OF c]
  note u = update_stake_sum [OF s3(1) _ o(2) cv(1), unfolded s3(2), OF o(5)]
  note tb = bond_total_bonded [OF r False]
  have other: "bonded_sum s' x n = bonded_sum s x n" if "x \<noteq> v" for x n using tb [of x] that by (simp add: bonded_sum_def)
  have mine: "bonded_sum s' v (cur + pipeline_len (lg_params s)) = bonded_sum s v (cur + pipeline_len (lg_params s)) + amount_val a"
    by (rule bonded_sum_add [of _ _ _ "cur + pipeline_len (lg_params s)"]) (simp_all add: tb)
  show ?thesis
  proof (rule stake_okI [OF l(1)])
    show "deltas_ok (lg_params s') cur (validator_deltas (lg_sets s') x)" for x
      using u(1,3) o(5) l(2) by (cases "x = v") simp_all
    show "stake_sum (validator_deltas (lg_sets s') x) (cur + pipeline_len (lg_params s')) = int (bonded_sum s' x (cur + pipeline_len (lg_params s')))" for x
      using u(2,3) o(6) cv(2) l(2) mine other by (cases "x = v") simp_all
  qed (use o sl l(2) in simp_all)
qed

lemma record_unbond_plain:
  assumes "record_unbond source v cur pe we is_red res ModifiedRedelegation_default taken s = Inr (red, s')"
    and none: "redelegated_bonds s = (\<lambda>_ _. [])"
  shows "red = []" "redelegated_bonds s' = (\<lambda>_ _. [])" "lg_sets s' = lg_sets s" "validator_slashes s' = validator_slashes s"
proof -
  have at: "redelegations_at [] e = []" for e by (simp add: redelegations_at_def)
  have new: "compute_new_redelegated_unbonds [] es md = Inr []" for es md
    by (simp add: compute_new_redelegated_unbonds_def at)
  have upd: "updated_redelegations res ModifiedRedelegation_default [] = Inr []"
    by (simp add: updated_redelegations_def ModifiedRedelegation_default_def without_epochs_def)
  from assms(1) obtain E bt s2 ub ru where
    s2: "(if Amount_is_zero bt then remove_delegation_target (lg_params s) source v pe cur (put_bonds source v E s)
          else Inr (put_bonds source v E s)) = Inr s2" and red: "red = []"
    and s': "update_totals v pe taken [] (s2\<lparr>unbonds := (unbonds s2)(source := (unbonds s2 source)(v := ub)),
                        redelegated_bonds := (redelegated_bonds s2)(source := (redelegated_bonds s2 source)(v := [])),
                        redelegated_unbonds := (redelegated_unbonds s2)(source := (redelegated_unbonds s2 source)(v := ru))\<rparr>) = Inr s'"
    unfolding record_unbond_def Let_def none new upd rbind_simps rbind_Inr_iff by (elim exE conjE) (simp add: prod_eq_iff)
  have "lg_sets s2 = lg_sets s \<and> redelegated_bonds s2 = redelegated_bonds s \<and> validator_slashes s2 = validator_slashes s"
    using s2 by (auto simp: remove_delegation_target_def rbind_Inr_iff put_bonds_def put_target_def split: if_splits option.splits)
  then show "red = []" "redelegated_bonds s' = (\<lambda>_ _. [])" "lg_sets s' = lg_sets s" "validator_slashes s' = validator_slashes s"
    using s' red none by (auto simp: update_totals_def rbind_Inr_iff fun_eq_iff)
qed

lemma bond_val_beyond:
  assumes "bonds_ok f cur E" "cur + f < k"
  shows "bond_val E k = 0"
proof -
  have "lazy_map E k = None" using bonds_okD(1) [OF assms(1), of k] assms(2) by (cases "lazy_map E k") auto
  then show ?thesis by (simp add: bond_val_def amount_at_def unwrap_or_default_def)
qed

lemma unbond_bonded_sum:
  assumes ok: "ledger_ok (cur, s)" and r: "unbond_tokens encode src v a cur is_red s = Inr (result, s')" and nz: "\<not> Amount_is_zero a"
  shows "bonded_sum s' v (cur + pipeline_len (lg_params s)) + amount_val a = bonded_sum s v (cur + pipeline_len (lg_params s))"
    "\<And>u n. u \<noteq> v \<Longrightarrow> bonded_sum s' u n = bonded_sum s u n"
proof -
  define source where "source = (case src of Some x \<Rightarrow> x | None \<Rightarrow> v)"
  let ?n = "cur + pipeline_len (lg_params s)"
  note bok = ledger_okD(1) [OF ok, of source v]
  obtain taken w where t: "bt_ok taken" "unbonds_total taken = amount_val a"
    and eff: "unbond_effect is_red source v ?n (cur + w) taken s s'"
    using unbond_moves [OF r nz source_def bok] by blast
  have e: "\<And>k. bond_val (bonds s' source v) k + entry_val taken k = bond_val (bonds s source v) k"
      "\<And>k. bond_val (total_bonded s' v) k + entry_val taken k = bond_val (total_bonded s v) k"
      "\<And>u. u \<noteq> v \<Longrightarrow> total_bonded s' u = total_bonded s u"
    using eff unfolding unbond_effect_def by blast+
  have "entry_val taken k = 0" if "?n < k" for k using e(1) [of k] bond_val_beyond [OF bok that] by simp
  then have "(\<Sum>k\<le>?n. entry_val taken k) = amount_val a"
    using sum_entry_val [OF bt_ok_distinct [OF t(1)], of ?n] t(2) by simp
  then show "bonded_sum s' v ?n + amount_val a = bonded_sum s v ?n"
    by (simp add: bonded_sum_def e(2) [symmetric] sum.distrib)
  show "\<And>u n. u \<noteq> v \<Longrightarrow> bonded_sum s' u n = bonded_sum s u n" using e(3) by (simp add: bonded_sum_def)
qed

lemma new_unbonds_total:
  assumes "bonds_ok (pipeline_len (lg_params s)) cur (bonds s (case src of Some x \<Rightarrow> x | None \<Rightarrow> v) v)"
    "check_unbond src v a cur (cur + pipeline_len (lg_params s)) s = Inr ()" "\<not> Amount_is_zero a" "cur + pipeline_len (lg_params s) < 2 ^ 64"
    "find_bonds_to_remove (bond_entries (pipeline_len (lg_params s)) (bonds s (case src of Some x \<Rightarrow> x | None \<Rightarrow> v) v)) a = Inr res"
    "new_unbonds_map (bonds s (case src of Some x \<Rightarrow> x | None \<Rightarrow> v) v) res = Inr taken"
  shows "unbonds_total taken = amount_val a"
proof -
  have pos: "0 < amount_val a" using assms(3) by (simp add: Amount_is_zero_val)
  obtain res' taken' where t: "find_bonds_to_remove (bond_entries (pipeline_len (lg_params s)) (bonds s (case src of Some x \<Rightarrow> x | None \<Rightarrow> v) v)) a = Inr res'"
    "new_unbonds_map (bonds s (case src of Some x \<Rightarrow> x | None \<Rightarrow> v) v) res' = Inr taken'" "unbonds_total taken' = amount_val a"
    by (rule unbond_takes [OF assms(1) pos check_unbond_enough [OF assms(2,1)] assms(4)]) blast
  have "res' = res" using t(1) assms(5) by simp
  then have "taken' = taken" using t(2) assms(6) by simp
  then show ?thesis using t(3) by simp
qed

lemma unbond_stake_ok:
  assumes ok: "stake_ok (cur, s)" and r: "unbond_tokens encode src v a cur is_red s = Inr (result, s')"
  shows "stake_ok (cur, s')"
proof (cases "Amount_is_zero a")
  case True
  then show ?thesis using r ok by (simp add: unbond_tokens_def)
next
  case False
  note o = stake_okD [OF ok]
  note l = unbond_ledger_ok [OF o(1) r]
  define source where "source = (case src of Some x \<Rightarrow> x | None \<Rightarrow> v)"
  let ?f = "pipeline_len (lg_params s)"
  obtain w res md taken red s1 out s2 c where small: "cur + ?f < 2 ^ 64"
    and chk: "check_unbond src v a cur (cur + ?f) s = Inr ()"
    and fb: "find_bonds_to_remove (bond_entries ?f (bonds s source v)) a = Inr res" and nu: "new_unbonds_map (bonds s source v) res = Inr taken"
    and md: "modified_redelegation_of encode (bonds s source v) (redelegated_bonds s source v) res = Inr md"
    and rec: "record_unbond source v cur (cur + ?f) (cur + w) is_red res md taken s = Inr (red, s1)"
    and sl: "compute_amount_after_slashing_unbond (validator_slashes s1) (lg_params s) taken red (validator_slashes s1 v) = Inr result"
    and c: "rbind (change_of (rs_sum result)) (\<lambda>c. ok_or (I256_checked_neg c) PosArith) = Inr c"
    and s2: "update_stake (lg_params s) v c cur None out s1 = Inr s2"
    and s3: "tally_unbond_rewards source v cur (rs_epoch_map result) s2 = Inr s'"
    by (rule unbond_tokensE [OF r False, folded source_def]) blast
  have "md = ModifiedRedelegation_default"
    using md unfolding o(4) by (auto simp: modified_redelegation_of_def redelegations_at_def split: option.splits)
  note p = record_unbond_plain [OF rec [unfolded this] o(4)]
  have rs: "amount_val (rs_sum result) = unbonds_total taken"
    using unslashed_unbond_sum [of "lg_params s" ResultSlashing_default taken result] sl
    by (simp add: p o(3) compute_amount_after_slashing_unbond_def ResultSlashing_default_def)
  obtain c0 where c0: "change_of (rs_sum result) = Inr c0" "ok_or (I256_checked_neg c0) PosArith = Inr c"
    using c by (auto simp: rbind_Inr_iff)
  note cv = neg_change_val [OF change_of_val(1) [OF c0(1)] c0(2), unfolded change_of_val(2) [OF c0(1)]]
  note u = update_stake_sum [OF s2 _ o(2) cv(1), unfolded p(3), OF o(5)]
  have sets: "lg_sets s' = lg_sets s2" "validator_slashes s' = validator_slashes s2" "redelegated_bonds s' = redelegated_bonds s2"
    using s3 by (auto simp: tally_unbond_rewards_def Let_def rbind_Inr_iff split: if_splits)
  have same: "validator_slashes s2 = validator_slashes s1" "redelegated_bonds s2 = redelegated_bonds s1"
    using update_stake_same [OF s2] by (simp_all add: same_bonds_def)
  have tk: "unbonds_total taken = amount_val a"
    using ledger_okD(1) [OF o(1)] chk False small fb nu unfolding source_def by (rule new_unbonds_total)
  note sums = unbond_bonded_sum [OF o(1) r False]
  show ?thesis
  proof (rule stake_okI [OF l(1)])
    show "deltas_ok (lg_params s') cur (validator_deltas (lg_sets s') x)" for x
      using u(1,3) o(5) l(2) sets by (cases "x = v") simp_all
    show "stake_sum (validator_deltas (lg_sets s') x) (cur + pipeline_len (lg_params s')) = int (bonded_sum s' x (cur + pipeline_len (lg_params s')))" for x
      using u(2,3) o(6) cv(2) l(2) sums sets rs tk by (cases "x = v") simp_all
  qed (use o sets same p l(2) in simp_all)
qed

lemma get_sum_ok:
  assumes "all_ok I256_inv (lazy_map h)" "get_sum I256_checked_add past f h e = Inr r"
  shows "pred_option I256_inv r"
  using assms change_delta.rfold_add_Inr [OF assms(1), of None]
  by (auto simp: get_sum_def rbind_Inr_iff simp del: upt_Suc split: option.splits)

lemma read_stake_sum:
  assumes r: "read_validator_stake params v e s = Inr stake" and ok: "deltas_ok params cur (validator_deltas s v)"
  shows "int (amount_val stake) = \<bar>stake_sum (validator_deltas s v) e\<bar>"
proof -
  obtain past where past: "offset_of params OffsetMaxProposalPeriodOrSlashProcessingLenPlus = Inr past"
    and inv: "epoched_inv past (pipeline_len params) (validator_deltas s v)" and aok: "all_ok I256_inv (lazy_map (validator_deltas s v))"
    using ok unfolding deltas_ok_def by blast
  obtain x where x: "get_sum I256_checked_add past (pipeline_len params) (validator_deltas s v) e = Inr x" and st: "stake = stake_of_sum x"
    using r by (auto simp: read_validator_stake_def past epoched_result_Inr rbind_Inr_iff)
  note g = change_delta.get_sum_Inr [OF inv aok x]
  note ok = get_sum_ok [OF aok x]
  show ?thesis
    using g ok Amount_from_change_val by (cases x) (auto simp: st stake_of_sum_def stake_sum_def)
qed

lemma total_val_beyond:
  assumes "ledger_ok (cur, s)" "cur + pipeline_len (lg_params s) < k"
  shows "bond_val (total_bonded s v) k = 0"
proof -
  obtain S where "bond_val (total_bonded s v) k = (\<Sum>src\<in>S. bond_val (bonds s src v) k)"
    using ledger_okD(2) [OF assms(1), of v] unfolding totals_match_def by blast
  then show ?thesis by (simp add: bond_val_beyond [OF ledger_okD(1) [OF assms(1)] assms(2)])
qed

lemma epoch_stake_ok:
  assumes "stake_ok (cur, s)"
  shows "stake_ok (Suc cur, s)"
proof -
  note o = stake_okD [OF assms]
  have "bond_val (total_bonded s v) (Suc cur + pipeline_len (lg_params s)) = 0" for v by (rule total_val_beyond [OF o(1)]) simp
  then have b: "bonded_sum s v (Suc cur + pipeline_len (lg_params s)) = bonded_sum s v (cur + pipeline_len (lg_params s))" for v
    by (simp add: bonded_sum_def)
  show ?thesis
    by (rule stake_okI [OF ledger_ok_Suc [OF o(1)] o(2-4) deltas_ok_Suc [OF o(5)]]) (simp only: stake_sum_Suc [OF o(5)] b o(6))
qed

lemma withdraw_stake_ok:
  assumes "stake_ok (cur, s)" "withdraw_tokens src v cur s = Inr (a, s')"
  shows "stake_ok (cur, s')"
proof -
  note o = stake_okD [OF assms(1)]
  note w = withdraw_same [OF assms(2)]
  have b: "bonded_sum s' = bonded_sum s" by (simp add: bonded_sum_def fun_eq_iff w)
  show ?thesis by (rule stake_okI [OF ledger_ok_same [OF o(1) w(1-3)]]) (use o w b in simp_all)
qed

inductive plain_step :: "(Address \<Rightarrow> string) \<Rightarrow> epoch \<times> pos_ledger \<Rightarrow> epoch \<times> pos_ledger \<Rightarrow> bool" for encode where
  plain_bond: "bond_tokens src v a cur None s = Inr s' \<Longrightarrow> plain_step encode (cur, s) (cur, s')"
| plain_unbond: "unbond_tokens encode src v a cur False s = Inr (r, s') \<Longrightarrow> plain_step encode (cur, s) (cur, s')"
| plain_withdraw: "withdraw_tokens src v cur s = Inr (a, s') \<Longrightarrow> plain_step encode (cur, s) (cur, s')"
| plain_epoch: "plain_step encode (cur, s) (Suc cur, s)"

lemma plain_step_stake_ok: "plain_step encode x y \<Longrightarrow> stake_ok x \<Longrightarrow> stake_ok y"
  by (induction rule: plain_step.induct) (blast intro: bond_stake_ok unbond_stake_ok withdraw_stake_ok epoch_stake_ok)+

definition fresh_ledger :: "pos_ledger \<Rightarrow> bool" where
  "fresh_ledger s \<longleftrightarrow> bonds s = (\<lambda>_ _. epoched_open) \<and> total_bonded s = (\<lambda>_. epoched_open) \<and>
     redelegated_bonds s = (\<lambda>_ _. []) \<and> validator_slashes s = (\<lambda>_. []) \<and>
     validator_deltas (lg_sets s) = (\<lambda>_. epoched_open) \<and> 0 < pipeline_len (lg_params s) \<and>
     (\<exists>past. offset_of (lg_params s) OffsetMaxProposalPeriodOrSlashProcessingLenPlus = Inr past)"

lemma fresh_ledger_ok:
  assumes "fresh_ledger s"
  shows "ledger_ok (cur, s)" "stake_ok (cur, s)"
proof -
  have zero: "bond_val epoched_open e = 0" for e
    by (simp add: epoched_open_def bond_val_def amount_at_def unwrap_or_default_def)
  show l: "ledger_ok (cur, s)"
    using assms by (intro ledger_okI) (auto simp: fresh_ledger_def bonds_ok_def epoched_open_def totals_match_def bond_val_def amount_at_def unwrap_or_default_def)
  have "deltas_ok (lg_params s) cur epoched_open"
    using assms by (auto simp: fresh_ledger_def deltas_ok_def epoched_open_def epoched_inv_def all_ok_def updated_by_def)
  moreover have "stake_sum epoched_open n = 0" for n by (simp add: stake_sum_def sum_to_def epoched_open_def)
  moreover have "bonded_sum s v n = 0" for v n using assms zero by (simp add: bonded_sum_def fresh_ledger_def)
  ultimately show "stake_ok (cur, s)" using assms by (intro stake_okI [OF l]) (simp_all add: fresh_ledger_def)
qed

text \<open>
  C5: As long as nobody is slashed and nothing is redelegated, in every state that bonding, unbonding, withdrawing
  and the change of the epoch reach from a fresh ledger, the stake of a validator at the pipeline epoch, read from the
  sum of its deltas, is the sum of the bonds of all sources to it.
\<close>

theorem stake_is_sum_of_bonds:
  assumes "rtranclp (plain_step encode) (cur0, s0) (cur, s)" "fresh_ledger s0"
    "read_validator_stake (lg_params s) v (cur + pipeline_len (lg_params s)) (lg_sets s) = Inr stake"
  shows "\<exists>S. finite S \<and> (\<forall>src e. src \<notin> S \<longrightarrow> bond_val (bonds s src v) e = 0) \<and>
    amount_val stake = (\<Sum>src\<in>S. \<Sum>e\<le>cur + pipeline_len (lg_params s). bond_val (bonds s src v) e)"
proof -
  have "stake_ok (cur, s)"
    using assms(1) fresh_ledger_ok(2) [OF assms(2)] by (induction rule: rtranclp_induct2) (use plain_step_stake_ok in blast)+
  note o = stake_okD [OF this]
  let ?n = "cur + pipeline_len (lg_params s)"
  obtain S where S: "finite S" "\<And>src e. src \<notin> S \<Longrightarrow> bond_val (bonds s src v) e = 0"
    "\<And>e. bond_val (total_bonded s v) e = (\<Sum>src\<in>S. bond_val (bonds s src v) e)"
    using ledger_okD(2) [OF o(1), of v] unfolding totals_match_def by blast
  have "int (amount_val stake) = \<bar>stake_sum (validator_deltas (lg_sets s) v) ?n\<bar>"
    by (rule read_stake_sum [OF assms(3) o(5)])
  then have "amount_val stake = (\<Sum>e\<le>?n. bond_val (total_bonded s v) e)"
    by (simp add: o(6) bonded_sum_def del: of_nat_sum)
  also have "\<dots> = (\<Sum>e\<le>?n. \<Sum>src\<in>S. bond_val (bonds s src v) e)" by (simp add: S(3))
  also have "\<dots> = (\<Sum>src\<in>S. \<Sum>e\<le>?n. bond_val (bonds s src v) e)" by (rule sum.swap)
  finally show ?thesis using S(1,2) by blast
qed

theorem stake_is_sum_of_bonds_witness:
  "\<exists>S. finite S \<and> (\<Sum>src\<in>S. \<Sum>e\<le>5. bond_val (bonds sample_bonded src (sample_account 2)) e) = 8"
proof -
  have "plain_step encode (3, sample_ledger) (3, sample_bonded)" for encode by (rule plain_bond [OF sample_bond])
  then have r: "rtranclp (plain_step encode) (3, sample_ledger) (3, sample_bonded)" for encode by blast
  have f: "fresh_ledger sample_ledger"
    using sample_past default_pipeline by (simp add: fresh_ledger_def sample_ledger_def empty_pos_state_def)
  have "read_validator_stake default_pos_params (sample_account 2) 5 (lg_sets sample_bonded) = Inr (amount_of 8)"
    by (rule sample_stake(1)) (simp_all add: sample_bonded_def)
  then show ?thesis
    using stake_is_sum_of_bonds [OF r f, of "sample_account 2" "amount_of 8"] by (simp add: sample_bonded_fields default_pipeline) metis
qed

end
