(* ===== verification/PosLifecycle.thy ===== *)
theory PosLifecycle
  imports PosLedger
begin

text \<open>
  The states of a validator (\<open>proof_of_stake/src/lib.rs\<close> and \<open>slash\<close> of \<open>slashing.rs\<close>): jailing for a
  misbehaviour, return from jail, deactivation and reactivation, and what they keep of the validator sets.
\<close>

section \<open>Operations\<close>

definition epochs_from :: "epoch \<Rightarrow> nat \<Rightarrow> epoch list" where
  "epochs_from e len = [e..<(if e + len < 2 ^ 64 then e + len else 2 ^ 64 - 1)]"

definition unjail_check :: "PosParams \<Rightarrow> Address \<Rightarrow> pos_state \<Rightarrow> epoch \<Rightarrow> pos_error + unit" where
  "unjail_check params validator s e =
     rbind (get_validator_state params validator e s) (\<lambda>st.
     case st of Some x \<Rightarrow> if x \<noteq> Jailed then Inl (NotJailed e) else Inr () | None \<Rightarrow> Inl NotAValidator)"

definition unjail_validator :: "Address \<Rightarrow> epoch \<Rightarrow> pos_ledger \<Rightarrow> pos_error + pos_ledger" where
  "unjail_validator validator current_epoch s =
     (let params = lg_params s
      in rbind (ok_or (u64_add (pipeline_len params) 1) OffsetPanic) (\<lambda>len.
         rbind (rfold (\<lambda>_. unjail_check params validator (lg_sets s)) () (epochs_from current_epoch len)) (\<lambda>_.
         rbind (case last_slash_epochs s validator of
                  Some last_slash_epoch \<Rightarrow>
                    rbind (processing_epoch_of params last_slash_epoch) (\<lambda>eligible_epoch.
                    if current_epoch < eligible_epoch then Inl (NotEligible eligible_epoch current_epoch) else Inr ())
                | None \<Rightarrow> Inr ()) (\<lambda>_.
         rbind (epoch_plus current_epoch (pipeline_len params)) (\<lambda>pipeline_epoch.
         rbind (read_validator_stake params validator pipeline_epoch (lg_sets s)) (\<lambda>stake.
         on_sets (insert_validator_into_validator_set params validator stake current_epoch (pipeline_len params)) s))))))"

definition deactivate_validator :: "Address \<Rightarrow> epoch \<Rightarrow> pos_ledger \<Rightarrow> pos_error + pos_ledger" where
  "deactivate_validator validator current_epoch s =
     (let params = lg_params s
      in rbind (epoch_plus current_epoch (pipeline_len params)) (\<lambda>pipeline_epoch.
         rbind (get_validator_state params validator pipeline_epoch (lg_sets s)) (\<lambda>st.
         rbind (ok_or st NotAValidator) (\<lambda>pipeline_state.
         rbind (case pipeline_state of
                  Consensus \<Rightarrow>
                    rbind (on_sets (remove_consensus_validator params pipeline_epoch validator) s)
                      (on_sets (promote_next_below_capacity_validator_to_consensus params current_epoch (pipeline_len params)))
                | BelowCapacity \<Rightarrow> on_sets (remove_below_capacity_validator params pipeline_epoch validator) s
                | BelowThreshold \<Rightarrow> Inr s
                | Inactive \<Rightarrow> Inl (AlreadyInactive pipeline_epoch)
                | Jailed \<Rightarrow> Inl (ValidatorIsJailed pipeline_epoch)) (\<lambda>s1.
         on_sets (set_validator_state params validator Inactive current_epoch (pipeline_len params)) s1)))))"

definition reactivate_check :: "PosParams \<Rightarrow> Address \<Rightarrow> pos_state \<Rightarrow> epoch \<Rightarrow> pos_error + unit" where
  "reactivate_check params validator s e =
     rbind (get_validator_state params validator e s) (\<lambda>st.
     case st of Some x \<Rightarrow> if x \<noteq> Inactive then Inl (NotInactive e) else Inr () | None \<Rightarrow> Inl (NoStateFound e))"

definition reactivate_validator :: "Address \<Rightarrow> epoch \<Rightarrow> pos_ledger \<Rightarrow> pos_error + pos_ledger" where
  "reactivate_validator validator current_epoch s =
     (let params = lg_params s
      in rbind (epoch_plus current_epoch (pipeline_len params)) (\<lambda>pipeline_epoch.
         rbind (rfold (\<lambda>_. reactivate_check params validator (lg_sets s)) () [current_epoch..<Suc pipeline_epoch]) (\<lambda>_.
         rbind (is_validator_frozen validator current_epoch params s) (\<lambda>frozen.
         if frozen then on_sets (set_validator_state params validator Jailed current_epoch (pipeline_len params)) s
         else
           rbind (read_validator_stake params validator pipeline_epoch (lg_sets s)) (\<lambda>stake.
           on_sets (insert_validator_into_validator_set params validator stake current_epoch (pipeline_len params)) s)))))"

definition jail_step :: "PosParams \<Rightarrow> Address \<Rightarrow> epoch \<Rightarrow> pos_state \<Rightarrow> nat \<Rightarrow> pos_error + pos_state" where
  "jail_step params validator current_epoch s offset =
     rbind (epoch_plus current_epoch offset) (\<lambda>e.
     rbind (get_validator_state params validator e s) (\<lambda>st.
     rbind (ok_or st StateMissing) (\<lambda>prev_state.
     case prev_state of
       Consensus \<Rightarrow>
         rbind (remove_consensus_validator params e validator s) (\<lambda>s1.
         if offset = pipeline_len params
         then promote_next_below_capacity_validator_to_consensus params current_epoch offset s1 else Inr s1)
     | BelowCapacity \<Rightarrow> remove_below_capacity_validator params e validator s
     | _ \<Rightarrow> Inr s)))"

definition jail_validator :: "PosParams \<Rightarrow> Address \<Rightarrow> epoch \<Rightarrow> epoch \<Rightarrow> pos_state \<Rightarrow> pos_error + pos_state" where
  "jail_validator params validator current_epoch validator_set_update_epoch s =
     (if validator_set_update_epoch < current_epoch then Inl OffsetPanic
      else
        let start = validator_set_update_epoch - current_epoch
        in rbind (rfold (jail_step params validator current_epoch) s [start..<Suc (pipeline_len params)]) (\<lambda>s1.
           rfold (\<lambda>s offset. set_validator_state params validator Jailed current_epoch offset s) s1
             [start..<Suc (pipeline_len params)]))"

definition slash ::
    "PosParams \<Rightarrow> epoch \<Rightarrow> epoch \<Rightarrow> nat \<Rightarrow> SlashType \<Rightarrow> Address \<Rightarrow> epoch \<Rightarrow> pos_ledger \<Rightarrow> pos_error + pos_ledger" where
  "slash params current_epoch evidence_epoch evidence_block_height kind validator validator_set_update_epoch s =
     rbind (processing_epoch_of params evidence_epoch) (\<lambda>processing_epoch.
     let new = \<lparr>slash_epoch = evidence_epoch, slash_block_height = evidence_block_height, slash_type = kind, slash_rate = Dec_zero\<rparr>;
         enqueued = nested_at [] (enqueued_slashes s) processing_epoch
     in if map_of enqueued (validator, evidence_block_height) \<noteq> None then Inr s
        else
          let s1 = s\<lparr>enqueued_slashes := nested_put processing_epoch
                       (AList.update (validator, evidence_block_height) new enqueued) (enqueued_slashes s)\<rparr>;
              s2 = (case last_slash_epochs s1 validator of
                      None \<Rightarrow> s1\<lparr>last_slash_epochs := (last_slash_epochs s1)(validator \<mapsto> evidence_epoch)\<rparr>
                    | Some last_slash_epoch \<Rightarrow>
                        if evidence_epoch > last_slash_epoch
                        then s1\<lparr>last_slash_epochs := (last_slash_epochs s1)(validator \<mapsto> evidence_epoch)\<rparr> else s1)
          in on_sets (jail_validator params validator current_epoch validator_set_update_epoch) s2)"

section \<open>Reads and writes of states\<close>

definition states_ok :: "PosParams \<Rightarrow> epoch \<Rightarrow> pos_state \<Rightarrow> bool" where
  "states_ok params cur s \<longleftrightarrow>
     (\<exists>past. offset_of params OffsetMaxProposalPeriodPlus = Inr past \<and>
        (\<forall>v. epoched_inv past (pipeline_len params) (validator_states s v) \<and> updated_by cur (validator_states s v))) \<and>
     cur + pipeline_len params < 2 ^ 64"

lemma states_ok_same: "states_ok params cur s \<Longrightarrow> validator_states s' = validator_states s \<Longrightarrow> states_ok params cur s'"
  by (simp add: states_ok_def)

lemma get_state_eq:
  assumes "states_ok params cur s"
  shows "get_validator_state params v e s = Inr (vstate s e v)"
proof -
  obtain past where past: "offset_of params OffsetMaxProposalPeriodPlus = Inr past"
    and inv: "epoched_inv past (pipeline_len params) (validator_states s v)" "updated_by cur (validator_states s v)"
    and small: "cur + pipeline_len params < 2 ^ 64"
    using assms unfolding states_ok_def by blast
  have "epoched_get past (pipeline_len params) (validator_states s v) e = Inr (vstate s e v)"
    unfolding vstate_def using inv(2) small by (intro epoched_get_eq [OF inv(1)]) (auto simp: updated_by_def)
  then show ?thesis by (simp add: get_validator_state_def past epoched_result_def)
qed

lemma set_state_ok:
  assumes ok: "states_ok params cur s" and off: "offset \<le> pipeline_len params"
  obtains s' where "set_validator_state params v st cur offset s = Inr s'" "states_ok params cur s'"
    "consensus_at s' = consensus_at s" "below_capacity_at s' = below_capacity_at s" "positions_at s' = positions_at s"
    "vstate s' (cur + offset) = (vstate s (cur + offset))(v \<mapsto> st)"
    "\<And>e. cur \<le> e \<Longrightarrow> e < cur + offset \<Longrightarrow> vstate s' e = vstate s e"
    "\<And>e u. cur \<le> e \<Longrightarrow> u \<noteq> v \<Longrightarrow> vstate s' e u = vstate s e u"
    "\<And>e. only_sets_at e s s'"
proof -
  obtain past where past: "offset_of params OffsetMaxProposalPeriodPlus = Inr past"
    and inv: "\<And>v. epoched_inv past (pipeline_len params) (validator_states s v)" "\<And>v. updated_by cur (validator_states s v)"
    and small: "cur + pipeline_len params < 2 ^ 64"
    using ok unfolding states_ok_def by blast
  let ?U = "epoched_update_data past cur (validator_states s v)"
  let ?h = "?U\<lparr>lazy_map := (lazy_map ?U)(cur + offset \<mapsto> st)\<rparr>" and ?s = "\<lambda>h. s\<lparr>validator_states := (validator_states s)(v := h)\<rparr>"
  note spec = epoched_update_data_spec [OF inv, of v]
  have t: "sub_past_epochs past cur \<le> cur" by (simp add: sub_past_epochs_def)
  have "epoched_inv past (pipeline_len params) ?h"
    using spec t off by (auto elim!: epoched_inv_cases intro!: epoched_invI split: if_splits)
  then have "states_ok params cur (?s ?h)"
    unfolding states_ok_def using past inv small by (auto simp: updated_by_def)
  moreover have "set_validator_state params v st cur offset s = Inr (?s ?h)"
    using past small off by (simp add: set_validator_state_def epoched_set_def set_at_epoch_def unchecked_add_def epoched_result_def)
  moreover have "vstate (?s ?h) e u = vstate s e u" if "cur \<le> e" "u \<noteq> v \<or> e < cur + offset" for e u
  proof (cases "u = v")
    case True
    have "nearest (lazy_map ?h) e = nearest (lazy_map ?U) e" using that True by (intro nearest_cong) auto
    also have "\<dots> = nearest (lazy_map (validator_states s v)) e" using spec t that(1) by simp
    finally show ?thesis using True by (simp add: vstate_def)
  qed (simp add: vstate_def)
  moreover have "vstate (?s ?h) (cur + offset) = (vstate s (cur + offset))(v \<mapsto> st)"
    by (auto simp: fun_eq_iff vstate_def nearest_Some_key)
  moreover have "consensus_at (?s ?h) = consensus_at s" "below_capacity_at (?s ?h) = below_capacity_at s"
    "positions_at (?s ?h) = positions_at s" "only_sets_at e s (?s ?h)" for e
    by (simp_all add: fun_eq_iff consensus_at_def below_capacity_at_def positions_at_def only_sets_at_def)
  ultimately show thesis by (intro that [of "?s ?h"]) (simp_all add: fun_eq_iff)
qed

section \<open>Leaving the sets\<close>

text \<open>The part of the invariant that holds at every epoch: keys, positions and states agree.\<close>

definition sets_match :: "(Address \<Rightarrow> Amount) \<Rightarrow> pos_state \<Rightarrow> epoch \<Rightarrow> bool" where
  "sets_match st s e \<longleftrightarrow>
     sets_wf st s e \<and> dom (positions_at s e) = consensus_members s e \<union> below_capacity_members s e \<and>
     consensus_members s e = {v. vstate s e v = Some Consensus} \<and>
     below_capacity_members s e = {v. vstate s e v = Some BelowCapacity}"

lemma vsets_inv_match: "vsets_inv params st s e \<Longrightarrow> sets_match st s e"
  unfolding vsets_inv_def sets_match_def by (elim conjE) (intro conjI)

lemma sets_matchD:
  assumes "sets_match st s e"
  shows "sets_wf st s e" "dom (positions_at s e) = consensus_members s e \<union> below_capacity_members s e"
    "consensus_members s e = {v. vstate s e v = Some Consensus}" "below_capacity_members s e = {v. vstate s e v = Some BelowCapacity}"
proof -
  note inv = assms [unfolded sets_match_def]
  show "sets_wf st s e" using inv by (elim conjE)
  show "dom (positions_at s e) = consensus_members s e \<union> below_capacity_members s e" using inv by (elim conjE)
  show "consensus_members s e = {v. vstate s e v = Some Consensus}" using inv by (elim conjE)
  show "below_capacity_members s e = {v. vstate s e v = Some BelowCapacity}" using inv by (elim conjE)
qed

lemma put_states [simp]:
  "validator_states (put_consensus e m s) = validator_states s" "validator_states (put_below_capacity e b s) = validator_states s"
  "validator_states (remove_position e v s) = validator_states s"
  by (simp_all add: put_consensus_def put_below_capacity_def remove_position_def put_positions_def)

lemma vstate_same: "validator_states s' = validator_states s \<Longrightarrow> vstate s' = vstate s"
  by (simp add: vstate_def fun_eq_iff)

lemma remove_consensus_match:
  assumes m: "sets_match st s e" and v: "vstate s e v = Some Consensus" and stake: "read_validator_stake params v e s = Inr (st v)"
  obtains s' where "remove_consensus_validator params e v s = Inr s'" "sets_wf st s' e"
    "consensus_members s' e = consensus_members s e - {v}" "below_capacity_at s' = below_capacity_at s"
    "positions_at s' e = (positions_at s e)(v := None)" "validator_states s' = validator_states s" "only_sets_at e s s'"
    "room (consensus_at s e) \<Longrightarrow> room (consensus_at s' e)"
proof -
  note d = sets_matchD [OF m]
  have ok: "pm_ok (\<lambda>a. a) st (positions_at s e) (consensus_at s e)" using d(1) by (simp add: sets_wf_def)
  have vC: "v \<in> consensus_members s e" using v d(3) by simp
  then obtain p where p: "positions_at s e v = Some p" "((st v, p), v) \<in> set (consensus_at s e)" using pm_member [OF ok] by blast
  then have look: "map_of (consensus_at s e) (st v, p) = Some v" using pm_lookup [OF ok] by blast
  let ?s1 = "put_consensus e (bt_remove (st v, p) (consensus_at s e)) s"
  note rem = remove_consensus_wf [OF d(1) look]
  have out: "v \<notin> below_capacity_members s e" using vC d(1) by (auto simp: sets_wf_def)
  have wf: "sets_wf st (remove_position e v ?s1) e" using rem(2) out by (intro remove_position_wf [OF rem(1)]) simp_all
  have run: "remove_consensus_validator params e v s = Inr (remove_position e v ?s1)"
    by (simp add: remove_consensus_validator_def stake p(1))
  show thesis by (rule that [OF run wf]) (use rem in \<open>simp_all add: fun_eq_iff\<close>)
qed

lemma remove_below_capacity_match:
  assumes m: "sets_match st s e" and v: "vstate s e v = Some BelowCapacity" and stake: "read_validator_stake params v e s = Inr (st v)"
  obtains s' where "remove_below_capacity_validator params e v s = Inr s'" "sets_wf st s' e"
    "consensus_at s' = consensus_at s" "below_capacity_members s' e = below_capacity_members s e - {v}"
    "positions_at s' e = (positions_at s e)(v := None)" "validator_states s' = validator_states s" "only_sets_at e s s'"
proof -
  note d = sets_matchD [OF m]
  have ok: "pm_ok ReverseOrdTokenAmount st (positions_at s e) (below_capacity_at s e)" using d(1) by (simp add: sets_wf_def)
  have vB: "v \<in> below_capacity_members s e" using v d(4) by simp
  then obtain p where p: "positions_at s e v = Some p" "((ReverseOrdTokenAmount (st v), p), v) \<in> set (below_capacity_at s e)"
    using pm_member [OF ok] by blast
  let ?s1 = "put_below_capacity e (bt_remove (ReverseOrdTokenAmount (st v), p) (below_capacity_at s e)) s"
  note rem = remove_below_capacity_wf [OF d(1) p(2)]
  have out: "v \<notin> consensus_members s e" using vB d(1) by (auto simp: sets_wf_def)
  have wf: "sets_wf st (remove_position e v ?s1) e" using rem(2) out by (intro remove_position_wf [OF rem(1)]) simp_all
  have run: "remove_below_capacity_validator params e v s = Inr (remove_position e v ?s1)"
    by (simp add: remove_below_capacity_validator_def stake p(1))
  show thesis by (rule that [OF run wf]) (use rem in \<open>simp_all add: fun_eq_iff\<close>)
qed

lemma set_state_frame:
  assumes "states_ok params cur s" "offset \<le> pipeline_len params" "set_validator_state params v st cur offset s = Inr s'"
  shows "states_ok params cur s'" "\<And>e. cur \<le> e \<Longrightarrow> e < cur + offset \<Longrightarrow> vstate s' e = vstate s e"
proof -
  obtain t where "set_validator_state params v st cur offset s = Inr t" "states_ok params cur t"
    "\<And>e. cur \<le> e \<Longrightarrow> e < cur + offset \<Longrightarrow> vstate t e = vstate s e"
    by (rule set_state_ok [OF assms(1,2), of v st]) blast
  then show "states_ok params cur s'" "\<And>e. cur \<le> e \<Longrightarrow> e < cur + offset \<Longrightarrow> vstate s' e = vstate s e"
    using assms(3) by simp_all
qed

lemma promote_frame:
  assumes ok: "states_ok params cur s" and off: "offset \<le> pipeline_len params"
    and r: "promote_next_below_capacity_validator_to_consensus params cur offset s = Inr s'"
  shows "states_ok params cur s'" "\<And>e. cur \<le> e \<Longrightarrow> e < cur + offset \<Longrightarrow> vstate s' e = vstate s e"
proof -
  have "states_ok params cur s' \<and> (\<forall>e. cur \<le> e \<longrightarrow> e < cur + offset \<longrightarrow> vstate s' e = vstate s e)"
  proof (cases "s' = s")
    case False
    then obtain w t where t: "set_validator_state params w Consensus cur offset t = Inr s'" "validator_states t = validator_states s"
      using r by (auto simp: promote_next_below_capacity_validator_to_consensus_def promote_below_capacity_def rbind_Inr_iff Let_def
          insert_validator_into_consensus_def put_positions_def put_consensus_def put_below_capacity_def split: option.splits)
    note f = set_state_frame [OF states_ok_same [OF ok t(2)] off t(1)]
    show ?thesis using f by (simp add: vstate_same [OF t(2)])
  qed (use ok in simp)
  then show "states_ok params cur s'" "\<And>e. cur \<le> e \<Longrightarrow> e < cur + offset \<Longrightarrow> vstate s' e = vstate s e" by blast+
qed

text \<open>At the pipeline epoch the next validator is promoted, and the sets stay the best.\<close>

lemma vsets_inv_butI:
  assumes "sets_wf st s e" "best_stakes (validator_stake_threshold params) (max_validator_slots params) st C B"
    "consensus_members s e = C" "below_capacity_members s e = B" "v \<notin> C" "v \<notin> B"
    "dom (positions_at s e) - {v} = C \<union> B" "vstate s e = f"
    "C = {w. w \<noteq> v \<and> f w = Some Consensus}" "B = {w. w \<noteq> v \<and> f w = Some BelowCapacity}"
    "\<And>w. w \<noteq> v \<Longrightarrow> f w = Some BelowThreshold \<Longrightarrow> st w < validator_stake_threshold params"
  shows "vsets_inv_but v params st s e"
  using assms by (simp add: vsets_inv_but_def)

lemma promote_next_but:
  assumes inv: "vsets_inv params st s (cur + offset)" and v: "v \<in> consensus_members s (cur + offset)"
    and s1: "sets_wf st s1 (cur + offset)" "consensus_members s1 (cur + offset) = consensus_members s (cur + offset) - {v}"
      "below_capacity_at s1 = below_capacity_at s" "positions_at s1 (cur + offset) = (positions_at s (cur + offset))(v := None)"
      "vstate s1 = vstate s" "room (consensus_at s1 (cur + offset))"
    and tgt: "set_target params cur offset (cur + offset)"
  shows "\<exists>s'. promote_next_below_capacity_validator_to_consensus params cur offset s1 = Inr s' \<and>
    vsets_inv_but v params st s' (cur + offset) \<and> positions_at s' (cur + offset) v = None \<and> only_sets_at (cur + offset) s1 s'"
proof -
  let ?e = "cur + offset" and ?t = "validator_stake_threshold params"
  let ?C = "consensus_members s ?e" and ?B = "below_capacity_members s ?e"
  note inv' = vsets_invD [OF inv]
  have e: "epoch_plus cur offset = Inr ?e" using tgt by (simp add: set_target_def epoch_plus_def)
  have vB: "v \<notin> ?B" using v inv'(1) by (auto simp: sets_wf_def)
  show ?thesis
  proof (cases "get_max_below_capacity_validator_amount (below_capacity_at s ?e)")
    case None
    then have B: "?B = {}" by (simp add: max_below_None)
    have "vsets_inv_but v params st s1 ?e"
    proof (rule vsets_inv_butI [OF s1(1), where f = "vstate s ?e" and C = "?C - {v}" and B = "{}"])
      show "best_stakes ?t (max_validator_slots params) st (?C - {v}) {}"
        using best_stakes_remove_consensus [OF inv'(2) _ v B] B by simp
    qed (use inv'(3-6) B s1 in auto)
    then show ?thesis using None s1 by (simp add: promote_next_below_capacity_validator_to_consensus_def e)
  next
    case (Some a)
    then have max: "get_max_below_capacity_validator_amount (below_capacity_at s1 ?e) = Some a" by (simp add: s1)
    obtain s' w where s': "promote_below_capacity params a cur offset ?e s1 = Inr s'"
      "w \<in> below_capacity_members s1 ?e" "\<And>b. b \<in> below_capacity_members s1 ?e \<Longrightarrow> st b \<le> st w"
      "sets_wf st s' ?e" "consensus_members s' ?e = insert w (consensus_members s1 ?e)"
      "below_capacity_members s' ?e = below_capacity_members s1 ?e - {w}"
      "dom (positions_at s' ?e) = insert w (dom (positions_at s1 ?e))"
      "vstate s' ?e = (vstate s1 ?e)(w \<mapsto> Consensus)" "only_sets_at ?e s1 s'"
      by (rule promote_wf [OF s1(1) tgt s1(6) max]) blast
    have w: "w \<in> ?B" "w \<noteq> v" using s'(2) vB by (auto simp: s1)
    have max: "st b \<le> st w" if "b \<in> ?B" for b using s'(3) [of b] that by (simp add: s1)
    have "vsets_inv_but v params st s' ?e"
    proof (rule vsets_inv_butI [OF s'(4), where f = "(vstate s ?e)(w \<mapsto> Consensus)" and C = "insert w (?C - {v})" and B = "?B - {w}"])
      show "best_stakes ?t (max_validator_slots params) st (insert w (?C - {v})) (?B - {w})"
        using best_stakes_promote(1) [OF inv'(2) _ v w(1) max] by simp
    qed (use inv'(3-6) w vB s1 s'(5-8) in \<open>auto split: if_splits\<close>)
    moreover have "v \<notin> dom (positions_at s' ?e)" using s'(7) w(2) s1(4) by simp
    then have "positions_at s' ?e v = None" by (simp add: domIff)
    ultimately show ?thesis using Some s' by (simp add: promote_next_below_capacity_validator_to_consensus_def e s1)
  qed
qed

text \<open>What leaving the sets of an epoch means, and what it keeps.\<close>

definition left_sets :: "(epoch \<Rightarrow> Address \<Rightarrow> Amount) \<Rightarrow> Address \<Rightarrow> epoch set \<Rightarrow> pos_state \<Rightarrow> pos_state \<Rightarrow> bool" where
  "left_sets st v E s s' \<longleftrightarrow>
     validator_deltas s' = validator_deltas s \<and>
     (\<forall>e\<in>E. consensus_members s' e = consensus_members s e - {v} \<and> below_capacity_members s' e = below_capacity_members s e - {v} \<and>
        positions_at s' e = (positions_at s e)(v := None) \<and> sets_wf (st e) s' e) \<and>
     (\<forall>e. e \<notin> E \<longrightarrow> consensus_at s' e = consensus_at s e \<and> below_capacity_at s' e = below_capacity_at s e \<and>
        positions_at s' e = positions_at s e)"

lemma left_sets_refl: "left_sets st v {} s s"
  by (simp add: left_sets_def)

lemma left_sets_step:
  assumes "left_sets st v E s s1" "left_sets st v {e} s1 s2" "e \<notin> E"
  shows "left_sets st v (insert e E) s s2"
proof -
  note a = assms(1) [unfolded left_sets_def] and b = assms(2) [unfolded left_sets_def]
  have here: "consensus_members s2 e = consensus_members s e - {v} \<and> below_capacity_members s2 e = below_capacity_members s e - {v} \<and>
      positions_at s2 e = (positions_at s e)(v := None) \<and> sets_wf (st e) s2 e" using a b assms(3) by simp
  have there: "consensus_at s2 x = consensus_at s1 x \<and> below_capacity_at s2 x = below_capacity_at s1 x \<and> positions_at s2 x = positions_at s1 x"
    if "x \<noteq> e" for x using b that by simp
  show ?thesis unfolding left_sets_def
  proof (intro conjI ballI allI impI)
    show "validator_deltas s2 = validator_deltas s" using a b by simp
  next
    fix x assume x: "x \<in> insert e E"
    show "consensus_members s2 x = consensus_members s x - {v}" "below_capacity_members s2 x = below_capacity_members s x - {v}"
      "positions_at s2 x = (positions_at s x)(v := None)" "sets_wf (st x) s2 x"
      by (cases "x = e"; use here there [of x] a x in \<open>simp add: sets_wf_def\<close>)+
  next
    fix x assume x: "x \<notin> insert e E"
    then have "x \<noteq> e" "x \<notin> E" by simp_all
    then show "consensus_at s2 x = consensus_at s x" "below_capacity_at s2 x = below_capacity_at s x" "positions_at s2 x = positions_at s x"
      using there [of x] a by simp_all
  qed
qed

lemma stake_same: "validator_deltas s' = validator_deltas s \<Longrightarrow> read_validator_stake params v e s' = read_validator_stake params v e s"
  by (simp add: read_validator_stake_def)

lemma sets_match_same:
  assumes "sets_match st s e" "consensus_at s' e = consensus_at s e" "below_capacity_at s' e = below_capacity_at s e"
    "positions_at s' e = positions_at s e" "vstate s' e = vstate s e"
  shows "sets_match st s' e"
  using assms(1) unfolding sets_match_def sets_wf_def assms(2-5) .

lemma jail_step_early:
  assumes ok: "states_ok params cur s" and m: "sets_match (st (cur + offset)) s (cur + offset)" and off: "offset < pipeline_len params"
    and stake: "read_validator_stake params v (cur + offset) s = Inr (st (cur + offset) v)" and v: "vstate s (cur + offset) v = Some x"
  shows "\<exists>s'. jail_step params v cur s offset = Inr s' \<and> validator_states s' = validator_states s \<and> left_sets st v {cur + offset} s s'"
proof -
  let ?e = "cur + offset"
  note d = sets_matchD [OF m]
  have e: "epoch_plus cur offset = Inr ?e" using ok off by (simp add: states_ok_def epoch_plus_def)
  have step: "jail_step params v cur s offset =
      (case x of Consensus \<Rightarrow> remove_consensus_validator params ?e v s
       | BelowCapacity \<Rightarrow> remove_below_capacity_validator params ?e v s | _ \<Rightarrow> Inr s)"
    using off by (simp add: jail_step_def e get_state_eq [OF ok] v split: ValidatorState.split)
      (cases "remove_consensus_validator params ?e v s"; simp)
  have disj: "consensus_members s ?e \<inter> below_capacity_members s ?e = {}" using d(1) by (simp add: sets_wf_def)
  consider "x = Consensus" | "x = BelowCapacity" | "x \<noteq> Consensus" "x \<noteq> BelowCapacity" by blast
  then show ?thesis
  proof cases
    case 1
    obtain s' where s': "remove_consensus_validator params ?e v s = Inr s'" "sets_wf (st ?e) s' ?e" "consensus_members s' ?e = consensus_members s ?e - {v}"
      "below_capacity_at s' = below_capacity_at s" "positions_at s' ?e = (positions_at s ?e)(v := None)"
      "validator_states s' = validator_states s" "only_sets_at ?e s s'"
      by (rule remove_consensus_match [OF m _ stake]) (use v 1 in blast)+
    have "v \<in> consensus_members s ?e" using v 1 d(3) by simp
    then have "v \<notin> below_capacity_members s ?e" using disj by blast
    then show ?thesis using s' 1 step by (simp add: left_sets_def only_sets_at_def)
  next
    case 2
    obtain s' where s': "remove_below_capacity_validator params ?e v s = Inr s'" "sets_wf (st ?e) s' ?e" "consensus_at s' = consensus_at s"
      "below_capacity_members s' ?e = below_capacity_members s ?e - {v}" "positions_at s' ?e = (positions_at s ?e)(v := None)"
      "validator_states s' = validator_states s" "only_sets_at ?e s s'"
      by (rule remove_below_capacity_match [OF m _ stake]) (use v 2 in blast)+
    have "v \<in> below_capacity_members s ?e" using v 2 d(4) by simp
    then have "v \<notin> consensus_members s ?e" using disj by blast
    then show ?thesis using s' 2 step by (simp add: left_sets_def only_sets_at_def)
  next
    case 3
    then have out: "v \<notin> consensus_members s ?e" "v \<notin> below_capacity_members s ?e" using v d(3,4) by simp_all
    then have "v \<notin> dom (positions_at s ?e)" using d(2) by simp
    then have "(positions_at s ?e)(v := None) = positions_at s ?e" by (auto simp: fun_eq_iff)
    then show ?thesis using 3 step out d(1) by (simp add: left_sets_def split: ValidatorState.split)
  qed
qed

lemma jail_loop:
  assumes ok: "states_ok params cur s" and n: "a \<le> n" "n \<le> pipeline_len params"
    and m: "\<And>e. cur + a \<le> e \<Longrightarrow> e < cur + n \<Longrightarrow> sets_match (st e) s e"
    and stake: "\<And>e. cur + a \<le> e \<Longrightarrow> e < cur + n \<Longrightarrow> read_validator_stake params v e s = Inr (st e v)"
    and v: "\<And>e. cur + a \<le> e \<Longrightarrow> e < cur + n \<Longrightarrow> vstate s e v \<noteq> None"
  shows "\<exists>s'. rfold (jail_step params v cur) s [a..<n] = Inr s' \<and> validator_states s' = validator_states s \<and>
    left_sets st v {cur + a..<cur + n} s s'"
  using n m stake v
proof (induction n rule: dec_induct)
  case base
  then show ?case by (simp add: left_sets_refl)
next
  case (step n)
  obtain s1 where s1: "rfold (jail_step params v cur) s [a..<n] = Inr s1" "validator_states s1 = validator_states s"
    "left_sets st v {cur + a..<cur + n} s s1" using step by auto
  let ?e = "cur + n"
  have same: "consensus_at s1 ?e = consensus_at s ?e" "below_capacity_at s1 ?e = below_capacity_at s ?e"
    "positions_at s1 ?e = positions_at s ?e" "validator_deltas s1 = validator_deltas s" using s1(3) by (simp_all add: left_sets_def)
  note vs = vstate_same [OF s1(2)]
  have "sets_match (st ?e) s1 ?e" by (rule sets_match_same [OF step.prems(2)]) (use step.hyps vs same in simp_all)
  moreover have "read_validator_stake params v ?e s1 = Inr (st ?e v)" using step.prems(3) [of ?e] step.hyps stake_same [OF same(4)] by simp
  moreover obtain x where "vstate s1 ?e v = Some x" using step.prems(4) [of ?e] step.hyps vs by auto
  ultimately obtain s2 where s2: "jail_step params v cur s1 n = Inr s2" "validator_states s2 = validator_states s1" "left_sets st v {?e} s1 s2"
    using jail_step_early [OF states_ok_same [OF ok s1(2)]] step.prems(1) by (metis Suc_le_lessD)
  have "left_sets st v (insert ?e {cur + a..<?e}) s s2" by (rule left_sets_step [OF s1(3) s2(3)]) simp
  moreover have "insert ?e {cur + a..<?e} = {cur + a..<cur + Suc n}" using step.hyps by auto
  ultimately show ?case using s1 s2 step.hyps by (simp add: rfold_append)
qed

lemma leave_consensus:
  assumes ok: "states_ok params cur s" and inv: "vsets_inv params st s (cur + offset)" and off: "offset \<le> pipeline_len params"
    and tgt: "set_target params cur offset (cur + offset)" and v: "vstate s (cur + offset) v = Some Consensus"
    and stake: "read_validator_stake params v (cur + offset) s = Inr (st v)" and room: "room (consensus_at s (cur + offset))"
  shows "\<exists>s1 s'. remove_consensus_validator params (cur + offset) v s = Inr s1 \<and>
    promote_next_below_capacity_validator_to_consensus params cur offset s1 = Inr s' \<and> states_ok params cur s' \<and>
    (\<forall>e. cur \<le> e \<longrightarrow> e < cur + offset \<longrightarrow> vstate s' e = vstate s e) \<and>
    vsets_inv_but v params st s' (cur + offset) \<and> positions_at s' (cur + offset) v = None \<and> only_sets_at (cur + offset) s s'"
proof -
  let ?e = "cur + offset"
  note m = vsets_inv_match [OF inv]
  obtain s1 where s1: "remove_consensus_validator params ?e v s = Inr s1" "sets_wf st s1 ?e"
    "consensus_members s1 ?e = consensus_members s ?e - {v}" "below_capacity_at s1 = below_capacity_at s"
    "positions_at s1 ?e = (positions_at s ?e)(v := None)" "validator_states s1 = validator_states s" "only_sets_at ?e s s1"
    "room (consensus_at s1 ?e)"
    by (rule remove_consensus_match [OF m v stake]) (use room in blast)
  have "v \<in> consensus_members s ?e" using v sets_matchD(3) [OF m] by simp
  then obtain s' where s': "promote_next_below_capacity_validator_to_consensus params cur offset s1 = Inr s'"
    "vsets_inv_but v params st s' ?e" "positions_at s' ?e v = None" "only_sets_at ?e s1 s'"
    using promote_next_but [OF inv _ s1(2-5) vstate_same [OF s1(6)] s1(8) tgt] by blast
  note f = promote_frame [OF states_ok_same [OF ok s1(6)] off s'(1)]
  have "vstate s' e = vstate s e" if "cur \<le> e" "e < ?e" for e using f(2) [OF that] vstate_same [OF s1(6)] by simp
  then show ?thesis using s1(1) s' f(1) only_sets_at_trans [OF s1(7) s'(4)] by blast
qed

lemma leave_below_capacity:
  assumes inv: "vsets_inv params st s e" and v: "vstate s e v = Some BelowCapacity"
    and stake: "read_validator_stake params v e s = Inr (st v)"
  shows "\<exists>s'. remove_below_capacity_validator params e v s = Inr s' \<and> validator_states s' = validator_states s \<and>
    vsets_inv_but v params st s' e \<and> positions_at s' e v = None \<and> only_sets_at e s s'"
proof -
  note m = vsets_inv_match [OF inv] and i = vsets_invD [OF inv]
  let ?C = "consensus_members s e" and ?B = "below_capacity_members s e"
  obtain s' where s': "remove_below_capacity_validator params e v s = Inr s'" "sets_wf st s' e" "consensus_at s' = consensus_at s"
    "below_capacity_members s' e = ?B - {v}" "positions_at s' e = (positions_at s e)(v := None)"
    "validator_states s' = validator_states s" "only_sets_at e s s'"
    by (rule remove_below_capacity_match [OF m v stake])
  have vB: "v \<in> ?B" using v sets_matchD(4) [OF m] by simp
  then have vC: "v \<notin> ?C" using i(1) by (auto simp: sets_wf_def)
  have "vsets_inv_but v params st s' e"
    by (rule vsets_inv_butI [OF s'(2) best_stakes_remove_below [OF i(2)], where f = "vstate s e"])
      (use s' vB vC i(3-6) vstate_same [OF s'(6)] in auto)
  then show ?thesis using s' by simp
qed

lemma leave_nothing:
  assumes inv: "vsets_inv params st s e" and v: "vstate s e v \<notin> {Some Consensus, Some BelowCapacity}"
  shows "vsets_inv_but v params st s e" "positions_at s e v = None"
proof -
  show "vsets_inv_but v params st s e" by (rule vsets_inv_but_of [OF inv v])
  have "v \<notin> dom (positions_at s e)" using vsets_invD(3-5) [OF inv] v by auto
  then show "positions_at s e v = None" by (simp add: domIff)
qed

text \<open>A validator out of the sets may take the state \<open>Jailed\<close> or \<open>Inactive\<close>.\<close>

lemma settle_out:
  assumes but: "vsets_inv_but v params st s e" and none: "positions_at s e v = None" and x: "x = Jailed \<or> x = Inactive"
    and same: "consensus_at s' = consensus_at s" "below_capacity_at s' = below_capacity_at s" "positions_at s' = positions_at s"
      "vstate s' e = (vstate s e)(v \<mapsto> x)"
  shows "vsets_inv params st s' e"
proof -
  note b = vsets_inv_butD [OF but]
  have "sets_wf st s' e" using b(1) by (simp add: sets_wf_def same)
  then show ?thesis
    by (rule vsets_invI [OF _ b(2), where f = "(vstate s e)(v \<mapsto> x)"]) (use b x none in \<open>auto simp: same split: if_splits\<close>)
qed

lemma jail_states:
  assumes ok: "states_ok params cur s" and n: "a \<le> n" "n \<le> Suc (pipeline_len params)"
  shows "\<exists>s'. rfold (\<lambda>s offset. set_validator_state params v Jailed cur offset s) s [a..<n] = Inr s' \<and> states_ok params cur s' \<and>
    consensus_at s' = consensus_at s \<and> below_capacity_at s' = below_capacity_at s \<and> positions_at s' = positions_at s \<and>
    (\<forall>e. cur \<le> e \<and> e < cur + a \<longrightarrow> vstate s' e = vstate s e) \<and>
    (\<forall>e. cur + a \<le> e \<and> e < cur + n \<longrightarrow> vstate s' e = (vstate s e)(v \<mapsto> Jailed)) \<and>
    (\<forall>e u. cur \<le> e \<longrightarrow> u \<noteq> v \<longrightarrow> vstate s' e u = vstate s e u) \<and> only_sets_at e0 s s'"
  using n
proof (induction n rule: dec_induct)
  case base
  have none: "\<forall>e. cur + a \<le> e \<and> e < cur + a \<longrightarrow> P e" for P by auto
  show ?case by (intro exI [of _ s] conjI none) (simp_all add: ok)
next
  case (step n)
  then obtain s1 where s1: "rfold (\<lambda>s offset. set_validator_state params v Jailed cur offset s) s [a..<n] = Inr s1" "states_ok params cur s1"
    "consensus_at s1 = consensus_at s" "below_capacity_at s1 = below_capacity_at s" "positions_at s1 = positions_at s"
    "\<And>e. cur \<le> e \<Longrightarrow> e < cur + a \<Longrightarrow> vstate s1 e = vstate s e"
    "\<And>e. cur + a \<le> e \<Longrightarrow> e < cur + n \<Longrightarrow> vstate s1 e = (vstate s e)(v \<mapsto> Jailed)"
    "\<And>e u. cur \<le> e \<Longrightarrow> u \<noteq> v \<Longrightarrow> vstate s1 e u = vstate s e u" "only_sets_at e0 s s1" by force
  obtain s2 where s2: "set_validator_state params v Jailed cur n s1 = Inr s2" "states_ok params cur s2"
    "consensus_at s2 = consensus_at s1" "below_capacity_at s2 = below_capacity_at s1" "positions_at s2 = positions_at s1"
    "vstate s2 (cur + n) = (vstate s1 (cur + n))(v \<mapsto> Jailed)"
    "\<And>e. cur \<le> e \<Longrightarrow> e < cur + n \<Longrightarrow> vstate s2 e = vstate s1 e"
    "\<And>e u. cur \<le> e \<Longrightarrow> u \<noteq> v \<Longrightarrow> vstate s2 e u = vstate s1 e u" "\<And>e. only_sets_at e s1 s2"
    by (rule set_state_ok [OF s1(2)]) (use step.prems in auto)
  have "vstate s2 e = (vstate s e)(v \<mapsto> Jailed)" if "cur + a \<le> e" "e < cur + Suc n" for e
  proof (cases "e = cur + n")
    case True
    have "vstate s2 e u = ((vstate s e)(v \<mapsto> Jailed)) u" for u
      using s2(6) s1(8) [of e u] True by (cases "u = v") simp_all
    then show ?thesis by (simp add: fun_eq_iff)
  qed (use that s1(7) s2(7) in simp)
  moreover have "only_sets_at e0 s s2" by (rule only_sets_at_trans [OF s1(9) s2(9)])
  moreover have "vstate s2 e = vstate s e" if "cur \<le> e" "e < cur + a" for e using that s2(7) s1(6) step.hyps by simp
  moreover have "rfold (\<lambda>s offset. set_validator_state params v Jailed cur offset s) s [a..<Suc n] = Inr s2"
    using s1(1) s2(1) step.hyps by (simp add: rfold_append)
  moreover have "vstate s2 e u = vstate s e u" if "cur \<le> e" "u \<noteq> v" for e u using that s2(8) s1(8) by simp
  ultimately show ?case
    by (intro exI [of _ s2] conjI allI impI; (elim conjE)?) (simp_all only: s2(2-5) s1(3-5))
qed

lemma states_ok_target: "states_ok params cur s \<Longrightarrow> offset \<le> pipeline_len params \<Longrightarrow> set_target params cur offset (cur + offset)"
  by (cases "offset_value params OffsetMaxProposalPeriodPlus")
    (simp_all add: states_ok_def set_target_def offset_of_def del: offset_value.simps)

lemma jail_step_last:
  assumes ok: "states_ok params cur s" and inv: "vsets_inv params st s (cur + pipeline_len params)"
    and v: "vstate s (cur + pipeline_len params) v = Some x"
    and stake: "read_validator_stake params v (cur + pipeline_len params) s = Inr (st v)"
    and room: "room (consensus_at s (cur + pipeline_len params))"
  shows "\<exists>s'. jail_step params v cur s (pipeline_len params) = Inr s' \<and> states_ok params cur s' \<and>
    (\<forall>e. cur \<le> e \<longrightarrow> e < cur + pipeline_len params \<longrightarrow> vstate s' e = vstate s e) \<and>
    vsets_inv_but v params st s' (cur + pipeline_len params) \<and> positions_at s' (cur + pipeline_len params) v = None \<and>
    only_sets_at (cur + pipeline_len params) s s'"
proof -
  let ?e = "cur + pipeline_len params"
  have e: "epoch_plus cur (pipeline_len params) = Inr ?e" using ok by (simp add: states_ok_def epoch_plus_def)
  have step: "jail_step params v cur s (pipeline_len params) =
      (case x of Consensus \<Rightarrow> rbind (remove_consensus_validator params ?e v s)
           (promote_next_below_capacity_validator_to_consensus params cur (pipeline_len params))
       | BelowCapacity \<Rightarrow> remove_below_capacity_validator params ?e v s | _ \<Rightarrow> Inr s)"
    by (simp add: jail_step_def e get_state_eq [OF ok] v split: ValidatorState.split)
  consider "x = Consensus" | "x = BelowCapacity" | "x \<noteq> Consensus" "x \<noteq> BelowCapacity" by blast
  then show ?thesis
  proof cases
    case 1
    then have "vstate s ?e v = Some Consensus" using v by simp
    from leave_consensus [OF ok inv order_refl states_ok_target [OF ok order_refl] this stake room]
    show ?thesis using 1 step by (elim exE conjE) simp
  next
    case 2
    then obtain s' where s': "remove_below_capacity_validator params ?e v s = Inr s'" "validator_states s' = validator_states s"
      "vsets_inv_but v params st s' ?e" "positions_at s' ?e v = None" "only_sets_at ?e s s'"
      using leave_below_capacity [OF inv _ stake] v by auto
    show ?thesis using 2 step s' vstate_same [OF s'(2)] states_ok_same [OF ok s'(2)] by simp
  next
    case 3
    then show ?thesis using leave_nothing [OF inv, of v] v step ok by (simp split: ValidatorState.split)
  qed
qed

section \<open>Jailing\<close>

definition jail_ready :: "PosParams \<Rightarrow> epoch \<Rightarrow> (epoch \<Rightarrow> Address \<Rightarrow> Amount) \<Rightarrow> Address \<Rightarrow> epoch \<Rightarrow> pos_state \<Rightarrow> bool" where
  "jail_ready params cur st v upd s \<longleftrightarrow>
     states_ok params cur s \<and> cur \<le> upd \<and> upd \<le> cur + pipeline_len params \<and>
     (\<forall>e\<in>{upd..<cur + pipeline_len params}. sets_match (st e) s e) \<and>
     vsets_inv params (st (cur + pipeline_len params)) s (cur + pipeline_len params) \<and>
     room (consensus_at s (cur + pipeline_len params)) \<and>
     (\<forall>e\<in>{upd..cur + pipeline_len params}. read_validator_stake params v e s = Inr (st e v) \<and> vstate s e v \<noteq> None)"

definition jailed_through :: "PosParams \<Rightarrow> epoch \<Rightarrow> (epoch \<Rightarrow> Address \<Rightarrow> Amount) \<Rightarrow> Address \<Rightarrow> epoch \<Rightarrow> pos_state \<Rightarrow> pos_state \<Rightarrow> bool" where
  "jailed_through params cur st v upd s s' \<longleftrightarrow>
     (\<forall>e\<in>{upd..cur + pipeline_len params}. vstate s' e v = Some Jailed \<and>
        v \<notin> consensus_members s' e \<and> v \<notin> below_capacity_members s' e) \<and>
     (\<forall>e\<in>{upd..<cur + pipeline_len params}. sets_match (st e) s' e \<and>
        consensus_members s' e = consensus_members s e - {v} \<and> below_capacity_members s' e = below_capacity_members s e - {v}) \<and>
     vsets_inv params (st (cur + pipeline_len params)) s' (cur + pipeline_len params) \<and>
     (\<forall>e\<in>{cur..<upd}. consensus_at s' e = consensus_at s e \<and> below_capacity_at s' e = below_capacity_at s e \<and> vstate s' e = vstate s e)"

lemma left_sets_match:
  assumes m: "sets_match st s e"
    and left: "consensus_members s' e = consensus_members s e - {v}" "below_capacity_members s' e = below_capacity_members s e - {v}"
      "positions_at s' e = (positions_at s e)(v := None)" "sets_wf st s' e"
    and state: "vstate s' e = (vstate s e)(v \<mapsto> Jailed)"
  shows "sets_match st s' e"
proof -
  note d = sets_matchD [OF m]
  have "dom (positions_at s' e) = (consensus_members s e - {v}) \<union> (below_capacity_members s e - {v})" using d(2) left(3) by auto
  moreover have "consensus_members s e - {v} = {w. vstate s' e w = Some Consensus}" using d(3) state by auto
  moreover have "below_capacity_members s e - {v} = {w. vstate s' e w = Some BelowCapacity}" using d(4) state by auto
  ultimately show ?thesis unfolding sets_match_def left(1,2) using left(4) by simp
qed

lemma jail_readyD:
  assumes "jail_ready params cur st v upd s"
  shows "states_ok params cur s" "cur \<le> upd" "upd \<le> cur + pipeline_len params"
    "room (consensus_at s (cur + pipeline_len params))"
    "\<And>e. upd \<le> e \<Longrightarrow> e < cur + pipeline_len params \<Longrightarrow> sets_match (st e) s e"
    "vsets_inv params (st (cur + pipeline_len params)) s (cur + pipeline_len params)"
    "\<And>e. upd \<le> e \<Longrightarrow> e \<le> cur + pipeline_len params \<Longrightarrow> read_validator_stake params v e s = Inr (st e v)"
    "\<And>e. upd \<le> e \<Longrightarrow> e \<le> cur + pipeline_len params \<Longrightarrow> vstate s e v \<noteq> None"
  using assms unfolding jail_ready_def by simp_all

lemma jail_leave:
  assumes ready: "jail_ready params cur st v upd s"
  shows "\<exists>s2. rfold (jail_step params v cur) s [upd - cur..<Suc (pipeline_len params)] = Inr s2 \<and> states_ok params cur s2 \<and>
    validator_deltas s2 = validator_deltas s \<and> (\<forall>e. cur \<le> e \<longrightarrow> e < cur + pipeline_len params \<longrightarrow> vstate s2 e = vstate s e) \<and>
    vsets_inv_but v params (st (cur + pipeline_len params)) s2 (cur + pipeline_len params) \<and>
    positions_at s2 (cur + pipeline_len params) v = None \<and>
    (\<forall>e. upd \<le> e \<longrightarrow> e < cur + pipeline_len params \<longrightarrow>
       consensus_members s2 e = consensus_members s e - {v} \<and> below_capacity_members s2 e = below_capacity_members s e - {v} \<and>
       positions_at s2 e = (positions_at s e)(v := None) \<and> sets_wf (st e) s2 e) \<and>
    (\<forall>e<upd. consensus_at s2 e = consensus_at s e \<and> below_capacity_at s2 e = below_capacity_at s e)"
proof -
  let ?n = "pipeline_len params" and ?a = "upd - cur"
  let ?e = "cur + ?n"
  note r = jail_readyD [OF ready]
  have a: "cur + ?a = upd" "?a \<le> ?n" using r(2,3) by simp_all
  have "\<exists>s'. rfold (jail_step params v cur) s [?a..<?n] = Inr s' \<and> validator_states s' = validator_states s \<and>
      left_sets st v {cur + ?a..<cur + ?n} s s'"
    by (rule jail_loop [OF r(1)]) (use a r(5,7,8) in auto)
  then obtain s1 where s1: "rfold (jail_step params v cur) s [?a..<?n] = Inr s1" "validator_states s1 = validator_states s"
    "left_sets st v {upd..<?e} s s1" unfolding a(1) by blast
  note l = s1(3) [unfolded left_sets_def] and vs1 = vstate_same [OF s1(2)]
  have at: "consensus_at s1 ?e = consensus_at s ?e" "below_capacity_at s1 ?e = below_capacity_at s ?e" "positions_at s1 ?e = positions_at s ?e"
    "validator_deltas s1 = validator_deltas s" using l by simp_all
  have inv1: "vsets_inv params (st ?e) s1 ?e" using r(6) unfolding vsets_inv_def sets_wf_def at vs1 .
  obtain x where x: "vstate s1 ?e v = Some x" using r(8) [of ?e] r(3) vs1 by auto
  have stake1: "read_validator_stake params v ?e s1 = Inr (st ?e v)" using r(7) [of ?e] r(3) stake_same [OF at(4)] by simp
  obtain s2 where s2: "jail_step params v cur s1 ?n = Inr s2" "states_ok params cur s2"
    "\<And>e. cur \<le> e \<Longrightarrow> e < ?e \<Longrightarrow> vstate s2 e = vstate s1 e"
    "vsets_inv_but v params (st ?e) s2 ?e" "positions_at s2 ?e v = None" "only_sets_at ?e s1 s2"
    using jail_step_last [OF states_ok_same [OF r(1) s1(2)] inv1 x stake1] r(4) at(1) by auto
  have here: "consensus_at s2 e = consensus_at s1 e" "below_capacity_at s2 e = below_capacity_at s1 e" "positions_at s2 e = positions_at s1 e"
    if "e \<noteq> ?e" for e using that s2(6) by (simp_all add: only_sets_at_def)
  have "consensus_members s2 e = consensus_members s e - {v} \<and> below_capacity_members s2 e = below_capacity_members s e - {v} \<and>
      positions_at s2 e = (positions_at s e)(v := None) \<and> sets_wf (st e) s2 e" if "upd \<le> e" "e < ?e" for e
    using l that here [of e] sets_wf_views [of s2 e s1] by simp
  moreover have "consensus_at s2 e = consensus_at s e \<and> below_capacity_at s2 e = below_capacity_at s e" if "e < upd" for e
    using that r(3) here [of e] l by simp
  moreover have "rfold (jail_step params v cur) s [?a..<Suc ?n] = Inr s2" using s1(1) s2(1) a(2) by (simp add: rfold_append)
  moreover have "validator_deltas s2 = validator_deltas s" using s2(6) at(4) by (simp add: only_sets_at_def)
  ultimately show ?thesis using s2(2-5) vs1 by (intro exI [of _ s2]) simp
qed

lemma jail_validator_through:
  assumes ready: "jail_ready params cur st v upd s"
  shows "\<exists>s'. jail_validator params v cur upd s = Inr s' \<and> jailed_through params cur st v upd s s' \<and> validator_deltas s' = validator_deltas s"
proof -
  let ?n = "pipeline_len params" and ?a = "upd - cur"
  let ?e = "cur + ?n"
  note r = jail_readyD [OF ready]
  have a: "cur + ?a = upd" "?a \<le> Suc ?n" using r(2,3) by simp_all
  obtain s2 where s2: "rfold (jail_step params v cur) s [?a..<Suc ?n] = Inr s2" "states_ok params cur s2"
    "validator_deltas s2 = validator_deltas s" "\<And>e. cur \<le> e \<Longrightarrow> e < ?e \<Longrightarrow> vstate s2 e = vstate s e"
    "vsets_inv_but v params (st ?e) s2 ?e" "positions_at s2 ?e v = None"
    "\<And>e. upd \<le> e \<Longrightarrow> e < ?e \<Longrightarrow> consensus_members s2 e = consensus_members s e - {v} \<and>
       below_capacity_members s2 e = below_capacity_members s e - {v} \<and>
       positions_at s2 e = (positions_at s e)(v := None) \<and> sets_wf (st e) s2 e"
    "\<And>e. e < upd \<Longrightarrow> consensus_at s2 e = consensus_at s e \<and> below_capacity_at s2 e = below_capacity_at s e"
    using jail_leave [OF ready] by (elim exE conjE) simp
  obtain s' where s': "rfold (\<lambda>s offset. set_validator_state params v Jailed cur offset s) s2 [?a..<Suc ?n] = Inr s'"
    "consensus_at s' = consensus_at s2" "below_capacity_at s' = below_capacity_at s2" "positions_at s' = positions_at s2"
    "\<And>e. cur \<le> e \<Longrightarrow> e < upd \<Longrightarrow> vstate s' e = vstate s2 e"
    "\<And>e. upd \<le> e \<Longrightarrow> e \<le> ?e \<Longrightarrow> vstate s' e = (vstate s2 e)(v \<mapsto> Jailed)" "only_sets_at ?e s2 s'"
    using jail_states [OF s2(2), where a = ?a and n = "Suc ?n" and v = v and ?e0.0 = ?e] a by auto
  have run: "jail_validator params v cur upd s = Inr s'"
    using s2(1) s'(1) r(2) by (simp add: jail_validator_def Let_def del: upt_Suc)
  have vsets: "vsets_inv params (st ?e) s' ?e" by (rule settle_out [OF s2(5,6)]) (use s' r(3) in auto)
  have early: "sets_match (st e) s' e" if e: "upd \<le> e" "e < ?e" for e
  proof (rule left_sets_match [OF r(5) [OF e]])
    show "sets_wf (st e) s' e" using s2(7) [OF e] sets_wf_views [of s' e s2] s'(2-4) by simp
    show "vstate s' e = (vstate s e)(v \<mapsto> Jailed)" using s'(6) s2(4) e r(2) by simp
  qed (use s2(7) [OF e] s'(2-4) in simp_all)
  have jailed: "vstate s' e v = Some Jailed" if "upd \<le> e" "e \<le> ?e" for e using s'(6) that by simp
  have match: "sets_match (st e) s' e" if "upd \<le> e" "e \<le> ?e" for e
    using early [of e] vsets_inv_match [OF vsets] that by (cases "e = ?e") simp_all
  have out: "v \<notin> consensus_members s' e \<and> v \<notin> below_capacity_members s' e" if "upd \<le> e" "e \<le> ?e" for e
    using sets_matchD(3,4) [OF match [OF that]] jailed [OF that] by simp
  have "jailed_through params cur st v upd s s'"
    unfolding jailed_through_def using jailed out early vsets s2(4,7,8) s' r(3) by (intro conjI ballI) simp_all
  then show ?thesis using run s2(3) s'(7) by (simp add: only_sets_at_def)
qed

text \<open>
  C15: Evidence against a validator (\<open>slash\<close>) that is not a repetition enqueues exactly one slash for the
  processing epoch, under the key of the validator and the block of the evidence; moves its last
  infraction forward and never back; and jails the validator from the update epoch through the
  pipeline epoch: at each of these epochs its state is \<open>Jailed\<close> and it is in neither set, while the other
  members stay; at the pipeline epoch the best of those below capacity takes its place, so that
  the consensus set again holds the largest stakes.
\<close>

theorem slash_enqueues_and_jails:
  assumes ready: "jail_ready params cur st v upd (lg_sets s)"
    and proc: "processing_epoch_of params evidence_epoch = Inr processing_epoch"
    and new: "map_of (nested_at [] (enqueued_slashes s) processing_epoch) (v, height) = None"
  shows "\<exists>s'. slash params cur evidence_epoch height kind v upd s = Inr s' \<and>
    map_of (nested_at [] (enqueued_slashes s') processing_epoch) =
      (map_of (nested_at [] (enqueued_slashes s) processing_epoch))((v, height) \<mapsto>
         \<lparr>slash_epoch = evidence_epoch, slash_block_height = height, slash_type = kind, slash_rate = Dec_zero\<rparr>) \<and>
    (\<forall>e. e \<noteq> processing_epoch \<longrightarrow> nested_at [] (enqueued_slashes s') e = nested_at [] (enqueued_slashes s) e) \<and>
    last_slash_epochs s' = (last_slash_epochs s)(v \<mapsto>
      (case last_slash_epochs s v of None \<Rightarrow> evidence_epoch | Some e \<Rightarrow> max e evidence_epoch)) \<and>
    jailed_through params cur st v upd (lg_sets s) (lg_sets s') \<and>
    bonds s' = bonds s \<and> lg_tokens s' = lg_tokens s \<and> validator_deltas (lg_sets s') = validator_deltas (lg_sets s)"
proof -
  obtain p where p: "jail_validator params v cur upd (lg_sets s) = Inr p" "jailed_through params cur st v upd (lg_sets s) p"
    "validator_deltas p = validator_deltas (lg_sets s)" using jail_validator_through [OF ready] by blast
  show ?thesis
    by (cases "last_slash_epochs s v")
      (auto simp: slash_def proc Let_def new p on_sets_def update_conv' nested_at_put max_def fun_eq_iff)
qed

section \<open>Deactivation and return\<close>

text \<open>
  C17: Deactivation succeeds for a validator that is neither inactive nor jailed at the pipeline epoch.
  There it takes the state \<open>Inactive\<close>, leaves the sets, and the sets stay the best: a vacant place
  of the consensus set goes to the largest stake below capacity. The other epochs from now on
  keep their sets, and its stake stays bonded.
\<close>

theorem deactivation_keeps_best_sets:
  assumes ok: "states_ok (lg_params s) cur (lg_sets s)"
    and inv: "vsets_inv (lg_params s) st (lg_sets s) (cur + pipeline_len (lg_params s))"
    and v: "vstate (lg_sets s) (cur + pipeline_len (lg_params s)) v \<in> {Some Consensus, Some BelowCapacity, Some BelowThreshold}"
    and stake: "read_validator_stake (lg_params s) v (cur + pipeline_len (lg_params s)) (lg_sets s) = Inr (st v)"
    and room: "room (consensus_at (lg_sets s) (cur + pipeline_len (lg_params s)))"
  shows "\<exists>p. deactivate_validator v cur s = Inr (s\<lparr>lg_sets := p\<rparr>) \<and>
    vsets_inv (lg_params s) st p (cur + pipeline_len (lg_params s)) \<and>
    vstate p (cur + pipeline_len (lg_params s)) v = Some Inactive \<and> only_sets_at (cur + pipeline_len (lg_params s)) (lg_sets s) p"
proof -
  let ?P = "lg_params s"
  let ?e = "cur + pipeline_len ?P" and ?s = "lg_sets s"
  obtain x where x: "vstate ?s ?e v = Some x" "x \<noteq> Inactive" "x \<noteq> Jailed" using v by auto
  obtain s1 where s1: "jail_step ?P v cur ?s (pipeline_len ?P) = Inr s1" "states_ok ?P cur s1"
    "vsets_inv_but v ?P st s1 ?e" "positions_at s1 ?e v = None" "only_sets_at ?e ?s s1"
    using jail_step_last [OF ok inv x(1) stake room] by blast
  obtain p where p: "set_validator_state ?P v Inactive cur (pipeline_len ?P) s1 = Inr p"
    "consensus_at p = consensus_at s1" "below_capacity_at p = below_capacity_at s1" "positions_at p = positions_at s1"
    "vstate p ?e = (vstate s1 ?e)(v \<mapsto> Inactive)" "only_sets_at ?e s1 p"
    by (rule set_state_step [OF states_ok_target [OF ok order_refl]])
  have e: "epoch_plus cur (pipeline_len ?P) = Inr ?e" using ok by (simp add: states_ok_def epoch_plus_def)
  have g: "get_validator_state ?P v ?e ?s = Inr (Some x)" using get_state_eq [OF ok] x(1) by simp
  have "deactivate_validator v cur s = Inr (s\<lparr>lg_sets := p\<rparr>)"
    using s1(1) p(1) x(2,3) g by (cases x) (auto simp: deactivate_validator_def jail_step_def e on_sets_def Let_def rbind_def split: sum.splits)
  moreover have "vsets_inv ?P st p ?e" by (rule settle_out [OF s1(3,4)]) (use p in simp_all)
  ultimately show ?thesis using p(5) only_sets_at_trans [OF s1(5) p(6)] by auto
qed

lemma rfold_check: "rfold (\<lambda>_. f) () xs = Inr () \<longleftrightarrow> (\<forall>x\<in>set xs. f x = Inr ())"
proof (induction xs)
  case (Cons x xs)
  then show ?case by (cases "f x") simp_all
qed simp

definition slashes_processed :: "PosParams \<Rightarrow> epoch \<Rightarrow> epoch option \<Rightarrow> bool" where
  "slashes_processed params cur last_epoch =
     (case last_epoch of None \<Rightarrow> True
      | Some e \<Rightarrow> (case processing_epoch_of params e of Inl _ \<Rightarrow> False | Inr eligible \<Rightarrow> eligible \<le> cur))"

lemma unjail_check_iff:
  "states_ok params cur s \<Longrightarrow> unjail_check params v s e = Inr () \<longleftrightarrow> vstate s e v = Some Jailed"
  by (simp add: unjail_check_def get_state_eq split: option.split)


section \<open>Sample states\<close>

text \<open>One validator with a stake of two million, in a given state since epoch 3, and in the given sets at epochs 4 and 5.\<close>

definition sample_with :: "ValidatorState \<Rightarrow> (epoch \<rightharpoonup> Amount position_map) \<Rightarrow> (epoch \<rightharpoonup> (Address \<rightharpoonup> position)) \<Rightarrow> pos_state" where
  "sample_with x consensus positions = empty_pos_state
     \<lparr>validator_states := (\<lambda>_. epoched_open)(sample_validator := \<lparr>lazy_map = [3 \<mapsto> x], last_update = Some 3, oldest_epoch = Some 3\<rparr>),
      validator_deltas := (\<lambda>_. epoched_open)
        (sample_validator := \<lparr>lazy_map = [3 \<mapsto> i256_of 2000000], last_update = Some 3, oldest_epoch = Some 3\<rparr>),
      consensus_validator_sets := epoched_open\<lparr>lazy_map := consensus\<rparr>,
      validator_set_positions := epoched_open\<lparr>lazy_map := positions\<rparr>\<rparr>"

definition sample_active :: pos_state where
  "sample_active = (let m = [((amount_of 2000000, 0), sample_validator)]; q = [sample_validator \<mapsto> 0]
     in sample_with Consensus [4 \<mapsto> m, 5 \<mapsto> m] [4 \<mapsto> q, 5 \<mapsto> q])"

definition sample_in_jail :: pos_state where
  "sample_in_jail = sample_with Jailed Map.empty Map.empty"

definition sample_stakes :: "Address \<Rightarrow> Amount" where
  "sample_stakes = (\<lambda>_. Amount_zero)(sample_validator := amount_of 2000000)"

lemma pipeline_default [simp]: "pipeline_len default_pos_params = 2"
  by (simp add: default_pos_params_def)

lemma sample_states_ok: "states_ok default_pos_params 3 (sample_with x consensus positions)"
proof -
  have past: "offset_of default_pos_params OffsetMaxProposalPeriodPlus = Inr (max_proposal_period default_pos_params + DEFAULT_NUM_PAST_EPOCHS)"
    by (simp add: offset_of_def default_pos_params_def u64_add_def DEFAULT_NUM_PAST_EPOCHS_def)
  have "epoched_inv k 2 (validator_states (sample_with x consensus positions) v)" "updated_by 3 (validator_states (sample_with x consensus positions) v)" for v k
    by (auto simp: sample_with_def empty_pos_state_def epoched_open_def updated_by_def epoched_inv_def sub_past_epochs_def split: if_splits)
  then show ?thesis using past by (simp add: states_ok_def)
qed

lemma sample_state_at:
  "vstate (sample_with x consensus positions) 3 = [sample_validator \<mapsto> x]" "vstate (sample_with x consensus positions) 4 = [sample_validator \<mapsto> x]"
  "vstate (sample_with x consensus positions) 5 = [sample_validator \<mapsto> x]"
  by (simp_all add: sample_with_def vstate_def empty_pos_state_def epoched_open_def fun_eq_iff eval_nat_numeral)

lemma sample_with_stake:
  "read_validator_stake default_pos_params sample_validator 4 (sample_with x c q) = Inr (amount_of 2000000)"
  "read_validator_stake default_pos_params sample_validator 5 (sample_with x c q) = Inr (amount_of 2000000)"
proof -
  have "int (amount_val (Amount_from_change (i256_of 2000000))) = 2000000"
    by (simp add: Amount_from_change_val I256_inv_of i256_val_of)
  then have "Amount_from_change (i256_of 2000000) = amount_of 2000000" by (simp add: amount_eq_iff)
  then show "read_validator_stake default_pos_params sample_validator 4 (sample_with x c q) = Inr (amount_of 2000000)"
    "read_validator_stake default_pos_params sample_validator 5 (sample_with x c q) = Inr (amount_of 2000000)"
    by (simp_all add: read_validator_stake_def sample_past sample_with_def get_sum_def sample_past_epochs unchecked_add_def
        default_pipeline add_some_def upt_conv_Cons epoched_result_def stake_of_sum_def del: upt_Suc)
qed

lemma sample_with_sets:
  "consensus_at (sample_with x c q) e = (case c e of None \<Rightarrow> [] | Some m \<Rightarrow> m)"
  "positions_at (sample_with x c q) e = (case q e of None \<Rightarrow> Map.empty | Some m \<Rightarrow> m)" "below_capacity_at (sample_with x c q) e = []"
  by (simp_all add: sample_with_def empty_pos_state_def consensus_at_def positions_at_def below_capacity_at_def nested_at_def epoched_open_def)

lemma sample_slots: "max_validator_slots default_pos_params = 100"
  by (simp add: default_pos_params_def)

lemma sample_active_inv: "e = 4 \<or> e = 5 \<Longrightarrow> vsets_inv default_pos_params sample_stakes sample_active e"
  by (auto simp: vsets_inv_def sets_wf_def pm_ok_def best_stakes_def sample_active_def sample_with_sets sample_state_at Let_def
      default_threshold amount_less_iff amount_le_iff sample_stakes_def sample_slots bt_ok_def split: if_splits)

lemma sample_active_ready: "jail_ready default_pos_params 3 (\<lambda>_. sample_stakes) sample_validator 4 sample_active"
proof -
  have "sets_match sample_stakes sample_active 4" using sample_active_inv [of 4] vsets_inv_match by blast
  moreover have "{4..<5::nat} = {4}" "{4..5::nat} = {4, 5}" by auto
  moreover have "room (consensus_at sample_active 5)" by (simp add: sample_active_def sample_with_sets Let_def room_def)
  ultimately show ?thesis using sample_active_inv [of 5] sample_states_ok
    by (simp add: jail_ready_def) (simp add: sample_active_def Let_def sample_with_stake sample_state_at sample_stakes_def)
qed

theorem slash_enqueues_and_jails_witness:
  "\<exists>s'. slash default_pos_params 3 2 7 DuplicateVote sample_validator 4 (sample_ledger\<lparr>lg_sets := sample_active\<rparr>) = Inr s' \<and>
    last_slash_epochs s' sample_validator = Some 2 \<and>
    vstate (lg_sets s') 4 sample_validator = Some Jailed \<and> vstate (lg_sets s') 5 sample_validator = Some Jailed \<and>
    consensus_members (lg_sets s') 4 = {} \<and> sample_validator \<notin> consensus_members (lg_sets s') 5"
proof -
  let ?s = "sample_ledger\<lparr>lg_sets := sample_active\<rparr>"
  have "\<exists>e. processing_epoch_of default_pos_params 2 = Inr e"
    by (simp add: processing_epoch_of_def slash_processing_epoch_offset_def default_pos_params_def u64_add_def epoch_plus_def)
  then obtain e where e: "processing_epoch_of default_pos_params 2 = Inr e" by blast
  have ready: "jail_ready default_pos_params 3 (\<lambda>_. sample_stakes) sample_validator 4 (lg_sets ?s)" using sample_active_ready by simp
  have new: "map_of (nested_at [] (enqueued_slashes ?s) e) (sample_validator, 7) = None"
    by (simp add: sample_ledger_def nested_at_def epoched_open_def)
  obtain s' where s': "slash default_pos_params 3 2 7 DuplicateVote sample_validator 4 ?s = Inr s'"
    "last_slash_epochs s' = (last_slash_epochs ?s)(sample_validator \<mapsto>
       (case last_slash_epochs ?s sample_validator of None \<Rightarrow> 2 | Some e \<Rightarrow> max e 2))"
    "jailed_through default_pos_params 3 (\<lambda>_. sample_stakes) sample_validator 4 sample_active (lg_sets s')"
    using slash_enqueues_and_jails [OF ready e new, of DuplicateVote] by auto
  have range: "{4..<5::nat} = {4}" "{4..5::nat} = {4, 5}" by auto
  have "last_slash_epochs s' sample_validator = Some 2" using s'(2) by (simp add: sample_ledger_def)
  moreover have "consensus_members sample_active 4 = {sample_validator}" by (simp add: sample_active_def sample_with_sets Let_def)
  ultimately show ?thesis using s'(1,3) by (simp add: jailed_through_def range)
qed

theorem deactivation_keeps_best_sets_witness:
  "\<exists>p. deactivate_validator sample_validator 3 (sample_ledger\<lparr>lg_sets := sample_active\<rparr>) = Inr (sample_ledger\<lparr>lg_sets := p\<rparr>) \<and>
    vstate p 5 sample_validator = Some Inactive \<and> consensus_at p 4 = consensus_at sample_active 4"
proof -
  have "\<exists>p. deactivate_validator sample_validator 3 (sample_ledger\<lparr>lg_sets := sample_active\<rparr>) =
      Inr (sample_ledger\<lparr>lg_sets := sample_active\<rparr>\<lparr>lg_sets := p\<rparr>) \<and>
    vsets_inv default_pos_params sample_stakes p 5 \<and> vstate p 5 sample_validator = Some Inactive \<and> only_sets_at 5 sample_active p"
    using deactivation_keeps_best_sets [where s = "sample_ledger\<lparr>lg_sets := sample_active\<rparr>" and cur = 3 and v = sample_validator
        and st = sample_stakes] jail_readyD [OF sample_active_ready] sample_active_inv [of 5] sample_slots
    by (simp add: sample_ledger_def) (simp add: sample_active_def Let_def sample_state_at sample_with_stake)
  then show ?thesis by (auto simp: only_sets_at_def)
qed


end
