(* ===== verification/PosProcess.thy ===== *)
theory PosProcess
  imports PosSteps PosLifecycle
begin

text \<open>
  The processing of enqueued slashes at the start of an epoch (\<open>proof_of_stake/src/slashing.rs\<close>): the cubic
  slash rate, the amounts to slash from a validator and from the destinations of its
  redelegations, and the update of sets, stakes and totals.
\<close>

section \<open>Rates\<close>

definition compute_total_consensus_stake :: "epoch \<Rightarrow> pos_state \<Rightarrow> pos_error + Amount" where
  "compute_total_consensus_stake e s = rfold (\<lambda>acc ((amount, _), _). plus_amount acc amount) Amount_zero (consensus_at s e)"

definition compute_and_store_total_consensus_stake :: "epoch \<Rightarrow> pos_ledger \<Rightarrow> pos_error + pos_ledger" where
  "compute_and_store_total_consensus_stake e s =
     rbind (compute_total_consensus_stake e (lg_sets s)) (\<lambda>t.
     rbind (epoched_result (epoched_set BONDS_PAST t e 0 (total_consensus_stakes s))) (\<lambda>h.
     Inr (s\<lparr>total_consensus_stakes := h\<rparr>)))"

definition get_total_consensus_stake :: "epoch \<Rightarrow> pos_ledger \<Rightarrow> pos_error + Amount" where
  "get_total_consensus_stake e s =
     rbind (epoched_result (epoched_get BONDS_PAST 0 (total_consensus_stakes s) e)) (\<lambda>r.
     ok_or r ConsensusStakeMissing)"

text \<open>The slashes of a processing epoch in the order of storage: by the encoded address and then by height.\<close>

definition enqueued_iter :: "(Address \<Rightarrow> string) \<Rightarrow> epoch \<Rightarrow> pos_ledger \<Rightarrow> ((Address \<times> nat) \<times> Slash) list" where
  "enqueued_iter encode e s =
     sort_key (\<lambda>((v, _), _). encode v) (sort_key (\<lambda>((_, h), _). h) (nested_at [] (enqueued_slashes s) e))"

definition dec_of_amount :: "Amount \<Rightarrow> pos_error + Dec" where
  "dec_of_amount a = ok_or (Dec_try_from_Amount a) PosArith"

definition infracting_stake :: "(Address \<Rightarrow> string) \<Rightarrow> PosParams \<Rightarrow> epoch \<Rightarrow> epoch \<Rightarrow> pos_ledger \<Rightarrow> pos_error + Dec" where
  "infracting_stake encode params e processing_epoch s =
     rfold (\<lambda>acc ((validator, _), _).
        rbind (read_validator_stake params validator e (lg_sets s)) (\<lambda>validator_stake.
        rbind (dec_of_amount validator_stake) (\<lambda>stake.
        ok_or (Dec_checked_add acc stake) PosArith))) Dec_zero (enqueued_iter encode processing_epoch s)"

definition compute_cubic_slash_rate :: "(Address \<Rightarrow> string) \<Rightarrow> PosParams \<Rightarrow> epoch \<Rightarrow> pos_ledger \<Rightarrow> pos_error + Dec" where
  "compute_cubic_slash_rate encode params infraction_epoch s =
     rbind (ok_or (cubic_slash_epoch_window params infraction_epoch) OffsetPanic) (\<lambda>(start_epoch, end_epoch).
     rbind (rfold (\<lambda>sum_vp_fraction e.
              rbind (get_total_consensus_stake e s) (\<lambda>t.
              rbind (dec_of_amount t) (\<lambda>consensus_stake.
              rbind (processing_epoch_of params e) (\<lambda>processing_epoch.
              rbind (infracting_stake encode params e processing_epoch s) (\<lambda>infracting.
              rbind (ok_or (Dec_checked_div infracting consensus_stake) PosArith) (\<lambda>fraction.
              ok_or (Dec_checked_add sum_vp_fraction fraction) PosArith))))))
            Dec_zero [start_epoch..<Suc end_epoch]) (\<lambda>sum_vp_fraction.
     rbind (ok_or (Dec_from_u64 9) PosArith) (\<lambda>nine.
     rbind (ok_or (Dec_checked_mul nine sum_vp_fraction) PosArith) (\<lambda>x.
     ok_or (Dec_checked_mul x sum_vp_fraction) PosArith))))"

section \<open>Amounts to slash\<close>

definition infraction_epoch_of :: "PosParams \<Rightarrow> epoch \<Rightarrow> pos_error + epoch" where
  "infraction_epoch_of params current_epoch =
     rbind (ok_or (slash_processing_epoch_offset params) OffsetPanic) (\<lambda>n.
     if n \<le> current_epoch then Inr (current_epoch - n) else Inl PosArith)"

definition redelegated_unbonded ::
    "redelegations_by_epoch \<Rightarrow> epoch \<Rightarrow> Address \<Rightarrow> epoch \<Rightarrow> epoch \<Rightarrow> Amount" where
  "redelegated_unbonded m redel_bond_start src_validator bond_start e =
     unwrap_or_default (map_of m (e, redel_bond_start, src_validator, bond_start))"

definition slash_redelegation_step ::
    "PosParams \<Rightarrow> Amount \<Rightarrow> epoch \<Rightarrow> epoch \<Rightarrow> epoch \<Rightarrow> Slash list \<Rightarrow> (epoch \<Rightarrow> Amount) \<Rightarrow> Dec \<Rightarrow>
     Amount \<times> (epoch, Amount) btree_map \<Rightarrow> epoch \<Rightarrow> pos_error + Amount \<times> (epoch, Amount) btree_map" where
  "slash_redelegation_step params amount bond_start redel_bond_start infraction_epoch slashes unbonded rate acc e =
     (let (init_tot_unbonded, slashed_amounts) = acc
      in rbind (plus_amount init_tot_unbonded (unbonded e)) (\<lambda>updated_total_unbonded.
         rbind (redelegation_slashes params redel_bond_start bond_start (\<lambda>se. processed_by params se infraction_epoch) slashes) (\<lambda>processed.
         let slashable_amount = sub_or_default amount updated_total_unbonded
         in rbind (apply_list_slashes params processed slashable_amount) (\<lambda>a.
            rbind (arith_result (Amount_mul_ceil a rate)) (\<lambda>slashed.
            rbind (redelegation_slashes params redel_bond_start bond_start (\<lambda>_. Inr True) slashes) (\<lambda>all_slashes.
            rbind (apply_list_slashes params all_slashes slashable_amount) (\<lambda>b.
            rbind (arith_result (Amount_mul_ceil b rate)) (\<lambda>slashable_stake.
            let to_slash = min slashed slashable_stake
            in rbind (if Amount_is_zero to_slash then Inr slashed_amounts else bt_add e to_slash slashed_amounts) (\<lambda>m.
               Inr (updated_total_unbonded, m))))))))))"

definition slash_redelegation ::
    "PosParams \<Rightarrow> Amount \<Rightarrow> epoch \<Rightarrow> epoch \<Rightarrow> Address \<Rightarrow> epoch \<Rightarrow> Slash list \<Rightarrow> redelegations_by_epoch \<Rightarrow> Dec \<Rightarrow>
     (epoch, Amount) btree_map \<Rightarrow> pos_error + (epoch, Amount) btree_map" where
  "slash_redelegation params amount bond_start redel_bond_start src_validator current_epoch slashes tru rate slashed_amounts =
     rbind (infraction_epoch_of params current_epoch) (\<lambda>infraction_epoch.
     rbind (epoch_plus current_epoch 1) (\<lambda>set_update_epoch.
     let unbonded = redelegated_unbonded tru redel_bond_start src_validator bond_start
     in rbind (ok_or (Amount_sum (map unbonded [Suc infraction_epoch..<Suc set_update_epoch])) PosArith) (\<lambda>init_tot_unbonded.
        rbind (rfold (slash_redelegation_step params amount bond_start redel_bond_start infraction_epoch slashes unbonded rate)
                 (init_tot_unbonded, slashed_amounts) (epochs_from set_update_epoch (pipeline_len params))) (\<lambda>(_, m).
        Inr m))))"

definition redelegations_to :: "Address \<Rightarrow> (Address \<times> epoch \<times> epoch, Amount) index_map \<Rightarrow> ((epoch \<times> epoch) \<times> Amount) list" where
  "redelegations_to dest m = sort_key fst (map (\<lambda>((_, k), a). (k, a)) (filter (\<lambda>((d, _), _). d = dest) m))"

definition slash_validator_redelegation ::
    "PosParams \<Rightarrow> Address \<Rightarrow> epoch \<Rightarrow> ((epoch \<times> epoch) \<times> Amount) list \<Rightarrow> Slash list \<Rightarrow> redelegations_by_epoch \<Rightarrow> Dec \<Rightarrow>
     (epoch, Amount) btree_map \<Rightarrow> pos_error + (epoch, Amount) btree_map" where
  "slash_validator_redelegation params src_validator current_epoch redelegations slashes tru rate dest_slashed_amounts =
     rbind (infraction_epoch_of params current_epoch) (\<lambda>infraction_epoch.
     rfold (\<lambda>m ((bond_start, redel_start), amount).
        rbind (ok_or (redelegation_end_epoch_from_start params redel_start) OffsetPanic) (\<lambda>redel_end.
        rbind (ok_or (in_redelegation_slashing_window params infraction_epoch redel_start redel_end) OffsetPanic) (\<lambda>w.
        if w \<and> bond_start \<le> infraction_epoch
        then slash_redelegation params amount bond_start redel_end src_validator current_epoch slashes tru rate m
        else Inr m))) dest_slashed_amounts redelegations)"

definition slash_validator_step ::
    "PosParams \<Rightarrow> Address \<Rightarrow> Dec \<Rightarrow> epoch \<Rightarrow> pos_ledger \<Rightarrow>
     (epoch \<times> Amount) list \<times> (epoch \<times> redelegated_map) list \<times> Amount \<times> (epoch, Amount) btree_map \<Rightarrow> epoch \<Rightarrow>
     pos_error + (epoch \<times> Amount) list \<times> (epoch \<times> redelegated_map) list \<times> Amount \<times> (epoch, Amount) btree_map" where
  "slash_validator_step params validator rate infraction_epoch s acc e =
     (let (tot_bonds, redelegated, slash_sum, slashed_amounts) = acc; tru = total_redelegated_unbonded s validator
      in rbind (rfold (\<lambda>acc (bond_start, bond_amount).
                  rbind (compute_slash_bond_at_epoch (validator_slashes s) params validator e infraction_epoch bond_start bond_amount
                           (map_of redelegated bond_start) rate) (plus_amount acc)) Amount_zero tot_bonds) (\<lambda>amount.
         let new_bonds = map (\<lambda>((_, start), a). (start, a))
               (filter (\<lambda>((ue, start), _). ue = e \<and> start \<le> infraction_epoch) (total_unbonded s validator));
             new_redelegated = map (\<lambda>(ep, _). (ep, redelegated_unbonds_at tru e ep))
               (filter (\<lambda>(ep, _). \<exists>((ue, _), _) \<in> set tru. ue = ep) new_bonds)
         in rbind (plus_amount slash_sum amount) (\<lambda>new_sum.
            rbind (bt_add e new_sum slashed_amounts) (\<lambda>m.
            Inr (new_bonds, new_redelegated, new_sum, m)))))"

definition slash_validator ::
    "PosParams \<Rightarrow> Address \<Rightarrow> Dec \<Rightarrow> epoch \<Rightarrow> (epoch, Amount) btree_map \<Rightarrow> pos_ledger \<Rightarrow> pos_error + (epoch, Amount) btree_map" where
  "slash_validator params validator rate current_epoch slashed_amounts_map s =
     rbind (infraction_epoch_of params current_epoch) (\<lambda>infraction_epoch.
     let tot_bonds = filter (\<lambda>(e, bonded). e \<le> infraction_epoch \<and> bonded > Amount_zero)
           (bond_entries (pipeline_len params) (total_bonded s validator));
         redelegated = map (\<lambda>(e, _). (e, redelegations_at (total_redelegated_bonded s validator) e))
           (filter (\<lambda>(e, _). redelegations_at (total_redelegated_bonded s validator) e \<noteq> []) tot_bonds)
     in rbind (rfold (slash_validator_step params validator rate infraction_epoch s)
                 (tot_bonds, redelegated, Amount_zero, slashed_amounts_map)
                 (rev (epochs_from current_epoch (pipeline_len params)))) (\<lambda>(_, _, _, slashed_amounts).
        rbind (epoch_plus current_epoch (pipeline_len params)) (\<lambda>pipeline_epoch.
        rbind (ok_or (if pipeline_epoch = 0 then None else map_of slashed_amounts (pipeline_epoch - 1)) SlashedAmountMissing) (\<lambda>last_amt.
        Inr (bt_insert pipeline_epoch last_amt slashed_amounts)))))"

section \<open>Processing\<close>

type_synonym slashed_amounts = "(Address, (epoch, Amount) btree_map) index_map"

definition process_validator_slash ::
    "(Address \<Rightarrow> string) \<Rightarrow> PosParams \<Rightarrow> Address \<Rightarrow> Dec \<Rightarrow> epoch \<Rightarrow> slashed_amounts \<Rightarrow> pos_ledger \<Rightarrow> pos_error + slashed_amounts" where
  "process_validator_slash encode params validator rate current_epoch m s =
     (let amounts_of = (\<lambda>m v. case map_of m v of None \<Rightarrow> [] | Some x \<Rightarrow> x)
      in rbind (slash_validator params validator rate current_epoch (amounts_of m validator) s) (\<lambda>result_slash.
         let outgoing = outgoing_redelegations s validator;
             dest_validators = sort_key encode (remdups (map (fst \<circ> fst) outgoing))
         in rfold (\<lambda>m dest.
              rbind (slash_validator_redelegation params validator current_epoch (redelegations_to dest outgoing)
                       (validator_slashes s validator) (total_redelegated_unbonded s dest) rate (amounts_of m dest)) (\<lambda>to_modify.
              Inr (AList.update dest to_modify m)))
              (AList.update validator result_slash m) dest_validators))"

definition final_slash :: "PosParams \<Rightarrow> Dec \<Rightarrow> Slash \<Rightarrow> pos_error + Slash" where
  "final_slash params cubic_slash_rate enqueued =
     rbind (ok_or Dec_one PosArith) (\<lambda>one.
     Inr (enqueued\<lparr>slash_rate := min one (max (get_slash_rate params (slash_type enqueued)) cubic_slash_rate)\<rparr>))"

definition collect_slash ::
    "PosParams \<Rightarrow> Dec \<Rightarrow> (Address, Slash list) index_map \<times> (Address, Dec) index_map \<Rightarrow> (Address \<times> nat) \<times> Slash \<Rightarrow>
     pos_error + (Address, Slash list) index_map \<times> (Address, Dec) index_map" where
  "collect_slash params cubic_slash_rate acc entry =
     (let (eager_slashes, eager_rates) = acc; ((validator, _), enqueued) = entry
      in rbind (final_slash params cubic_slash_rate enqueued) (\<lambda>updated_slash.
         let cur_slashes = (case map_of eager_slashes validator of None \<Rightarrow> [] | Some x \<Rightarrow> x);
             cur_rate = (case map_of eager_rates validator of None \<Rightarrow> Dec_zero | Some x \<Rightarrow> x)
         in rbind (ok_or (Dec_checked_add cur_rate (slash_rate updated_slash)) PosArith) (\<lambda>new_rate.
            rbind (ok_or Dec_one PosArith) (\<lambda>one.
            Inr (AList.update validator (cur_slashes @ [updated_slash]) eager_slashes,
                 AList.update validator (min one new_rate) eager_rates)))))"

text \<open>The state of the validator at the epoch, which must be present.\<close>

definition slashed_state_out :: "PosParams \<Rightarrow> Address \<Rightarrow> epoch \<Rightarrow> pos_state \<Rightarrow> pos_error + bool" where
  "slashed_state_out params v e s =
     rbind (get_validator_state params v e s) (\<lambda>st. rbind (ok_or st StateMissing) (\<lambda>x. Inr (x = Jailed \<or> x = Inactive)))"

definition neg_change :: "Amount \<Rightarrow> pos_error + Change" where
  "neg_change a = rbind (change_of a) (\<lambda>c. ok_or (I256_checked_neg c) PosArith)"

definition slash_sets_step :: "PosParams \<Rightarrow> Address \<Rightarrow> pos_state \<Rightarrow> epoch \<times> Amount \<Rightarrow> pos_error + pos_state" where
  "slash_sets_step params v s entry =
     (let (e, slash_amount) = entry
      in rbind (slashed_state_out params v e s) (\<lambda>out.
         if out then Inr s
         else rbind (neg_change slash_amount) (\<lambda>c. update_validator_set params v c e (Some 0) s)))"

definition slash_deltas_step :: "PosParams \<Rightarrow> Address \<Rightarrow> Amount \<times> pos_state \<Rightarrow> epoch \<times> Amount \<Rightarrow> pos_error + Amount \<times> pos_state" where
  "slash_deltas_step params v acc entry =
     (let (slash_acc, s) = acc; (e, slash_amount) = entry
      in rbind (minus_amount slash_amount slash_acc) (\<lambda>slash_delta.
         rbind (plus_amount slash_acc slash_delta) (\<lambda>new_acc.
         rbind (neg_change slash_delta) (\<lambda>neg_slash_delta.
         rbind (update_validator_deltas params v neg_slash_delta e (Some 0) s) (\<lambda>s1.
         rbind (slashed_state_out params v e s1) (\<lambda>out.
         rbind (update_total_deltas params neg_slash_delta e (Some 0) (\<not> out) s1) (\<lambda>s2.
         Inr (new_acc, s2))))))))"

definition update_slashed_validator :: "PosParams \<Rightarrow> pos_state \<Rightarrow> Address \<times> (epoch, Amount) btree_map \<Rightarrow> pos_error + pos_state" where
  "update_slashed_validator params s entry =
     (let (v, slash_amounts) = entry
      in rbind (rfold (slash_sets_step params v) s slash_amounts) (\<lambda>s1.
         rbind (rfold (slash_deltas_step params v) (Amount_zero, s1) slash_amounts) (\<lambda>(_, s2).
         Inr s2)))"

definition record_slashes :: "(Address, Slash list) index_map \<Rightarrow> pos_ledger \<Rightarrow> pos_ledger" where
  "record_slashes eager s =
     s\<lparr>validator_slashes := foldl (\<lambda>f (v, slashes). f(v := f v @ slashes)) (validator_slashes s) eager\<rparr>"

definition process_slashes :: "(Address \<Rightarrow> string) \<Rightarrow> epoch \<Rightarrow> pos_ledger \<Rightarrow> pos_error + pos_ledger" where
  "process_slashes encode current_epoch s =
     (let params = lg_params s
      in rbind (ok_or (slash_processing_epoch_offset params) OffsetPanic) (\<lambda>n.
         if current_epoch < n then Inr s
         else
           rbind (infraction_epoch_of params current_epoch) (\<lambda>infraction_epoch.
           let enqueued = enqueued_iter encode current_epoch s
           in if enqueued = [] then Inr s
              else
                rbind (compute_cubic_slash_rate encode params infraction_epoch s) (\<lambda>cubic_slash_rate.
                rbind (rfold (collect_slash params cubic_slash_rate) ([], []) enqueued) (\<lambda>(eager_slashes, eager_rates).
                rbind (offset_of params OffsetSlashProcessingLenPlus) (\<lambda>past.
                let s1 = s\<lparr>enqueued_slashes := nested_update_data past current_epoch (enqueued_slashes s)\<rparr>
                in rbind (rfold (\<lambda>m (v, rate). process_validator_slash encode params v rate current_epoch m s1) [] eager_rates) (\<lambda>m.
                   let s2 = record_slashes (sort_key (encode \<circ> fst) eager_slashes) s1
                   in on_sets (\<lambda>p. rfold (update_slashed_validator params) p (sort_key (encode \<circ> fst) m)) s2)))))))"

section \<open>Recorded slashes\<close>

definition slashes_of :: "Address \<Rightarrow> ((Address \<times> nat) \<times> Slash) list \<Rightarrow> Slash list" where
  "slashes_of v l = map snd (filter (\<lambda>((w, _), _). w = v) l)"

definition final_rate :: "PosParams \<Rightarrow> Dec \<Rightarrow> Slash \<Rightarrow> Dec" where
  "final_rate params cubic x = min (dec_of (10 ^ 12)) (max (get_slash_rate params (slash_type x)) cubic)"

lemma final_slash_eq: "final_slash params cubic x = Inr (x\<lparr>slash_rate := final_rate params cubic x\<rparr>)"
  by (simp add: final_slash_def final_rate_def Dec_constants(1))

definition default_list :: "'a list option \<Rightarrow> 'a list" where
  "default_list x = (case x of None \<Rightarrow> [] | Some l \<Rightarrow> l)"

lemma slashes_of_simps [simp]:
  "slashes_of v [] = []" "slashes_of v (((w, h), x) # l) = (if w = v then x # slashes_of v l else slashes_of v l)"
  by (simp_all add: slashes_of_def)

lemma collect_slash_eq:
  "collect_slash params cubic (es, er) ((w, h), x) =
     rbind (ok_or (Dec_checked_add (case map_of er w of None \<Rightarrow> Dec_zero | Some r \<Rightarrow> r) (final_rate params cubic x)) PosArith) (\<lambda>r.
     Inr (AList.update w (default_list (map_of es w) @ [x\<lparr>slash_rate := final_rate params cubic x\<rparr>]) es,
          AList.update w (min (dec_of (10 ^ 12)) r) er))"
  by (simp add: collect_slash_def final_slash_eq Dec_constants(1) default_list_def Let_def)

lemma collect_slashes:
  assumes "rfold (collect_slash params cubic) (es, er) l = Inr (es', er')" "distinct (map fst es)"
  shows "distinct (map fst es') \<and> (\<forall>v. default_list (map_of es' v) =
      default_list (map_of es v) @ map (\<lambda>x. x\<lparr>slash_rate := final_rate params cubic x\<rparr>) (slashes_of v l))"
  using assms
proof (induction l arbitrary: es er)
  case (Cons entry l)
  obtain w h x where e: "entry = ((w, h), x)" by (cases entry) auto
  let ?x = "x\<lparr>slash_rate := final_rate params cubic x\<rparr>"
  obtain er1 where step: "rfold (collect_slash params cubic) (AList.update w (default_list (map_of es w) @ [?x]) es, er1) l = Inr (es', er')"
    using Cons.prems(1) by (auto simp: e collect_slash_eq rbind_Inr_iff)
  have d: "distinct (map fst (AList.update w (default_list (map_of es w) @ [?x]) es))" using Cons.prems(2) by (rule distinct_update)
  have u: "default_list (map_of (AList.update w y es) v) = (if v = w then y else default_list (map_of es v))" for y v
    by (simp add: update_conv' default_list_def)
  show ?case using Cons.IH [OF step d] by (auto simp: e u)
qed simp

lemma foldl_append_other: "v \<notin> fst ` set l \<Longrightarrow> foldl (\<lambda>f (v, xs). f(v := f v @ xs)) f l v = f v"
  by (induction l arbitrary: f) auto

lemma foldl_append_slashes:
  "distinct (map fst l) \<Longrightarrow> foldl (\<lambda>f (v, xs). f(v := f v @ xs)) f l v = f v @ default_list (map_of l v)"
proof (induction l arbitrary: f)
  case (Cons a l)
  obtain w xs where a: "a = (w, xs)" by (cases a)
  show ?case
  proof (cases "v = w")
    case True
    then have "v \<notin> fst ` set l" using Cons.prems by (simp add: a)
    then show ?thesis using True by (simp add: a foldl_append_other default_list_def fun_upd_same del: fun_upd_apply)
  qed (use Cons in \<open>simp add: a\<close>)
qed (simp add: default_list_def)

lemma sum_list_sort_key: "sum_list (map g (sort_key f l)) = sum_list (map (g :: 'a \<Rightarrow> 'b::comm_monoid_add) l)"
  by (metis mset_map mset_sort sum_mset_sum_list)

lemma map_of_sort_key: "distinct (map fst l) \<Longrightarrow> map_of (sort_key f l) = map_of l"
  by (rule map_of_inject_set [THEN iffD2]) (simp_all add: distinct_map)

lemma record_slashes_at:
  assumes "distinct (map fst l)"
  shows "validator_slashes (record_slashes (sort_key f l) s) v = validator_slashes s v @ default_list (map_of l v)"
proof -
  have "distinct (map fst (sort_key f l))" using assms by (simp add: distinct_map)
  then show ?thesis using foldl_append_slashes [of "sort_key f l" "validator_slashes s" v] map_of_sort_key [OF assms, of f]
    by (simp add: record_slashes_def)
qed

text \<open>The cases of a successful run.\<close>

lemma process_slashes_cases:
  assumes r: "process_slashes encode cur s = Inr s'"
  obtains (skip) "s' = s" "enqueued_iter encode cur s = [] \<or> slash_processing_epoch_offset (lg_params s) = None \<or>
      (\<exists>n. slash_processing_epoch_offset (lg_params s) = Some n \<and> cur < n)"
  | (process) infraction_epoch cubic es er past m p where
      "infraction_epoch_of (lg_params s) cur = Inr infraction_epoch" "enqueued_iter encode cur s \<noteq> []"
      "compute_cubic_slash_rate encode (lg_params s) infraction_epoch s = Inr cubic"
      "rfold (collect_slash (lg_params s) cubic) ([], []) (enqueued_iter encode cur s) = Inr (es, er)"
      "rfold (\<lambda>m (v, rate). process_validator_slash encode (lg_params s) v rate cur m
         (s\<lparr>enqueued_slashes := nested_update_data past cur (enqueued_slashes s)\<rparr>)) [] er = Inr m"
      "rfold (update_slashed_validator (lg_params s)) (lg_sets s) (sort_key (encode \<circ> fst) m) = Inr p"
      "s' = record_slashes (sort_key (encode \<circ> fst) es)
         (s\<lparr>enqueued_slashes := nested_update_data past cur (enqueued_slashes s)\<rparr>)\<lparr>lg_sets := p\<rparr>"
proof -
  obtain n where n: "slash_processing_epoch_offset (lg_params s) = Some n"
    using r by (cases "slash_processing_epoch_offset (lg_params s)") (simp_all add: process_slashes_def Let_def)
  have inf: "infraction_epoch_of (lg_params s) cur = Inr (cur - n)" if "\<not> cur < n" using n that by (simp add: infraction_epoch_of_def)
  consider "cur < n" | "\<not> cur < n" "enqueued_iter encode cur s = []" | "\<not> cur < n" "enqueued_iter encode cur s \<noteq> []" by blast
  then show thesis
  proof cases
    case 1
    then show thesis using r n by (intro skip) (simp_all add: process_slashes_def)
  next
    case 2
    then show thesis using r n inf by (intro skip) (simp_all add: process_slashes_def)
  next
    case 3
    then show thesis
      using r n inf by (auto simp: process_slashes_def Let_def rbind_Inr_iff on_sets_def record_slashes_def intro!: process)
  qed
qed

section \<open>Epochs of the slashed amounts\<close>

definition amounts_ok :: "epoch \<Rightarrow> nat \<Rightarrow> (epoch, Amount) btree_map \<Rightarrow> bool" where
  "amounts_ok cur n m \<longleftrightarrow> bt_ok m \<and> (\<forall>e\<in>fst ` set m. cur \<le> e \<and> e \<le> cur + n)"

lemma amounts_ok_insert: "amounts_ok cur n m \<Longrightarrow> cur \<le> e \<Longrightarrow> e \<le> cur + n \<Longrightarrow> amounts_ok cur n (bt_insert e a m)"
  unfolding amounts_ok_def by (auto simp: bt_ok_insert set_bt_insert)

lemma amounts_ok_add: "amounts_ok cur n m \<Longrightarrow> bt_add e a m = Inr m' \<Longrightarrow> cur \<le> e \<Longrightarrow> e \<le> cur + n \<Longrightarrow> amounts_ok cur n m'"
  by (auto simp: bt_add_def rbind_Inr_iff intro: amounts_ok_insert)

lemma epochs_from_range: "e \<in> set (epochs_from a n) \<Longrightarrow> a \<le> e \<and> e < a + n"
  by (auto simp: epochs_from_def split: if_splits)

lemma slash_redelegation_ok:
  assumes r: "slash_redelegation params a bs rs src cur slashes tru rate m = Inr m'" and ok: "amounts_ok cur (pipeline_len params) m"
  shows "amounts_ok cur (pipeline_len params) m'"
proof -
  obtain ie upd init out where upd: "epoch_plus cur 1 = Inr upd"
    and f: "rfold (slash_redelegation_step params a bs rs ie slashes (redelegated_unbonded tru rs src bs) rate) (init, m)
      (epochs_from upd (pipeline_len params)) = Inr (out, m')"
    using r unfolding slash_redelegation_def Let_def by (auto simp: rbind_Inr_iff)
  have u: "upd = cur + 1" using upd by (simp add: epoch_plus_def split: if_splits)
  let ?I = "\<lambda>(_ :: Amount, m). amounts_ok cur (pipeline_len params) m"
  have "?I (out, m')"
  proof (rule rfold_invariant [OF f, where I = ?I])
    fix x acc acc'
    assume x: "x \<in> set (epochs_from upd (pipeline_len params))" and I: "?I acc"
      and step: "slash_redelegation_step params a bs rs ie slashes (redelegated_unbonded tru rs src bs) rate acc x = Inr acc'"
    have t: "snd acc' = snd acc \<or> (\<exists>t. bt_add x t (snd acc) = Inr (snd acc'))"
      using step by (auto simp: slash_redelegation_step_def Let_def rbind_Inr_iff split: prod.splits if_splits)
    have "cur \<le> x" "x \<le> cur + pipeline_len params" using epochs_from_range [OF x] u by simp_all
    then show "?I acc'" using t I amounts_ok_add by (cases acc; cases acc') auto
  qed (use ok in simp)
  then show ?thesis by simp
qed

lemma slash_validator_redelegation_ok:
  assumes "slash_validator_redelegation params src cur l slashes tru rate m = Inr m'" "amounts_ok cur (pipeline_len params) m"
  shows "amounts_ok cur (pipeline_len params) m'"
proof -
  obtain ie where f: "rfold (\<lambda>m ((bond_start, redel_start), amount).
        rbind (ok_or (redelegation_end_epoch_from_start params redel_start) OffsetPanic) (\<lambda>redel_end.
        rbind (ok_or (in_redelegation_slashing_window params ie redel_start redel_end) OffsetPanic) (\<lambda>w.
        if w \<and> bond_start \<le> ie
        then slash_redelegation params amount bond_start redel_end src cur slashes tru rate m
        else Inr m))) m l = Inr m'"
    using assms(1) unfolding slash_validator_redelegation_def by (auto simp: rbind_Inr_iff)
  show ?thesis
    by (rule rfold_invariant [OF f, where I = "amounts_ok cur (pipeline_len params)"])
      (use assms(2) slash_redelegation_ok in \<open>auto simp: rbind_Inr_iff split: if_splits prod.splits\<close>)
qed

lemma slash_validator_step_map:
  assumes "slash_validator_step params v rate ie s (tb, rd, t, m) e = Inr (tb', rd', t', m')"
  shows "bt_add e t' m = Inr m'" "amount_val t \<le> amount_val t'"
  using assms unfolding slash_validator_step_def Let_def
  by (auto simp: rbind_Inr_iff plus_amount_def ok_or_Inr_iff Amount_checked_add_eq split: if_splits)

lemma slash_validator_ok:
  assumes r: "slash_validator params v rate cur m s = Inr m'" and ok: "amounts_ok cur (pipeline_len params) m"
  shows "amounts_ok cur (pipeline_len params) m'"
proof -
  obtain ie tb rd out m1 pe a where f: "rfold (slash_validator_step params v rate ie s) (tb, rd, Amount_zero, m)
      (rev (epochs_from cur (pipeline_len params))) = Inr (fst out, fst (snd out), fst (snd (snd out)), m1)"
    and pe: "epoch_plus cur (pipeline_len params) = Inr pe" and m': "m' = bt_insert pe a m1"
    using r unfolding slash_validator_def Let_def by (force simp: rbind_Inr_iff)
  let ?I = "\<lambda>(_ :: (epoch \<times> Amount) list, _ :: (epoch \<times> redelegated_map) list, _ :: Amount, m). amounts_ok cur (pipeline_len params) m"
  have "?I (fst out, fst (snd out), fst (snd (snd out)), m1)"
  proof (rule rfold_invariant [OF f, where I = ?I])
    fix x acc acc'
    assume x: "x \<in> set (rev (epochs_from cur (pipeline_len params)))" and I: "?I acc"
      and step: "slash_validator_step params v rate ie s acc x = Inr acc'"
    then have "cur \<le> x" "x \<le> cur + pipeline_len params" using epochs_from_range [of x cur "pipeline_len params"] by simp_all
    moreover obtain tb rd t m tb' rd' t' m' where acc: "acc = (tb, rd, t, m)" "acc' = (tb', rd', t', m')" by (cases acc; cases acc') auto
    ultimately show "?I acc'" using I amounts_ok_add slash_validator_step_map(1) [OF step [unfolded acc]] by simp
  qed (use ok in simp)
  then show ?thesis using pe unfolding m' by (intro amounts_ok_insert) (auto simp: epoch_plus_def split: if_splits)
qed

definition slashed_ok :: "epoch \<Rightarrow> nat \<Rightarrow> slashed_amounts \<Rightarrow> bool" where
  "slashed_ok cur n m \<longleftrightarrow> distinct (map fst m) \<and> (\<forall>v am. map_of m v = Some am \<longrightarrow> amounts_ok cur n am)"

lemma slashed_ok_update: "slashed_ok cur n m \<Longrightarrow> amounts_ok cur n am \<Longrightarrow> slashed_ok cur n (AList.update v am m)"
  unfolding slashed_ok_def by (auto simp: distinct_update update_conv' split: if_splits)

lemma amounts_ok_at: "slashed_ok cur n m \<Longrightarrow> amounts_ok cur n (case map_of m v of None \<Rightarrow> [] | Some x \<Rightarrow> x)"
  by (cases "map_of m v") (auto simp: slashed_ok_def amounts_ok_def)

lemma process_validator_slash_ok:
  assumes r: "process_validator_slash encode params v rate cur m s = Inr m'" and ok: "slashed_ok cur (pipeline_len params) m"
  shows "slashed_ok cur (pipeline_len params) m'"
proof -
  let ?at = "\<lambda>m v. case map_of m v of None \<Rightarrow> [] | Some x \<Rightarrow> x"
  obtain res where res: "slash_validator params v rate cur (?at m v) s = Inr res"
    and f: "rfold (\<lambda>m dest. rbind (slash_validator_redelegation params v cur (redelegations_to dest (outgoing_redelegations s v))
                 (validator_slashes s v) (total_redelegated_unbonded s dest) rate (?at m dest)) (\<lambda>x. Inr (AList.update dest x m)))
      (AList.update v res m) (sort_key encode (remdups (map (fst \<circ> fst) (outgoing_redelegations s v)))) = Inr m'"
    using r unfolding process_validator_slash_def Let_def by (auto simp: rbind_Inr_iff)
  show ?thesis
  proof (rule rfold_invariant [OF f, where I = "slashed_ok cur (pipeline_len params)"])
    show "slashed_ok cur (pipeline_len params) (AList.update v res m)"
      by (rule slashed_ok_update [OF ok slash_validator_ok [OF res amounts_ok_at [OF ok]]])
  next
    fix m1 d m2
    assume I: "slashed_ok cur (pipeline_len params) m1"
      and step: "rbind (slash_validator_redelegation params v cur (redelegations_to d (outgoing_redelegations s v))
                 (validator_slashes s v) (total_redelegated_unbonded s d) rate (?at m1 d)) (\<lambda>x. Inr (AList.update d x m1)) = Inr m2"
    then obtain x where x: "slash_validator_redelegation params v cur (redelegations_to d (outgoing_redelegations s v))
                 (validator_slashes s v) (total_redelegated_unbonded s d) rate (?at m1 d) = Inr x" "m2 = AList.update d x m1"
      by (auto simp: rbind_Inr_iff)
    show "slashed_ok cur (pipeline_len params) m2"
      unfolding x(2) by (rule slashed_ok_update [OF I slash_validator_redelegation_ok [OF x(1) amounts_ok_at [OF I]]])
  qed
qed

lemma process_all_ok:
  assumes f: "rfold (\<lambda>m (v, rate). process_validator_slash encode params v rate cur m s) [] er = Inr m"
  shows "slashed_ok cur (pipeline_len params) m"
  by (rule rfold_invariant [OF f, where I = "slashed_ok cur (pipeline_len params)"])
    (auto simp: slashed_ok_def [of _ _ "[]"] intro: process_validator_slash_ok)

section \<open>Stakes drop by the slashed amounts\<close>

text \<open>The amount slashed at an epoch: the entry of the last key up to it.\<close>

fun slashed_upto :: "nat \<Rightarrow> (epoch, Amount) btree_map \<Rightarrow> epoch \<Rightarrow> nat" where
  "slashed_upto acc [] x = acc"
| "slashed_upto acc ((e, a) # m) x = (if e \<le> x then slashed_upto (amount_val a) m x else acc)"

text \<open>Deltas with data up to the pipeline epoch, whose oldest epoch is not after the current one.\<close>

definition deltas_live :: "epoch \<Rightarrow> nat \<Rightarrow> Change epoched \<Rightarrow> bool" where
  "deltas_live cur n h \<longleftrightarrow>
     (\<exists>lu old. last_update h = Some lu \<and> oldest_epoch h = Some old \<and> old \<le> cur \<and>
        (\<forall>k. lazy_map h k \<noteq> None \<longrightarrow> old \<le> k \<and> k \<le> cur + n)) \<and> all_ok I256_inv (lazy_map h)"

lemma delta_update_data_reset:
  assumes "last_update h = Some lu"
  shows "delta_update_data I256_checked_add past e (h\<lparr>last_update := Some x\<rparr>) = delta_update_data I256_checked_add past e h"
  using assms by (auto simp: delta_update_data_def touch_epochs_def Let_def rbind_def split: option.split sum.split)

lemma delta_update_data_oldest:
  assumes "last_update h = Some lu" "oldest_epoch h = Some old" "delta_update_data I256_checked_add past e h = Inr U"
  shows "oldest_epoch U = Some old \<or> oldest_epoch U = Some (sub_past_epochs past e)"
  using assms by (auto simp: delta_update_data_def touch_epochs_def Let_def rbind_def split: option.splits if_splits prod.splits sum.splits)

lemma live_update_data:
  assumes live: "deltas_live cur n h" and e: "cur \<le> e" "sub_past_epochs past e \<le> cur"
    and U: "delta_update_data I256_checked_add past e h = Inr U"
  shows "deltas_live cur n U" "\<And>x. cur \<le> x \<Longrightarrow> stake_sum U x = stake_sum h x"
    "\<And>k. sub_past_epochs past e < k \<Longrightarrow> lazy_map U k = lazy_map h k"
proof -
  obtain lu old where h: "last_update h = Some lu" "oldest_epoch h = Some old" "old \<le> cur"
    "\<And>k. lazy_map h k \<noteq> None \<Longrightarrow> old \<le> k \<and> k \<le> cur + n" and ok: "all_ok I256_inv (lazy_map h)"
    using live unfolding deltas_live_def by blast
  let ?h = "h\<lparr>last_update := Some old\<rparr>"
  have inv: "epoched_inv past (cur + n) ?h"
  proof (rule epoched_invI [of _ old old])
    fix k assume "lazy_map ?h k \<noteq> None"
    then show "old \<le> k \<and> sub_past_epochs past old \<le> k \<and> k \<le> old + (cur + n)" using h(4) [of k] by (auto simp: sub_past_epochs_def)
  qed (use h in simp_all)
  have U': "delta_update_data I256_checked_add past e ?h = Inr U" using U delta_update_data_reset [OF h(1)] by simp
  have upd: "updated_by e ?h" using h(3) e(1) by (simp add: updated_by_def)
  note spec = change_delta.delta_update_data_spec [OF inv _ upd U']
  show above: "lazy_map U k = lazy_map h k" if "sub_past_epochs past e < k" for k by (rule delta_update_data_above [OF U that])
  show "stake_sum U x = stake_sum h x" if "cur \<le> x" for x using spec ok e(2) that by (simp add: stake_sum_def)
  obtain lu' old' where U2: "last_update U = Some lu'" "oldest_epoch U = Some old'"
    "\<And>k. lazy_map U k \<noteq> None \<Longrightarrow> old' \<le> k \<and> sub_past_epochs past e \<le> k"
    using spec ok by (auto elim: epoched_inv_cases)
  have "old' \<le> cur" using delta_update_data_oldest [OF h(1,2) U] U2(2) h(3) e(2) by auto
  moreover have "k \<le> cur + n" if "lazy_map U k \<noteq> None" for k
    using above [of k] U2(3) [OF that] h(4) [of k] that e(2) by (cases "k = sub_past_epochs past e") auto
  ultimately show "deltas_live cur n U" using U2 spec ok unfolding deltas_live_def by (intro conjI) auto
qed

lemma live_update_delta:
  assumes live: "deltas_live cur n h" and e: "cur \<le> e" "e \<le> cur + n" "sub_past_epochs past e \<le> cur" "sub_past_epochs past e < e"
    and past: "offset_of params OffsetMaxProposalPeriodOrSlashProcessingLenPlus = Inr past" and delta: "I256_inv delta"
    and r: "update_delta params delta e 0 h = Inr h'"
  shows "deltas_live cur n h'" "\<And>x. cur \<le> x \<Longrightarrow> stake_sum h' x = stake_sum h x + (if e \<le> x then i256_val delta else 0)"
proof -
  define val where "val = (case lazy_map h e of None \<Rightarrow> I256_zero | Some c \<Rightarrow> c)"
  obtain c U where c: "I256_checked_add val delta = Some c" and U: "delta_update_data I256_checked_add past e h = Inr U"
    and h': "h' = U\<lparr>lazy_map := (lazy_map U)(e \<mapsto> c)\<rparr>"
    using r by (auto simp: update_delta_def past epoch_plus_def val_def Let_def epoched_result_Inr delta_set_def set_at_epoch_def
        unchecked_add_def result_simps split: if_splits)
  note u = live_update_data [OF live e(1,3) U]
  have same: "lazy_map U e = lazy_map h e" by (rule u(3) [OF e(4)])
  have ok: "all_ok I256_inv (lazy_map h)" using live by (simp add: deltas_live_def)
  have val: "I256_inv val" "i256_val val = oval i256_val (lazy_map h e)"
    using ok by (auto simp: val_def all_ok_def pred_option_def split: option.split)
  have cv: "I256_inv c" "i256_val c = i256_val val + i256_val delta" using change_delta.add_Some [OF val(1) delta c] by simp_all
  show "deltas_live cur n h'" using u(1) cv(1) e(1,2) unfolding deltas_live_def h' by (auto simp: all_ok_def)
  show "stake_sum h' x = stake_sum h x + (if e \<le> x then i256_val delta else 0)" if "cur \<le> x" for x
    using u(2) [OF that] cv val by (simp add: stake_sum_def h' change_delta.sum_to_upd same)
qed

text \<open>The bounds under which the loop over the epochs of one validator reads and writes.\<close>

definition slash_bounds :: "PosParams \<Rightarrow> epoch \<Rightarrow> bool" where
  "slash_bounds params cur \<longleftrightarrow> 0 < cur \<and>
     (case offset_value params OffsetMaxProposalPeriodOrSlashProcessingLenPlus of None \<Rightarrow> False | Some past \<Rightarrow> pipeline_len params \<le> past)"

definition totals_live :: "PosParams \<Rightarrow> epoch \<Rightarrow> pos_state \<Rightarrow> bool" where
  "totals_live params cur s \<longleftrightarrow> deltas_live cur (pipeline_len params) (total_deltas s) \<and> deltas_live cur (pipeline_len params) (total_active_deltas s)"

lemma neg_amount_val:
  assumes "neg_change a = Inr c"
  shows "I256_inv c" "i256_val c = - int (amount_val a)"
proof -
  obtain d where d: "change_of a = Inr d" "I256_checked_neg d = Some c" using assms by (auto simp: neg_change_def rbind_Inr_iff ok_or_Inr_iff)
  have "d = i256_of (int (amount_val a))" "\<bar>int (amount_val a)\<bar> < 2 ^ 255"
    using d(1) by (auto simp: change_of_def ok_or_Inr_iff Amount_change_eq i256_checked_def split: if_splits)
  then show "I256_inv c" "i256_val c = - int (amount_val a)" using d(2) by (auto simp: I256_neg_of i256_val_of I256_inv_of)
qed

lemma slash_deltas_step_spec:
  assumes b: "slash_bounds params cur" and live: "deltas_live cur (pipeline_len params) (validator_deltas s v)" "totals_live params cur s"
    and e: "cur \<le> e" "e \<le> cur + pipeline_len params"
    and r: "slash_deltas_step params v (acc, s) (e, a) = Inr (acc', s')"
  shows "acc' = a" "amount_val acc \<le> amount_val a"
    "deltas_live cur (pipeline_len params) (validator_deltas s' v)" "totals_live params cur s'"
    "\<And>x. cur \<le> x \<Longrightarrow> stake_sum (validator_deltas s' v) x =
      stake_sum (validator_deltas s v) x - (if e \<le> x then int (amount_val a) - int (amount_val acc) else 0)"
    "\<And>x. cur \<le> x \<Longrightarrow> stake_sum (total_deltas s') x =
      stake_sum (total_deltas s) x - (if e \<le> x then int (amount_val a) - int (amount_val acc) else 0)"
    "\<And>w. w \<noteq> v \<Longrightarrow> validator_deltas s' w = validator_deltas s w"
proof -
  let ?n = "pipeline_len params"
  obtain past where pastv: "offset_value params OffsetMaxProposalPeriodOrSlashProcessingLenPlus = Some past" "?n \<le> past" and pos: "0 < cur"
    using b by (auto simp: slash_bounds_def split: option.splits)
  have past: "offset_of params OffsetMaxProposalPeriodOrSlashProcessingLenPlus = Inr past" by (simp add: offset_of_def pastv(1) del: offset_value.simps)
  have p0: "0 < past" using pastv(1) by (auto simp: u64_add_def DEFAULT_NUM_PAST_EPOCHS_def split: Option.bind_splits if_splits)
  have sub: "sub_past_epochs past e \<le> cur" "sub_past_epochs past e < e" using pastv(2) pos e p0 by (auto simp: sub_past_epochs_def)
  obtain d new c h s2 out where d: "minus_amount a acc = Inr d" "plus_amount acc d = Inr acc'" "neg_change d = Inr c"
    and h: "update_delta params c e 0 (validator_deltas s v) = Inr h"
    and s2: "update_total_deltas params c e (Some 0) out (s\<lparr>validator_deltas := (validator_deltas s)(v := h)\<rparr>) = Inr s'"
    using r by (auto simp: slash_deltas_step_def Let_def rbind_Inr_iff update_validator_deltas_def)
  have dv: "amount_val acc \<le> amount_val a" "amount_val d = amount_val a - amount_val acc"
    using d(1) by (auto simp: minus_amount_def ok_or_Inr_iff Amount_checked_sub_eq split: if_splits)
  note c = neg_amount_val [OF d(3)]
  obtain t where t: "update_delta params c e 0 (total_deltas s) = Inr t" "total_deltas s' = t" "validator_deltas s' = (validator_deltas s)(v := h)"
    "total_active_deltas s' = total_active_deltas s \<or> update_delta params c e 0 (total_active_deltas s) = Inr (total_active_deltas s')"
    using s2 by (auto simp: update_total_deltas_def Let_def rbind_Inr_iff split: if_splits)
  note vh = live_update_delta [OF live(1) e sub past c(1) h]
  note th = live_update_delta [OF _ e sub past c(1) t(1)]
  note ah = live_update_delta(1) [OF _ e sub past c(1)]
  show "acc' = a" "amount_val acc \<le> amount_val a"
    using d(2) dv by (auto simp: plus_amount_def ok_or_Inr_iff Amount_checked_add_eq amount_eq_iff split: if_splits)
  show "deltas_live cur ?n (validator_deltas s' v)" using vh(1) t(3) by simp
  show "totals_live params cur s'" using live(2) th(1) ah t(2,4) by (auto simp: totals_live_def)
  show "stake_sum (validator_deltas s' v) x = stake_sum (validator_deltas s v) x - (if e \<le> x then int (amount_val a) - int (amount_val acc) else 0)"
    if "cur \<le> x" for x using vh(2) [OF that] t(3) c(2) dv by simp
  show "stake_sum (total_deltas s') x = stake_sum (total_deltas s) x - (if e \<le> x then int (amount_val a) - int (amount_val acc) else 0)"
    if "cur \<le> x" for x using th(2) [OF _ that] live(2) t(2) c(2) dv by (simp add: totals_live_def)
  show "validator_deltas s' w = validator_deltas s w" if "w \<noteq> v" for w using t(3) that by simp
qed

lemma slash_deltas_loop:
  assumes b: "slash_bounds params cur" and live: "deltas_live cur (pipeline_len params) (validator_deltas s v)" "totals_live params cur s"
    and ok: "bt_ok am" "\<And>e. e \<in> fst ` set am \<Longrightarrow> cur \<le> e \<and> e \<le> cur + pipeline_len params"
    and r: "rfold (slash_deltas_step params v) (acc, s) am = Inr (acc', s')"
  shows "sorted (amount_val acc # map (amount_val \<circ> snd) am) \<and>
    deltas_live cur (pipeline_len params) (validator_deltas s' v) \<and> totals_live params cur s' \<and>
    (\<forall>x\<ge>cur. stake_sum (validator_deltas s' v) x =
      stake_sum (validator_deltas s v) x - (int (slashed_upto (amount_val acc) am x) - int (amount_val acc))) \<and>
    (\<forall>x\<ge>cur. stake_sum (total_deltas s') x =
      stake_sum (total_deltas s) x - (int (slashed_upto (amount_val acc) am x) - int (amount_val acc))) \<and>
    (\<forall>w. w \<noteq> v \<longrightarrow> validator_deltas s' w = validator_deltas s w)"
  using live ok r
proof (induction am arbitrary: s acc)
  case (Cons entry am)
  obtain e a where entry: "entry = (e, a)" by (cases entry)
  obtain acc1 s1 where step: "slash_deltas_step params v (acc, s) (e, a) = Inr (acc1, s1)"
    and rest: "rfold (slash_deltas_step params v) (acc1, s1) am = Inr (acc', s')"
    using Cons.prems(5) by (auto simp: entry rbind_Inr_iff)
  have e: "cur \<le> e" "e \<le> cur + pipeline_len params" using Cons.prems(4) [of e] by (simp_all add: entry)
  note sp = slash_deltas_step_spec [OF b Cons.prems(1,2) e step]
  have am: "bt_ok am" "\<And>e. e \<in> fst ` set am \<Longrightarrow> cur \<le> e \<and> e \<le> cur + pipeline_len params"
    using Cons.prems(3,4) by (auto simp: bt_ok_def)
  have IH: "sorted (amount_val a # map (amount_val \<circ> snd) am)" "deltas_live cur (pipeline_len params) (validator_deltas s' v)"
    "totals_live params cur s'"
    "\<And>x. cur \<le> x \<Longrightarrow> stake_sum (validator_deltas s' v) x =
      stake_sum (validator_deltas s1 v) x - (int (slashed_upto (amount_val a) am x) - int (amount_val a))"
    "\<And>x. cur \<le> x \<Longrightarrow> stake_sum (total_deltas s') x =
      stake_sum (total_deltas s1) x - (int (slashed_upto (amount_val a) am x) - int (amount_val a))"
    "\<And>w. w \<noteq> v \<Longrightarrow> validator_deltas s' w = validator_deltas s1 w"
    using Cons.IH [OF sp(3,4) am rest] unfolding sp(1) by blast+
  have late: "slashed_upto (amount_val a) am x = amount_val a" if "\<not> e \<le> x" for x
  proof (cases am)
    case (Cons y ys)
    then show ?thesis using Cons.prems(3) that by (cases y) (auto simp: entry bt_ok_def)
  qed simp
  have "sorted (amount_val acc # map (amount_val \<circ> snd) (entry # am))" using IH(1) sp(2) by (auto simp: entry)
  moreover have "stake_sum (validator_deltas s' v) x =
      stake_sum (validator_deltas s v) x - (int (slashed_upto (amount_val acc) (entry # am) x) - int (amount_val acc))" if "cur \<le> x" for x
    using IH(4) [OF that] sp(5) [OF that] late [of x] by (simp add: entry)
  moreover have "stake_sum (total_deltas s') x =
      stake_sum (total_deltas s) x - (int (slashed_upto (amount_val acc) (entry # am) x) - int (amount_val acc))" if "cur \<le> x" for x
    using IH(5) [OF that] sp(6) [OF that] late [of x] by (simp add: entry)
  ultimately show ?case using IH(2,3,6) sp(7) by (simp add: comp_def)
qed simp

lemma slash_sets_deltas:
  assumes "rfold (slash_sets_step params v) s am = Inr s'"
  shows "same_deltas s s'"
  by (rule rfold_invariant [OF assms, where I = "same_deltas s"])
    (auto simp: slash_sets_step_def rbind_Inr_iff same_deltas_def [of s s] split: if_splits
      dest!: update_validator_set_deltas intro: same_deltas_trans)

definition slashed_at :: "slashed_amounts \<Rightarrow> Address \<Rightarrow> epoch \<Rightarrow> int" where
  "slashed_at m v x = int (case map_of m v of None \<Rightarrow> 0 | Some am \<Rightarrow> slashed_upto 0 am x)"

lemma update_slashed_spec:
  assumes b: "slash_bounds params cur" and live: "deltas_live cur (pipeline_len params) (validator_deltas s v)" "totals_live params cur s"
    and am: "amounts_ok cur (pipeline_len params) am" and r: "update_slashed_validator params s (v, am) = Inr s'"
  shows "sorted (map (amount_val \<circ> snd) am)" "totals_live params cur s'"
    "\<And>x. cur \<le> x \<Longrightarrow> stake_sum (validator_deltas s' v) x = stake_sum (validator_deltas s v) x - int (slashed_upto 0 am x)"
    "\<And>x. cur \<le> x \<Longrightarrow> stake_sum (total_deltas s') x = stake_sum (total_deltas s) x - int (slashed_upto 0 am x)"
    "\<And>w. w \<noteq> v \<Longrightarrow> validator_deltas s' w = validator_deltas s w"
proof -
  obtain s1 acc where s1: "rfold (slash_sets_step params v) s am = Inr s1"
    "rfold (slash_deltas_step params v) (Amount_zero, s1) am = Inr (acc, s')"
    using r by (auto simp: update_slashed_validator_def rbind_Inr_iff)
  have d: "validator_deltas s1 = validator_deltas s" "total_deltas s1 = total_deltas s" "total_active_deltas s1 = total_active_deltas s"
    using slash_sets_deltas [OF s1(1)] by (simp_all add: same_deltas_def)
  have live1: "deltas_live cur (pipeline_len params) (validator_deltas s1 v)" "totals_live params cur s1"
    using live by (simp_all add: d totals_live_def)
  have ok: "bt_ok am" "\<And>e. e \<in> fst ` set am \<Longrightarrow> cur \<le> e \<and> e \<le> cur + pipeline_len params" using am by (auto simp: amounts_ok_def)
  note l = slash_deltas_loop [OF b live1 ok s1(2), simplified d amount_val_zero]
  show "sorted (map (amount_val \<circ> snd) am)" "totals_live params cur s'" using l by simp_all
  show "stake_sum (validator_deltas s' v) x = stake_sum (validator_deltas s v) x - int (slashed_upto 0 am x)"
    "stake_sum (total_deltas s') x = stake_sum (total_deltas s) x - int (slashed_upto 0 am x)" if "cur \<le> x" for x
    using l that by simp_all
  show "validator_deltas s' w = validator_deltas s w" if "w \<noteq> v" for w using l that by simp
qed

lemma update_all_slashed:
  assumes b: "slash_bounds params cur" and tot: "totals_live params cur s"
    and live: "\<And>v. v \<in> fst ` set l \<Longrightarrow> deltas_live cur (pipeline_len params) (validator_deltas s v)"
    and l: "distinct (map fst l)" "\<And>v am. (v, am) \<in> set l \<Longrightarrow> amounts_ok cur (pipeline_len params) am"
    and r: "rfold (update_slashed_validator params) s l = Inr s'" and x: "cur \<le> x"
  shows "(\<forall>v. stake_sum (validator_deltas s' v) x = stake_sum (validator_deltas s v) x - slashed_at l v x) \<and>
    stake_sum (total_deltas s') x = stake_sum (total_deltas s) x - (\<Sum>(v, am)\<leftarrow>l. int (slashed_upto 0 am x))"
  using tot live l r
proof (induction l arbitrary: s)
  case (Cons entry l)
  obtain v am where entry: "entry = (v, am)" by (cases entry)
  obtain s1 where s1: "update_slashed_validator params s (v, am) = Inr s1" "rfold (update_slashed_validator params) s1 l = Inr s'"
    using Cons.prems(5) by (auto simp: entry rbind_Inr_iff)
  have "deltas_live cur (pipeline_len params) (validator_deltas s v)" "amounts_ok cur (pipeline_len params) am"
    using Cons.prems(2) [of v] Cons.prems(4) [of v am] by (simp_all add: entry)
  note u = update_slashed_spec [OF b this(1) Cons.prems(1) this(2) s1(1)]
  have out: "v \<notin> fst ` set l" using Cons.prems(3) by (simp add: entry)
  have IH: "(\<forall>w. stake_sum (validator_deltas s' w) x = stake_sum (validator_deltas s1 w) x - slashed_at l w x) \<and>
    stake_sum (total_deltas s') x = stake_sum (total_deltas s1) x - (\<Sum>(v, am)\<leftarrow>l. int (slashed_upto 0 am x))"
  proof (rule Cons.IH [OF u(2) _ _ _ s1(2)])
    fix w assume w: "w \<in> fst ` set l"
    then have "w \<noteq> v" using out by blast
    then show "deltas_live cur (pipeline_len params) (validator_deltas s1 w)" using Cons.prems(2) [of w] w u(5) by (simp add: entry)
  qed (use Cons.prems(3,4) in \<open>auto simp: entry\<close>)
  have "map_of l v = None" using out by (simp add: map_of_eq_None_iff)
  then have none: "slashed_at l v x = 0" by (simp add: slashed_at_def)
  have "stake_sum (validator_deltas s' w) x = stake_sum (validator_deltas s w) x - slashed_at (entry # l) w x" for w
    using IH u(3) [OF x] u(5) [of w] none by (cases "w = v") (simp_all add: entry slashed_at_def)
  then show ?case using IH u(4) [OF x] by (simp add: entry)
qed (simp add: slashed_at_def)

lemma process_validator_slash_enqueued:
  "process_validator_slash encode params v rate cur m (s\<lparr>enqueued_slashes := x\<rparr>) = process_validator_slash encode params v rate cur m s"
proof -
  have "slash_validator_step params v rate ie (s\<lparr>enqueued_slashes := x\<rparr>) = slash_validator_step params v rate ie s" for ie
    by (simp add: slash_validator_step_def fun_eq_iff)
  then show ?thesis by (simp add: process_validator_slash_def slash_validator_def)
qed

definition slashes_due :: "(Address \<Rightarrow> string) \<Rightarrow> epoch \<Rightarrow> pos_ledger \<Rightarrow> bool" where
  "slashes_due encode cur s \<longleftrightarrow>
     (case slash_processing_epoch_offset (lg_params s) of None \<Rightarrow> False | Some n \<Rightarrow> n \<le> cur) \<and> enqueued_iter encode cur s \<noteq> []"

text \<open>
  C9: When slashes are due, processing appends to the slashes of every validator exactly its enqueued
  slashes of this epoch, by block height, each with the larger of the rate of its type and the
  cubic rate, but at most one.
\<close>

theorem process_slashes_records:
  assumes r: "process_slashes encode cur s = Inr s'" and due: "slashes_due encode cur s"
  shows "\<exists>ie cubic. infraction_epoch_of (lg_params s) cur = Inr ie \<and> compute_cubic_slash_rate encode (lg_params s) ie s = Inr cubic \<and>
    (\<forall>v. validator_slashes s' v = validator_slashes s v @
       map (\<lambda>x. x\<lparr>slash_rate := min (dec_of (10 ^ 12)) (max (get_slash_rate (lg_params s) (slash_type x)) cubic)\<rparr>)
         (slashes_of v (enqueued_iter encode cur s)))"
  using r
proof (cases rule: process_slashes_cases)
  case skip
  then show ?thesis using due by (auto simp: slashes_due_def split: option.splits)
next
  case (process ie cubic es er past m p)
  have c: "distinct (map fst es)"
    "default_list (map_of es v) = map (\<lambda>x. x\<lparr>slash_rate := final_rate (lg_params s) cubic x\<rparr>) (slashes_of v (enqueued_iter encode cur s))" for v
    using collect_slashes [OF process(4)] by (simp_all add: default_list_def [of None])
  have "validator_slashes s' v = validator_slashes s v @ default_list (map_of es v)" for v
    by (simp add: process(7) record_slashes_at [OF c(1)])
  then show ?thesis using process(1,3) c(2) by (simp add: final_rate_def)
qed

text \<open>
  C8: When slashes are due, processing lowers the stake of every validator at every epoch from the
  current one on by exactly the amount computed for that epoch, and the total stake by the sum of these
  amounts; validators without a computed amount keep their stake.
\<close>

theorem process_slashes_deducts:
  assumes r: "process_slashes encode cur s = Inr s'" and due: "slashes_due encode cur s"
    and b: "slash_bounds (lg_params s) cur" and tot: "totals_live (lg_params s) cur (lg_sets s)"
  shows "\<exists>ie cubic es er m. infraction_epoch_of (lg_params s) cur = Inr ie \<and>
    compute_cubic_slash_rate encode (lg_params s) ie s = Inr cubic \<and>
    rfold (collect_slash (lg_params s) cubic) ([], []) (enqueued_iter encode cur s) = Inr (es, er) \<and>
    rfold (\<lambda>m (v, rate). process_validator_slash encode (lg_params s) v rate cur m s) [] er = Inr m \<and>
    ((\<forall>v\<in>fst ` set m. deltas_live cur (pipeline_len (lg_params s)) (validator_deltas (lg_sets s) v)) \<longrightarrow>
     (\<forall>x\<ge>cur. (\<forall>v. stake_sum (validator_deltas (lg_sets s') v) x = stake_sum (validator_deltas (lg_sets s) v) x - slashed_at m v x) \<and>
        stake_sum (total_deltas (lg_sets s')) x = stake_sum (total_deltas (lg_sets s)) x - (\<Sum>(v, am)\<leftarrow>m. slashed_at m v x)))"
  using r
proof (cases rule: process_slashes_cases)
  case skip
  then show ?thesis using due by (auto simp: slashes_due_def split: option.splits)
next
  case (process ie cubic es er past m p)
  let ?l = "sort_key (encode \<circ> fst) m"
  have f: "rfold (\<lambda>m (v, rate). process_validator_slash encode (lg_params s) v rate cur m s) [] er = Inr m"
    using process(5) by (simp only: process_validator_slash_enqueued)
  have ok: "distinct (map fst m)" "\<And>v am. (v, am) \<in> set m \<Longrightarrow> amounts_ok cur (pipeline_len (lg_params s)) am"
    using process_all_ok [OF f] by (auto simp: slashed_ok_def)
  have at: "slashed_at ?l = slashed_at m" by (simp add: slashed_at_def map_of_sort_key [OF ok(1)] fun_eq_iff)
  have "(\<Sum>(v, am)\<leftarrow>?l. int (slashed_upto 0 am x)) = (\<Sum>(v, am)\<leftarrow>m. slashed_at m v x)" for x
    using ok(1) by (auto simp: sum_list_sort_key slashed_at_def intro!: arg_cong [where f = sum_list] map_cong)
  then have "(\<forall>v. stake_sum (validator_deltas p v) x = stake_sum (validator_deltas (lg_sets s) v) x - slashed_at m v x) \<and>
      stake_sum (total_deltas p) x = stake_sum (total_deltas (lg_sets s)) x - (\<Sum>(v, am)\<leftarrow>m. slashed_at m v x)"
    if "\<forall>v\<in>fst ` set m. deltas_live cur (pipeline_len (lg_params s)) (validator_deltas (lg_sets s) v)" "cur \<le> x" for x
    using update_all_slashed [OF b tot _ _ _ process(6) that(2)] that(1) ok by (simp add: at distinct_map)
  then show ?thesis using process(1,3,4,7) f by auto
qed

section \<open>Unbonding between an infraction and its processing\<close>

lemma slash_deltas_sorted:
  "rfold (slash_deltas_step params v) (acc, s) am = Inr (acc', s') \<Longrightarrow> sorted (amount_val acc # map (\<lambda>(_, a). amount_val a) am)"
proof (induction am arbitrary: acc s)
  case (Cons entry am)
  obtain e a where entry: "entry = (e, a)" by (cases entry)
  obtain acc1 s1 where step: "slash_deltas_step params v (acc, s) (e, a) = Inr (acc1, s1)"
    and rest: "rfold (slash_deltas_step params v) (acc1, s1) am = Inr (acc', s')" using Cons.prems by (auto simp: entry rbind_Inr_iff)
  obtain d where d: "minus_amount a acc = Inr d" "plus_amount acc d = Inr acc1"
    using step by (auto simp: slash_deltas_step_def Let_def rbind_Inr_iff)
  then have "amount_val acc \<le> amount_val a" "acc1 = a"
    by (auto simp: minus_amount_def plus_amount_def ok_or_Inr_iff Amount_checked_sub_eq Amount_checked_add_eq amount_eq_iff split: if_splits)
  then show ?case using Cons.IH [OF rest] by (auto simp: entry)
qed simp

definition falling :: "(epoch, Amount) btree_map \<Rightarrow> bool" where
  "falling m \<longleftrightarrow> sorted_wrt (\<lambda>x y. amount_val (snd y) \<le> amount_val (snd x)) m"

lemma slash_validator_loop:
  assumes "rfold (slash_validator_step params v rate ie s) (tb, rd, t, m) (rev [a..<b]) = Inr (tb', rd', t', m')"
    and "falling m" "\<And>e x. (e, x) \<in> set m \<Longrightarrow> b \<le> e \<and> amount_val x \<le> amount_val t"
  shows "falling m' \<and> map fst m' = [a..<b] @ map fst m"
  using assms
proof (induction b arbitrary: tb rd t m)
  case (Suc b)
  show ?case
  proof (cases "a \<le> b")
    case True
    then obtain tb1 rd1 t1 m1 where step: "slash_validator_step params v rate ie s (tb, rd, t, m) b = Inr (tb1, rd1, t1, m1)"
      and rest: "rfold (slash_validator_step params v rate ie s) (tb1, rd1, t1, m1) (rev [a..<b]) = Inr (tb', rd', t', m')"
      using Suc.prems(1) by (auto simp: rbind_Inr_iff)
    note st = slash_validator_step_map [OF step]
    have keys: "b < e" "amount_val x \<le> amount_val t1" if "(e, x) \<in> set m" for e x using Suc.prems(3) [OF that] st(2) by auto
    have "map_of m b = None" using keys(1) by (force simp: map_of_eq_None_iff)
    then obtain x where x: "m1 = bt_insert b x m" "amount_val x = amount_val t1"
      using st(1) by (auto simp: bt_add_def unwrap_or_default_def rbind_Inr_iff)
    then have "m1 = bt_insert b t1 m" using amount_eq_iff [of x t1] by simp
    also have "\<dots> = (b, t1) # m" using keys(1) [of "fst (hd m)" "snd (hd m)"] by (cases m) auto
    finally have m1: "m1 = (b, t1) # m" .
    have "falling m1" using Suc.prems(2) keys(2) by (auto simp: falling_def m1)
    moreover have "b \<le> e \<and> amount_val x \<le> amount_val t1" if "(e, x) \<in> set m1" for e x using that keys by (auto simp: m1 less_imp_le)
    ultimately show ?thesis using Suc.IH [OF rest] True by (simp add: m1)
  qed (use Suc.prems in auto)
qed simp

lemma slash_validator_falling:
  assumes r: "slash_validator params v rate cur [] s = Inr am" and small: "cur + pipeline_len params < 2 ^ 64"
  shows "falling am"
proof -
  let ?n = "pipeline_len params"
  have range: "epochs_from cur ?n = [cur..<cur + ?n]" using small by (simp add: epochs_from_def)
  obtain ie tb rd tb' rd' t' m a where f: "rfold (slash_validator_step params v rate ie s) (tb, rd, Amount_zero, []) (rev [cur..<cur + ?n]) = Inr (tb', rd', t', m)"
    and a: "map_of m (cur + ?n - 1) = Some a" "0 < cur + ?n" and am: "am = bt_insert (cur + ?n) a m"
    using r small unfolding slash_validator_def Let_def range
    by (auto simp: rbind_Inr_iff epoch_plus_def ok_or_Inr_iff split: if_splits)
  have m: "falling m" "map fst m = [cur..<cur + ?n]" using slash_validator_loop [OF f] by (simp_all add: falling_def)
  have "m \<noteq> []" using a(1) by auto
  then obtain m0 k b where m0: "m = m0 @ [(k, b)]" by (metis rev_exhaust surj_pair)
  have pos: "0 < ?n" using m(2) m0 by (cases ?n) simp_all
  then have "[cur..<cur + ?n] = [cur..<cur + ?n - 1] @ [cur + ?n - 1]" using upt_Suc_append [of cur "cur + ?n - 1"] by simp
  then have k: "map fst m0 = [cur..<cur + ?n - 1]" "k = cur + ?n - 1" using m(2) by (simp_all add: m0)
  have "distinct (map fst m)" by (simp add: m(2))
  then have "b = a" using a(1) k(2) by (force simp: m0 map_add_Some_iff dest!: map_of_SomeD)
  moreover have "am = m @ [(cur + ?n, a)]" unfolding am
    by (rule bt_insert_last) (use m(2) in \<open>metis atLeastLessThan_iff list.set_map set_upt\<close>)
  ultimately show ?thesis using m(1) by (auto simp: falling_def m0 sorted_wrt_append)
qed

lemma constant_list:
  "sorted xs \<Longrightarrow> sorted_wrt (\<ge>) xs \<Longrightarrow> x \<in> set xs \<Longrightarrow> y \<in> set xs \<Longrightarrow> x = (y :: nat)"
  by (induction xs) (auto intro: antisym)


section \<open>A ledger with an enqueued slash\<close>

definition sample_slash_params :: PosParams where
  "sample_slash_params = default_pos_params\<lparr>unbonding_len := 2\<rparr>"

definition sample_history :: "'v \<Rightarrow> 'v epoched" where
  "sample_history x = \<lparr>lazy_map = [5 \<mapsto> x], last_update = Some 9, oldest_epoch = Some 5\<rparr>"

definition sample_queue :: "((Address \<times> nat) \<times> Slash) list" where
  "sample_queue = [((sample_validator, 60), \<lparr>slash_epoch = 6, slash_block_height = 60, slash_type = DuplicateVote, slash_rate = Dec_zero\<rparr>)]"

definition sample_to_slash :: "PosParams \<Rightarrow> (epoch \<times> epoch, Amount) btree_map \<Rightarrow> pos_ledger" where
  "sample_to_slash params unbonded = sample_ledger
     \<lparr>lg_params := params,
      lg_sets := empty_pos_state\<lparr>validator_states := (\<lambda>_. epoched_open)(sample_validator := sample_history Jailed),
        validator_deltas := (\<lambda>_. epoched_open)(sample_validator := sample_history (i256_of 2000000)),
        total_deltas := sample_history (i256_of 2000000), total_active_deltas := sample_history (i256_of 2000000)\<rparr>,
      total_bonded := (\<lambda>_. epoched_open)(sample_validator := sample_history (amount_of 2000000)),
      total_unbonded := (\<lambda>_. [])(sample_validator := unbonded),
      total_consensus_stakes := sample_history (amount_of 4000000),
      enqueued_slashes := epoched_open\<lparr>lazy_map := [10 \<mapsto> sample_queue]\<rparr>\<rparr>"

lemma sample_slash_offset: "slash_processing_epoch_offset (sample_slash_params\<lparr>pipeline_len := x\<rparr>) = Some 4"
  "slash_processing_epoch_offset sample_slash_params = Some 4"
  by (simp_all add: slash_processing_epoch_offset_def sample_slash_params_def default_pos_params_def u64_add_def)

lemma sample_due: "slashes_due encode 10 (sample_to_slash sample_slash_params [])"
  by (simp add: slashes_due_def sample_to_slash_def sample_slash_offset enqueued_iter_def nested_at_def sample_queue_def)

lemma sample_history_inv: "4 \<le> past \<Longrightarrow> epoched_inv past future (sample_history x)"
  by (auto simp: sample_history_def epoched_inv_def sub_past_epochs_def)

lemma sample_history_nearest: "5 \<le> e \<Longrightarrow> nearest (lazy_map (sample_history x)) e = Some x"
  by (induction e rule: dec_induct) (simp_all add: sample_history_def nearest_Some_key)

lemma sample_history_get: "4 \<le> past \<Longrightarrow> 5 \<le> e \<Longrightarrow> future < 100 \<Longrightarrow> epoched_get past future (sample_history x) e = Inr (Some x)"
  by (subst epoched_get_eq [OF sample_history_inv]) (simp_all add: sample_history_nearest, simp add: sample_history_def)

lemma sample_consensus_stake: "5 \<le> e \<Longrightarrow> get_total_consensus_stake e (sample_to_slash params u) = Inr (amount_of 4000000)"
  by (simp add: get_total_consensus_stake_def sample_to_slash_def sample_history_get BONDS_PAST_def epoched_result_def)

lemma sample_slash_past:
  "offset_of (sample_slash_params\<lparr>pipeline_len := x\<rparr>) OffsetMaxProposalPeriodOrSlashProcessingLenPlus = Inr 29"
  "offset_of sample_slash_params OffsetMaxProposalPeriodOrSlashProcessingLenPlus = Inr 29"
  "offset_of sample_slash_params OffsetMaxProposalPeriodPlus = Inr 29" "offset_of sample_slash_params OffsetSlashProcessingLenPlus = Inr 6"
  by (simp_all add: offset_of_def sample_slash_offset) (simp_all add: sample_slash_params_def default_pos_params_def u64_add_def DEFAULT_NUM_PAST_EPOCHS_def)

lemma sample_slash_pipeline: "pipeline_len sample_slash_params = 2"
  by (simp add: sample_slash_params_def)

lemma sample_slash_stake:
  "read_validator_stake sample_slash_params sample_validator 6 (lg_sets (sample_to_slash sample_slash_params u)) = Inr (amount_of 2000000)"
proof -
  have "int (amount_val (Amount_from_change (i256_of 2000000))) = 2000000"
    by (simp add: Amount_from_change_val I256_inv_of i256_val_of)
  then have "Amount_from_change (i256_of 2000000) = amount_of 2000000" by (simp add: amount_eq_iff)
  then show ?thesis
    by (simp add: read_validator_stake_def sample_slash_past sample_to_slash_def sample_history_def get_sum_def sub_past_epochs_def
        unchecked_add_def sample_slash_pipeline add_some_def upt_conv_Cons epoched_result_def stake_of_sum_def del: upt_Suc)
qed

lemma abs_tdiv_le: "\<bar>tdiv a b\<bar> \<le> \<bar>a\<bar>"
proof -
  have "\<bar>tdiv a b\<bar> \<le> \<bar>a\<bar> div \<bar>b\<bar>" by (auto simp: tdiv_def abs_mult sgn_if pos_imp_zdiv_nonneg_iff)
  also have "\<dots> \<le> \<bar>a\<bar>" using zdiv_mono2 [of "\<bar>a\<bar>" 1 "\<bar>b\<bar>"] by (cases "b = 0") simp_all
  finally show ?thesis .
qed

lemma small_dec_ops:
  assumes "\<bar>a\<bar> < 2 ^ 100" "\<bar>b\<bar> < 2 ^ 100"
  shows "Dec_checked_add (dec_of a) (dec_of b) = Some (dec_of (a + b))"
    "Dec_checked_mul (dec_of a) (dec_of b) = Some (dec_of (tdiv (a * b) (10 ^ 12)))"
    "b \<noteq> 0 \<Longrightarrow> Dec_checked_div (dec_of a) (dec_of b) = Some (dec_of (tdiv (a * 10 ^ 12) b))"
proof -
  have small: "\<bar>a\<bar> < 2 ^ 255" "\<bar>b\<bar> < 2 ^ 255" "\<bar>a + b\<bar> < 2 ^ 255" "\<bar>a * 10 ^ 12\<bar> < 2 ^ 255"
    using assms by simp_all
  have "\<bar>a\<bar> * \<bar>b\<bar> \<le> 2 ^ 100 * 2 ^ 100" using assms by (intro mult_mono) simp_all
  then have mul: "\<bar>a * b\<bar> < 2 ^ 255" by (simp add: abs_mult)
  note vals = Dec_inv_of [OF small(1)] Dec_inv_of [OF small(2)] dec_val_of [OF small(1)] dec_val_of [OF small(2)]
  show "Dec_checked_add (dec_of a) (dec_of b) = Some (dec_of (a + b))" using small(3) by (simp add: Dec_checked_add_eq vals dec_checked_def)
  show "Dec_checked_mul (dec_of a) (dec_of b) = Some (dec_of (tdiv (a * b) (10 ^ 12)))" using mul by (simp add: Dec_checked_mul_eq vals)
  show "b \<noteq> 0 \<Longrightarrow> Dec_checked_div (dec_of a) (dec_of b) = Some (dec_of (tdiv (a * 10 ^ 12) b))"
    using small(4) abs_tdiv_le [of "a * 10 ^ 12" b] by (simp add: Dec_checked_div_def Dec_trunc_div_eq vals dec_checked_def)
qed

lemma Dec_try_from_Amount_eq: "Dec_try_from_Amount a = dec_checked (int (amount_val a) * 10 ^ 6)"
proof -
  have e: "unat (exp10 (unat (POS_DECIMAL_PRECISION - NATIVE_MAX_DECIMAL_PLACES))) = 10 ^ 6"
    by (simp add: exp10_def POS_DECIMAL_PRECISION_def NATIVE_MAX_DECIMAL_PLACES_def)
  then have d: "I256 (exp10 (unat (POS_DECIMAL_PRECISION - NATIVE_MAX_DECIMAL_PLACES))) = i256_of (10 ^ 6)" by (simp add: I256_small)
  show ?thesis
    by (auto simp: Dec_try_from_Amount_def d I256_try_from_uint_eq i256_checked_def I256_checked_mul_eq I256_inv_of i256_val_of
        dec_checked_alt amount_val_def)
qed

lemma dec_of_amount_of: "n < 2 ^ 80 \<Longrightarrow> dec_of_amount (amount_of n) = Inr (dec_of (int n * 1000000))"
  by (simp add: dec_of_amount_def Dec_try_from_Amount_eq dec_checked_def)

lemma sample_cubic:
  "compute_cubic_slash_rate encode sample_slash_params 6 (sample_to_slash sample_slash_params u) = Inr (dec_of 2250000000000)"
proof -
  let ?s = "sample_to_slash sample_slash_params u"
  have win: "cubic_slash_epoch_window sample_slash_params 6 = Some (5, 7)"
    by (simp add: cubic_slash_epoch_window_def sample_slash_params_def default_pos_params_def u64_add_def)
  have proc: "processing_epoch_of sample_slash_params e = Inr (e + 4)" if "e < 100" for e
    using that by (simp add: processing_epoch_of_def sample_slash_offset epoch_plus_def)
  have iter: "enqueued_iter encode e ?s = (if e = 10 then sample_queue else [])" for e
    by (simp add: enqueued_iter_def sample_to_slash_def nested_at_def epoched_open_def sample_queue_def)
  have nine: "Dec_from_u64 9 = Some (dec_of 9000000000000)" by (simp add: Dec_from_u64_eq)
  have infr: "infracting_stake encode sample_slash_params e (e + 4) ?s = Inr (dec_of (if e = 6 then 2000000000000 else 0))" for e
    by (simp add: infracting_stake_def iter sample_queue_def sample_slash_stake dec_of_amount_of Dec_zero_of small_dec_ops)
  show ?thesis
    by (simp add: compute_cubic_slash_rate_def win upt_conv_Cons sample_consensus_stake proc infr [of 5, simplified] infr [of 6, simplified]
        infr [of 7, simplified] dec_of_amount_of Dec_zero_of small_dec_ops tdiv_def nine del: upt_Suc)
qed

lemma sample_no_slashes: "validator_slashes (sample_to_slash params u) = (\<lambda>_. [])"
  by (simp add: sample_to_slash_def sample_ledger_def)

lemma no_slashes_bond: "compute_bond_at_epoch (\<lambda>_. []) params v e start a None = Inr a"
  by (simp add: compute_bond_at_epoch_def minus_amount_ok apply_list_slashes_def plus_amount_ok amount_val_lt)

lemma no_slashes_slash:
  assumes "n < 2 ^ 80" "0 \<le> r" "r \<le> 10 ^ 12"
  shows "compute_slash_bond_at_epoch (\<lambda>_. []) params v e ie start (amount_of n) None (dec_of r) =
    Inr (amount_of (div_ceil (n * nat r) (10 ^ 12)))"
proof -
  have d: "Dec_inv (dec_of r)" "dec_val (dec_of r) = r" using assms by (simp_all add: Dec_inv_of dec_val_of)
  have "n * nat r \<le> 2 ^ 80 * 10 ^ 12" using assms by (intro mult_mono) simp_all
  then have fit: "n * nat r < 2 ^ 256" by simp
  have "n * nat r \<le> n * 10 ^ 12" using assms by (intro mult_left_mono) simp_all
  then have "div_ceil (n * nat r) (10 ^ 12) \<le> n" using div_ceil_le_iff [of "10 ^ 12" "n * nat r" n] by simp
  then show ?thesis using assms fit
    by (simp add: compute_slash_bond_at_epoch_def no_slashes_bond Amount_mul_ceil_eq d arith_result_def min_def amount_le_iff)
qed

lemma sample_bond_entries: "bond_entries 2 (sample_history x) = [(5, x)]" "bond_entries 3 (sample_history x) = [(5, x)]"
  by (simp_all add: bond_entries_def sample_history_def upt_conv_Cons List.map_filter_simps del: upt_Suc)

lemma sample_slash_validator:
  "slash_validator sample_slash_params sample_validator (dec_of (10 ^ 12)) 10 [] (sample_to_slash sample_slash_params []) =
     Inr [(10, amount_of 2000000), (11, amount_of 2000000), (12, amount_of 2000000)]"
  "slash_validator (sample_slash_params\<lparr>pipeline_len := 3\<rparr>) sample_validator (dec_of (5 * 10 ^ 11)) 10 []
     (sample_to_slash (sample_slash_params\<lparr>pipeline_len := 3\<rparr>) [((11, 5), amount_of 4)]) =
     Inr [(10, amount_of 1000002), (11, amount_of 1000000), (12, amount_of 1000000), (13, amount_of 1000000)]"
  by (simp_all add: slash_validator_def infraction_epoch_of_def sample_slash_offset sample_slash_pipeline sample_to_slash_def
      sample_bond_entries redelegations_at_def sample_ledger_def epochs_from_def upt_conv_Cons slash_validator_step_def no_slashes_slash
      div_ceil_def plus_amount_ok bt_add_def unwrap_or_default_def epoch_plus_def amount_less_iff del: upt_Suc)


lemma sample_update_step:
  assumes "last_update h = Some lu" "oldest_epoch h = Some 5" "e < 30" "lazy_map h e = None" "\<bar>z\<bar> < 2 ^ 200"
  shows "update_delta sample_slash_params (i256_of z) e 0 h = Inr (h\<lparr>lazy_map := (lazy_map h)(e \<mapsto> i256_of z), last_update := Some e\<rparr>)"
proof -
  have "I256_checked_add I256_zero (i256_of z) = Some (i256_of z)"
    using assms(5) by (simp add: I256_checked_add_eq i256_val_of I256_inv_of i256_checked_def)
  then show ?thesis using assms
    by (simp add: update_delta_def sample_slash_past epoch_plus_def delta_set_def delta_update_data_def sub_past_epochs_def touch_epochs_def
        set_at_epoch_def epoched_result_def unchecked_add_def)
qed

lemma sample_jailed_out:
  "5 \<le> e \<Longrightarrow> validator_states s sample_validator = sample_history Jailed \<Longrightarrow> slashed_state_out sample_slash_params sample_validator e s = Inr True"
  by (simp add: slashed_state_out_def get_validator_state_def sample_slash_past sample_history_get sample_slash_pipeline epoched_result_def)

lemma sample_neg_change: "n < 2 ^ 100 \<Longrightarrow> neg_change (amount_of n) = Inr (i256_of (- int n))"
  by (simp add: neg_change_def sample_change I256_neg_of)

lemma sample_update_slashed:
  "\<exists>p. update_slashed_validator sample_slash_params (lg_sets (sample_to_slash sample_slash_params []))
     (sample_validator, [(10, amount_of 2000000), (11, amount_of 2000000), (12, amount_of 2000000)]) = Inr p"
  by (simp add: update_slashed_validator_def slash_sets_step_def sample_jailed_out sample_to_slash_def slash_deltas_step_def minus_amount_ok
      plus_amount_ok sample_neg_change update_validator_deltas_def update_total_deltas_def sample_history_def sample_update_step)

lemma sample_iter: "enqueued_iter encode 10 (sample_to_slash params u) = sample_queue"
  by (simp add: enqueued_iter_def sample_to_slash_def nested_at_def epoched_open_def sample_queue_def)

lemma sample_collect:
  "\<exists>es. rfold (collect_slash sample_slash_params (dec_of 2250000000000)) ([], []) sample_queue = Inr (es, [(sample_validator, dec_of 1000000000000)])"
proof -
  have "dec_of 1000000000000 \<le> dec_of 2250000000000" by (simp add: Dec_le_val Dec_inv_of dec_val_of)
  then have "final_rate sample_slash_params (dec_of 2250000000000) x = dec_of 1000000000000" for x
    by (simp add: final_rate_def min_def le_max_iff_disj)
  then show ?thesis by (simp add: sample_queue_def collect_slash_eq Dec_zero_of small_dec_ops)
qed

lemma sample_process_validator:
  "process_validator_slash encode sample_slash_params sample_validator (dec_of 1000000000000) 10 [] (sample_to_slash sample_slash_params []) =
     Inr [(sample_validator, [(10, amount_of 2000000), (11, amount_of 2000000), (12, amount_of 2000000)])]"
  by (simp add: process_validator_slash_def sample_slash_validator(1) [simplified]) (simp add: sample_to_slash_def sample_ledger_def)

lemma sample_infraction: "infraction_epoch_of sample_slash_params 10 = Inr 6"
  by (simp add: infraction_epoch_of_def sample_slash_offset)

lemma sample_slash_ledger: "lg_params (sample_to_slash params u) = params"
  by (simp add: sample_to_slash_def)

lemma sample_process: "\<exists>s'. process_slashes encode 10 (sample_to_slash sample_slash_params []) = Inr s'"
proof -
  obtain es where es: "rfold (collect_slash sample_slash_params (dec_of 2250000000000)) ([], []) sample_queue = Inr (es, [(sample_validator, dec_of 1000000000000)])"
    using sample_collect by blast
  have "sample_queue \<noteq> []" by (simp add: sample_queue_def)
  then show ?thesis
    using sample_update_slashed by (auto simp: process_slashes_def sample_slash_ledger sample_iter sample_infraction sample_cubic es
        process_validator_slash_enqueued sample_process_validator sample_slash_offset sample_slash_past on_sets_def record_slashes_def Let_def)
qed

theorem process_slashes_records_witness:
  "\<exists>s' cubic. process_slashes (\<lambda>_. []) 10 (sample_to_slash sample_slash_params []) = Inr s' \<and>
    validator_slashes s' sample_validator =
      map (\<lambda>x. x\<lparr>slash_rate := min (dec_of (10 ^ 12)) (max (get_slash_rate sample_slash_params (slash_type x)) cubic)\<rparr>)
        (slashes_of sample_validator (enqueued_iter (\<lambda>_. []) 10 (sample_to_slash sample_slash_params [])))"
proof -
  obtain s' where s': "process_slashes (\<lambda>_. []) 10 (sample_to_slash sample_slash_params []) = Inr s'" using sample_process by blast
  have P: "lg_params (sample_to_slash sample_slash_params []) = sample_slash_params" by (simp add: sample_to_slash_def)
  show ?thesis using s' process_slashes_records [OF s' sample_due] unfolding P sample_no_slashes by auto
qed

lemma sample_live: "deltas_live 10 2 (sample_history (i256_of 2000000))"
  by (auto simp: deltas_live_def sample_history_def all_ok_def pred_option_def I256_inv_of)

lemma sample_history_sum: "5 \<le> x \<Longrightarrow> stake_sum (sample_history c) x = i256_val c"
  using change_delta.sum_to_upd [of Map.empty 5 c x] by (simp add: stake_sum_def sample_history_def sum_to_def)

theorem process_slashes_deducts_witness:
  "\<exists>s'. process_slashes (\<lambda>_. []) 10 (sample_to_slash sample_slash_params []) = Inr s' \<and>
    stake_sum (validator_deltas (lg_sets s') sample_validator) 10 = 0 \<and> stake_sum (total_deltas (lg_sets s')) 12 = 0"
proof -
  let ?s = "sample_to_slash sample_slash_params []" and ?am = "[(10, amount_of 2000000), (11, amount_of 2000000), (12, amount_of 2000000)]"
  obtain s' where s': "process_slashes (\<lambda>_. []) 10 ?s = Inr s'" using sample_process by blast
  have b: "slash_bounds (lg_params ?s) 10"
    using sample_slash_past(2) by (simp add: sample_slash_ledger slash_bounds_def offset_of_def ok_or_Inr_iff sample_slash_pipeline del: offset_value.simps)
  have d: "validator_deltas (lg_sets ?s) sample_validator = sample_history (i256_of 2000000)" "total_deltas (lg_sets ?s) = sample_history (i256_of 2000000)"
    "total_active_deltas (lg_sets ?s) = sample_history (i256_of 2000000)" by (simp_all add: sample_to_slash_def)
  have tot: "totals_live (lg_params ?s) 10 (lg_sets ?s)" by (simp add: sample_slash_ledger totals_live_def sample_slash_pipeline d sample_live)
  obtain er m es where m: "rfold (collect_slash sample_slash_params (dec_of 2250000000000)) ([], []) sample_queue = Inr (es, er)"
    "rfold (\<lambda>m (v, rate). process_validator_slash (\<lambda>_. []) sample_slash_params v rate 10 m ?s) [] er = Inr m"
    "(\<forall>v\<in>fst ` set m. deltas_live 10 2 (validator_deltas (lg_sets ?s) v)) \<longrightarrow>
     (\<forall>x\<ge>10. (\<forall>v. stake_sum (validator_deltas (lg_sets s') v) x = stake_sum (validator_deltas (lg_sets ?s) v) x - slashed_at m v x) \<and>
        stake_sum (total_deltas (lg_sets s')) x = stake_sum (total_deltas (lg_sets ?s)) x - (\<Sum>(v, am)\<leftarrow>m. slashed_at m v x))"
    using process_slashes_deducts [OF s' sample_due b tot] unfolding sample_slash_ledger sample_slash_pipeline sample_infraction sample_iter
    by (auto simp: sample_cubic)
  have "er = [(sample_validator, dec_of 1000000000000)]" using m(1) sample_collect by auto
  then have "m = [(sample_validator, ?am)]" using m(2) by (simp add: sample_process_validator)
  then show ?thesis using s' m(3) by (simp add: d sample_live slashed_at_def sample_history_sum i256_val_of)
qed

end
