(* ===== verification/PosRewards.thy ===== *)
theory PosRewards
  imports PosProcess
begin

text \<open>
  Inflation and rewards (\<open>proof_of_stake/src/rewards.rs\<close>, \<open>crates/controller/src/lib.rs\<close> and the claims of
  \<open>proof_of_stake/src/lib.rs\<close>): the controller that sets the inflation of an epoch, the share of each consensus
  validator in the rewards of a block, the reward products and commissions, and the claims.
\<close>

section \<open>The controller\<close>

datatype rewards_error =
  RewardsPos pos_error | RewardsArith | RewardsDec | MaxInflationOverflow | InflationOverflow
  | InsufficientVotes Amount Amount | ExpectedValidatorInConsensus Address "ValidatorState option"
  | VotesPanic | CommissionRateMissing | InflationParameterMissing | SupplyPanic | CreditFailed | EpochPanic

definition pos_result :: "pos_error + 'a \<Rightarrow> rewards_error + 'a" where
  "pos_result r = (case r of Inl e \<Rightarrow> Inl (RewardsPos e) | Inr a \<Rightarrow> Inr a)"

definition arith_of :: "'a option \<Rightarrow> rewards_error + 'a" where
  "arith_of m = ok_or m RewardsArith"

definition dec_amount :: "Amount \<Rightarrow> rewards_error + Dec" where
  "dec_amount a = ok_or (Dec_try_from_Amount a) RewardsDec"

definition floor_share :: "Amount \<Rightarrow> Dec \<Rightarrow> rewards_error + Amount" where
  "floor_share a d = (case Amount_mul_floor a d of Inl _ \<Rightarrow> Inl RewardsArith | Inr b \<Rightarrow> Inr b)"

record PDController =
  total_native_amount :: Uint
  max_reward_rate :: Dec
  last_inflation_amount :: Uint
  p_gain_nom :: Dec
  d_gain_nom :: Dec
  pd_epochs_per_year :: u64
  target_metric :: Dec
  last_metric :: Dec

definition get_total_native_dec :: "PDController \<Rightarrow> rewards_error + Dec" where
  "get_total_native_dec slf = ok_or (Dec_try_from_uint (total_native_amount slf)) RewardsDec"

definition get_max_inflation :: "PDController \<Rightarrow> rewards_error + Uint" where
  "get_max_inflation slf =
     rbind (get_total_native_dec slf) (\<lambda>total_native.
     rbind (arith_of (Dec_from_u64 (pd_epochs_per_year slf))) (\<lambda>epochs_py.
     rbind (arith_of (Dec_checked_mul total_native (max_reward_rate slf))) (\<lambda>x.
     rbind (arith_of (Dec_checked_div x epochs_py)) (\<lambda>max_inflation.
     ok_or (Dec_to_uint max_inflation) MaxInflationOverflow))))"

definition compute_inflation_aux :: "PDController \<Rightarrow> Dec \<Rightarrow> rewards_error + Uint" where
  "compute_inflation_aux slf control =
     rbind (ok_or (Dec_try_from_uint (last_inflation_amount slf)) RewardsDec) (\<lambda>last_amount.
     rbind (arith_of (Dec_checked_add last_amount control)) (\<lambda>new_amount.
     rbind (if Dec_is_negative new_amount then Inr 0 else ok_or (Dec_to_uint new_amount) InflationOverflow) (\<lambda>new_inflation_amount.
     rbind (get_max_inflation slf) (\<lambda>max_inflation.
     Inr (min new_inflation_amount max_inflation)))))"

definition compute_control :: "PDController \<Rightarrow> Dec \<Rightarrow> Dec \<Rightarrow> rewards_error + Dec" where
  "compute_control slf coeff current_metric =
     rbind (arith_of (Dec_checked_sub (d_gain_nom slf) (p_gain_nom slf))) (\<lambda>gain.
     rbind (arith_of (Dec_checked_mul current_metric gain)) (\<lambda>a.
     rbind (arith_of (Dec_checked_mul (target_metric slf) (p_gain_nom slf))) (\<lambda>b.
     rbind (arith_of (Dec_checked_add a b)) (\<lambda>ab.
     rbind (arith_of (Dec_checked_mul (last_metric slf) (d_gain_nom slf))) (\<lambda>c.
     rbind (arith_of (Dec_checked_sub ab c)) (\<lambda>val.
     arith_of (Dec_checked_mul coeff val)))))))"

definition PDController_compute_inflation :: "PDController \<Rightarrow> Dec \<Rightarrow> Dec \<Rightarrow> rewards_error + Uint" where
  "PDController_compute_inflation slf control_coeff current_metric =
     rbind (compute_control slf control_coeff current_metric) (compute_inflation_aux slf)"

text \<open>\<open>compute_inflation\<close> of \<open>rewards.rs\<close>; the arguments besides the locked amount are those of the controller.\<close>

definition compute_inflation :: "Amount \<Rightarrow> PDController \<Rightarrow> rewards_error + Amount" where
  "compute_inflation locked_amount controller =
     rbind (dec_amount locked_amount) (\<lambda>locked.
     rbind (get_total_native_dec controller) (\<lambda>total_native_dec.
     rbind (arith_of (Dec_checked_div locked total_native_dec)) (\<lambda>metric.
     rbind (arith_of (Dec_checked_mul total_native_dec (max_reward_rate controller))) (\<lambda>x.
     rbind (arith_of (Dec_from_u64 (pd_epochs_per_year controller))) (\<lambda>epochs_py.
     rbind (arith_of (Dec_checked_div x epochs_py)) (\<lambda>control_coeff.
     rbind (PDController_compute_inflation controller control_coeff metric) (\<lambda>amount_uint.
     case Amount_from_uint amount_uint 0 of Inl _ \<Rightarrow> Inl RewardsArith | Inr a \<Rightarrow> Inr a)))))))"

section \<open>Rewards of a block\<close>

definition MIN_PROPOSER_REWARD :: Dec where
  "MIN_PROPOSER_REWARD = Dec (I256 10000000000)"

record PosRewards =
  proposer_coeff :: Dec
  signer_coeff :: Dec
  active_val_coeff :: Dec

record PosRewardsCalculator =
  proposer_reward :: Dec
  signer_reward :: Dec
  signing_stake :: Amount
  total_stake :: Amount

definition get_min_required_votes :: "PosRewardsCalculator \<Rightarrow> rewards_error + Amount" where
  "get_min_required_votes slf =
     rbind (ok_or (Amount_checked_mul (total_stake slf) (amount_of 2)) VotesPanic) (\<lambda>a.
     rbind (ok_or (Amount_checked_add a (amount_of 2)) VotesPanic) (\<lambda>b.
     ok_or (Amount_checked_div_u64 b 3) VotesPanic))"

definition get_reward_coeffs :: "PosRewardsCalculator \<Rightarrow> rewards_error + PosRewards" where
  "get_reward_coeffs slf =
     rbind (get_min_required_votes slf) (\<lambda>votes_needed.
     if signing_stake slf < votes_needed then Inl (InsufficientVotes votes_needed (signing_stake slf))
     else
       rbind (arith_of (Amount_checked_sub (signing_stake slf) votes_needed)) (\<lambda>excess.
       rbind (floor_share excess (proposer_reward slf)) (\<lambda>share.
       rbind (dec_amount share) (\<lambda>proposer_reward_coeff.
       rbind (dec_amount (total_stake slf)) (\<lambda>total_stake_dec.
       rbind (arith_of (Dec_checked_div proposer_reward_coeff total_stake_dec)) (\<lambda>x.
       rbind (arith_of (Dec_checked_add x MIN_PROPOSER_REWARD)) (\<lambda>pc.
       rbind (arith_of Dec_one) (\<lambda>one.
       rbind (arith_of (Dec_checked_sub one pc)) (\<lambda>y.
       rbind (arith_of (Dec_checked_sub y (signer_reward slf))) (\<lambda>ac.
       Inr \<lparr>proposer_coeff = pc, signer_coeff = signer_reward slf, active_val_coeff = ac\<rparr>))))))))))"

record VoteInfo =
  validator_address :: Address
  validator_vp :: u64

definition count_vote ::
    "epoch \<Rightarrow> pos_ledger \<Rightarrow> Address list \<times> Amount \<Rightarrow> VoteInfo \<Rightarrow> rewards_error + Address list \<times> Amount" where
  "count_vote e s acc vote =
     (let (signer_set, total_signing_stake) = acc; v = validator_address vote
      in if validator_vp vote = 0 then Inr acc
         else
           rbind (pos_result (get_validator_state (lg_params s) v e (lg_sets s))) (\<lambda>state.
           if state \<noteq> Some Consensus then Inl (ExpectedValidatorInConsensus v state)
           else
             rbind (pos_result (read_validator_stake (lg_params s) v e (lg_sets s))) (\<lambda>stake_from_deltas.
             rbind (arith_of (Amount_checked_add total_signing_stake stake_from_deltas)) (\<lambda>t.
             Inr (List.insert v signer_set, t)))))"

definition block_share ::
    "PosRewards \<Rightarrow> Address \<Rightarrow> Address list \<Rightarrow> Dec \<Rightarrow> Dec \<Rightarrow> Address \<Rightarrow> Amount \<Rightarrow> rewards_error + Dec" where
  "block_share coeffs proposer_address signer_set signing_stake_unscaled consensus_stake_unscaled address stake =
     rbind (dec_amount stake) (\<lambda>stake_unscaled.
     rbind (if address = proposer_address then arith_of (Dec_checked_add Dec_zero (proposer_coeff coeffs)) else Inr Dec_zero) (\<lambda>r1.
     rbind (if address \<in> set signer_set
            then
              rbind (arith_of (Dec_checked_div stake_unscaled signing_stake_unscaled)) (\<lambda>signing_frac.
              rbind (arith_of (Dec_checked_mul (signer_coeff coeffs) signing_frac)) (\<lambda>x.
              arith_of (Dec_checked_add r1 x)))
            else Inr r1) (\<lambda>r2.
     rbind (arith_of (Dec_checked_div stake_unscaled consensus_stake_unscaled)) (\<lambda>frac.
     rbind (arith_of (Dec_checked_mul (active_val_coeff coeffs) frac)) (\<lambda>y.
     arith_of (Dec_checked_add r2 y))))))"

definition add_to_accumulator :: "(Address, Dec) index_map \<Rightarrow> Address \<times> Dec \<Rightarrow> rewards_error + (Address, Dec) index_map" where
  "add_to_accumulator m entry =
     (let (address, value) = entry; prev = (case map_of m address of None \<Rightarrow> Dec_zero | Some d \<Rightarrow> d)
      in rbind (arith_of (Dec_checked_add prev value)) (\<lambda>x. Inr (AList.update address x m)))"

definition log_share ::
    "PosRewards \<Rightarrow> Address \<Rightarrow> Address list \<Rightarrow> Dec \<Rightarrow> Dec \<Rightarrow> (Address, Dec) index_map \<Rightarrow> (Amount \<times> position) \<times> Address \<Rightarrow>
     rewards_error + (Address, Dec) index_map" where
  "log_share coeffs proposer_address signer_set signing_stake_unscaled consensus_stake_unscaled values = (\<lambda>((stake, _), address).
     if Amount_is_zero stake then Inr values
     else
       rbind (block_share coeffs proposer_address signer_set signing_stake_unscaled consensus_stake_unscaled address stake)
         (\<lambda>rewards_frac. Inr (AList.update address rewards_frac values)))"

definition log_block_rewards_aux :: "epoch \<Rightarrow> Address \<Rightarrow> VoteInfo list \<Rightarrow> pos_ledger \<Rightarrow> rewards_error + pos_ledger" where
  "log_block_rewards_aux e proposer_address votes s =
     (let params = lg_params s
      in rbind (pos_result (get_total_consensus_stake e s)) (\<lambda>total_consensus_stake.
         rbind (rfold (count_vote e s) ([], Amount_zero) votes) (\<lambda>(signer_set, total_signing_stake).
         rbind (get_reward_coeffs \<lparr>proposer_reward = block_proposer_reward params, signer_reward = block_vote_reward params,
                  signing_stake = total_signing_stake, total_stake = total_consensus_stake\<rparr>) (\<lambda>coeffs.
         rbind (dec_amount total_consensus_stake) (\<lambda>consensus_stake_unscaled.
         rbind (dec_amount total_signing_stake) (\<lambda>signing_stake_unscaled.
         rbind (rfold (log_share coeffs proposer_address signer_set signing_stake_unscaled consensus_stake_unscaled) []
                  (consensus_at (lg_sets s) e)) (\<lambda>values.
         rbind (rfold add_to_accumulator (rewards_accumulator s) values) (\<lambda>m.
         Inr (s\<lparr>rewards_accumulator := m\<rparr>)))))))))"

definition log_block_rewards :: "Address option \<Rightarrow> VoteInfo list \<Rightarrow> epoch \<Rightarrow> bool \<Rightarrow> pos_ledger \<Rightarrow> rewards_error + pos_ledger" where
  "log_block_rewards last_block_proposer votes current_epoch is_new_epoch s =
     (case last_block_proposer of
        Some proposer_address \<Rightarrow>
          rbind (if is_new_epoch then ok_or (if current_epoch = 0 then None else Some (current_epoch - 1)) EpochPanic
                 else Inr current_epoch) (\<lambda>e.
          log_block_rewards_aux e proposer_address votes s)
      | None \<Rightarrow> Inr s)"

section \<open>Inflation\<close>

definition add_rewards_to_counter :: "Address \<Rightarrow> Address \<Rightarrow> Amount \<Rightarrow> pos_ledger \<Rightarrow> rewards_error + pos_ledger" where
  "add_rewards_to_counter source validator new_rewards s =
     rbind (arith_of (Amount_checked_add (unwrap_or_default (rewards_counters s source validator)) new_rewards)) (\<lambda>c.
     Inr (s\<lparr>rewards_counters := (rewards_counters s)(source := (rewards_counters s source)(validator \<mapsto> c))\<rparr>))"

definition take_rewards_from_counter :: "Address \<Rightarrow> Address \<Rightarrow> pos_ledger \<Rightarrow> Amount \<times> pos_ledger" where
  "take_rewards_from_counter source validator s =
     (unwrap_or_default (rewards_counters s source validator),
      s\<lparr>rewards_counters := (rewards_counters s)(source := (rewards_counters s source)(validator := None))\<rparr>)"

definition read_rewards_counter :: "Address \<Rightarrow> Address \<Rightarrow> pos_ledger \<Rightarrow> Amount" where
  "read_rewards_counter source validator s = unwrap_or_default (rewards_counters s source validator)"

record Rewards =
  reward_product :: Dec
  reward_commissions :: Amount

definition validator_rewards :: "Dec \<Rightarrow> Dec \<Rightarrow> Amount \<Rightarrow> rewards_error + Rewards" where
  "validator_rewards commission_rate stake reward_tokens =
     rbind (dec_amount reward_tokens) (\<lambda>reward_tokens_dec.
     rbind (arith_of Dec_one) (\<lambda>one.
     rbind (arith_of (Dec_checked_sub one commission_rate)) (\<lambda>keep.
     rbind (arith_of (Dec_checked_mul keep reward_tokens_dec)) (\<lambda>x.
     rbind (arith_of (Dec_checked_div x stake)) (\<lambda>product.
     rbind (floor_share reward_tokens commission_rate) (\<lambda>commissions.
     Inr \<lparr>reward_product = product, reward_commissions = commissions\<rparr>))))))"

definition reward_step ::
    "PosParams \<Rightarrow> epoch \<Rightarrow> u64 \<Rightarrow> Amount \<Rightarrow> pos_ledger \<Rightarrow> Dec \<times> Amount \<times> (Address, Rewards) index_map \<Rightarrow> Address \<times> Dec \<Rightarrow>
     rewards_error + Dec \<times> Amount \<times> (Address, Rewards) index_map" where
  "reward_step params last_epoch num_blocks_in_last_epoch inflation s acc entry =
     (let (accumulators_sum, reward_tokens_remaining, new_rewards_products) = acc; (validator, value) = entry
      in rbind (arith_of (Dec_checked_add accumulators_sum value)) (\<lambda>new_sum.
         rbind (arith_of (Dec_from_u64 num_blocks_in_last_epoch)) (\<lambda>blocks.
         rbind (arith_of (Dec_checked_div value blocks)) (\<lambda>fractional_claim.
         rbind (floor_share inflation fractional_claim) (\<lambda>reward_tokens.
         rbind (pos_result (read_validator_stake params validator last_epoch (lg_sets s))) (\<lambda>stake_amount.
         rbind (dec_amount stake_amount) (\<lambda>stake.
         rbind (pos_result (offset_of params OffsetDefaultNumPastEpochs)) (\<lambda>past.
         rbind (pos_result (epoched_result (epoched_get past (pipeline_len params) (commission_rates s validator) last_epoch))) (\<lambda>rate.
         rbind (ok_or rate CommissionRateMissing) (\<lambda>commission_rate.
         rbind (validator_rewards commission_rate stake reward_tokens) (\<lambda>rewards.
         rbind (arith_of (Amount_checked_sub reward_tokens_remaining reward_tokens)) (\<lambda>remaining.
         Inr (new_sum, remaining, AList.update validator rewards new_rewards_products)))))))))))))"

definition write_reward :: "epoch \<Rightarrow> pos_ledger \<Rightarrow> Address \<times> Rewards \<Rightarrow> rewards_error + pos_ledger" where
  "write_reward last_epoch s entry =
     (let (validator, rewards) = entry
      in add_rewards_to_counter validator validator (reward_commissions rewards)
           (s\<lparr>rewards_products := (rewards_products s)(validator := (rewards_products s validator)(last_epoch \<mapsto> reward_product rewards))\<rparr>))"

definition credit_to :: "Address \<Rightarrow> Amount \<Rightarrow> pos_ledger \<Rightarrow> rewards_error + pos_ledger" where
  "credit_to dest amount s =
     (case credit_tokens (native_token s) dest amount (lg_tokens s) of
        (Inl _, _) \<Rightarrow> Inl CreditFailed
      | (Inr _, t) \<Rightarrow> Inr (s\<lparr>lg_tokens := t\<rparr>))"

definition update_rewards_products_and_mint_inflation ::
    "(Address \<Rightarrow> string) \<Rightarrow> PosParams \<Rightarrow> epoch \<Rightarrow> u64 \<Rightarrow> Amount \<Rightarrow> pos_ledger \<Rightarrow> rewards_error + pos_ledger" where
  "update_rewards_products_and_mint_inflation encode params last_epoch num_blocks_in_last_epoch inflation s =
     rbind (rfold (reward_step params last_epoch num_blocks_in_last_epoch inflation s) (Dec_zero, inflation, [])
              (sort_key (encode \<circ> fst) (rewards_accumulator s))) (\<lambda>(_, reward_tokens_remaining, new_rewards_products).
     rbind (rfold (write_reward last_epoch) s new_rewards_products) (\<lambda>s1.
     rbind (arith_of (Amount_checked_sub inflation reward_tokens_remaining)) (\<lambda>pos_reward_tokens.
     rbind (credit_to POS pos_reward_tokens s1) (\<lambda>s2.
     rbind (if reward_tokens_remaining > Amount_zero then credit_to PGF reward_tokens_remaining s2 else Inr s2) (\<lambda>s3.
     Inr (s3\<lparr>rewards_accumulator := []\<rparr>))))))"

definition apply_inflation :: "(Address \<Rightarrow> string) \<Rightarrow> u64 \<Rightarrow> epoch \<Rightarrow> u64 \<Rightarrow> pos_ledger \<Rightarrow> rewards_error + pos_ledger" where
  "apply_inflation encode epochs_per_year last_epoch num_blocks_in_last_epoch s =
     (let params = lg_params s
      in rbind (case fst (get_effective_total_native_supply (native_token s) (lg_tokens s)) of
                  Inl _ \<Rightarrow> Inl SupplyPanic | Inr a \<Rightarrow> Inr a) (\<lambda>total_tokens.
         rbind (pos_result (read_total_stake params last_epoch (lg_sets s))) (\<lambda>locked_amount.
         rbind (ok_or (last_staked_ratio s) InflationParameterMissing) (\<lambda>staked_ratio.
         rbind (ok_or (last_pos_inflation_amount s) InflationParameterMissing) (\<lambda>last_inflation.
         rbind (compute_inflation locked_amount
                  \<lparr>total_native_amount = amount_raw total_tokens, max_reward_rate = max_inflation_rate params,
                   last_inflation_amount = amount_raw last_inflation, p_gain_nom = rewards_gain_p params, d_gain_nom = rewards_gain_d params,
                   pd_epochs_per_year = epochs_per_year, target_metric = target_staked_ratio params, last_metric = staked_ratio\<rparr>) (\<lambda>inflation.
         rbind (update_rewards_products_and_mint_inflation encode params last_epoch num_blocks_in_last_epoch inflation s) (\<lambda>s1.
         rbind (dec_amount locked_amount) (\<lambda>locked.
         rbind (dec_amount total_tokens) (\<lambda>total_amount.
         rbind (arith_of (Dec_checked_div locked total_amount)) (\<lambda>locked_ratio.
         Inr (s1\<lparr>last_staked_ratio := Some locked_ratio, last_pos_inflation_amount := Some inflation\<rparr>)))))))))))"

section \<open>Claims\<close>

definition bond_part_for_rewards :: "PosParams \<Rightarrow> Address \<Rightarrow> Address \<Rightarrow> epoch \<Rightarrow> epoch \<Rightarrow> Amount \<Rightarrow> pos_ledger \<Rightarrow> pos_error + Amount" where
  "bond_part_for_rewards params source validator ep start amount s =
     rbind (rfilter (\<lambda>x. rbind (processed_by params (slash_epoch x) ep) (\<lambda>b. Inr (b \<and> start \<le> slash_epoch x)))
              (validator_slashes s validator)) (\<lambda>list_slashes.
     rbind (fold_and_slash_redelegated_bonds (validator_slashes s) params (redelegations_at (redelegated_bonds s source validator) start) start
              list_slashes (\<lambda>e. processed_by params e ep)) (\<lambda>result_fold.
     rbind (minus_amount amount (total_redelegated result_fold)) (\<lambda>total_not_redelegated.
     rbind (apply_list_slashes params list_slashes total_not_redelegated) (\<lambda>after_not_redelegated.
     plus_amount after_not_redelegated (total_after_slashing result_fold)))))"

definition bond_amounts_for_rewards :: "Address \<Rightarrow> Address \<Rightarrow> epoch \<Rightarrow> epoch \<Rightarrow> pos_ledger \<Rightarrow> pos_error + (epoch, Amount) btree_map" where
  "bond_amounts_for_rewards source validator claim_start claim_end s =
     (let params = lg_params s; bond_list = bond_entries (pipeline_len params) (bonds s source validator)
      in rbind (rfold (\<lambda>amounts (start, delta).
                  rfold (\<lambda>amounts ep.
                     if start \<le> ep
                     then let inner = (case map_of amounts ep of None \<Rightarrow> [] | Some m \<Rightarrow> m)
                          in rbind (bt_add start delta inner) (\<lambda>m. Inr (bt_insert ep m amounts))
                     else Inr amounts)
                    amounts [claim_start..<Suc claim_end]) [] bond_list) (\<lambda>amounts.
         rfold (\<lambda>result (ep, inner).
            rbind (rfold (\<lambda>l (start, amount).
                     rbind (bond_part_for_rewards params source validator ep start amount s) (\<lambda>a. Inr (l @ [a]))) [] inner) (\<lambda>l.
            rbind (sum_amounts l) (\<lambda>t.
            Inr (bt_insert ep t result)))) [] amounts))"

definition compute_current_rewards_from_bonds :: "Address \<Rightarrow> Address \<Rightarrow> epoch \<Rightarrow> pos_ledger \<Rightarrow> rewards_error + Amount" where
  "compute_current_rewards_from_bonds source validator current_epoch s =
     (if current_epoch = 0 then Inr Amount_zero
      else
        let last_claim_epoch = last_reward_claims s source validator
        in if last_claim_epoch = Some current_epoch then Inr Amount_zero
           else
             rbind (pos_result (bond_amounts_for_rewards source validator (case last_claim_epoch of None \<Rightarrow> 0 | Some e \<Rightarrow> e)
                      (current_epoch - 1) s)) (\<lambda>bond_amounts.
             rfold (\<lambda>reward_tokens (ep, bond_amount).
                rbind (floor_share bond_amount (case rewards_products s validator ep of None \<Rightarrow> Dec_zero | Some d \<Rightarrow> d)) (\<lambda>reward.
                arith_of (Amount_checked_add reward_tokens reward))) Amount_zero bond_amounts))"

definition claim_reward_tokens :: "Address option \<Rightarrow> Address \<Rightarrow> epoch \<Rightarrow> pos_ledger \<Rightarrow> rewards_error + Amount \<times> pos_ledger" where
  "claim_reward_tokens source_opt validator current_epoch s =
     (let source = (case source_opt of Some x \<Rightarrow> x | None \<Rightarrow> validator)
      in rbind (compute_current_rewards_from_bonds source validator current_epoch s) (\<lambda>from_bonds.
         let (counter_rewards, s1) = take_rewards_from_counter source validator s
         in rbind (arith_of (Amount_checked_add from_bonds counter_rewards)) (\<lambda>reward_tokens.
            let s2 = s1\<lparr>last_reward_claims := (last_reward_claims s1)(source := (last_reward_claims s1 source)(validator \<mapsto> current_epoch))\<rparr>
            in rbind (pos_result (token_transfer POS source reward_tokens s2)) (\<lambda>s3.
               Inr (reward_tokens, s3)))))"

definition query_reward_tokens :: "Address option \<Rightarrow> Address \<Rightarrow> epoch \<Rightarrow> pos_ledger \<Rightarrow> rewards_error + Amount" where
  "query_reward_tokens source_opt validator current_epoch s =
     (let source = (case source_opt of Some x \<Rightarrow> x | None \<Rightarrow> validator)
      in rbind (compute_current_rewards_from_bonds source validator current_epoch s) (\<lambda>from_bonds.
         arith_of (Amount_checked_add from_bonds (read_rewards_counter source validator s))))"

section \<open>Inflation is bounded\<close>

lemma pos_result_Inr [simp]: "pos_result r = Inr x \<longleftrightarrow> r = Inr x"
  by (cases r) (simp_all add: pos_result_def)

lemma arith_of_Inr [simp]: "arith_of m = Inr x \<longleftrightarrow> m = Some x"
  by (cases m) (simp_all add: arith_of_def)

lemma floor_share_Inr [simp]: "floor_share a d = Inr b \<longleftrightarrow> Amount_mul_floor a d = Inr b"
  by (cases "Amount_mul_floor a d") (simp_all add: floor_share_def)

lemma Dec_try_from_uint_eq: "Dec_try_from_uint u = dec_checked (int (unat u) * 10 ^ 12)"
  by (auto simp: Dec_try_from_uint_def I256_try_from_uint_eq i256_checked_def I256_checked_mul_eq I256_inv_of i256_val_of
      dec_checked_alt)

lemma Dec_amount_val: "dec_amount a = Inr d \<Longrightarrow> Dec_inv d \<and> dec_val d = int (amount_val a) * 10 ^ 6"
  by (simp add: dec_amount_def ok_or_Inr_iff Dec_try_from_Amount_eq dec_checked_Some)

lemma Dec_uint_val: "Dec_try_from_uint u = Some d \<Longrightarrow> Dec_inv d \<and> dec_val d = int (unat u) * 10 ^ 12"
  by (simp add: Dec_try_from_uint_eq dec_checked_Some)

lemma Dec_u64_val: "Dec_from_u64 n = Some d \<Longrightarrow> Dec_inv d \<and> dec_val d = int (unat n) * 10 ^ 12"
proof -
  assume "Dec_from_u64 n = Some d"
  then have d: "d = dec_of (int (unat n) * 10 ^ 12)" by (simp add: Dec_from_u64_eq)
  have "unat n < 2 ^ 64" using unsigned_less [of n] by simp
  then have "unat n * 10 ^ 12 < 2 ^ 255" by simp
  then have "int (unat n * 10 ^ 12) < int (2 ^ 255)" by (simp only: of_nat_less_iff)
  then have "\<bar>int (unat n) * 10 ^ 12\<bar> < 2 ^ 255" by simp
  then show ?thesis unfolding d by (simp add: Dec_inv_of dec_val_of)
qed

lemma Dec_mul_val:
  assumes "Dec_checked_mul a b = Some d" "Dec_inv a" "Dec_inv b"
  shows "Dec_inv d \<and> dec_val d = tdiv (dec_val a * dec_val b) (10 ^ 12)"
proof -
  have fit: "\<bar>dec_val a * dec_val b\<bar> < 2 ^ 255" and d: "d = dec_of (tdiv (dec_val a * dec_val b) (10 ^ 12))"
    using assms by (auto simp: Dec_checked_mul_eq split: if_splits)
  then have "\<bar>tdiv (dec_val a * dec_val b) (10 ^ 12)\<bar> < 2 ^ 255" using abs_tdiv_le [of "dec_val a * dec_val b" "10 ^ 12"] by linarith
  then show ?thesis unfolding d by (simp add: Dec_inv_of dec_val_of)
qed

lemma Dec_div_val:
  assumes "Dec_checked_div a b = Some d" "Dec_inv a" "Dec_inv b"
  shows "dec_val b \<noteq> 0" "Dec_inv d" "dec_val d = tdiv (dec_val a * 10 ^ 12) (dec_val b)"
  using assms by (auto simp: Dec_checked_div_def Dec_trunc_div_eq dec_checked_Some split: if_splits)

lemma Dec_add_val: "Dec_checked_add a b = Some d \<Longrightarrow> Dec_inv a \<Longrightarrow> Dec_inv b \<Longrightarrow> Dec_inv d \<and> dec_val d = dec_val a + dec_val b"
  by (simp add: Dec_checked_add_eq dec_checked_Some)

lemma Dec_sub_val: "Dec_checked_sub a b = Some d \<Longrightarrow> Dec_inv a \<Longrightarrow> Dec_inv b \<Longrightarrow> Dec_inv d \<and> dec_val d = dec_val a - dec_val b"
  by (simp add: Dec_checked_sub_eq dec_checked_Some)

lemma Dec_to_uint_val:
  assumes "Dec_to_uint d = Some u" "Dec_inv d"
  shows "0 \<le> dec_val d" "unat u = nat (dec_val d) div 10 ^ 12"
proof -
  have u: "u = of_nat (nat (dec_val d) div 10 ^ 12)" and nn: "0 \<le> dec_val d" using assms by (auto simp: Dec_to_uint_eq split: if_splits)
  have "nat (dec_val d) < 2 ^ 255" using assms(2) nn by (simp add: Dec_inv_val nat_less_iff)
  then have "nat (dec_val d) div 10 ^ 12 < 2 ^ 256" by simp
  then show "unat u = nat (dec_val d) div 10 ^ 12" unfolding u by (simp add: unat_of_nat_lt)
  show "0 \<le> dec_val d" by (rule nn)
qed

lemma get_max_inflation_le:
  assumes r: "get_max_inflation c = Inr m" and rate: "Dec_inv (max_reward_rate c)" "0 \<le> dec_val (max_reward_rate c)"
  shows "unat m = unat (total_native_amount c) * nat (dec_val (max_reward_rate c)) div unat (pd_epochs_per_year c) div 10 ^ 12"
proof -
  let ?T = "unat (total_native_amount c)" and ?r = "dec_val (max_reward_rate c)" and ?n = "unat (pd_epochs_per_year c)"
  obtain t e x y where t: "Dec_try_from_uint (total_native_amount c) = Some t" and e: "Dec_from_u64 (pd_epochs_per_year c) = Some e"
    and x: "Dec_checked_mul t (max_reward_rate c) = Some x" and y: "Dec_checked_div x e = Some y" and m: "Dec_to_uint y = Some m"
    using r by (auto simp: get_max_inflation_def get_total_native_dec_def rbind_Inr_iff ok_or_Inr_iff)
  note tv = Dec_uint_val [OF t] and ev = Dec_u64_val [OF e]
  note xv = Dec_mul_val [OF x conjunct1 [OF tv] rate(1)]
  note yv = Dec_div_val [OF y conjunct1 [OF xv] conjunct1 [OF ev]]
  have "dec_val x = int ?T * ?r" using xv tv rate(2) by (simp add: tdiv_nonneg)
  moreover have "0 < ?n" using yv(1) ev by (simp add: unat_gt_0 del: of_nat_unat)
  ultimately have "dec_val y = int ?T * ?r div int ?n" using yv(3) ev rate(2) by (simp add: tdiv_nonneg del: of_nat_unat)
  then have "dec_val y = int (?T * nat ?r div ?n)" using rate(2) by (simp add: zdiv_int del: of_nat_unat)
  then have "nat (dec_val y) = ?T * nat ?r div ?n" by simp
  then show ?thesis using Dec_to_uint_val(2) [OF m yv(2)] by simp
qed

lemma compute_inflation_aux_le:
  assumes "compute_inflation_aux c control = Inr u"
  obtains m where "get_max_inflation c = Inr m" "u \<le> m"
  using assms by (auto simp: compute_inflation_aux_def rbind_Inr_iff)

lemma compute_inflation_cases:
  assumes "compute_inflation locked c = Inr a"
  obtains l t metric coeff u where "dec_amount locked = Inr l" "Dec_try_from_uint (total_native_amount c) = Some t"
    "Dec_checked_div l t = Some metric" "PDController_compute_inflation c coeff metric = Inr u" "a = Amount u"
  using assms
  by (auto simp: compute_inflation_def get_total_native_dec_def rbind_Inr_iff ok_or_Inr_iff Amount_from_uint_def)

text \<open>
  C14: The inflation of an epoch never exceeds the share of the maximal yearly rate: whatever the gains, the staked ratio and the
  previous inflation are, the tokens minted are at most total supply times maximal rate, divided by the number of epochs per year
  (rounded down).
\<close>

theorem inflation_bounded:
  assumes ok: "compute_inflation locked c = Inr a"
    and rate: "Dec_inv (max_reward_rate c)" "0 \<le> dec_val (max_reward_rate c)"
  shows "amount_val a \<le> unat (total_native_amount c) * nat (dec_val (max_reward_rate c)) div unat (pd_epochs_per_year c) div 10 ^ 12"
proof -
  obtain metric coeff u where u: "PDController_compute_inflation c coeff metric = Inr u" "a = Amount u"
    using ok by (rule compute_inflation_cases)
  obtain control where "compute_inflation_aux c control = Inr u" using u(1) by (auto simp: PDController_compute_inflation_def rbind_Inr_iff)
  then obtain m where "get_max_inflation c = Inr m" "u \<le> m" by (rule compute_inflation_aux_le)
  then show ?thesis using get_max_inflation_le [OF _ rate] u(2) by (simp add: amount_val_def word_le_nat_alt)
qed

definition sample_controller :: PDController where
  "sample_controller =
     \<lparr>total_native_amount = 4000000000, max_reward_rate = dec_of 100000000000, last_inflation_amount = 0, p_gain_nom = dec_of 100000000000,
      d_gain_nom = dec_of 200000000000, pd_epochs_per_year = 365, target_metric = dec_of 666600000000, last_metric = dec_of 250000000000\<rparr>"

definition sample_inflation :: Amount where
  "sample_inflation = Amount 18257"

lemma small_dec_sub: "\<bar>a\<bar> < 2 ^ 100 \<Longrightarrow> \<bar>b\<bar> < 2 ^ 100 \<Longrightarrow> Dec_checked_sub (dec_of a) (dec_of b) = Some (dec_of (a - b))"
  by (simp add: Dec_checked_sub_eq Dec_inv_of dec_val_of dec_checked_def)

lemma Dec_is_negative_iff: "Dec_is_negative d \<longleftrightarrow> dec_val d < 0"
  by (simp add: Dec_is_negative_def I256_is_negative_val dec_val_def)

lemmas small_dec = small_dec_ops small_dec_sub

lemma sample_controller_parts:
  "dec_amount (Amount 2000000000) = Inr (dec_of 2000000000000000)"
  "Dec_try_from_uint 4000000000 = Some (dec_of 4000000000000000000000)" "Dec_try_from_uint 0 = Some (dec_of 0)"
  "Dec_from_u64 365 = Some (dec_of 365000000000000)"
  "Dec_to_uint (dec_of 18257589041095890) = Some 18257" "Dec_to_uint (dec_of 1095890410958904109) = Some 1095890"
  by (simp_all add: dec_amount_def Dec_try_from_Amount_eq amount_val_def Dec_try_from_uint_eq dec_checked_def Dec_from_u64_eq
      Dec_to_uint_eq Dec_inv_of dec_val_of)

lemma sample_inflation_ok: "compute_inflation (Amount 2000000000) sample_controller = Inr sample_inflation"
  by (simp add: compute_inflation_def sample_controller_def get_total_native_dec_def sample_controller_parts small_dec tdiv_def arith_of_def
      PDController_compute_inflation_def compute_control_def compute_inflation_aux_def get_max_inflation_def Dec_is_negative_iff Dec_inv_of dec_val_of
      Amount_from_uint_def sample_inflation_def)

lemma sample_controller_rate: "Dec_inv (max_reward_rate sample_controller)" "0 \<le> dec_val (max_reward_rate sample_controller)"
  by (simp_all add: sample_controller_def Dec_inv_of dec_val_of)

theorem inflation_bounded_witness:
  "compute_inflation (Amount 2000000000) sample_controller = Inr sample_inflation \<and>
   amount_val sample_inflation \<le> unat (total_native_amount sample_controller) * nat (dec_val (max_reward_rate sample_controller))
     div unat (pd_epochs_per_year sample_controller) div 10 ^ 12"
  using inflation_bounded [OF sample_inflation_ok sample_controller_rate] sample_inflation_ok by simp

text \<open>
  C34: The staked ratio that \<open>compute_inflation\<close> hands to the controller is a million times too small. The locked amount is
  converted from micro units to whole tokens, the total supply is not, so a controller that is meant to see \<open>locked / total\<close> sees
  that ratio divided by ten to the sixth. (The ratio saved for the next epoch, the \<open>last_metric\<close>, has the right scale. With equal
  gains, as in the default parameters, the current ratio cancels out.)
\<close>

theorem inflation_metric_off_by_a_million:
  assumes "compute_inflation locked c = Inr a"
  shows "\<exists>metric coeff u. Dec_inv metric \<and> dec_val metric = int (amount_val locked * 10 ^ 6 div unat (total_native_amount c)) \<and>
    PDController_compute_inflation c coeff metric = Inr u \<and> a = Amount u"
proof -
  obtain l t metric coeff u where l: "dec_amount locked = Inr l" and t: "Dec_try_from_uint (total_native_amount c) = Some t"
    and m: "Dec_checked_div l t = Some metric" and u: "PDController_compute_inflation c coeff metric = Inr u" "a = Amount u"
    using assms by (rule compute_inflation_cases)
  note lv = Dec_amount_val [OF l] and tv = Dec_uint_val [OF t]
  note mv = Dec_div_val [OF m conjunct1 [OF lv] conjunct1 [OF tv]]
  let ?T = "unat (total_native_amount c)"
  have pos: "0 < int ?T" using mv(1) tv by (cases "?T = 0") (simp_all del: of_nat_unat)
  then have "dec_val metric = int (amount_val locked) * 10 ^ 6 * 10 ^ 12 div (int ?T * 10 ^ 12)"
    using mv(3) lv tv by (simp add: tdiv_nonneg del: of_nat_unat)
  also have "\<dots> = int (amount_val locked) * 10 ^ 6 div int ?T" by (rule div_mult_mult2) simp
  also have "\<dots> = int (amount_val locked * 10 ^ 6 div ?T)" by (simp add: zdiv_int del: of_nat_unat)
  finally show ?thesis using mv(2) u by blast
qed

theorem inflation_metric_off_by_a_million_witness:
  "(\<exists>metric coeff u. Dec_inv metric \<and>
      dec_val metric = int (amount_val (Amount 2000000000) * 10 ^ 6 div unat (total_native_amount sample_controller)) \<and>
      PDController_compute_inflation sample_controller coeff metric = Inr u \<and> sample_inflation = Amount u) \<and>
   amount_val (Amount 2000000000) * 10 ^ 6 div unat (total_native_amount sample_controller) = 500000"
  using inflation_metric_off_by_a_million [OF sample_inflation_ok] by (simp add: sample_controller_def amount_val_def)

section \<open>Claims are covered by what was minted\<close>

lemma Dec_one_val: "Dec_one = Some d \<Longrightarrow> Dec_inv d \<and> dec_val d = 10 ^ 12"
  by (auto simp: Dec_constants Dec_inv_of dec_val_of)

lemma Amount_mul_floor_val:
  assumes "Amount_mul_floor a d = Inr b" "Dec_inv d" "0 \<le> dec_val d"
  shows "amount_val b = amount_val a * nat (dec_val d) div 10 ^ 12"
  using assms by (auto simp: Amount_mul_floor_eq amount_val_of split: if_splits)

lemma validator_rewards_val:
  assumes ok: "validator_rewards rate stake R = Inr rw" and rate: "Dec_inv rate" "0 \<le> dec_val rate" "dec_val rate \<le> 10 ^ 12"
    and stake: "Dec_inv stake" "dec_val stake = int S * 10 ^ 6"
  shows "0 < S" "Dec_inv (reward_product rw)"
    "dec_val (reward_product rw) = (10 ^ 12 - dec_val rate) * (int (amount_val R) * 10 ^ 6) div 10 ^ 12 * 10 ^ 12 div (int S * 10 ^ 6)"
    "amount_val (reward_commissions rw) = amount_val R * nat (dec_val rate) div 10 ^ 12"
proof -
  obtain t one k x p c where t: "dec_amount R = Inr t" and one: "Dec_one = Some one" and k: "Dec_checked_sub one rate = Some k"
    and x: "Dec_checked_mul k t = Some x" and p: "Dec_checked_div x stake = Some p" and c: "Amount_mul_floor R rate = Inr c"
    and rw: "rw = \<lparr>reward_product = p, reward_commissions = c\<rparr>"
    using ok by (auto simp: validator_rewards_def rbind_Inr_iff)
  note tv = Dec_amount_val [OF t] and ov = Dec_one_val [OF one]
  note kv = Dec_sub_val [OF k conjunct1 [OF ov] rate(1)]
  note xv = Dec_mul_val [OF x conjunct1 [OF kv] conjunct1 [OF tv]]
  note pv = Dec_div_val [OF p conjunct1 [OF xv] stake(1)]
  have x': "dec_val x = (10 ^ 12 - dec_val rate) * (int (amount_val R) * 10 ^ 6) div 10 ^ 12"
    using xv kv tv ov rate(3) by (simp add: tdiv_nonneg)
  have nn: "0 \<le> dec_val x * 10 ^ 12" unfolding x' using rate(3) by (simp add: pos_imp_zdiv_nonneg_iff)
  show S: "0 < S" using pv(1) stake(2) by (cases S) simp_all
  show "Dec_inv (reward_product rw)" by (simp add: rw pv(2))
  show "dec_val (reward_product rw) = (10 ^ 12 - dec_val rate) * (int (amount_val R) * 10 ^ 6) div 10 ^ 12 * 10 ^ 12 div (int S * 10 ^ 6)"
    using pv(3) nn S unfolding x' [symmetric] stake(2) rw by (simp add: tdiv_nonneg)
  show "amount_val (reward_commissions rw) = amount_val R * nat (dec_val rate) div 10 ^ 12"
    using Amount_mul_floor_val [OF c rate(1,2)] by (simp add: rw)
qed

lemma floor_add_le: "a div d + b div d \<le> (a + b) div (d::nat)"
  by (simp add: div_add1_eq [of a b d])

lemma int_div_mult_le: "0 < b \<Longrightarrow> a div b * b \<le> (a::int)"
  using pos_mod_sign [of b a] div_mult_mod_eq [of a b] by linarith

lemma sum_floor_le: "(\<Sum>b\<leftarrow>bs. f b * k div (d::nat)) \<le> (\<Sum>b\<leftarrow>bs. f b) * k div d"
proof (induction bs)
  case (Cons b bs)
  then have "(\<Sum>b\<leftarrow>b # bs. f b * k div d) \<le> f b * k div d + (\<Sum>b\<leftarrow>bs. f b) * k div d" by simp
  also have "\<dots> \<le> (f b * k + (\<Sum>b\<leftarrow>bs. f b) * k) div d" by (rule floor_add_le)
  finally show ?case by (simp add: add_mult_distrib)
qed simp

text \<open>
  C12: What is minted for a validator covers everything that is later paid out for it. When the reward product and the commissions of
  an epoch are computed from the reward tokens \<open>R\<close> and the stake of the validator, the rewards of any bonds that add up to at most
  this stake, each rounded down by \<open>mul_floor\<close>, plus the commissions, are at most \<open>R\<close>.
\<close>

theorem claims_covered:
  assumes ok: "validator_rewards rate stake R = Inr rw" and rate: "Dec_inv rate" "0 \<le> dec_val rate" "dec_val rate \<le> 10 ^ 12"
    and stake: "dec_amount S = Inr stake"
    and bonds: "sum_list (map amount_val bs) \<le> amount_val S"
    and paid: "list_all2 (\<lambda>b r. Amount_mul_floor b (reward_product rw) = Inr r) bs rs"
  shows "sum_list (map amount_val rs) + amount_val (reward_commissions rw) \<le> amount_val R"
proof -
  note sv = Dec_amount_val [OF stake]
  note v = validator_rewards_val [OF ok rate conjunct1 [OF sv] conjunct2 [OF sv]]
  define P K where "P = dec_val (reward_product rw)" and "K = 10 ^ 12 - dec_val rate"
  define x where "x = K * (int (amount_val R) * 10 ^ 6) div 10 ^ 12"
  have P: "P = x * 10 ^ 12 div (int (amount_val S) * 10 ^ 6)" using v(3) by (simp add: P_def K_def x_def)
  have x0: "0 \<le> x" using rate(3) by (simp add: x_def K_def pos_imp_zdiv_nonneg_iff)
  then have P0: "0 \<le> P" using v(1) by (simp add: P pos_imp_zdiv_nonneg_iff)
  have "P * (int (amount_val S) * 10 ^ 6) \<le> x * 10 ^ 12" unfolding P by (rule int_div_mult_le) (use v(1) in simp)
  also have "\<dots> \<le> K * (int (amount_val R) * 10 ^ 6)" by (simp add: x_def)
  finally have "P * int (amount_val S) \<le> K * int (amount_val R)" by simp
  then have "int (amount_val S * nat P) \<le> int (amount_val R * nat K)" using P0 rate(3) by (simp add: K_def mult.commute)
  then have le: "amount_val S * nat P \<le> amount_val R * nat K" by (simp only: of_nat_le_iff)
  have "map amount_val rs = map (\<lambda>b. amount_val b * nat P div 10 ^ 12) bs"
    using paid Amount_mul_floor_val [OF _ v(2)] P0 by (induction rule: list_all2_induct) (simp_all add: P_def)
  then have "sum_list (map amount_val rs) \<le> sum_list (map amount_val bs) * nat P div 10 ^ 12" by (simp only: sum_floor_le)
  also have "\<dots> \<le> amount_val S * nat P div 10 ^ 12" by (intro div_le_mono mult_right_mono bonds) simp
  also have "\<dots> \<le> amount_val R * nat K div 10 ^ 12" by (intro div_le_mono le)
  finally have "sum_list (map amount_val rs) + amount_val (reward_commissions rw) \<le>
      amount_val R * nat K div 10 ^ 12 + amount_val R * nat (dec_val rate) div 10 ^ 12" using v(4) by simp
  also have "\<dots> \<le> (amount_val R * nat K + amount_val R * nat (dec_val rate)) div 10 ^ 12" by (rule floor_add_le)
  also have "\<dots> = amount_val R * (nat K + nat (dec_val rate)) div 10 ^ 12" by (simp add: distrib_left)
  also have "nat K + nat (dec_val rate) = 10 ^ 12" using rate by (simp add: K_def)
  finally show ?thesis by simp
qed

definition sample_rewards :: Rewards where
  "sample_rewards = \<lparr>reward_product = dec_of 316666666666, reward_commissions = amount_of 50\<rparr>"

lemma sample_validator_rewards: "validator_rewards (dec_of 50000000000) (dec_of 3000000000) (amount_of 1000) = Inr sample_rewards"
  by (simp add: validator_rewards_def dec_amount_def Dec_try_from_Amount_eq amount_val_of dec_checked_def Dec_constants arith_of_def
      small_dec tdiv_def floor_share_def Amount_mul_floor_eq Dec_inv_of dec_val_of sample_rewards_def)

theorem claims_covered_witness:
  "validator_rewards (dec_of 50000000000) (dec_of 3000000000) (amount_of 1000) = Inr sample_rewards \<and>
   sum_list (map amount_val [amount_of 316, amount_of 633]) + amount_val (reward_commissions sample_rewards) \<le> amount_val (amount_of 1000)"
  using claims_covered [OF sample_validator_rewards, of "amount_of 3000" "[amount_of 1000, amount_of 2000]" "[amount_of 316, amount_of 633]"]
    sample_validator_rewards
  by (simp add: Dec_inv_of dec_val_of amount_val_of dec_amount_def Dec_try_from_Amount_eq dec_checked_def sample_rewards_def Amount_mul_floor_eq)

section \<open>Minting the inflation\<close>

definition accumulated_reward :: "u64 \<Rightarrow> Amount \<Rightarrow> Dec \<Rightarrow> nat" where
  "accumulated_reward blocks inflation value = amount_val inflation * (nat (dec_val value) div unat blocks) div 10 ^ 12"

lemma reward_step_remaining:
  assumes ok: "reward_step params e blocks inflation s (acc, rem, prods) (v, value) = Inr (acc', rem', prods')"
    and val: "Dec_inv value" "0 \<le> dec_val value"
  shows "amount_val rem' + accumulated_reward blocks inflation value = amount_val rem"
proof -
  obtain b frac r where b: "Dec_from_u64 blocks = Some b" and frac: "Dec_checked_div value b = Some frac"
    and r: "Amount_mul_floor inflation frac = Inr r" and rem: "Amount_checked_sub rem r = Some rem'"
    using ok by (auto simp: reward_step_def rbind_Inr_iff)
  note bv = Dec_u64_val [OF b]
  note fv = Dec_div_val [OF frac val(1) conjunct1 [OF bv]]
  have pos: "0 < int (unat blocks)" using fv(1) bv by (cases "unat blocks = 0") (simp_all del: of_nat_unat)
  then have "dec_val frac = dec_val value * 10 ^ 12 div (int (unat blocks) * 10 ^ 12)"
    using fv(3) bv val(2) by (simp add: tdiv_nonneg del: of_nat_unat)
  also have "\<dots> = dec_val value div int (unat blocks)" by (rule div_mult_mult2) simp
  also have "\<dots> = int (nat (dec_val value) div unat blocks)" using val(2) by (simp add: zdiv_int del: of_nat_unat)
  finally have f: "dec_val frac = int (nat (dec_val value) div unat blocks)" .
  have "amount_val r = accumulated_reward blocks inflation value"
    using Amount_mul_floor_val [OF r fv(2)] by (simp add: f accumulated_reward_def)
  then show ?thesis using rem amount_val_lt [of rem] by (auto simp: Amount_checked_sub_eq amount_val_of split: if_splits)
qed

lemma reward_steps_remaining:
  assumes "rfold (reward_step params e blocks inflation s) (acc, rem, prods) entries = Inr (acc', rem', prods')"
    and "\<forall>(v, value) \<in> set entries. Dec_inv value \<and> 0 \<le> dec_val value"
  shows "amount_val rem' + (\<Sum>(v, value)\<leftarrow>entries. accumulated_reward blocks inflation value) = amount_val rem"
  using assms
proof (induction entries arbitrary: acc rem prods)
  case (Cons entry entries)
  obtain v d where entry: "entry = (v, d)" by (cases entry)
  obtain acc1 rem1 prods1 where step: "reward_step params e blocks inflation s (acc, rem, prods) (v, d) = Inr (acc1, rem1, prods1)"
    and rest: "rfold (reward_step params e blocks inflation s) (acc1, rem1, prods1) entries = Inr (acc', rem', prods')"
    using Cons.prems(1) by (auto simp: entry rbind_Inr_iff)
  have "amount_val rem1 + accumulated_reward blocks inflation d = amount_val rem"
    by (rule reward_step_remaining [OF step]) (use Cons.prems(2) entry in auto)
  then show ?case using Cons.IH [OF rest] Cons.prems(2) by (simp add: entry)
qed simp

lemma write_rewards_keep:
  assumes "rfold (write_reward e) s l = Inr s1"
  shows "lg_tokens s1 = lg_tokens s \<and> native_token s1 = native_token s"
  using assms
proof (induction l arbitrary: s)
  case (Cons x l)
  obtain s0 where "write_reward e s x = Inr s0" "rfold (write_reward e) s0 l = Inr s1" using Cons.prems by (auto simp: rbind_Inr_iff)
  then show ?case using Cons.IH by (fastforce simp: write_reward_def add_rewards_to_counter_def rbind_Inr_iff split: prod.splits)
qed simp

lemma credit_to_effect:
  assumes ok: "credit_to dest amount s = Inr s'" and inv: "supply_inv (lg_tokens s)"
  shows "supply_inv (lg_tokens s')" "native_token s' = native_token s"
    "bal (lg_tokens s') (native_token s) a = bal (lg_tokens s) (native_token s) a + (if a = dest then amount_val amount else 0)"
    "minted (lg_tokens s') (native_token s) = minted (lg_tokens s) (native_token s) + amount_val amount"
proof -
  obtain t where t: "credit_tokens (native_token s) dest amount (lg_tokens s) = (Inr (), t)" and s': "s' = s\<lparr>lg_tokens := t\<rparr>"
    using ok by (auto simp: credit_to_def split: sum.splits prod.splits)
  have typed: "tokens_typed (lg_tokens s)" using inv by (simp add: supply_inv_def)
  note lt = credit_tokens_ok [OF typed t]
  show "supply_inv (lg_tokens s')" using credit_keeps_supply [OF inv t] by (simp add: s')
  show "native_token s' = native_token s" by (simp add: s')
  show "bal (lg_tokens s') (native_token s) a = bal (lg_tokens s) (native_token s) a + (if a = dest then amount_val amount else 0)"
    "minted (lg_tokens s') (native_token s) = minted (lg_tokens s) (native_token s) + amount_val amount"
    using credit_tokens_eq [OF typed conjunct1 [OF lt] conjunct2 [OF lt]] t lt by (auto simp: s')
qed

text \<open>
  C10: The inflation of an epoch is minted exactly once and completely. The proof-of-stake account receives the sum of the
  validators' shares (the inflation times the average of their per-block fractions, rounded down), the PGF account receives the
  whole rest, the recorded total supply grows by exactly the inflation, no other balance changes, the supply still equals the sum of
  all balances, and the accumulators are cleared for the next epoch.
\<close>

theorem mints_exactly_the_inflation:
  assumes ok: "update_rewards_products_and_mint_inflation encode params e blocks inflation s = Inr s'"
    and inv: "supply_inv (lg_tokens s)" and vals: "\<forall>(v, d) \<in> set (rewards_accumulator s). Dec_inv d \<and> 0 \<le> dec_val d"
  defines "paid \<equiv> (\<Sum>(v, d)\<leftarrow>rewards_accumulator s. accumulated_reward blocks inflation d)"
    and "tok \<equiv> native_token s"
  shows "paid \<le> amount_val inflation \<and>
    (\<forall>a. bal (lg_tokens s') tok a = bal (lg_tokens s) tok a +
      (if a = POS then paid else if a = PGF then amount_val inflation - paid else 0)) \<and>
    minted (lg_tokens s') tok = minted (lg_tokens s) tok + amount_val inflation \<and>
    supply_inv (lg_tokens s') \<and> rewards_accumulator s' = []"
proof -
  let ?l = "sort_key (encode \<circ> fst) (rewards_accumulator s)"
  obtain acc rem prods s1 p s2 s3 where
    fold: "rfold (reward_step params e blocks inflation s) (Dec_zero, inflation, []) ?l = Inr (acc, rem, prods)"
    and s1: "rfold (write_reward e) s prods = Inr s1" and p: "Amount_checked_sub inflation rem = Some p"
    and s2: "credit_to POS p s1 = Inr s2"
    and s3: "(if rem > Amount_zero then credit_to PGF rem s2 else Inr s2) = Inr s3" and s': "s' = s3\<lparr>rewards_accumulator := []\<rparr>"
    using ok by (auto simp: update_rewards_products_and_mint_inflation_def rbind_Inr_iff)
  have split: "amount_val rem + paid = amount_val inflation"
    using reward_steps_remaining [OF fold] vals by (simp add: paid_def sum_list_sort_key)
  then have pv: "amount_val p = paid" using p amount_val_lt [of inflation] by (auto simp: Amount_checked_sub_eq amount_val_of split: if_splits)
  note kept = write_rewards_keep [OF s1]
  have inv1: "supply_inv (lg_tokens s1)" and tok1: "native_token s1 = tok" using kept inv by (simp_all add: tok_def)
  note c2 = credit_to_effect [OF s2 inv1, unfolded tok1]
  have c3: "supply_inv (lg_tokens s3) \<and> minted (lg_tokens s3) tok = minted (lg_tokens s2) tok + amount_val rem \<and>
      bal (lg_tokens s3) tok a = bal (lg_tokens s2) tok a + (if a = PGF then amount_val rem else 0)" for a
  proof (cases "rem > Amount_zero")
    case True
    then show ?thesis using credit_to_effect [of PGF rem s2 s3, unfolded c2(2)] c2(1) s3 by simp
  next
    case False
    then have "amount_val rem = 0" by (simp add: not_less amount_le_iff)
    then show ?thesis using False s3 c2(1) by simp
  qed
  have "POS \<noteq> PGF" by (simp add: POS_def PGF_def)
  then show ?thesis using c2(3,4) c3 split kept pv by (auto simp: s' tok_def)
qed

definition sample_rate :: "Dec epoched" where
  "sample_rate = \<lparr>lazy_map = [6 \<mapsto> dec_of 50000000000], last_update = Some 6, oldest_epoch = Some 6\<rparr>"

definition sample_earning :: pos_ledger where
  "sample_earning = (sample_to_slash sample_slash_params [])
     \<lparr>lg_tokens := Map.empty, rewards_accumulator := [(sample_validator, dec_of 1500000000000)],
      commission_rates := (\<lambda>_. epoched_open)(sample_validator := sample_rate)\<rparr>"

lemma sample_earning_fields:
  "rewards_accumulator sample_earning = [(sample_validator, dec_of 1500000000000)]" "lg_tokens sample_earning = Map.empty"
  "lg_sets sample_earning = lg_sets (sample_to_slash sample_slash_params [])" "rewards_counters sample_earning = (\<lambda>_. Map.empty)"
  "commission_rates sample_earning sample_validator = sample_rate"
  by (simp_all add: sample_earning_def sample_to_slash_def sample_ledger_def)

lemma sample_commission:
  "offset_of sample_slash_params OffsetDefaultNumPastEpochs = Inr 2" "epoched_get 2 2 sample_rate 6 = Inr (Some (dec_of 50000000000))"
  by (simp add: offset_of_def DEFAULT_NUM_PAST_EPOCHS_def)
    (simp add: sample_rate_def epoched_get_def sub_past_epochs_def unchecked_add_def u64_add_def get_loop.simps)

definition sample_minted :: "pos_ledger" where
  "sample_minted = sample_earning
     \<lparr>lg_tokens := [balance_key sample_token POS \<mapsto> AmountVal (amount_of 750), balance_key sample_token PGF \<mapsto> AmountVal (amount_of 250),
        minted_balance_key sample_token \<mapsto> AmountVal (amount_of 1000)],
      rewards_accumulator := [], rewards_products := (\<lambda>_. Map.empty)(sample_validator := [6 \<mapsto> dec_of 356250000]),
      rewards_counters := (\<lambda>_. Map.empty)(sample_validator := [sample_validator \<mapsto> amount_of 37])\<rparr>"

lemma sample_reward_step:
  "reward_step sample_slash_params 6 2 (amount_of 1000) sample_earning (Dec_zero, amount_of 1000, []) (sample_validator, dec_of 1500000000000) =
     Inr (dec_of 1500000000000, amount_of 250, [(sample_validator, \<lparr>reward_product = dec_of 356250000, reward_commissions = amount_of 37\<rparr>)])"
proof -
  have two: "Dec_from_u64 2 = Some (dec_of 2000000000000)" by (simp add: Dec_from_u64_eq)
  show ?thesis
    by (simp add: reward_step_def arith_of_def Dec_zero_of small_dec two tdiv_def floor_share_def Amount_mul_floor_eq Dec_inv_of dec_val_of amount_val_of
        sample_earning_fields sample_slash_stake pos_result_def dec_amount_def Dec_try_from_Amount_eq dec_checked_def sample_commission
        sample_slash_pipeline epoched_result_def validator_rewards_def Dec_constants Amount_checked_sub_eq)
qed
lemma sample_credits:
  "credit_tokens sample_token POS (amount_of 750) Map.empty =
     (Inr (), [balance_key sample_token POS \<mapsto> AmountVal (amount_of 750), minted_balance_key sample_token \<mapsto> AmountVal (amount_of 750)])"
  "credit_tokens sample_token PGF (amount_of 250)
       [balance_key sample_token POS \<mapsto> AmountVal (amount_of 750), minted_balance_key sample_token \<mapsto> AmountVal (amount_of 750)] =
     (Inr (), [balance_key sample_token POS \<mapsto> AmountVal (amount_of 750), balance_key sample_token PGF \<mapsto> AmountVal (amount_of 250),
        minted_balance_key sample_token \<mapsto> AmountVal (amount_of 1000)])"
proof -
  have typed: "tokens_typed Map.empty" using supply_inv_empty by (simp add: supply_inv_def)
  have zero: "bal Map.empty sample_token a = 0" "minted Map.empty sample_token = 0" for a by (simp_all add: key_amount_def)
  have ne: "POS \<noteq> PGF" by (simp add: POS_def PGF_def)
  show "credit_tokens sample_token POS (amount_of 750) Map.empty =
     (Inr (), [balance_key sample_token POS \<mapsto> AmountVal (amount_of 750), minted_balance_key sample_token \<mapsto> AmountVal (amount_of 750)])"
    using credit_tokens_eq [OF typed, of sample_token POS "amount_of 750"] by (simp add: zero amount_val_of)
  let ?m = "[balance_key sample_token POS \<mapsto> AmountVal (amount_of 750), minted_balance_key sample_token \<mapsto> AmountVal (amount_of 750)]"
  have m: "tokens_typed ?m" "bal ?m sample_token PGF = 0" "minted ?m sample_token = 750"
    using typed zero ne by (simp_all add: tokens_typed_upd amount_val_of)
  have "?m(balance_key sample_token PGF \<mapsto> x, minted_balance_key sample_token \<mapsto> y) =
      [balance_key sample_token POS \<mapsto> AmountVal (amount_of 750), balance_key sample_token PGF \<mapsto> x, minted_balance_key sample_token \<mapsto> y]" for x y
    by (auto simp: fun_eq_iff)
  then show "credit_tokens sample_token PGF (amount_of 250) ?m = 
     (Inr (), [balance_key sample_token POS \<mapsto> AmountVal (amount_of 750), balance_key sample_token PGF \<mapsto> AmountVal (amount_of 250),
        minted_balance_key sample_token \<mapsto> AmountVal (amount_of 1000)])"
    using credit_tokens_eq [OF m(1), of sample_token PGF "amount_of 250", unfolded m(2,3)] by (simp add: amount_val_of)
qed

lemma sample_mint_ok:
  "update_rewards_products_and_mint_inflation (\<lambda>_. []) sample_slash_params 6 2 (amount_of 1000) sample_earning = Inr sample_minted"
proof -
  have tok: "native_token sample_earning = sample_token" "rewards_products sample_earning = (\<lambda>_. Map.empty)"
    by (simp_all add: sample_earning_def sample_to_slash_def sample_ledger_def)
  have ne: "Amount_zero < amount_of 250" by (simp add: amount_less_iff amount_val_of)
  have none: "amount_val (unwrap_or_default None) = 0" by (simp add: unwrap_or_default_def)
  show ?thesis
    by (simp add: update_rewards_products_and_mint_inflation_def sample_earning_fields sample_reward_step write_reward_def add_rewards_to_counter_def
        Amount_checked_add_eq Amount_checked_sub_eq amount_val_of arith_of_def credit_to_def tok ne none sample_credits sample_minted_def)
qed

theorem mints_exactly_the_inflation_witness:
  "update_rewards_products_and_mint_inflation (\<lambda>_. []) sample_slash_params 6 2 (amount_of 1000) sample_earning = Inr sample_minted \<and>
   (\<Sum>(v, d)\<leftarrow>rewards_accumulator sample_earning. accumulated_reward 2 (amount_of 1000) d) = 750 \<and>
   supply_inv (lg_tokens sample_minted) \<and> rewards_accumulator sample_minted = []"
  using mints_exactly_the_inflation [OF sample_mint_ok] sample_mint_ok
  by (simp add: sample_earning_fields supply_inv_empty Dec_inv_of dec_val_of accumulated_reward_def amount_val_of)

section \<open>Claims are paid once\<close>

lemma compute_rewards_claimed: "last_reward_claims s source validator = Some e \<Longrightarrow> compute_current_rewards_from_bonds source validator e s = Inr Amount_zero"
  by (simp add: compute_current_rewards_from_bonds_def)

lemma token_transfer_effect:
  assumes ok: "token_transfer src dest amount s = Inr s'" and typed: "tokens_typed (lg_tokens s)" and ne: "src \<noteq> dest"
  shows "amount_val amount \<le> bal (lg_tokens s) (native_token s) src"
    "bal (lg_tokens s') (native_token s) src = bal (lg_tokens s) (native_token s) src - amount_val amount"
    "bal (lg_tokens s') (native_token s) dest = bal (lg_tokens s) (native_token s) dest + amount_val amount"
    "s' = s\<lparr>lg_tokens := lg_tokens s'\<rparr>" "tokens_typed (lg_tokens s')"
proof -
  have lt: "bal (lg_tokens s) (native_token s) src < 2 ^ 256" by (rule key_amount_lt)
  obtain t where t: "transfer (native_token s) src dest amount (lg_tokens s) = (Inr (), t)" and s': "s' = s\<lparr>lg_tokens := t\<rparr>"
    using ok by (auto simp: token_transfer_def split: sum.splits prod.splits)
  show "s' = s\<lparr>lg_tokens := lg_tokens s'\<rparr>" by (simp add: s')
  show "amount_val amount \<le> bal (lg_tokens s) (native_token s) src"
    "bal (lg_tokens s') (native_token s) src = bal (lg_tokens s) (native_token s) src - amount_val amount"
    "bal (lg_tokens s') (native_token s) dest = bal (lg_tokens s) (native_token s) dest + amount_val amount"
    "tokens_typed (lg_tokens s')"
    using t lt ne typed by (auto simp: s' transfer_eq amount_val_of tokens_typed_upd not_less not_le split: if_splits)
qed

lemma transfer_zero: "token_transfer src dest Amount_zero s = Inr s"
  by (simp add: token_transfer_def transfer_def Amount_is_zero_def Amount_zero_def)

text \<open>
  C13: A claim pays exactly what it reports, and only once per epoch: the balance of the source grows by the claimed amount, the
  proof-of-stake account pays all of it, and a second claim in the same epoch succeeds, reports zero and leaves the balances
  as they are.
\<close>

theorem claim_pays_once:
  fixes source_opt :: "Address option"
  defines "source v \<equiv> (case source_opt of Some x \<Rightarrow> x | None \<Rightarrow> v)"
  assumes ok: "claim_reward_tokens source_opt v e s = Inr (a, s')" and typed: "tokens_typed (lg_tokens s)" and ne: "source v \<noteq> POS"
  shows "amount_val a \<le> bal (lg_tokens s) (native_token s) POS \<and>
    bal (lg_tokens s') (native_token s) POS = bal (lg_tokens s) (native_token s) POS - amount_val a \<and>
    bal (lg_tokens s') (native_token s) (source v) = bal (lg_tokens s) (native_token s) (source v) + amount_val a \<and>
    (\<exists>s''. claim_reward_tokens source_opt v e s' = Inr (Amount_zero, s'') \<and> lg_tokens s'' = lg_tokens s')"
proof -
  let ?src = "source v"
  define s2 where "s2 = s\<lparr>rewards_counters := (rewards_counters s)(?src := (rewards_counters s ?src)(v := None)),
    last_reward_claims := (last_reward_claims s)(?src := (last_reward_claims s ?src)(v \<mapsto> e))\<rparr>"
  have pay: "token_transfer POS ?src a s2 = Inr s'"
    using ok unfolding claim_reward_tokens_def source_def [symmetric] take_rewards_from_counter_def s2_def
    by (auto simp: Let_def rbind_Inr_iff)
  have s2: "lg_tokens s2 = lg_tokens s" "native_token s2 = native_token s" by (simp_all add: s2_def)
  note eff = token_transfer_effect [OF pay, unfolded s2, OF typed ne [symmetric]]
  have s': "s' = s2\<lparr>lg_tokens := lg_tokens s'\<rparr>" by (rule eff(4))
  have after: "last_reward_claims s' ?src v = Some e" "rewards_counters s' ?src v = None"
    by (subst s', simp add: s2_def)+
  have zero: "Amount_checked_add Amount_zero Amount_zero = Some Amount_zero" by (simp add: Amount_checked_add_eq amount_eq_iff amount_val_of)
  have "\<exists>s''. claim_reward_tokens source_opt v e s' = Inr (Amount_zero, s'') \<and> lg_tokens s'' = lg_tokens s'"
    unfolding claim_reward_tokens_def source_def [symmetric] take_rewards_from_counter_def
    by (simp add: Let_def compute_rewards_claimed after unwrap_or_default_def zero arith_of_def transfer_zero pos_result_def)
  then show ?thesis using eff(1-3) by blast
qed

lemma sample_claim: "\<exists>s'. claim_reward_tokens None sample_validator 7 sample_minted = Inr (amount_of 37, s')"
proof -
  have tok: "native_token sample_minted = sample_token" "last_reward_claims sample_minted = (\<lambda>_. Map.empty)" "bonds sample_minted = (\<lambda>_ _. epoched_open)"
    by (simp_all add: sample_minted_def sample_earning_def sample_to_slash_def sample_ledger_def)
  have counter: "rewards_counters sample_minted sample_validator sample_validator = Some (amount_of 37)" by (simp add: sample_minted_def)
  have none: "bond_amounts_for_rewards v w a b sample_minted = Inr []" for v w a b
    by (simp add: bond_amounts_for_rewards_def tok bond_entries_def epoched_open_def)
  have typed: "tokens_typed (lg_tokens sample_minted)" and bals: "bal (lg_tokens sample_minted) sample_token POS = 750"
    using supply_inv_empty by (simp_all add: sample_minted_def supply_inv_def tokens_typed_upd amount_val_of POS_def PGF_def)
  have "bal (lg_tokens sample_minted) sample_token sample_validator = 0"
    by (simp add: sample_minted_def POS_def PGF_def sample_validator_def key_amount_def)
  then show ?thesis using typed bals
    by (simp add: claim_reward_tokens_def compute_current_rewards_from_bonds_def tok none pos_result_def take_rewards_from_counter_def counter
        unwrap_or_default_def Amount_checked_add_eq amount_val_of arith_of_def token_transfer_def transfer_eq)
qed

theorem claim_pays_once_witness:
  "\<exists>s'. claim_reward_tokens None sample_validator 7 sample_minted = Inr (amount_of 37, s') \<and>
    (\<exists>s''. claim_reward_tokens None sample_validator 7 s' = Inr (Amount_zero, s'') \<and> lg_tokens s'' = lg_tokens s')"
proof -
  obtain s' where s': "claim_reward_tokens None sample_validator 7 sample_minted = Inr (amount_of 37, s')" using sample_claim by blast
  have "tokens_typed (lg_tokens sample_minted)" using supply_inv_empty by (simp add: sample_minted_def supply_inv_def tokens_typed_upd)
  moreover have "sample_validator \<noteq> POS" by (simp add: sample_validator_def POS_def)
  ultimately show ?thesis using claim_pays_once [OF s'] s' by auto
qed

section \<open>The fractions of a block add up to at most one\<close>

definition share_val :: "nat \<Rightarrow> nat \<Rightarrow> nat \<Rightarrow> Address \<Rightarrow> Address set \<Rightarrow> nat \<Rightarrow> nat \<Rightarrow> Address \<Rightarrow> nat \<Rightarrow> nat" where
  "share_val pc vr ac proposer signers signing all_stake a stake =
     (if a = proposer then pc else 0) + (if a \<in> signers then stake * 10 ^ 12 div signing * vr div 10 ^ 12 else 0) +
     stake * 10 ^ 12 div all_stake * ac div 10 ^ 12"

lemma two_floors:
  assumes "sum_list (map f bs) \<le> d" "0 < u"
  shows "(\<Sum>b\<leftarrow>bs. f b * u div d * k div u) \<le> (k::nat)"
proof -
  have "(\<Sum>b\<leftarrow>bs. f b * u div d * k div u) \<le> (\<Sum>b\<leftarrow>bs. f b * u div d) * k div u" by (rule sum_floor_le)
  also have "(\<Sum>b\<leftarrow>bs. f b * u div d) \<le> sum_list (map f bs) * u div d" by (rule sum_floor_le)
  then have "(\<Sum>b\<leftarrow>bs. f b * u div d) * k div u \<le> sum_list (map f bs) * u div d * k div u" by (intro div_le_mono mult_right_mono) simp_all
  also have "\<dots> \<le> d * u div d * k div u" by (intro div_le_mono mult_right_mono assms(1)) simp_all
  also have "\<dots> \<le> k" using assms(2) by (cases "d = 0") simp_all
  finally show ?thesis .
qed

lemma sum_if_filter: "(\<Sum>a\<leftarrow>as. if P a then f a else (0::nat)) = (\<Sum>a\<leftarrow>filter P as. f a)"
  by (induction as) simp_all

lemma share_vals_le:
  assumes "distinct as" "sum_list (map st as) \<le> all_stake" "sum_list (map st (filter (\<lambda>a. a \<in> S) as)) \<le> signing"
  shows "(\<Sum>a\<leftarrow>as. share_val pc vr ac p S signing all_stake a (st a)) \<le> pc + vr + ac"
proof -
  have "(\<Sum>a\<leftarrow>as. if a = p then pc else 0) \<le> pc" using assms(1) by (induction as) (auto simp: sum_if_filter filter_empty_conv)
  moreover have "(\<Sum>a\<leftarrow>as. if a \<in> S then st a * 10 ^ 12 div signing * vr div 10 ^ 12 else 0) \<le> vr"
    using two_floors [OF assms(3), of "10 ^ 12" vr] by (simp add: sum_if_filter)
  moreover have "(\<Sum>a\<leftarrow>as. st a * 10 ^ 12 div all_stake * ac div 10 ^ 12) \<le> ac" by (rule two_floors [OF assms(2)]) simp
  ultimately show ?thesis unfolding share_val_def sum_list_addf by (rule add_le_mono [OF add_le_mono])
qed

lemma scaled_div_val:
  assumes "Dec_checked_div a b = Some d" "Dec_inv a" "Dec_inv b" "dec_val a = int m * 10 ^ 6" "dec_val b = int n * 10 ^ 6"
  shows "0 < n" "Dec_inv d" "dec_val d = int (m * 10 ^ 12 div n)"
proof -
  note v = Dec_div_val [OF assms(1-3)]
  show n: "0 < n" using v(1) assms(5) by (cases n) simp_all
  show "Dec_inv d" by (rule v(2))
  have "dec_val d = int m * 10 ^ 12 * 10 ^ 6 div (int n * 10 ^ 6)" using v(3) n by (simp add: assms(4,5) tdiv_nonneg)
  also have "\<dots> = int m * 10 ^ 12 div int n" by (rule div_mult_mult2) simp
  finally show "dec_val d = int (m * 10 ^ 12 div n)" by (simp add: zdiv_int)
qed

lemma scaled_mul_val:
  assumes "Dec_checked_mul a b = Some d" "Dec_inv a" "Dec_inv b" "dec_val a = int k" "dec_val b = int m"
  shows "Dec_inv d" "dec_val d = int (m * k div 10 ^ 12)"
  using Dec_mul_val [OF assms(1-3)] by (simp_all add: assms(4,5) tdiv_nonneg zdiv_int mult.commute)

lemma block_share_val:
  assumes ok: "block_share coeffs p signers sd td a stake = Inr d"
    and sd: "Dec_inv sd" "dec_val sd = int signing * 10 ^ 6" and td: "Dec_inv td" "dec_val td = int all_stake * 10 ^ 6"
    and pc: "Dec_inv (proposer_coeff coeffs)" "dec_val (proposer_coeff coeffs) = int pc"
    and vr: "Dec_inv (signer_coeff coeffs)" "dec_val (signer_coeff coeffs) = int vr"
    and ac: "Dec_inv (active_val_coeff coeffs)" "dec_val (active_val_coeff coeffs) = int ac"
  shows "Dec_inv d \<and> dec_val d = int (share_val pc vr ac p (set signers) signing all_stake a (amount_val stake))"
proof -
  obtain u r1 r2 f y where u: "dec_amount stake = Inr u"
    and r1: "(if a = p then arith_of (Dec_checked_add Dec_zero (proposer_coeff coeffs)) else Inr Dec_zero) = Inr r1"
    and r2: "(if a \<in> set signers
            then
              rbind (arith_of (Dec_checked_div u sd)) (\<lambda>signing_frac.
              rbind (arith_of (Dec_checked_mul (signer_coeff coeffs) signing_frac)) (\<lambda>x.
              arith_of (Dec_checked_add r1 x)))
            else Inr r1) = Inr r2"
    and f: "Dec_checked_div u td = Some f" and y: "Dec_checked_mul (active_val_coeff coeffs) f = Some y"
    and d: "Dec_checked_add r2 y = Some d"
    using ok by (auto simp: block_share_def rbind_Inr_iff)
  note uv = Dec_amount_val [OF u]
  have zero: "Dec_inv Dec_zero" "dec_val Dec_zero = 0" by (simp_all add: Dec_zero_of Dec_inv_of dec_val_of)
  have r1v: "Dec_inv r1 \<and> dec_val r1 = (if a = p then int pc else 0)"
    using r1 zero Dec_add_val [OF _ zero(1) pc(1)] pc(2) by (auto split: if_splits)
  have r2v: "Dec_inv r2 \<and> dec_val r2 = dec_val r1 + (if a \<in> set signers then int (amount_val stake * 10 ^ 12 div signing * vr div 10 ^ 12) else 0)"
  proof (cases "a \<in> set signers")
    case True
    then obtain g x where g: "Dec_checked_div u sd = Some g" and x: "Dec_checked_mul (signer_coeff coeffs) g = Some x"
      and r: "Dec_checked_add r1 x = Some r2" using r2 by (auto simp: rbind_Inr_iff)
    note gv = scaled_div_val [OF g conjunct1 [OF uv] sd(1) conjunct2 [OF uv] sd(2)]
    note xv = scaled_mul_val [OF x vr(1) gv(2) vr(2) gv(3)]
    show ?thesis using Dec_add_val [OF r conjunct1 [OF r1v] xv(1)] xv(2) True by simp
  qed (use r1v r2 in simp)
  note fv = scaled_div_val [OF f conjunct1 [OF uv] td(1) conjunct2 [OF uv] td(2)]
  note yv = scaled_mul_val [OF y ac(1) fv(2) ac(2) fv(3)]
  show ?thesis using Dec_add_val [OF d conjunct1 [OF r2v] yv(1)] yv(2) r2v r1v by (simp add: share_val_def)
qed

lemma reward_coeffs_val:
  assumes ok: "get_reward_coeffs \<lparr>proposer_reward = pr, signer_reward = vr, signing_stake = signing, total_stake = all_stake\<rparr> = Inr c"
    and pr: "Dec_inv pr" "0 \<le> dec_val pr" and vr: "Dec_inv vr" "0 \<le> dec_val vr"
    and le: "dec_val pr + dec_val vr + 10 ^ 10 \<le> 10 ^ 12" and signing: "signing \<le> all_stake"
  shows "\<exists>pc ac. Dec_inv (proposer_coeff c) \<and> dec_val (proposer_coeff c) = int pc \<and> signer_coeff c = vr \<and>
    Dec_inv (active_val_coeff c) \<and> dec_val (active_val_coeff c) = int ac \<and> pc + nat (dec_val vr) + ac = 10 ^ 12"
proof -
  obtain needed ex share sc td x pc one y ac where ex: "Amount_checked_sub signing needed = Some ex"
    and share: "Amount_mul_floor ex pr = Inr share" and sc: "dec_amount share = Inr sc" and td: "dec_amount all_stake = Inr td"
    and x: "Dec_checked_div sc td = Some x" and pc: "Dec_checked_add x MIN_PROPOSER_REWARD = Some pc" and one: "Dec_one = Some one"
    and y: "Dec_checked_sub one pc = Some y" and ac: "Dec_checked_sub y vr = Some ac"
    and c: "c = \<lparr>proposer_coeff = pc, signer_coeff = vr, active_val_coeff = ac\<rparr>"
    using ok by (auto simp: get_reward_coeffs_def rbind_Inr_iff split: if_splits)
  note sv = Dec_amount_val [OF sc] and tv = Dec_amount_val [OF td] and ov = Dec_one_val [OF one]
  note xv = scaled_div_val [OF x conjunct1 [OF sv] conjunct1 [OF tv] conjunct2 [OF sv] conjunct2 [OF tv]]
  have min: "Dec_inv MIN_PROPOSER_REWARD" "dec_val MIN_PROPOSER_REWARD = 10 ^ 10"
    by (simp_all add: MIN_PROPOSER_REWARD_def Dec_inv_val dec_val_def i256_val_def)
  note pv = Dec_add_val [OF pc xv(2) min(1)]
  note yv = Dec_sub_val [OF y conjunct1 [OF ov] conjunct1 [OF pv]]
  note av = Dec_sub_val [OF ac conjunct1 [OF yv] vr(1)]
  have "amount_val ex \<le> amount_val all_stake"
    using ex signing amount_val_lt [of signing] by (auto simp: Amount_checked_sub_eq amount_val_of amount_le_iff split: if_splits)
  then have "amount_val share \<le> amount_val all_stake * nat (dec_val pr) div 10 ^ 12"
    unfolding Amount_mul_floor_val [OF share pr] by (intro div_le_mono mult_right_mono) simp_all
  then have "amount_val share * 10 ^ 12 \<le> amount_val all_stake * nat (dec_val pr)"
    using div_times_less_eq_dividend [of "amount_val all_stake * nat (dec_val pr)" "10 ^ 12"] by (meson mult_le_mono1 order_trans)
  then have "amount_val share * 10 ^ 12 div amount_val all_stake \<le> amount_val all_stake * nat (dec_val pr) div amount_val all_stake"
    by (rule div_le_mono)
  then have "amount_val share * 10 ^ 12 div amount_val all_stake \<le> nat (dec_val pr)" using xv(1) by simp
  then have "dec_val x \<le> dec_val pr" "0 \<le> dec_val x" using xv(3) pr(2) by simp_all
  then have "0 \<le> dec_val pc" "0 \<le> dec_val ac" "dec_val pc + dec_val vr + dec_val ac = 10 ^ 12"
    using pv yv av ov min(2) le by simp_all
  then show ?thesis using pv av vr(2) by (intro exI [of _ "nat (dec_val pc)"] exI [of _ "nat (dec_val ac)"]) (auto simp: c)
qed

lemma update_fresh: "k \<notin> fst ` set m \<Longrightarrow> AList.update k x m = m @ [(k, x)]"
  by (induction m) auto

definition dec_sum :: "('a \<times> Dec) list \<Rightarrow> int" where
  "dec_sum m = sum_list (map (dec_val \<circ> snd) m)"

definition decs_ok :: "('a \<times> Dec) list \<Rightarrow> bool" where
  "decs_ok m \<longleftrightarrow> distinct (map fst m) \<and> (\<forall>(k, d) \<in> set m. Dec_inv d \<and> 0 \<le> dec_val d)"

lemma dec_sum_update:
  assumes "distinct (map fst m)"
  shows "dec_sum (AList.update k x m) = dec_sum m - (case map_of m k of None \<Rightarrow> 0 | Some d \<Rightarrow> dec_val d) + dec_val x"
  using assms by (induction m) (auto simp: dec_sum_def split: option.splits dest: map_of_SomeD)

lemma decs_ok_update: "decs_ok m \<Longrightarrow> Dec_inv x \<Longrightarrow> 0 \<le> dec_val x \<Longrightarrow> decs_ok (AList.update k x m)"
  unfolding decs_ok_def by (induction m) (auto simp: distinct_update dom_update)

lemma add_to_accumulator_sum:
  assumes ok: "add_to_accumulator m (a, d) = Inr m'" and m: "decs_ok m" and d: "Dec_inv d" "0 \<le> dec_val d"
  shows "decs_ok m' \<and> dec_sum m' = dec_sum m + dec_val d"
proof -
  let ?prev = "case map_of m a of None \<Rightarrow> Dec_zero | Some d \<Rightarrow> d"
  obtain x where x: "Dec_checked_add ?prev d = Some x" and m': "m' = AList.update a x m"
    using ok by (auto simp: add_to_accumulator_def rbind_Inr_iff)
  have prev: "Dec_inv ?prev" "dec_val ?prev = (case map_of m a of None \<Rightarrow> 0 | Some d \<Rightarrow> dec_val d)" "0 \<le> dec_val ?prev"
    using m by (auto simp: decs_ok_def Dec_zero_of Dec_inv_of dec_val_of split: option.splits dest!: map_of_SomeD)
  note xv = Dec_add_val [OF x prev(1) d(1)]
  have "decs_ok m'" unfolding m' using xv prev(3) d(2) by (intro decs_ok_update [OF m]) simp_all
  then show ?thesis using xv prev(2) dec_sum_update [of m a x] m by (simp add: m' decs_ok_def)
qed

lemma accumulate_sum:
  assumes "rfold add_to_accumulator m l = Inr m'" "decs_ok m" "\<forall>(a, d) \<in> set l. Dec_inv d \<and> 0 \<le> dec_val d"
  shows "decs_ok m' \<and> dec_sum m' = dec_sum m + dec_sum l"
  using assms
proof (induction l arbitrary: m)
  case (Cons x l)
  obtain a d where x: "x = (a, d)" by (cases x)
  obtain m1 where m1: "add_to_accumulator m (a, d) = Inr m1" "rfold add_to_accumulator m1 l = Inr m'"
    using Cons.prems(1) by (auto simp: x rbind_Inr_iff)
  have "decs_ok m1 \<and> dec_sum m1 = dec_sum m + dec_val d" by (rule add_to_accumulator_sum [OF m1(1)]) (use Cons.prems(2,3) x in auto)
  then show ?case using Cons.IH [OF m1(2)] Cons.prems(3) by (auto simp: x dec_sum_def)
qed (simp add: dec_sum_def)

lemma log_shares_sum:
  assumes "rfold (log_share coeffs p signers sd td) m C = Inr m'" "decs_ok m" "distinct (map snd C)" "\<forall>x \<in> set C. snd x \<notin> fst ` set m"
    and "\<And>a stake d. block_share coeffs p signers sd td a stake = Inr d \<Longrightarrow> Dec_inv d \<and> dec_val d = int (f a (amount_val stake))"
  shows "decs_ok m' \<and> dec_sum m' \<le> dec_sum m + int (\<Sum>((stake, _), a)\<leftarrow>C. f a (amount_val stake))"
  using assms(1-4)
proof (induction C arbitrary: m)
  case (Cons x C)
  obtain stake q a where x: "x = ((stake, q), a)" by (metis prod.collapse)
  obtain m1 where m1: "log_share coeffs p signers sd td m x = Inr m1" "rfold (log_share coeffs p signers sd td) m1 C = Inr m'"
    using Cons.prems(1) by (auto simp: rbind_Inr_iff)
  have fresh: "a \<notin> fst ` set m" using Cons.prems(4) by (simp add: x)
  have "decs_ok m1 \<and> dec_sum m1 \<le> dec_sum m + int (f a (amount_val stake)) \<and> fst ` set m1 \<subseteq> insert a (fst ` set m)"
  proof (cases "Amount_is_zero stake")
    case False
    then obtain d where d: "block_share coeffs p signers sd td a stake = Inr d" and m1': "m1 = AList.update a d m"
      using m1(1) by (auto simp: log_share_def x rbind_Inr_iff)
    have "decs_ok m1" unfolding m1' using assms(5) [OF d] by (intro decs_ok_update [OF Cons.prems(2)]) simp_all
    then show ?thesis using assms(5) [OF d] by (simp add: m1' update_fresh [OF fresh] dec_sum_def)
  qed (use m1(1) Cons.prems(2) in \<open>auto simp: log_share_def x\<close>)
  moreover have "\<forall>x \<in> set C. snd x \<notin> fst ` set m1" using calculation Cons.prems(3,4) by (force simp: x)
  ultimately show ?case using Cons.IH [OF m1(2)] Cons.prems(3) by (auto simp: x)
qed simp

lemma count_votes_sum:
  assumes "rfold (count_vote e s) (S, t) votes = Inr (S', t')" "distinct (map validator_address votes)"
    "\<forall>vote \<in> set votes. validator_address vote \<notin> set S" "distinct S" "set S \<subseteq> M" "amount_val t = (\<Sum>v\<in>set S. amount_val (st v))"
    and state: "\<And>v. get_validator_state (lg_params s) v e (lg_sets s) = Inr (Some Consensus) \<Longrightarrow> v \<in> M"
    and stake: "\<And>v. v \<in> M \<Longrightarrow> read_validator_stake (lg_params s) v e (lg_sets s) = Inr (st v)"
  shows "set S' \<subseteq> M \<and> amount_val t' = (\<Sum>v\<in>set S'. amount_val (st v))"
  using assms(1-6)
proof (induction votes arbitrary: S t)
  case (Cons vote votes)
  let ?v = "validator_address vote"
  obtain S1 t1 where step: "count_vote e s (S, t) vote = Inr (S1, t1)" and rest: "rfold (count_vote e s) (S1, t1) votes = Inr (S', t')"
    using Cons.prems(1) by (auto simp: rbind_Inr_iff)
  show ?case
  proof (cases "validator_vp vote = 0")
    case True
    then have "S1 = S" "t1 = t" using step by (simp_all add: count_vote_def)
    then show ?thesis using Cons.IH [OF rest] Cons.prems by simp
  next
    case False
    then obtain a where st: "get_validator_state (lg_params s) ?v e (lg_sets s) = Inr (Some Consensus)"
      and a: "read_validator_stake (lg_params s) ?v e (lg_sets s) = Inr a" and t1: "Amount_checked_add t a = Some t1" and S1: "S1 = List.insert ?v S"
      using step by (auto simp: count_vote_def Let_def rbind_Inr_iff split: if_splits)
    have M: "?v \<in> M" by (rule state [OF st])
    have fresh: "?v \<notin> set S" using Cons.prems(3) by simp
    have "amount_val t1 = amount_val t + amount_val (st ?v)" using t1 a stake [OF M] by (auto simp: Amount_checked_add_eq amount_val_of split: if_splits)
    then have "amount_val t1 = (\<Sum>v\<in>set S1. amount_val (st v))" using fresh Cons.prems(6) by (simp add: S1)
    moreover have "?v \<notin> validator_address ` set votes" using Cons.prems(2) by simp
    then have "\<forall>vote \<in> set votes. validator_address vote \<notin> set S1" using Cons.prems(3) by (auto simp: S1) (metis imageI)
    ultimately show ?thesis using Cons.IH [OF rest] Cons.prems M by (simp add: S1)
  qed
qed simp

lemma consensus_list:
  assumes "sets_match st s e"
  shows "distinct (map snd (consensus_at s e))" "\<And>stake q a. ((stake, q), a) \<in> set (consensus_at s e) \<Longrightarrow> stake = st a"
    "set (map snd (consensus_at s e)) = {v. vstate s e v = Some Consensus}"
proof -
  have ok: "pm_ok (\<lambda>a. a) st (positions_at s e) (consensus_at s e)" using assms by (simp add: sets_match_def sets_wf_def)
  have "inj_on snd (set (consensus_at s e))" by (rule inj_onI) (metis pm_key [OF ok])
  moreover have "distinct (consensus_at s e)" using ok by (auto simp: pm_ok_def distinct_map dest: bt_ok_distinct)
  ultimately show "distinct (map snd (consensus_at s e))" by (simp add: distinct_map)
  show "\<And>stake q a. ((stake, q), a) \<in> set (consensus_at s e) \<Longrightarrow> stake = st a" using ok by (simp add: pm_ok_def)
  show "set (map snd (consensus_at s e)) = {v. vstate s e v = Some Consensus}" using assms by (simp add: sets_match_def)
qed

lemma total_consensus_sum:
  assumes "compute_total_consensus_stake e s = Inr t"
  shows "amount_val t = (\<Sum>((stake, _), _)\<leftarrow>consensus_at s e. amount_val stake)"
proof -
  have "rfold (\<lambda>acc ((amount, _), _). plus_amount acc amount) a0 (C :: Amount position_map) = Inr t \<Longrightarrow>
      amount_val t = amount_val a0 + (\<Sum>((stake, _), _)\<leftarrow>C. amount_val stake)" for a0 C
    by (induction C arbitrary: a0) (auto simp: rbind_Inr_iff split: prod.splits)
  from this [of Amount_zero] show ?thesis using assms by (simp add: compute_total_consensus_stake_def)
qed

lemma sum_over_consensus:
  assumes "sets_match st s e"
  shows "(\<Sum>((stake, _), a)\<leftarrow>consensus_at s e. g a (amount_val stake)) = (\<Sum>a\<leftarrow>map snd (consensus_at s e). g a (amount_val (st a)))"
  unfolding map_map by (rule arg_cong [where f = sum_list], rule map_cong) (auto dest: consensus_list(2) [OF assms])

text \<open>
  C11: The fractions that one block adds to the reward accumulators of the consensus validators add up to at most one: the proposer's
  part, the signers' part and the part of all validators in proportion to their stakes are fractions of one and the same reward.
  With the average over the blocks of an epoch the rewards then never exceed the inflation. This needs that the validator sets match
  the stakes, that the stored total is the sum of the set, that no validator votes twice and that the reward parameters leave a
  non-negative rest.
\<close>

theorem block_fractions_at_most_one:
  assumes ok: "log_block_rewards_aux e p votes s = Inr s'" and sets: "sets_match st (lg_sets s) e"
    and states: "states_ok (lg_params s) cur (lg_sets s)"
    and stake: "\<And>v. vstate (lg_sets s) e v = Some Consensus \<Longrightarrow> read_validator_stake (lg_params s) v e (lg_sets s) = Inr (st v)"
    and stored: "get_total_consensus_stake e s = compute_total_consensus_stake e (lg_sets s)"
    and votes: "distinct (map validator_address votes)"
    and pr: "Dec_inv (block_proposer_reward (lg_params s))" "0 \<le> dec_val (block_proposer_reward (lg_params s))"
    and vr: "Dec_inv (block_vote_reward (lg_params s))" "0 \<le> dec_val (block_vote_reward (lg_params s))"
    and le: "dec_val (block_proposer_reward (lg_params s)) + dec_val (block_vote_reward (lg_params s)) + 10 ^ 10 \<le> 10 ^ 12"
    and acc: "decs_ok (rewards_accumulator s)"
  shows "decs_ok (rewards_accumulator s') \<and> dec_sum (rewards_accumulator s') \<le> dec_sum (rewards_accumulator s) + 10 ^ 12"
proof -
  let ?C = "consensus_at (lg_sets s) e" and ?as = "map snd (consensus_at (lg_sets s) e)" and ?vr = "nat (dec_val (block_vote_reward (lg_params s)))"
  obtain all_stake S t c td sd m m' where all_stake: "get_total_consensus_stake e s = Inr all_stake"
    and count: "rfold (count_vote e s) ([], Amount_zero) votes = Inr (S, t)"
    and c: "get_reward_coeffs \<lparr>proposer_reward = block_proposer_reward (lg_params s), signer_reward = block_vote_reward (lg_params s),
                  signing_stake = t, total_stake = all_stake\<rparr> = Inr c"
    and td: "dec_amount all_stake = Inr td" and sd: "dec_amount t = Inr sd" and m: "rfold (log_share c p S sd td) [] ?C = Inr m"
    and m': "rfold add_to_accumulator (rewards_accumulator s) m = Inr m'" and s': "s' = s\<lparr>rewards_accumulator := m'\<rparr>"
    using ok by (auto simp: log_block_rewards_aux_def Let_def rbind_Inr_iff)
  note C = consensus_list [OF sets]
  have S: "set S \<subseteq> set ?as \<and> amount_val t = (\<Sum>v\<in>set S. amount_val (st v))"
    unfolding C(3) by (rule count_votes_sum [OF count votes]) (auto simp: get_state_eq [OF states] stake)
  have all_val: "amount_val all_stake = (\<Sum>a\<leftarrow>?as. amount_val (st a))"
    using total_consensus_sum [of e "lg_sets s" all_stake] all_stake stored sum_over_consensus [OF sets, of "\<lambda>_ x. x"] by simp
  have all_set: "(\<Sum>a\<leftarrow>?as. amount_val (st a)) = (\<Sum>a\<in>set ?as. amount_val (st a))" by (rule sum_list_distinct_conv_sum_set [OF C(1)])
  have "(\<Sum>v\<in>set S. amount_val (st v)) \<le> (\<Sum>a\<in>set ?as. amount_val (st a))" by (rule sum_mono2) (use S in auto)
  then have "t \<le> all_stake" using S all_val all_set by (simp only: amount_le_iff)
  then obtain pc ac where co: "Dec_inv (proposer_coeff c)" "dec_val (proposer_coeff c) = int pc" "signer_coeff c = block_vote_reward (lg_params s)"
    "Dec_inv (active_val_coeff c)" "dec_val (active_val_coeff c) = int ac" "pc + ?vr + ac = 10 ^ 12"
    using reward_coeffs_val [OF c pr vr le] by blast
  have vr': "Dec_inv (signer_coeff c)" "dec_val (signer_coeff c) = int ?vr" using vr co(3) by simp_all
  note tv = Dec_amount_val [OF td] and sv = Dec_amount_val [OF sd]
  let ?f = "share_val pc ?vr ac p (set S) (amount_val t) (amount_val all_stake)"
  have "decs_ok m \<and> dec_sum m \<le> dec_sum ([] :: (Address, Dec) index_map) + int (\<Sum>((stake, _), a)\<leftarrow>?C. ?f a (amount_val stake))"
    by (rule log_shares_sum [OF m])
      (auto simp: decs_ok_def C(1) dest!: block_share_val [OF _ conjunct1 [OF sv] conjunct2 [OF sv] conjunct1 [OF tv] conjunct2 [OF tv] co(1,2) vr' co(4,5)])
  moreover have "(\<Sum>v\<leftarrow>filter (\<lambda>a. a \<in> set S) ?as. amount_val (st v)) \<le> amount_val t"
    using S by (subst sum_list_distinct_conv_sum_set) (auto simp: C(1) intro!: sum_mono2)
  then have "(\<Sum>a\<leftarrow>?as. ?f a (amount_val (st a))) \<le> pc + ?vr + ac"
    using all_val by (intro share_vals_le C(1)) simp_all
  ultimately have "decs_ok m" "dec_sum m \<le> int (10 ^ 12)" using co(6) by (simp_all add: sum_over_consensus [OF sets] dec_sum_def)
  then show ?thesis using accumulate_sum [OF m' acc] by (auto simp: s' decs_ok_def)
qed

definition sample_vote :: VoteInfo where
  "sample_vote = \<lparr>validator_address = sample_validator, validator_vp = 2\<rparr>"

definition sample_block :: pos_ledger where
  "sample_block = sample_ledger\<lparr>lg_sets := sample_active,
     total_consensus_stakes := \<lparr>lazy_map = [4 \<mapsto> amount_of 2000000], last_update = Some 4, oldest_epoch = Some 4\<rparr>\<rparr>"

lemma sample_block_parts:
  "lg_params sample_block = default_pos_params" "lg_sets sample_block = sample_active" "rewards_accumulator sample_block = []"
  "consensus_at sample_active 4 = [((amount_of 2000000, 0), sample_validator)]"
  "get_total_consensus_stake 4 sample_block = Inr (amount_of 2000000)"
  "compute_total_consensus_stake 4 sample_active = Inr (amount_of 2000000)"
  "block_proposer_reward default_pos_params = dec_of 125000000000" "block_vote_reward default_pos_params = dec_of 100000000000"
proof -
  show "consensus_at sample_active 4 = [((amount_of 2000000, 0), sample_validator)]" by (simp add: sample_active_def sample_with_sets Let_def)
  then show "compute_total_consensus_stake 4 sample_active = Inr (amount_of 2000000)"
    by (simp add: compute_total_consensus_stake_def plus_amount_def Amount_checked_add_eq amount_val_of)
  show "get_total_consensus_stake 4 sample_block = Inr (amount_of 2000000)"
    by (simp add: get_total_consensus_stake_def sample_block_def epoched_get_def sub_past_epochs_def unchecked_add_def u64_add_def get_loop.simps
        epoched_result_def)
  show "block_proposer_reward default_pos_params = dec_of 125000000000" by (simp add: default_pos_params_def Dec_new_eq)
  show "block_vote_reward default_pos_params = dec_of 100000000000" by (simp add: default_pos_params_def Dec_new_eq)
qed (simp_all add: sample_block_def sample_ledger_def)

lemma sample_block_states: "states_ok default_pos_params 3 sample_active"
  by (simp add: sample_active_def Let_def sample_states_ok)

lemma sample_log: "log_block_rewards_aux 4 sample_validator [sample_vote] sample_block =
    Inr (sample_block\<lparr>rewards_accumulator := [(sample_validator, dec_of 1000000000000)]\<rparr>)"
proof -
  have stake: "read_validator_stake default_pos_params sample_validator 4 sample_active = Inr (amount_of 2000000)"
    by (simp add: sample_active_def Let_def sample_with_stake)
  have state: "vstate sample_active 4 sample_validator = Some Consensus" by (simp add: sample_active_def Let_def sample_state_at)
  have min: "MIN_PROPOSER_REWARD = dec_of 10000000000" by (simp add: MIN_PROPOSER_REWARD_def dec_of_def i256_of_def)
  have three: "Amount_checked_div_u64 (amount_of 4000002) 3 = Some (amount_of 1333334)"
    by (simp add: Amount_checked_div_u64_def amount_of_def checked_div_of_nat)
  have dec: "dec_amount (amount_of n) = Inr (dec_of (int n * 10 ^ 6))" if "n < 2 ^ 80" for n
    using that by (simp add: dec_amount_def Dec_try_from_Amount_eq dec_checked_def)
  have share: "Amount_mul_floor (amount_of 666666) (dec_of 125000000000) = Inr (amount_of 83333)"
    by (simp add: Amount_mul_floor_eq Dec_inv_of dec_val_of amount_val_of)
  have needed: "get_min_required_votes \<lparr>proposer_reward = a, signer_reward = b, signing_stake = c, total_stake = amount_of 2000000\<rparr> =
      Inr (amount_of 1333334)" for a b c
    by (simp add: get_min_required_votes_def Amount_checked_mul_eq Amount_checked_add_eq amount_val_of three)
  have coeffs: "get_reward_coeffs \<lparr>proposer_reward = dec_of 125000000000, signer_reward = dec_of 100000000000,
      signing_stake = amount_of 2000000, total_stake = amount_of 2000000\<rparr> =
      Inr \<lparr>proposer_coeff = dec_of 51666500000, signer_coeff = dec_of 100000000000, active_val_coeff = dec_of 848333500000\<rparr>"
    by (simp add: get_reward_coeffs_def needed amount_less_iff amount_val_of Amount_checked_sub_eq arith_of_def floor_share_def share dec small_dec
        tdiv_def min Dec_constants)
  have count: "rfold (count_vote 4 sample_block) ([], Amount_zero) [sample_vote] = Inr ([sample_validator], amount_of 2000000)"
    by (simp add: count_vote_def sample_vote_def sample_block_parts get_state_eq [OF sample_block_states] state stake pos_result_def Let_def
        Amount_checked_add_eq amount_val_of arith_of_def)
  have bs: "block_share \<lparr>proposer_coeff = dec_of 51666500000, signer_coeff = dec_of 100000000000, active_val_coeff = dec_of 848333500000\<rparr>
      sample_validator [sample_validator] (dec_of 2000000000000) (dec_of 2000000000000) sample_validator (amount_of 2000000) = Inr (dec_of 1000000000000)"
    by (simp add: block_share_def dec Dec_zero_of small_dec arith_of_def tdiv_def)
  have nz: "\<not> Amount_is_zero (amount_of 2000000)" by (simp add: Amount_is_zero_def amount_of_def)
  show ?thesis
    unfolding log_block_rewards_aux_def
    by (simp add: sample_block_parts Let_def count [simplified] coeffs dec log_share_def nz bs add_to_accumulator_def Dec_zero_of small_dec arith_of_def
        pos_result_def)
qed

theorem block_fractions_at_most_one_witness:
  "log_block_rewards_aux 4 sample_validator [sample_vote] sample_block =
     Inr (sample_block\<lparr>rewards_accumulator := [(sample_validator, dec_of 1000000000000)]\<rparr>) \<and>
   dec_sum [(sample_validator, dec_of 1000000000000)] \<le> dec_sum (rewards_accumulator sample_block) + 10 ^ 12"
proof -
  have "sets_match sample_stakes sample_active 4" using sample_active_inv [of 4] vsets_inv_match by blast
  moreover have "vstate sample_active 4 v = Some Consensus \<Longrightarrow> read_validator_stake default_pos_params v 4 sample_active = Inr (sample_stakes v)" for v
    by (auto simp: sample_active_def Let_def sample_state_at sample_with_stake sample_stakes_def split: if_splits)
  ultimately show ?thesis
    using block_fractions_at_most_one [OF sample_log, of sample_stakes 3] sample_block_states sample_log
    by (simp add: sample_block_parts sample_vote_def Dec_inv_of dec_val_of decs_ok_def)
qed

lemma accumulated_rewards_fit:
  assumes ok: "decs_ok m" and sum: "dec_sum m \<le> int (unat blocks) * 10 ^ 12" and pos: "0 < unat blocks"
  shows "(\<Sum>(v, d)\<leftarrow>m. accumulated_reward blocks inflation d) \<le> amount_val inflation"
proof -
  let ?n = "unat blocks"
  have "dec_sum m = int (\<Sum>x\<leftarrow>m. nat (dec_val (snd x)))" using ok
    by (induction m) (auto simp: dec_sum_def decs_ok_def)
  then have "(\<Sum>x\<leftarrow>m. nat (dec_val (snd x))) \<le> ?n * 10 ^ 12"
    using sum by (simp only: of_nat_le_iff [where 'a = int, symmetric] of_nat_mult of_nat_power of_nat_numeral)
  then have "(\<Sum>x\<leftarrow>m. nat (dec_val (snd x))) div ?n \<le> ?n * 10 ^ 12 div ?n" by (rule div_le_mono)
  then have le: "(\<Sum>x\<leftarrow>m. nat (dec_val (snd x))) div ?n \<le> 10 ^ 12" using pos by simp
  have "(\<Sum>x\<leftarrow>m. nat (dec_val (snd x)) div ?n) \<le> (\<Sum>x\<leftarrow>m. nat (dec_val (snd x))) div ?n"
    using sum_floor_le [of "\<lambda>x. nat (dec_val (snd x))" 1 ?n m] by simp
  then have "(\<Sum>x\<leftarrow>m. nat (dec_val (snd x)) div ?n) \<le> 10 ^ 12" using le by (rule order_trans)
  then have "(\<Sum>x\<leftarrow>m. nat (dec_val (snd x)) div ?n) * amount_val inflation div 10 ^ 12 \<le> 10 ^ 12 * amount_val inflation div 10 ^ 12"
    by (intro div_le_mono mult_right_mono) simp_all
  then show ?thesis
    using sum_floor_le [of "\<lambda>x. nat (dec_val (snd x)) div ?n" "amount_val inflation" "10 ^ 12" m]
    by (simp add: accumulated_reward_def case_prod_unfold mult.commute)
qed

end
