(* ===== verification/PosLiveness.thy ===== *)
theory PosLiveness
  imports PosRewards
begin

text \<open>
  Liveness and commissions of validators (\<open>proof_of_stake/src/lib.rs\<close>): the record of the votes that each consensus validator
  missed within a sliding window of blocks, the validators that are jailed for missing too many, and the change of a
  commission rate.
\<close>

section \<open>Missed votes\<close>

text \<open>
  \<open>LivenessMissedVotes\<close> has the heights of the missed votes of each validator and \<open>LivenessSumMissedVotes\<close> their
  number. A counter that is absent or zero when it is lowered makes the code panic.
\<close>

record liveness_data =
  missed_votes :: "Address \<Rightarrow> nat set"
  sum_missed_votes :: "(Address, nat) index_map"

datatype liveness_error =
  LivenessPos pos_error | MissedVotesPanic | LivenessArith | NegativeLivenessThreshold | ThresholdPanic | LivenessStateMissing

definition read_consensus_validator_set_addresses :: "epoch \<Rightarrow> pos_state \<Rightarrow> Address list" where
  "read_consensus_validator_set_addresses e s = rev (remdups (rev (map snd (consensus_at s e))))"

definition prune_vote :: "nat option \<Rightarrow> Address \<Rightarrow> liveness_data \<Rightarrow> liveness_error + liveness_data" where
  "prune_vote height_to_prune cons_validator slf =
     (case height_to_prune of
        Some prune_height \<Rightarrow>
          let old = missed_votes slf cons_validator;
              pruned_missing_vote = prune_height \<in> old;
              slf1 = slf\<lparr>missed_votes := (missed_votes slf)(cons_validator := old - {prune_height})\<rparr>
          in if pruned_missing_vote
             then
               rbind (ok_or (map_of (sum_missed_votes slf1) cons_validator) MissedVotesPanic) (\<lambda>n.
               if n = 0 then Inl MissedVotesPanic
               else Inr (slf1\<lparr>sum_missed_votes := AList.update cons_validator (n - 1) (sum_missed_votes slf1)\<rparr>))
             else Inr slf1
      | None \<Rightarrow> Inr slf)"

definition evaluate_vote :: "Address set \<Rightarrow> nat \<Rightarrow> Address \<Rightarrow> liveness_data \<Rightarrow> liveness_error + liveness_data" where
  "evaluate_vote vote_addresses votes_height cons_validator slf =
     (if cons_validator \<notin> vote_addresses
      then
        let slf1 = slf\<lparr>missed_votes := (missed_votes slf)(cons_validator := insert votes_height (missed_votes slf cons_validator))\<rparr>
        in rbind (case map_of (sum_missed_votes slf1) cons_validator of
                    Some n \<Rightarrow> ok_or (u64_add n 1) MissedVotesPanic
                  | None \<Rightarrow> Inr 1) (\<lambda>n.
           Inr (slf1\<lparr>sum_missed_votes := AList.update cons_validator n (sum_missed_votes slf1)\<rparr>))
      else if map_of (sum_missed_votes slf) cons_validator = None
      then Inr (slf\<lparr>sum_missed_votes := AList.update cons_validator 0 (sum_missed_votes slf)\<rparr>)
      else Inr slf)"

definition record_validator :: "PosParams \<Rightarrow> Address set \<Rightarrow> nat \<Rightarrow> liveness_data \<Rightarrow> Address \<Rightarrow> liveness_error + liveness_data" where
  "record_validator params vote_addresses votes_height slf cons_validator =
     rbind (prune_vote (if liveness_window_check params \<le> votes_height then Some (votes_height - liveness_window_check params) else None)
              cons_validator slf)
       (evaluate_vote vote_addresses votes_height cons_validator)"

definition record_liveness_data ::
    "VoteInfo list \<Rightarrow> epoch \<Rightarrow> nat \<Rightarrow> PosParams \<Rightarrow> pos_state \<Rightarrow> liveness_data \<Rightarrow> liveness_error + liveness_data" where
  "record_liveness_data votes votes_epoch votes_height pos_params s slf =
     rfold (record_validator pos_params (validator_address ` set votes) votes_height) slf
       (read_consensus_validator_set_addresses votes_epoch s)"

definition prune_liveness_data :: "epoch \<Rightarrow> pos_state \<Rightarrow> liveness_data \<Rightarrow> liveness_data" where
  "prune_liveness_data current_epoch s slf =
     (let consensus_validators = read_consensus_validator_set_addresses current_epoch s;
          validators_to_prune = filter (\<lambda>a. a \<notin> set consensus_validators) (map fst (sum_missed_votes slf))
      in fold (\<lambda>v slf. slf\<lparr>missed_votes := (missed_votes slf)(v := {}), sum_missed_votes := AList.delete v (sum_missed_votes slf)\<rparr>)
           validators_to_prune slf)"

section \<open>Jailing for inactivity\<close>

definition missing_votes_threshold :: "PosParams \<Rightarrow> liveness_error + nat" where
  "missing_votes_threshold params =
     rbind (ok_or Dec_one LivenessArith) (\<lambda>one.
     rbind (ok_or (Dec_checked_sub one (liveness_threshold params)) LivenessArith) (\<lambda>x.
     rbind (ok_or (Dec_mul_u64 x (liveness_window_check params)) LivenessArith) (\<lambda>y.
     rbind (ok_or (Dec_to_uint y) NegativeLivenessThreshold) (\<lambda>u.
     if unat u < 2 ^ 64 then Inr (unat u) else Inl ThresholdPanic))))"

definition validators_to_jail :: "(Address \<Rightarrow> string) \<Rightarrow> PosParams \<Rightarrow> liveness_data \<Rightarrow> liveness_error + Address list" where
  "validators_to_jail encode params slf =
     rbind (missing_votes_threshold params) (\<lambda>threshold.
     Inr (sort_key encode (remdups (map fst (filter (\<lambda>(_, missed). missed \<ge> threshold) (sum_missed_votes slf))))))"

definition jail_inactive :: "PosParams \<Rightarrow> epoch \<Rightarrow> epoch \<Rightarrow> pos_state \<Rightarrow> Address \<Rightarrow> liveness_error + pos_state" where
  "jail_inactive params current_epoch jail_epoch s validator =
     (case get_validator_state params validator jail_epoch s of
        Inl err \<Rightarrow> Inl (LivenessPos err)
      | Inr None \<Rightarrow> Inl LivenessStateMissing
      | Inr (Some state_jail_epoch) \<Rightarrow>
          if state_jail_epoch = Jailed then Inr s
          else (case jail_validator params validator current_epoch jail_epoch s of Inl err \<Rightarrow> Inl (LivenessPos err) | Inr s1 \<Rightarrow> Inr s1))"

definition jail_for_liveness ::
    "(Address \<Rightarrow> string) \<Rightarrow> PosParams \<Rightarrow> epoch \<Rightarrow> epoch \<Rightarrow> liveness_data \<Rightarrow> pos_state \<Rightarrow> liveness_error + pos_state" where
  "jail_for_liveness encode params current_epoch jail_epoch slf s =
     rbind (validators_to_jail encode params slf) (\<lambda>l. rfold (jail_inactive params current_epoch jail_epoch) s l)"

section \<open>Commission rates\<close>

datatype commission_error =
  NegativeRate Dec Address | LargerThanOne Dec Address | RateChangeTooLarge Dec Address | NoMaxSetInStorage Address
  | CommissionPos pos_error | CommissionArith | RateMissing | PipelineEpochZero

definition commission_pos :: "pos_error + 'a \<Rightarrow> commission_error + 'a" where
  "commission_pos r = (case r of Inl e \<Rightarrow> Inl (CommissionPos e) | Inr a \<Rightarrow> Inr a)"

definition commission_rate_at :: "PosParams \<Rightarrow> Dec epoched \<Rightarrow> epoch \<Rightarrow> commission_error + Dec" where
  "commission_rate_at params h e =
     rbind (commission_pos (offset_of params OffsetDefaultNumPastEpochs)) (\<lambda>past.
     rbind (commission_pos (epoched_result (epoched_get past (pipeline_len params) h e))) (\<lambda>r.
     ok_or r RateMissing))"

definition change_validator_commission_rate :: "Address \<Rightarrow> Dec \<Rightarrow> epoch \<Rightarrow> pos_ledger \<Rightarrow> commission_error + pos_ledger" where
  "change_validator_commission_rate validator new_rate current_epoch s =
     (if Dec_is_negative new_rate then Inl (NegativeRate new_rate validator)
      else
        rbind (ok_or Dec_one CommissionArith) (\<lambda>one.
        if new_rate > one then Inl (LargerThanOne new_rate validator)
        else
          rbind (ok_or (max_commission_rate_changes s validator) (NoMaxSetInStorage validator)) (\<lambda>max_change.
          let params = lg_params s; commission_handle = commission_rates s validator
          in rbind (commission_pos (epoch_plus current_epoch (pipeline_len params))) (\<lambda>pipeline_epoch.
             rbind (commission_rate_at params commission_handle pipeline_epoch) (\<lambda>rate_at_pipeline.
             if new_rate = rate_at_pipeline then Inr s
             else
               rbind (if pipeline_epoch = 0 then Inl PipelineEpochZero else Inr (pipeline_epoch - 1)) (\<lambda>prev_epoch.
               rbind (commission_rate_at params commission_handle prev_epoch) (\<lambda>rate_before_pipeline.
               rbind (case Dec_abs_diff new_rate rate_before_pipeline of Inl _ \<Rightarrow> Inl CommissionArith | Inr d \<Rightarrow> Inr d) (\<lambda>change_from_prev.
               if change_from_prev > max_change then Inl (RateChangeTooLarge change_from_prev validator)
               else
                 rbind (commission_pos (offset_of params OffsetDefaultNumPastEpochs)) (\<lambda>past.
                 rbind (commission_pos (epoched_result (epoched_set past new_rate current_epoch (pipeline_len params) commission_handle))) (\<lambda>h.
                 Inr (s\<lparr>commission_rates := (commission_rates s)(validator := h)\<rparr>)))))))))))"

section \<open>The counters count the misses of the window\<close>

definition liveness_ok :: "Address \<Rightarrow> liveness_data \<Rightarrow> bool" where
  "liveness_ok v slf \<longleftrightarrow> finite (missed_votes slf v) \<and>
     (case map_of (sum_missed_votes slf) v of None \<Rightarrow> missed_votes slf v = {} | Some n \<Rightarrow> n = card (missed_votes slf v))"

lemma prune_vote_ok:
  assumes "liveness_ok v slf"
  obtains slf' where "prune_vote h v slf = Inr slf'" "liveness_ok v slf'"
    "missed_votes slf' = (missed_votes slf)(v := missed_votes slf v - set_option h)"
    "\<And>w. w \<noteq> v \<Longrightarrow> map_of (sum_missed_votes slf') w = map_of (sum_missed_votes slf) w"
proof (cases "\<exists>x. h = Some x \<and> x \<in> missed_votes slf v")
  case True
  then obtain x where x: "h = Some x" "x \<in> missed_votes slf v" by blast
  have fin: "finite (missed_votes slf v)" and n: "map_of (sum_missed_votes slf) v = Some (card (missed_votes slf v))"
    using assms x(2) by (auto simp: liveness_ok_def split: option.splits)
  let ?s = "slf\<lparr>missed_votes := (missed_votes slf)(v := missed_votes slf v - {x}),
    sum_missed_votes := AList.update v (card (missed_votes slf v) - 1) (sum_missed_votes slf)\<rparr>"
  have "card (missed_votes slf v) \<noteq> 0" using fin x(2) by auto
  then have "prune_vote h v slf = Inr ?s" using x n by (simp add: prune_vote_def Let_def)
  moreover have "liveness_ok v ?s" using fin x(2) by (simp add: liveness_ok_def update_conv')
  ultimately show ?thesis using x(1) by (intro that [of ?s]) (simp_all add: update_conv')
next
  case False
  then have same: "missed_votes slf v - set_option h = missed_votes slf v" by (cases h) auto
  then have "prune_vote h v slf = Inr slf" using False by (cases h) (simp_all add: prune_vote_def Let_def fun_upd_idem)
  then show ?thesis using assms same by (intro that [of slf]) (simp_all add: fun_upd_idem)
qed

lemma evaluate_vote_ok:
  assumes ok: "liveness_ok v slf" and new: "h \<notin> missed_votes slf v" and small: "card (missed_votes slf v) + 1 < 2 ^ 64"
  obtains slf' where "evaluate_vote A h v slf = Inr slf'" "liveness_ok v slf'"
    "missed_votes slf' = (missed_votes slf)(v := missed_votes slf v \<union> (if v \<in> A then {} else {h}))"
    "map_of (sum_missed_votes slf') v \<noteq> None" "\<And>w. w \<noteq> v \<Longrightarrow> map_of (sum_missed_votes slf') w = map_of (sum_missed_votes slf) w"
proof (cases "v \<in> A")
  case True
  show ?thesis
  proof (cases "map_of (sum_missed_votes slf) v")
    case None
    then show ?thesis using True ok
      by (intro that [of "slf\<lparr>sum_missed_votes := AList.update v 0 (sum_missed_votes slf)\<rparr>"])
        (simp_all add: evaluate_vote_def liveness_ok_def update_conv' fun_upd_idem)
  next
    case (Some n)
    then show ?thesis using True ok by (intro that [of slf]) (simp_all add: evaluate_vote_def fun_upd_idem)
  qed
next
  case False
  let ?n = "card (missed_votes slf v) + 1"
  let ?s = "slf\<lparr>missed_votes := (missed_votes slf)(v := insert h (missed_votes slf v)), sum_missed_votes := AList.update v ?n (sum_missed_votes slf)\<rparr>"
  have "evaluate_vote A h v slf = Inr ?s" using False ok small
    by (cases "map_of (sum_missed_votes slf) v") (simp_all add: evaluate_vote_def liveness_ok_def u64_add_def Let_def)
  moreover have "liveness_ok v ?s" using ok new by (simp add: liveness_ok_def update_conv')
  ultimately show ?thesis using False by (intro that [of ?s]) (simp_all add: update_conv')
qed

definition in_window :: "nat \<Rightarrow> nat \<Rightarrow> nat set" where
  "in_window w h = {x. x \<le> h \<and> h < x + w}"

lemma card_window: "finite (in_window w h)" "card (in_window w h) \<le> w"
proof -
  have "in_window w h = {Suc h - w..h}" by (auto simp: in_window_def)
  then show "finite (in_window w h)" "card (in_window w h) \<le> w" by simp_all
qed

lemma record_validator_ok:
  assumes ok: "liveness_ok v slf" and win: "missed_votes slf v \<subseteq> in_window (liveness_window_check params) h"
    and w: "0 < liveness_window_check params" "liveness_window_check params < 2 ^ 64 - 1"
  obtains slf' where "record_validator params A (Suc h) slf v = Inr slf'" "liveness_ok v slf'"
    "missed_votes slf' = (missed_votes slf)(v := missed_votes slf v \<inter> in_window (liveness_window_check params) (Suc h) \<union> (if v \<in> A then {} else {Suc h}))"
    "map_of (sum_missed_votes slf') v \<noteq> None" "\<And>w. w \<noteq> v \<Longrightarrow> map_of (sum_missed_votes slf') w = map_of (sum_missed_votes slf) w"
proof -
  let ?w = "liveness_window_check params"
  let ?p = "if ?w \<le> Suc h then Some (Suc h - ?w) else None"
  obtain s1 where s1: "prune_vote ?p v slf = Inr s1" "liveness_ok v s1" "missed_votes s1 = (missed_votes slf)(v := missed_votes slf v - set_option ?p)"
    "\<And>w. w \<noteq> v \<Longrightarrow> map_of (sum_missed_votes s1) w = map_of (sum_missed_votes slf) w"
    using prune_vote_ok [OF ok] by blast
  have "missed_votes slf v - set_option ?p = missed_votes slf v \<inter> in_window ?w (Suc h)"
    using win w(1) by (auto simp: in_window_def)
  then have m1: "missed_votes s1 = (missed_votes slf)(v := missed_votes slf v \<inter> in_window ?w (Suc h))" using s1(3) by simp
  then have new: "Suc h \<notin> missed_votes s1 v" using win by (auto simp: in_window_def)
  have "card (missed_votes s1 v) \<le> card (in_window ?w (Suc h))" using m1 by (intro card_mono card_window) auto
  then have "card (missed_votes s1 v) + 1 < 2 ^ 64" using card_window(2) [of ?w "Suc h"] w(2) by linarith
  then obtain s2 where "evaluate_vote A (Suc h) v s1 = Inr s2" "liveness_ok v s2"
    "missed_votes s2 = (missed_votes s1)(v := missed_votes s1 v \<union> (if v \<in> A then {} else {Suc h}))"
    "map_of (sum_missed_votes s2) v \<noteq> None" "\<And>w. w \<noteq> v \<Longrightarrow> map_of (sum_missed_votes s2) w = map_of (sum_missed_votes s1) w"
    using evaluate_vote_ok [OF s1(2) new] by blast
  then show ?thesis using s1(1,4) m1 by (intro that [of s2]) (simp_all add: record_validator_def)
qed

definition window_ok :: "nat \<Rightarrow> nat \<Rightarrow> Address \<Rightarrow> liveness_data \<Rightarrow> bool" where
  "window_ok w h v slf \<longleftrightarrow> liveness_ok v slf \<and> missed_votes slf v \<subseteq> in_window w h"

lemma record_validators_ok:
  assumes "distinct C" "\<forall>v \<in> set C. window_ok (liveness_window_check params) h v slf"
    and w: "0 < liveness_window_check params" "liveness_window_check params < 2 ^ 64 - 1"
  shows "\<exists>slf'. rfold (record_validator params A (Suc h)) slf C = Inr slf' \<and>
    (\<forall>v \<in> set C. liveness_ok v slf' \<and> map_of (sum_missed_votes slf') v \<noteq> None \<and>
       missed_votes slf' v = missed_votes slf v \<inter> in_window (liveness_window_check params) (Suc h) \<union> (if v \<in> A then {} else {Suc h})) \<and>
    (\<forall>v. v \<notin> set C \<longrightarrow> missed_votes slf' v = missed_votes slf v \<and> map_of (sum_missed_votes slf') v = map_of (sum_missed_votes slf) v)"
  using assms(1,2)
proof (induction C arbitrary: slf)
  case (Cons v C)
  let ?w = "liveness_window_check params"
  have v: "liveness_ok v slf" "missed_votes slf v \<subseteq> in_window ?w h" using Cons.prems(2) by (simp_all add: window_ok_def)
  obtain s1 where s1: "record_validator params A (Suc h) slf v = Inr s1" "liveness_ok v s1"
    "missed_votes s1 = (missed_votes slf)(v := missed_votes slf v \<inter> in_window ?w (Suc h) \<union> (if v \<in> A then {} else {Suc h}))"
    "map_of (sum_missed_votes s1) v \<noteq> None" "\<And>w. w \<noteq> v \<Longrightarrow> map_of (sum_missed_votes s1) w = map_of (sum_missed_votes slf) w"
    using record_validator_ok [OF v w] by blast
  have same: "missed_votes s1 u = missed_votes slf u" "map_of (sum_missed_votes s1) u = map_of (sum_missed_votes slf) u" if "u \<noteq> v" for u
    using that s1(3,5) by simp_all
  have "\<forall>u \<in> set C. window_ok ?w h u s1"
  proof
    fix u assume u: "u \<in> set C"
    then have "u \<noteq> v" using Cons.prems(1) by auto
    moreover have "window_ok ?w h u slf" using Cons.prems(2) u by simp
    ultimately show "window_ok ?w h u s1" using same [of u] by (simp add: window_ok_def liveness_ok_def split: option.splits)
  qed
  then obtain s2 where s2: "rfold (record_validator params A (Suc h)) s1 C = Inr s2"
    "\<forall>v \<in> set C. liveness_ok v s2 \<and> map_of (sum_missed_votes s2) v \<noteq> None \<and>
       missed_votes s2 v = missed_votes s1 v \<inter> in_window ?w (Suc h) \<union> (if v \<in> A then {} else {Suc h})"
    "\<forall>v. v \<notin> set C \<longrightarrow> missed_votes s2 v = missed_votes s1 v \<and> map_of (sum_missed_votes s2) v = map_of (sum_missed_votes s1) v"
    using Cons.IH [of s1] Cons.prems(1) by auto
  have "v \<notin> set C" using Cons.prems(1) by simp
  then have v2: "missed_votes s2 v = missed_votes s1 v" "map_of (sum_missed_votes s2) v = map_of (sum_missed_votes s1) v" using s2(3) by blast+
  then have "liveness_ok v s2" using s1(2) by (simp add: liveness_ok_def split: option.splits)
  moreover have "missed_votes s2 v = missed_votes slf v \<inter> in_window ?w (Suc h) \<union> (if v \<in> A then {} else {Suc h})" using v2 s1(3) by simp
  moreover have "map_of (sum_missed_votes s2) v \<noteq> None" using v2 s1(4) by simp
  moreover have "\<forall>u \<in> set C. missed_votes s1 u = missed_votes slf u" using same \<open>v \<notin> set C\<close> by metis
  ultimately show ?case using s1(1) s2 same by (intro exI [of _ s2]) auto
qed simp

definition missed_in_window :: "PosParams \<Rightarrow> (nat \<Rightarrow> VoteInfo list) \<Rightarrow> liveness_data \<Rightarrow> nat \<Rightarrow> nat \<Rightarrow> Address \<Rightarrow> nat set" where
  "missed_in_window params votes slf h0 h v =
     {x \<in> in_window (liveness_window_check params) h. if x \<le> h0 then x \<in> missed_votes slf v else v \<notin> validator_address ` set (votes x)}"

lemma missed_in_window_subset: "missed_in_window params votes slf h0 h v \<subseteq> in_window (liveness_window_check params) h"
  by (auto simp: missed_in_window_def)

lemma missed_in_window_Suc:
  assumes "h0 \<le> h" "0 < liveness_window_check params"
  shows "missed_in_window params votes slf h0 h v \<inter> in_window (liveness_window_check params) (Suc h) \<union>
      (if v \<in> validator_address ` set (votes (Suc h)) then {} else {Suc h}) = missed_in_window params votes slf h0 (Suc h) v"
  using assms by (auto simp: missed_in_window_def in_window_def le_Suc_eq)

lemma record_blocks:
  fixes votes :: "nat \<Rightarrow> VoteInfo list"
  assumes start: "\<forall>v \<in> set (read_consensus_validator_set_addresses e s). window_ok (liveness_window_check params) h0 v slf"
    and w: "0 < liveness_window_check params" "liveness_window_check params < 2 ^ 64 - 1" and h: "h0 \<le> h"
  shows "\<exists>slf'. rfold (\<lambda>slf x. record_liveness_data (votes x) e x params s slf) slf [Suc h0..<Suc h] = Inr slf' \<and>
    (\<forall>v \<in> set (read_consensus_validator_set_addresses e s). liveness_ok v slf' \<and>
       missed_votes slf' v = missed_in_window params votes slf h0 h v \<and> (h0 < h \<longrightarrow> map_of (sum_missed_votes slf') v \<noteq> None))"
  using h
proof (induction rule: dec_induct)
  case base
  have "missed_votes slf v = missed_in_window params votes slf h0 h0 v" if "v \<in> set (read_consensus_validator_set_addresses e s)" for v
    using start that by (auto simp: window_ok_def missed_in_window_def in_window_def)
  then show ?case using start by (auto simp: window_ok_def)
next
  case (step h)
  let ?C = "read_consensus_validator_set_addresses e s" and ?w = "liveness_window_check params"
  obtain s1 where s1: "rfold (\<lambda>slf x. record_liveness_data (votes x) e x params s slf) slf [Suc h0..<Suc h] = Inr s1"
    "\<forall>v \<in> set ?C. liveness_ok v s1 \<and> missed_votes s1 v = missed_in_window params votes slf h0 h v"
    using step.IH by blast
  have C: "distinct ?C" by (simp add: read_consensus_validator_set_addresses_def)
  have "\<forall>v \<in> set ?C. window_ok ?w h v s1" using s1(2) by (auto simp: window_ok_def missed_in_window_def)
  then obtain s2 where s2: "record_liveness_data (votes (Suc h)) e (Suc h) params s s1 = Inr s2"
    "\<forall>v \<in> set ?C. liveness_ok v s2 \<and> map_of (sum_missed_votes s2) v \<noteq> None \<and>
       missed_votes s2 v = missed_votes s1 v \<inter> in_window ?w (Suc h) \<union> (if v \<in> validator_address ` set (votes (Suc h)) then {} else {Suc h})"
    using record_validators_ok [OF C _ w] unfolding record_liveness_data_def by blast
  have "rfold (\<lambda>slf x. record_liveness_data (votes x) e x params s slf) slf ([Suc h0..<Suc h] @ [Suc h]) = Inr s2"
    using s1(1) s2(1) by (simp add: rfold_append del: upt_Suc)
  moreover have "[Suc h0..<Suc (Suc h)] = [Suc h0..<Suc h] @ [Suc h]" using step.hyps(1) by (subst upt_Suc) simp
  moreover have "\<forall>v \<in> set ?C. missed_votes s2 v = missed_in_window params votes slf h0 (Suc h) v"
    using s2(2) s1(2) missed_in_window_Suc [OF step.hyps(1) w(1)] by simp
  ultimately show ?case using s2(2) by (intro exI [of _ s2]) simp
qed

text \<open>
  C18: The liveness counter of a consensus validator is exact. After recording any number of consecutive blocks, it equals the number of
  heights within the last \<open>liveness_window_check\<close> blocks whose vote the validator missed: heights before the start as the data
  recorded them, later heights whenever the validator is not among the votes. No step of the recording panics, and the data stays in
  the form that the record of the next block needs.
\<close>

theorem liveness_counters_exact:
  fixes votes :: "nat \<Rightarrow> VoteInfo list"
  assumes start: "\<forall>v \<in> set (read_consensus_validator_set_addresses e s). window_ok (liveness_window_check params) h0 v slf"
    and w: "0 < liveness_window_check params" "liveness_window_check params < 2 ^ 64 - 1" and h: "h0 < h"
  shows "\<exists>slf'. rfold (\<lambda>slf x. record_liveness_data (votes x) e x params s slf) slf [Suc h0..<Suc h] = Inr slf' \<and>
    (\<forall>v \<in> set (read_consensus_validator_set_addresses e s). window_ok (liveness_window_check params) h v slf' \<and>
       map_of (sum_missed_votes slf') v = Some (card (missed_in_window params votes slf h0 h v)))"
proof -
  let ?C = "read_consensus_validator_set_addresses e s"
  obtain s1 where s1: "rfold (\<lambda>slf x. record_liveness_data (votes x) e x params s slf) slf [Suc h0..<Suc h] = Inr s1"
    and v: "\<forall>v \<in> set ?C. liveness_ok v s1 \<and> missed_votes s1 v = missed_in_window params votes slf h0 h v \<and>
       map_of (sum_missed_votes s1) v \<noteq> None"
    using record_blocks [OF start w less_imp_le [OF h], of votes] h by auto
  have "window_ok (liveness_window_check params) h v s1 \<and> map_of (sum_missed_votes s1) v = Some (card (missed_in_window params votes slf h0 h v))"
    if "v \<in> set ?C" for v
    using v [rule_format, OF that] missed_in_window_subset [of params votes slf h0 h v] by (auto simp: window_ok_def liveness_ok_def)
  then show ?thesis using s1 by blast
qed

definition no_liveness_data :: liveness_data where
  "no_liveness_data = \<lparr>missed_votes = (\<lambda>_. {}), sum_missed_votes = []\<rparr>"

theorem liveness_counters_exact_witness:
  "\<exists>slf'. rfold (\<lambda>slf x. record_liveness_data (if even x then [sample_vote] else []) 4 x default_pos_params sample_active slf)
     no_liveness_data [Suc 10..<Suc 13] = Inr slf' \<and> map_of (sum_missed_votes slf') sample_validator = Some 2"
proof -
  let ?votes = "\<lambda>x::nat. if even x then [sample_vote] else []"
  have C: "read_consensus_validator_set_addresses 4 sample_active = [sample_validator]"
    by (simp add: read_consensus_validator_set_addresses_def sample_block_parts)
  have w: "liveness_window_check default_pos_params = 10000" by (simp add: default_pos_params_def)
  have odds: "x = 11 \<or> x = 13" if "x \<le> 13" "\<not> x \<le> 10" "odd x" for x :: nat
  proof -
    have "x = 11 \<or> x = 12 \<or> x = 13" using that(1,2) by linarith
    then show ?thesis using that(3) by auto
  qed
  have voted: "sample_validator \<notin> validator_address ` set (?votes x) \<longleftrightarrow> odd x" for x by (cases "even x") (simp_all add: sample_vote_def)
  have "missed_in_window default_pos_params ?votes no_liveness_data 10 13 sample_validator = {11, 13}"
    unfolding missed_in_window_def voted by (auto simp: in_window_def w no_liveness_data_def dest: odds)
  moreover have start: "\<forall>v \<in> set (read_consensus_validator_set_addresses 4 sample_active).
      window_ok (liveness_window_check default_pos_params) 10 v no_liveness_data"
    by (simp add: C window_ok_def liveness_ok_def no_liveness_data_def)
  have bounds: "0 < liveness_window_check default_pos_params" "liveness_window_check default_pos_params < 2 ^ 64 - 1" "10 < (13::nat)"
    by (simp_all add: w)
  obtain slf' where "rfold (\<lambda>slf x. record_liveness_data (?votes x) 4 x default_pos_params sample_active slf) no_liveness_data [Suc 10..<Suc 13] = Inr slf'"
    "map_of (sum_missed_votes slf') sample_validator = Some (card (missed_in_window default_pos_params ?votes no_liveness_data 10 13 sample_validator))"
    using liveness_counters_exact [OF start bounds, of ?votes] C by (auto simp del: upt_Suc)
  ultimately show ?thesis by (intro exI [of _ slf']) (simp del: upt_Suc)
qed

lemma prune_fold:
  "missed_votes (fold (\<lambda>v slf. slf\<lparr>missed_votes := (missed_votes slf)(v := {}), sum_missed_votes := AList.delete v (sum_missed_votes slf)\<rparr>) l slf) v =
     (if v \<in> set l then {} else missed_votes slf v)"
  "map_of (sum_missed_votes (fold (\<lambda>v slf. slf\<lparr>missed_votes := (missed_votes slf)(v := {}), sum_missed_votes := AList.delete v (sum_missed_votes slf)\<rparr>) l slf)) v =
     (if v \<in> set l then None else map_of (sum_missed_votes slf) v)"
  by (induction l arbitrary: slf) (auto simp: delete_conv')

lemma prune_liveness_data_keeps:
  "v \<in> set (read_consensus_validator_set_addresses e s) \<Longrightarrow>
     missed_votes (prune_liveness_data e s slf) v = missed_votes slf v \<and>
     map_of (sum_missed_votes (prune_liveness_data e s slf)) v = map_of (sum_missed_votes slf) v"
  "v \<notin> set (read_consensus_validator_set_addresses e s) \<Longrightarrow> map_of (sum_missed_votes (prune_liveness_data e s slf)) v = None"
  by (auto simp: prune_liveness_data_def prune_fold image_iff map_of_eq_None_iff)

lemma prune_keeps_window:
  assumes "\<And>v. v \<in> set (read_consensus_validator_set_addresses e s) \<Longrightarrow> window_ok w h v slf"
  shows "\<forall>v \<in> set (read_consensus_validator_set_addresses e s). window_ok w h v (prune_liveness_data e s slf)"
proof
  fix v assume v: "v \<in> set (read_consensus_validator_set_addresses e s)"
  show "window_ok w h v (prune_liveness_data e s slf)"
    using prune_liveness_data_keeps(1) [OF v, of slf] assms [OF v] by (simp add: window_ok_def liveness_ok_def split: option.splits)
qed

section \<open>Who is jailed\<close>

lemma missing_votes_threshold_eq:
  assumes t: "Dec_inv (liveness_threshold params)" "0 \<le> dec_val (liveness_threshold params)" "dec_val (liveness_threshold params) \<le> 10 ^ 12"
    and w: "liveness_window_check params < 2 ^ 64"
  shows "missing_votes_threshold params =
    Inr (nat (10 ^ 12 - dec_val (liveness_threshold params)) * liveness_window_check params div 10 ^ 12)"
proof -
  let ?d = "10 ^ 12 - dec_val (liveness_threshold params)" and ?w = "liveness_window_check params"
  have d: "0 \<le> ?d" "?d \<le> 10 ^ 12" using t by simp_all
  have sub: "Dec_checked_sub (dec_of (10 ^ 12)) (liveness_threshold params) = Some (dec_of ?d)"
    using t by (simp add: Dec_checked_sub_eq Dec_inv_of dec_val_of dec_checked_def)
  have inv: "Dec_inv (dec_of ?d)" "dec_val (dec_of ?d) = ?d" using d by (simp_all add: Dec_inv_of dec_val_of)
  have "?d * int ?w \<le> 10 ^ 12 * int ?w" by (intro mult_right_mono d(2)) simp
  then have small: "?d * int ?w < 10 ^ 12 * 2 ^ 64" using w by simp
  have "\<bar>x * 10 ^ 12\<bar> < 2 ^ 255" if "0 \<le> x" "x < 10 ^ 12 * 2 ^ 64" for x :: int using that by simp
  from this [OF _ small] have "\<bar>?d * (int ?w * 10 ^ 12)\<bar> < 2 ^ 255" using d(1) by (simp only: mult.assoc mult_nonneg_nonneg of_nat_0_le_iff)
  then have mul: "Dec_mul_u64 (dec_of ?d) ?w = Some (dec_of (?d * int ?w))" unfolding Dec_mul_u64_eq [OF inv(1) w] inv(2) by simp
  have "0 \<le> ?d * int ?w" using d(1) by simp
  then have uint: "Dec_to_uint (dec_of (?d * int ?w)) = Some (of_nat (nat (?d * int ?w) div 10 ^ 12))"
    using small by (simp add: Dec_to_uint_eq Dec_inv_of dec_val_of)
  have n: "nat (?d * int ?w) = nat ?d * ?w" using d(1) by (simp add: nat_mult_distrib)
  have "nat ?d * ?w div 10 ^ 12 \<le> 10 ^ 12 * ?w div 10 ^ 12" by (intro div_le_mono mult_right_mono) (use d(2) in simp_all)
  then have lt: "nat ?d * ?w div 10 ^ 12 < 2 ^ 64" using w by simp
  then have "nat ?d * ?w div 10 ^ 12 < 2 ^ 256" by simp
  then show ?thesis using lt unfolding missing_votes_threshold_def Dec_constants(1) n [symmetric]
    by (simp add: sub [simplified] mul [simplified] uint [simplified] unat_of_nat_lt)
qed

lemma validators_to_jail_eq:
  assumes "missing_votes_threshold params = Inr n"
  shows "\<exists>l. validators_to_jail encode params slf = Inr l \<and> distinct l \<and> set l = {v. \<exists>m. (v, m) \<in> set (sum_missed_votes slf) \<and> n \<le> m}"
  using assms by (simp add: validators_to_jail_def) force

text \<open>
  C35: Valid parameters can jail every validator. When the tolerated number of missed votes, \<open>(1 - liveness_threshold) *
  liveness_window_check\<close>, is less than one vote, it is rounded to zero and the comparison \<open>missed_votes >= 0\<close> selects every
  validator with liveness data, also one that has signed every block. The validation of the parameters accepts such values.
\<close>

theorem zero_tolerance_jails_everyone:
  assumes valid: "validate_pos_params params = Some []" "pos_params_inv params"
    and t: "0 \<le> dec_val (liveness_threshold params)" and w: "liveness_window_check params < 2 ^ 64"
    and small: "nat (10 ^ 12 - dec_val (liveness_threshold params)) * liveness_window_check params < 10 ^ 12"
  shows "\<exists>l. validators_to_jail encode params slf = Inr l \<and> distinct l \<and> set l = fst ` set (sum_missed_votes slf)"
proof -
  have inv: "Dec_inv (liveness_threshold params)" using valid(2) by (simp add: pos_params_inv_def)
  have "\<not> liveness_threshold params > dec_of (10 ^ 12)"
    using valid(1) unfolding validate_pos_params_def Dec_constants(1) by (auto simp: bind_eq_Some_conv split: if_splits)
  then have "dec_val (liveness_threshold params) \<le> 10 ^ 12" using inv by (simp add: Dec_less_val Dec_inv_of dec_val_of)
  then have "missing_votes_threshold params = Inr 0" using missing_votes_threshold_eq [OF inv t _ w] small by simp
  then show ?thesis using validators_to_jail_eq [of params 0 encode slf] by force
qed

theorem zero_tolerance_jails_everyone_witness:
  "validate_pos_params (default_pos_params\<lparr>liveness_threshold := dec_of (10 ^ 12)\<rparr>) = Some [] \<and>
   (\<exists>l. validators_to_jail (\<lambda>_. []) (default_pos_params\<lparr>liveness_threshold := dec_of (10 ^ 12)\<rparr>)
      \<lparr>missed_votes = (\<lambda>_. {}), sum_missed_votes = [(sample_validator, 0)]\<rparr> = Inr l \<and> set l = {sample_validator})"
proof -
  let ?p = "default_pos_params\<lparr>liveness_threshold := dec_of (10 ^ 12)\<rparr>" and ?l = "\<lparr>missed_votes = (\<lambda>_. {}), sum_missed_votes = [(sample_validator, 0)]\<rparr>"
  have valid: "validate_pos_params ?p = Some []"
    using default_pos_params_valid(2) unfolding validate_pos_params_def Dec_constants(1)
    by (auto simp: bind_eq_Some_conv split: if_splits option.splits)
  have "pos_params_inv ?p" using default_pos_params_valid(1) by (simp add: pos_params_inv_def Dec_inv_of)
  then show ?thesis using zero_tolerance_jails_everyone [OF valid, of "\<lambda>_. []" ?l] valid
    by (simp add: dec_val_of default_pos_params_def) blast
qed

section \<open>Commission rates move slowly\<close>

definition rate_at :: "Dec epoched \<Rightarrow> epoch \<Rightarrow> Dec option" where
  "rate_at h e = nearest (lazy_map h) e"

definition commission_inv :: "PosParams \<Rightarrow> epoch \<Rightarrow> Dec \<Rightarrow> Dec epoched \<Rightarrow> bool" where
  "commission_inv params cur max_change h \<longleftrightarrow>
     epoched_inv DEFAULT_NUM_PAST_EPOCHS (pipeline_len params) h \<and> updated_by cur h \<and>
     (\<forall>e r. rate_at h e = Some r \<longrightarrow> Dec_inv r \<and> 0 \<le> dec_val r \<and> dec_val r \<le> 10 ^ 12) \<and>
     (\<forall>e r r'. rate_at h e = Some r \<longrightarrow> rate_at h (Suc e) = Some r' \<longrightarrow> \<bar>dec_val r' - dec_val r\<bar> \<le> dec_val max_change)"

lemma commission_pos_Inr [simp]: "commission_pos r = Inr x \<longleftrightarrow> r = Inr x"
  by (cases r) (simp_all add: commission_pos_def)

lemma commission_past: "offset_of params OffsetDefaultNumPastEpochs = Inr DEFAULT_NUM_PAST_EPOCHS"
  by (simp add: offset_of_def)

lemma commission_rate_at_eq:
  assumes "commission_inv params cur m h" "cur + pipeline_len params < 2 ^ 64"
  shows "commission_rate_at params h e = ok_or (rate_at h e) RateMissing"
proof -
  have "epoched_get DEFAULT_NUM_PAST_EPOCHS (pipeline_len params) h e = Inr (rate_at h e)"
    unfolding rate_at_def using assms by (intro epoched_get_eq) (auto simp: commission_inv_def updated_by_def)
  then show ?thesis by (simp add: commission_rate_at_def commission_past commission_pos_def epoched_result_def)
qed

lemma commission_set_inv:
  assumes inv: "commission_inv params cur m h" and small: "cur + pipeline_len params < 2 ^ 64" and pipe: "0 < pipeline_len params"
    and r: "Dec_inv r" "0 \<le> dec_val r" "dec_val r \<le> 10 ^ 12" "0 \<le> dec_val m"
    and prev: "rate_at h (cur + pipeline_len params - 1) = Some q" "\<bar>dec_val r - dec_val q\<bar> \<le> dec_val m"
    and set: "epoched_set DEFAULT_NUM_PAST_EPOCHS r cur (pipeline_len params) h = Inr h'"
  shows "commission_inv params cur m h'"
    "sub_past_epochs DEFAULT_NUM_PAST_EPOCHS cur \<le> e \<Longrightarrow> rate_at h' e = (if cur + pipeline_len params \<le> e then Some r else rate_at h e)"
proof -
  let ?lo = "sub_past_epochs DEFAULT_NUM_PAST_EPOCHS cur" and ?n = "cur + pipeline_len params"
  have I: "epoched_inv DEFAULT_NUM_PAST_EPOCHS (pipeline_len params) h" "updated_by cur h"
    and range: "\<And>e r. rate_at h e = Some r \<Longrightarrow> Dec_inv r \<and> 0 \<le> dec_val r \<and> dec_val r \<le> 10 ^ 12"
    and slow: "\<And>e r r'. rate_at h e = Some r \<Longrightarrow> rate_at h (Suc e) = Some r' \<Longrightarrow> \<bar>dec_val r' - dec_val r\<bar> \<le> dec_val m"
    using inv unfolding commission_inv_def by blast+
  obtain E where "epoched_set DEFAULT_NUM_PAST_EPOCHS r cur (pipeline_len params) h = Inr E"
    "epoched_inv DEFAULT_NUM_PAST_EPOCHS (pipeline_len params) E" "updated_by cur E"
    "\<And>e. nearest (lazy_map E) e = (if e < ?lo then None else if ?n \<le> e then Some r else nearest (lazy_map h) e)"
    using epoched_set_nearest [OF I small, of r] by blast
  then have h': "epoched_inv DEFAULT_NUM_PAST_EPOCHS (pipeline_len params) h'" "updated_by cur h'"
    and at: "\<And>e. rate_at h' e = (if e < ?lo then None else if ?n \<le> e then Some r else rate_at h e)"
    using set by (simp_all add: rate_at_def)
  show "?lo \<le> e \<Longrightarrow> rate_at h' e = (if ?n \<le> e then Some r else rate_at h e)" by (simp add: at)
  have "Dec_inv x \<and> 0 \<le> dec_val x \<and> dec_val x \<le> 10 ^ 12" if "rate_at h' e = Some x" for e x
    using that range [of e x] r(1-3) by (auto simp: at split: if_splits)
  moreover have "\<bar>dec_val y - dec_val x\<bar> \<le> dec_val m" if x: "rate_at h' e = Some x" and y: "rate_at h' (Suc e) = Some y" for e x y
  proof -
    consider "Suc e < ?n" | "Suc e = ?n" | "?n \<le> e" by linarith
    then show ?thesis
    proof cases
      case 1
      then show ?thesis using slow [of e x y] x y by (auto simp: at split: if_splits)
    next
      case 2
      then have "e = ?n - 1" by simp
      then show ?thesis using 2 x y prev by (auto simp: at split: if_splits)
    next
      case 3
      then show ?thesis using x y r(4) by (auto simp: at split: if_splits)
    qed
  qed
  ultimately show "commission_inv params cur m h'" unfolding commission_inv_def using h' by blast
qed

text \<open>
  C19: A commission rate changes within its announced limits. A successful change keeps the invariant that all rates lie between zero and
  one and that the rates of consecutive epochs differ by at most the maximal change that the validator declared. The new rate
  holds from the pipeline epoch on; the rates of the epochs before it are what they were.
\<close>

theorem commission_rate_moves_slowly:
  fixes s :: pos_ledger and v :: Address and cur :: epoch
  defines "n \<equiv> cur + pipeline_len (lg_params s)"
  assumes ok: "change_validator_commission_rate v r cur s = Inr s'" and m: "max_commission_rate_changes s v = Some m"
    and inv: "commission_inv (lg_params s) cur m (commission_rates s v)" and small: "n < 2 ^ 64" and pipe: "0 < pipeline_len (lg_params s)"
    and wf: "Dec_inv r" "Dec_inv m" "0 \<le> dec_val m"
  shows "commission_inv (lg_params s) cur m (commission_rates s' v) \<and> rate_at (commission_rates s' v) n = Some r \<and>
    (\<forall>e\<in>{cur..<n}. rate_at (commission_rates s' v) e = rate_at (commission_rates s v) e) \<and>
    (\<forall>u. u \<noteq> v \<longrightarrow> commission_rates s' u = commission_rates s u)"
proof -
  let ?h = "commission_rates s v" and ?p = "pipeline_len (lg_params s)"
  note at = commission_rate_at_eq [OF inv small [unfolded n_def]]
  have bounds: "\<not> Dec_is_negative r" "\<not> r > dec_of (10 ^ 12)"
    using ok unfolding change_validator_commission_rate_def Dec_constants(1) by (auto split: if_splits)
  then have range: "0 \<le> dec_val r" "dec_val r \<le> 10 ^ 12" using wf(1) by (simp_all add: Dec_is_negative_iff Dec_less_val Dec_inv_of dec_val_of)
  have ok': "rbind (ok_or (rate_at ?h n) RateMissing) (\<lambda>q.
      if r = q then Inr s
      else
        rbind (ok_or (rate_at ?h (n - 1)) RateMissing) (\<lambda>x.
        rbind (case Dec_abs_diff r x of Inl _ \<Rightarrow> Inl CommissionArith | Inr d \<Rightarrow> Inr d) (\<lambda>d.
        if d > m then Inl (RateChangeTooLarge d v)
        else
          rbind (commission_pos (epoched_result (epoched_set DEFAULT_NUM_PAST_EPOCHS r cur ?p ?h))) (\<lambda>h.
          Inr (s\<lparr>commission_rates := (commission_rates s)(v := h)\<rparr>))))) = Inr s'"
    using ok bounds small m pipe unfolding change_validator_commission_rate_def Dec_constants(1) n_def
    by (simp add: at Let_def commission_past epoch_plus_def commission_pos_def cong: if_cong)
  then obtain q where q: "rate_at ?h n = Some q" by (cases "rate_at ?h n") simp_all
  have rest: "r = q \<and> s' = s \<or> r \<noteq> q \<and> (\<exists>x d h'. rate_at ?h (n - 1) = Some x \<and> Dec_abs_diff r x = Inr d \<and> \<not> d > m \<and>
       epoched_set DEFAULT_NUM_PAST_EPOCHS r cur ?p ?h = Inr h' \<and> s' = s\<lparr>commission_rates := (commission_rates s)(v := h')\<rparr>)"
    using ok' unfolding q
    by (cases "r = q") (auto simp: rbind_Inr_iff ok_or_Inr_iff epoched_result_def split: if_splits sum.splits)
  from rest show ?thesis
  proof
    assume "r = q \<and> s' = s"
    then show ?thesis using inv q by simp
  next
    assume "r \<noteq> q \<and> (\<exists>x d h'. rate_at ?h (n - 1) = Some x \<and> Dec_abs_diff r x = Inr d \<and> \<not> d > m \<and>
       epoched_set DEFAULT_NUM_PAST_EPOCHS r cur ?p ?h = Inr h' \<and> s' = s\<lparr>commission_rates := (commission_rates s)(v := h')\<rparr>)"
    then obtain x d h' where x: "rate_at ?h (n - 1) = Some x" and d: "Dec_abs_diff r x = Inr d" "\<not> d > m"
      and h': "epoched_set DEFAULT_NUM_PAST_EPOCHS r cur ?p ?h = Inr h'" and s': "s' = s\<lparr>commission_rates := (commission_rates s)(v := h')\<rparr>" by blast
    have "Dec_inv x" using inv x by (auto simp: commission_inv_def)
    then have "Dec_inv d \<and> dec_val d = \<bar>dec_val r - dec_val x\<bar>" using d(1) wf(1) by (simp add: Dec_abs_diff_eq ok_or_Inr_iff dec_checked_Some)
    then have "\<bar>dec_val r - dec_val x\<bar> \<le> dec_val m" using d(2) wf(2) by (auto simp: Dec_less_val)
    note c = commission_set_inv [OF inv small [unfolded n_def] pipe wf(1) range wf(3) x [unfolded n_def] this h', folded n_def]
    have "sub_past_epochs DEFAULT_NUM_PAST_EPOCHS cur \<le> cur" by (simp add: sub_past_epochs_def)
    then show ?thesis using c pipe by (auto simp: s' n_def)
  qed
qed

definition sample_commission_ledger :: pos_ledger where
  "sample_commission_ledger = sample_ledger\<lparr>commission_rates := (\<lambda>_. epoched_open)(sample_validator := sample_rate),
     max_commission_rate_changes := [sample_validator \<mapsto> dec_of 10000000000]\<rparr>"

lemma sample_rate_at: "rate_at sample_rate e = (if 6 \<le> e then Some (dec_of 50000000000) else None)"
proof (cases "6 \<le> e")
  case True
  then have "nearest (lazy_map sample_rate) e = nearest (lazy_map sample_rate) 6" by (intro nearest_skip) (auto simp: sample_rate_def)
  then show ?thesis using True by (simp add: rate_at_def sample_rate_def nearest_Some_key)
next
  case False
  then have "nearest (lazy_map sample_rate) e = None" by (intro nearest_none) (auto simp: sample_rate_def)
  then show ?thesis using False by (simp add: rate_at_def)
qed

lemma sample_commission_inv: "commission_inv default_pos_params 6 (dec_of 10000000000) sample_rate"
proof -
  have "epoched_inv DEFAULT_NUM_PAST_EPOCHS (pipeline_len default_pos_params) sample_rate" "updated_by 6 sample_rate"
    by (auto simp: sample_rate_def epoched_inv_def updated_by_def sub_past_epochs_def DEFAULT_NUM_PAST_EPOCHS_def)
  then show ?thesis by (auto simp: commission_inv_def sample_rate_at Dec_inv_of dec_val_of split: if_splits)
qed

theorem commission_rate_moves_slowly_witness:
  "\<exists>s'. change_validator_commission_rate sample_validator (dec_of 55000000000) 6 sample_commission_ledger = Inr s' \<and>
    rate_at (commission_rates s' sample_validator) 8 = Some (dec_of 55000000000) \<and>
    rate_at (commission_rates s' sample_validator) 7 = Some (dec_of 50000000000)"
proof -
  let ?s = sample_commission_ledger and ?r = "dec_of 55000000000"
  have s: "lg_params ?s = default_pos_params" "commission_rates ?s sample_validator = sample_rate"
    "max_commission_rate_changes ?s sample_validator = Some (dec_of 10000000000)"
    by (simp_all add: sample_commission_ledger_def sample_ledger_def)
  have inv: "commission_inv (lg_params ?s) 6 (dec_of 10000000000) (commission_rates ?s sample_validator)" by (simp add: s sample_commission_inv)
  have at: "commission_rate_at default_pos_params sample_rate e = ok_or (rate_at sample_rate e) RateMissing" for e
    by (rule commission_rate_at_eq [OF sample_commission_inv]) simp
  have ne: "?r \<noteq> dec_of 50000000000" using dec_val_of [of 55000000000] dec_val_of [of 50000000000] by auto
  have diff: "Dec_abs_diff ?r (dec_of 50000000000) = Inr (dec_of 5000000000)" "\<not> dec_of 10000000000 < dec_of 5000000000"
    by (simp_all add: Dec_abs_diff_eq Dec_less_val Dec_inv_of dec_val_of dec_checked_def)
  have I: "epoched_inv DEFAULT_NUM_PAST_EPOCHS (pipeline_len default_pos_params) sample_rate" "updated_by 6 sample_rate"
    "6 + pipeline_len default_pos_params < 2 ^ 64" using sample_commission_inv by (simp_all add: commission_inv_def)
  obtain E where "epoched_set DEFAULT_NUM_PAST_EPOCHS ?r 6 (pipeline_len default_pos_params) sample_rate = Inr E"
    using epoched_set_nearest [OF I, of ?r] by blast
  then have "\<exists>s'. change_validator_commission_rate sample_validator ?r 6 ?s = Inr s'"
    using ne diff by (simp add: change_validator_commission_rate_def Dec_constants Dec_is_negative_iff Dec_less_val Dec_inv_of dec_val_of s Let_def
        commission_pos_def epoch_plus_def at sample_rate_at commission_past epoched_result_def)
  then obtain s' where s': "change_validator_commission_rate sample_validator ?r 6 ?s = Inr s'" by blast
  then show ?thesis using commission_rate_moves_slowly [OF s' s(3) inv] by (auto simp: s Dec_inv_of dec_val_of sample_rate_at)
qed

end
