(* ===== verification/Spec2Isabelle.thy ===== *)
theory Spec2Isabelle
  imports MultitokenVp WriteLog Gas CometUpdates GovernanceTally PosLiveness
begin

text \<open>
  A verification development for the Namada ledger, a proof-of-stake chain on CometBFT.

  \<^bold>\<open>The parts and how they meet.\<close> A block runs transactions over key-value storage. A transaction writes
  into a \<^emph>\<open>write log\<close> and pays \<^emph>\<open>gas\<close>; the accounts whose storage it changed check it through their
  \<^emph>\<open>validity predicates\<close>, of which the one of the \<^emph>\<open>multitoken\<close> account guards all balances. Tokens are
  moved by the functions of the transparent token crate. The \<^emph>\<open>proof-of-stake\<close> functions lock tokens as
  bonds, derive the stake of each validator at each epoch from them, keep the sets of
  validators, hand their changes to CometBFT, and jail and slash. \<^emph>\<open>Governance\<close> counts votes by stake.
  Below all of it lie 256-bit integers, decimals, amounts, addresses, storage keys and epochs.

  \<^bold>\<open>Conventions.\<close> A Rust integer is a machine word, or a natural number with the bound of its
  type written out where the code adds with a check; the workspace builds with overflow checks, so
  a plain \<open>+\<close> that overflows is a panic, and a panic is an error value. A \<open>Result\<close> is a sum
  with the error on the left (\<open>rbind\<close> is the operator \<open>?\<close>, \<open>rfold\<close> a loop that may fail); code that
  writes storage also returns the state it reached (theory \<open>StateResult\<close>). A hash map (an index map
  of the crate \<open>indexmap\<close>) is an association list in the order of insertion, a
  \<open>BTreeMap\<close> or an iteration over storage a list sorted by key. Where the order is the one of
  the encoded addresses, the bech32m encoding of another crate is the argument \<open>encode\<close>. Nothing of
  the model is left to fuel: every loop is a fold or a recursion with a termination proof.

  \<^bold>\<open>Theories.\<close>

  \<^item> \<open>Prelude\<close>, \<open>StateResult\<close>, \<open>Collections\<close>, \<open>Strings\<close>: results, state, maps and text. The locale
    of keyed maps in \<open>Collections\<close> gives the law that a balance change under one key changes a sum by
    just that amount; hash maps and sorted maps are its interpretations.

  \<^item> \<open>Limbs\<close>, \<open>Uint512\<close>, \<open>Uint256\<close> (\<open>crates/core/src/uint.rs\<close>): \<open>Uint\<close> and \<open>I256\<close>. The quotient of a
    512-bit product through Knuth's Algorithm D over limb arrays is the mathematical quotient;
    signed arithmetic is integer arithmetic with the exact overflow conditions; the binary
    greatest common divisor terminates.

  \<^item> \<open>Decimal\<close> (\<open>crates/core/src/dec.rs\<close>): decimals of scale 12: exact sums, rounding of products and
    quotients, printing and parsing as inverse functions, and that every reachable value is in range.

  \<^item> \<open>TokenAmount\<close> (\<open>crates/core/src/token.rs\<close>): amounts, denominated amounts and the digits of the
    shielded pool: shares rounded up stay within the amount, text and digits are read back.

  \<^item> \<open>Addresses\<close> (\<open>address.rs\<close>, \<open>address/raw.rs\<close>), \<open>StorageTypes\<close> (\<open>storage.rs\<close>): canonical bytes of
    addresses, keys and their text, epochs of block heights, ordered delivery of Ethereum events.

  \<^item> \<open>Gas\<close> (\<open>crates/gas/src/lib.rs\<close>): meters behind one locale, interpreted for the meter of a transaction and of a
    validity predicate; the gas of predicates run in parallel does not depend on the schedule.

  \<^item> \<open>WriteLog\<close> (\<open>crates/state/src/write_log.rs\<close>): the three layers of the log refine one view of storage;
    commit, drop and the prefix iterators agree with that view; who must verify.

  \<^item> \<open>TransToken\<close> (\<open>crates/trans_token\<close>), \<open>MultitokenVp\<close> (\<open>native_vp/multitoken.rs\<close>): every sequence of token
    operations keeps the supply equal to the sum of the balances; the predicate accepts only
    transactions that conserve tokens, and accepts what a transfer does.

  \<^item> \<open>Epoched\<close>, \<open>PosParams\<close>, \<open>PosState\<close>, \<open>ValidatorSets\<close> (\<open>epoched.rs\<close>, \<open>parameters.rs\<close>, \<open>storage.rs\<close>,
    \<open>validator_set_update.rs\<close> of \<open>crates/proof_of_stake/src\<close>): epoched data refine a history of values, deltas a
    history of sums (the locale of delta data is interpreted for changes and for amounts); every
    update keeps the consensus set the largest stakes above the threshold.

  \<^item> \<open>CometUpdates\<close> (\<open>validator_set_update\<close> to CometBFT): the updates bring the set of CometBFT to the next consensus set.

  \<^item> \<open>PosSlashing\<close> (\<open>slashing.rs\<close>): what is left of bonds and unbonds after slashes.

  \<^item> \<open>PosLedger\<close>, \<open>PosSteps\<close> (\<open>lib.rs\<close>): bonding, unbonding, withdrawal and redelegation as functions on the
    record \<open>pos_ledger\<close>, and as a step relation. An unbonding moves exactly its amount; in every
    reachable state the totals of a validator are the sums of its bonds, and without slashes its
    stake at each epoch is the sum of the bonds active there.

  \<^item> \<open>PosLifecycle\<close> (\<open>lib.rs\<close>, \<open>slash\<close> of \<open>slashing.rs\<close>): evidence, jailing, return from jail, deactivation and
    reactivation, and what they do to the sets.

  \<^item> \<open>GovernanceTally\<close> (\<open>governance/src/utils.rs\<close>): a tally counts every voting power once, and when a proposal passes.

  \<^bold>\<open>Bounds.\<close> Epochs and heights are below $2^{64}$, amounts below $2^{256}$ and stakes below $2^{255}$, as in the
  source; theorems name the sums that must not overflow. Invariants such as \<open>vsets_inv\<close>, \<open>ledger_ok\<close> and
  \<open>states_ok\<close> hold for the sample states of the witnesses, and for fresh ledgers.

  \<^bold>\<open>Not modelled.\<close> Serialisation (borsh, protobuf, JSON but for integers), hashing, signatures, bech32m,
  the WebAssembly runtime, RocksDB, the sparse Merkle tree, MASP proofs and the IBC handlers are
  external libraries; the code around them moves bytes between these and the functions above. The
  node, the client and the SDK are input and output. Of proof of stake, genesis, metadata and client queries are left out.
\<close>

end
